(* ===== verification/Kernel_Base.thy ===== *)
theory Kernel_Base
  imports Main "HOL-Library.Word"
begin

text \<open>
  The prelude of the development: the integer types of \<^verbatim>\<open>types.h\<close>, the names of the kernel
  objects that C code denotes by address (locks, sleep channels), the result type of a kernel
  routine, the sequencing operator with its inversion rules, the predicate \<open>returns\<close> (total
  correctness: the routine returns, and what it returns satisfies the postcondition), the
  little-endian codec of C integers in byte arrays, and an interface for step systems with an
  invariant.
\<close>

unbundle bit_operations_syntax

section \<open>Integer types\<close>

type_synonym u8 = "8 word"
type_synonym u16 = "16 word"
type_synonym u32 = "32 word"

lemma unat_u32_less: "unat (x :: u32) < 2 ^ 32"
proof -
  have "unat x < 2 ^ LENGTH(32)" by (rule unsigned_less)
  then show ?thesis by simp
qed

lemma unat_of_nat32: "n < 2 ^ 32 \<Longrightarrow> unat (of_nat n :: u32) = n"
  by (simp add: unat_of_nat)

lemma eq_of_unat: "unat (x :: u32) = n \<Longrightarrow> x = of_nat n"
  by (metis of_nat_unat ucast_id)

lemma sint_u32: "sint (x :: u32) = (if uint x < 2 ^ 31 then uint x else uint x - 2 ^ 32)"
proof -
  have "sint x = (uint x + 2 ^ 31) mod 2 ^ 32 - 2 ^ 31"
    by (simp add: sint_uint signed_take_bit_eq_take_bit_shift take_bit_eq_mod)
  moreover have "0 \<le> uint x" "uint x < 2 ^ 32" using uint_lt2p [of x] by simp_all
  moreover have "(u + 2 ^ 31) mod 2 ^ 32 = u + 2 ^ 31 - 2 ^ 32" if "2 ^ 31 \<le> u" "u < 2 ^ 32" for u :: int
    using that mod_pos_pos_trivial [of "u - 2 ^ 31" "2 ^ 32"] mod_add_self2 [of "u - 2 ^ 31" "2 ^ 32"] by (simp add: add.commute)
  ultimately show ?thesis by (auto simp: mod_pos_pos_trivial)
qed

lemma sint_nonneg: "0 \<le> sint (x :: u32) \<longleftrightarrow> unat x < 2 ^ 31"
proof -
  have "0 \<le> uint x" "uint x < 2 ^ 32" using uint_lt2p [of x] by simp_all
  then have "0 \<le> sint x \<longleftrightarrow> uint x < 2 ^ 31" by (simp add: sint_u32)
  also have "\<dots> \<longleftrightarrow> x < 2147483648" by (simp add: word_less_alt)
  also have "\<dots> \<longleftrightarrow> unat x < 2 ^ 31" by (simp add: word_less_nat_alt)
  finally show ?thesis .
qed

section \<open>Kernel objects known by their address\<close>

text \<open>Spinlocks, one per \<^verbatim>\<open>struct spinlock\<close> object of the kernel.\<close>

datatype lockid = LPtable | LKmem | LBcache | LIde | LLog | LIcache | LFtable
  | LPipe u32 | LCons | LInput | LTicks

text \<open>Sleep channels: the addresses the code passes to \<^verbatim>\<open>sleep\<close> and \<^verbatim>\<open>wakeup\<close>.\<close>

datatype chan = ChProc nat | ChBuf nat | ChInode nat | ChLog | ChTicks
  | ChPipeRead u32 | ChPipeWrite u32 | ChInput

section \<open>Results of kernel routines\<close>

text \<open>
  A routine either returns (\<open>Inr\<close>) or stops: it panics with the message of the source, spins
  on a lock another CPU holds, gives up the CPU (through \<^verbatim>\<open>sched\<close>, with the state it leaves
  behind), commits an access the C language leaves undefined, or loops for ever.
\<close>

datatype 's kstop = Panic string | Spin lockid | Switch 's | Fault string | Diverge

type_synonym ('s, 'a) kres = "'s kstop + 'a"

definition kbind :: "('s, 'a) kres \<Rightarrow> ('a \<Rightarrow> ('s, 'b) kres) \<Rightarrow> ('s, 'b) kres" where
  "kbind m f = (case m of Inl e \<Rightarrow> Inl e | Inr x \<Rightarrow> f x)"

definition kpanic :: "string \<Rightarrow> ('s, 'a) kres" where
  "kpanic msg = Inl (Panic msg)"

named_theorems kret \<open>inversion of a routine that returned\<close>

lemma kbind_simps [simp]:
  "kbind (Inr x) f = f x"
  "kbind (Inl e) f = Inl e"
  by (simp_all add: kbind_def)

lemma kbind_Inr [kret]: "kbind m f = Inr y \<longleftrightarrow> (\<exists>x. m = Inr x \<and> f x = Inr y)"
  by (cases m) auto

lemma kbind_assoc: "kbind (kbind m f) g = kbind m (\<lambda>x. kbind (f x) g)"
  by (cases m) simp_all

lemma kbind_Inr_right [simp]: "kbind m Inr = m"
  by (cases m) simp_all

lemma kbind_Inl: "kbind m f = Inl e \<longleftrightarrow> m = Inl e \<or> (\<exists>x. m = Inr x \<and> f x = Inl e)"
  by (cases m) auto

lemma kpanic_Inr [simp, kret]: "kpanic msg \<noteq> Inr y" "Inr y \<noteq> kpanic msg"
  by (simp_all add: kpanic_def)

lemma kbind_cong [fundef_cong]:
  "m = m' \<Longrightarrow> (\<And>x. m' = Inr x \<Longrightarrow> f x = f' x) \<Longrightarrow> kbind m f = kbind m' f'"
  by (cases m') auto

section \<open>Total correctness of one run\<close>

definition returns :: "('s, 'a) kres \<Rightarrow> ('a \<Rightarrow> bool) \<Rightarrow> bool" where
  "returns m Q \<longleftrightarrow> (\<exists>x. m = Inr x \<and> Q x)"

named_theorems wp \<open>weakest-precondition rewriting of \<open>returns\<close>\<close>

lemma returns_Inr [simp, wp]: "returns (Inr x) Q \<longleftrightarrow> Q x"
  by (simp add: returns_def)

lemma returns_Inl [simp, wp]: "\<not> returns (Inl e) Q"
  by (simp add: returns_def)

lemma returns_kpanic [simp, wp]: "\<not> returns (kpanic msg) Q"
  by (simp add: kpanic_def)

lemma returns_kbind [wp]: "returns (kbind m f) Q \<longleftrightarrow> returns m (\<lambda>x. returns (f x) Q)"
  by (cases m) auto

lemma returns_if [wp]:
  "returns (if b then m else n) Q \<longleftrightarrow> (if b then returns m Q else returns n Q)"
  by simp

lemma returns_let [wp]: "returns (let x = v in f x) Q \<longleftrightarrow> (let x = v in returns (f x) Q)"
  by simp

lemma returns_mono: "returns m Q \<Longrightarrow> (\<And>x. Q x \<Longrightarrow> R x) \<Longrightarrow> returns m R"
  by (auto simp: returns_def)

lemma returns_bindI:
  "returns m P \<Longrightarrow> (\<And>x. P x \<Longrightarrow> returns (f x) Q) \<Longrightarrow> returns (kbind m f) Q"
  by (auto simp: returns_def)

lemma returns_conj: "returns m P \<Longrightarrow> returns m Q \<Longrightarrow> returns m (\<lambda>x. P x \<and> Q x)"
  by (auto simp: returns_def)

lemma returnsE: "returns m Q \<Longrightarrow> (\<And>x. m = Inr x \<Longrightarrow> Q x \<Longrightarrow> thesis) \<Longrightarrow> thesis"
  by (auto simp: returns_def)

section \<open>Lists\<close>

lemma nth_updated [simp]:
  "i < length xs \<Longrightarrow> xs[i := x] ! j = (if j = i then x else xs ! j)"
  by (simp add: nth_list_update)

lemma take_drop_update:
  "off + length ys \<le> length xs \<Longrightarrow>
   length (take off xs @ ys @ drop (off + length ys) xs) = length xs"
  by simp

text \<open>Overwriting a run of a byte array, what \<^verbatim>\<open>memmove(a + off, src, len)\<close> does to it.\<close>

definition overwrite :: "nat \<Rightarrow> 'a list \<Rightarrow> 'a list \<Rightarrow> 'a list" where
  "overwrite off ys xs = take off xs @ ys @ drop (off + length ys) xs"

lemma length_overwrite [simp]:
  "off + length ys \<le> length xs \<Longrightarrow> length (overwrite off ys xs) = length xs"
  by (simp add: overwrite_def)

lemma take_drop_overwrite:
  "off + length ys \<le> length xs \<Longrightarrow> take (length ys) (drop off (overwrite off ys xs)) = ys"
  by (simp add: overwrite_def)

lemma nth_overwrite:
  "off + length ys \<le> length xs \<Longrightarrow> i < length xs \<Longrightarrow>
   overwrite off ys xs ! i = (if off \<le> i \<and> i < off + length ys then ys ! (i - off) else xs ! i)"
  by (auto simp: overwrite_def nth_append min_def not_less)

lemma slice_overwrite_disjoint:
  assumes "off + length ys \<le> length xs" and "o' + m \<le> off \<or> off + length ys \<le> o'"
    and "o' + m \<le> length xs"
  shows "take m (drop o' (overwrite off ys xs)) = take m (drop o' xs)"
  by (rule nth_equalityI) (use assms in \<open>auto simp: nth_overwrite\<close>)

lemma overwrite_whole: "length ys = length xs \<Longrightarrow> overwrite 0 ys xs = ys"
  by (simp add: overwrite_def)

section \<open>Little-endian integers in byte arrays\<close>

definition le32 :: "u32 \<Rightarrow> u8 list" where
  "le32 x = [ucast x, ucast (drop_bit 8 x), ucast (drop_bit 16 x), ucast (drop_bit 24 x)]"

definition of_le32 :: "u8 list \<Rightarrow> u32" where
  "of_le32 bs = ucast (bs ! 0) OR push_bit 8 (ucast (bs ! 1))
     OR push_bit 16 (ucast (bs ! 2)) OR push_bit 24 (ucast (bs ! 3))"

definition le16 :: "u16 \<Rightarrow> u8 list" where
  "le16 x = [ucast x, ucast (drop_bit 8 x)]"

definition of_le16 :: "u8 list \<Rightarrow> u16" where
  "of_le16 bs = ucast (bs ! 0) OR push_bit 8 (ucast (bs ! 1))"

lemma length_le32 [simp]: "length (le32 x) = 4"
  by (simp add: le32_def)

lemma length_le16 [simp]: "length (le16 x) = 2"
  by (simp add: le16_def)

lemma of_le32_le32 [simp]: "of_le32 (le32 x) = x"
  apply (rule bit_word_eqI)
  subgoal for n
    by (cases "24 \<le> n"; cases "16 \<le> n") (auto simp: of_le32_def le32_def bit_simps)
  done

lemma of_le16_le16 [simp]: "of_le16 (le16 x) = x"
  unfolding of_le16_def le16_def
  by (rule bit_word_eqI) (auto simp: bit_simps)

text \<open>A C array access \<^verbatim>\<open>((uint*)data)[i]\<close>.\<close>

definition get32 :: "u8 list \<Rightarrow> nat \<Rightarrow> u32" where
  "get32 bs i = of_le32 (take 4 (drop (4 * i) bs))"

definition put32 :: "u8 list \<Rightarrow> nat \<Rightarrow> u32 \<Rightarrow> u8 list" where
  "put32 bs i x = overwrite (4 * i) (le32 x) bs"

lemma length_put32 [simp]: "4 * i + 4 \<le> length bs \<Longrightarrow> length (put32 bs i x) = length bs"
  by (simp add: put32_def)

lemma get32_put32_same [simp]: "4 * i + 4 \<le> length bs \<Longrightarrow> get32 (put32 bs i x) i = x"
  using take_drop_overwrite [of "4 * i" "le32 x" bs]
  by (simp add: get32_def put32_def)

lemma get32_put32_other [simp]:
  assumes "4 * i + 4 \<le> length bs" and "4 * j + 4 \<le> length bs" and "i \<noteq> j"
  shows "get32 (put32 bs i x) j = get32 bs j"
proof -
  have "4 * j + 4 \<le> 4 * i \<or> 4 * i + length (le32 x) \<le> 4 * j" using assms by auto
  then show ?thesis
    using assms slice_overwrite_disjoint [of "4 * i" "le32 x" bs "4 * j" 4]
    by (simp add: get32_def put32_def)
qed

section \<open>Step systems with an invariant\<close>

text \<open>
  The interface every state machine of the development is read through: initial states, a step
  relation, and a predicate that holds initially and is kept by every step. What it gives is
  that the predicate holds in every reachable state.
\<close>

inductive reach :: "('s \<Rightarrow> bool) \<Rightarrow> ('s \<Rightarrow> 's \<Rightarrow> bool) \<Rightarrow> 's \<Rightarrow> bool"
  for init :: "'s \<Rightarrow> bool" and step :: "'s \<Rightarrow> 's \<Rightarrow> bool"
where
  reach_init: "init s \<Longrightarrow> reach init step s"
| reach_step: "reach init step s \<Longrightarrow> step s t \<Longrightarrow> reach init step t"

locale step_system =
  fixes init :: "'s \<Rightarrow> bool" and step :: "'s \<Rightarrow> 's \<Rightarrow> bool" and inv :: "'s \<Rightarrow> bool"
  assumes init_inv: "init s \<Longrightarrow> inv s"
    and step_inv: "inv s \<Longrightarrow> step s t \<Longrightarrow> inv t"
begin

lemma reach_inv: "reach init step s \<Longrightarrow> inv s"
  by (induction rule: reach.induct) (auto intro: init_inv step_inv)

lemma run_inv: "inv s \<Longrightarrow> step\<^sup>*\<^sup>* s t \<Longrightarrow> inv t"
  by (rotate_tac, induction rule: rtranclp_induct) (auto intro: step_inv)

end

end
