(* ===== verification/Spinlock.thy ===== *)
theory Spinlock
  imports Kernel_Base "HOL-Library.Multiset"
begin

text \<open>
  Mutual exclusion (\<^verbatim>\<open>spinlock.c\<close>). The part of the machine state it works on is the record
  \<open>mach\<close>: the spinlocks, the running CPU's \<^verbatim>\<open>struct cpu\<close> and its interrupt flag. Every other
  component's state extends this record, so that \<open>acquire\<close> and \<open>release\<close> apply to it as
  they are. The fields \<^verbatim>\<open>name\<close> and \<^verbatim>\<open>pcs\<close> of \<^verbatim>\<open>struct spinlock\<close>, which only a debugger
  reads, are left out.

  First come the routines as one CPU runs them (a lock another CPU holds makes \<open>acquire\<close>
  spin), with the nesting discipline of \<open>pushcli\<close>/\<open>popcli\<close>; then several CPUs that run the
  two routines one instruction at a time, interleaved in any order, and mutual exclusion.
\<close>

section \<open>State\<close>

record spinlock =
  locked :: u32
  holder :: "nat option"

record cpu =
  cpu_id :: nat
  ncli :: int
  intena :: bool

record mach =
  locks :: "lockid \<Rightarrow> spinlock"
  cpu :: cpu
  IF :: bool

section \<open>Routines\<close>

definition initlock :: "lockid \<Rightarrow> 'a mach_scheme \<Rightarrow> 'a mach_scheme" where
  "initlock lk s = s\<lparr>locks := (locks s)(lk := \<lparr>locked = 0, holder = None\<rparr>)\<rparr>"

definition holding :: "lockid \<Rightarrow> 'a mach_scheme \<Rightarrow> bool" where
  "holding lk s \<longleftrightarrow> locked (locks s lk) \<noteq> 0 \<and> holder (locks s lk) = Some (cpu_id (cpu s))"

definition pushcli :: "'a mach_scheme \<Rightarrow> 'a mach_scheme" where
  "pushcli s =
     (let eflags = IF s; s = s\<lparr>IF := False\<rparr>;
          s1 = s\<lparr>cpu := (cpu s)\<lparr>ncli := ncli (cpu s) + 1\<rparr>\<rparr>
      in if ncli (cpu s) = 0 then s1\<lparr>cpu := (cpu s1)\<lparr>intena := eflags\<rparr>\<rparr> else s1)"

definition popcli :: "'a mach_scheme \<Rightarrow> ('a mach_scheme, 'a mach_scheme) kres" where
  "popcli s =
     (if IF s then kpanic ''popcli - interruptible''
      else let s = s\<lparr>cpu := (cpu s)\<lparr>ncli := ncli (cpu s) - 1\<rparr>\<rparr>
           in if ncli (cpu s) < 0 then kpanic ''popcli''
              else if ncli (cpu s) = 0 \<and> intena (cpu s) then Inr (s\<lparr>IF := True\<rparr>)
              else Inr s)"

definition acquire :: "lockid \<Rightarrow> 'a mach_scheme \<Rightarrow> ('a mach_scheme, 'a mach_scheme) kres" where
  "acquire lk s =
     (let s = pushcli s
      in if holding lk s then kpanic ''acquire''
         else if locked (locks s lk) \<noteq> 0 then Inl (Spin lk)
         else Inr (s\<lparr>locks := (locks s)(lk := \<lparr>locked = 1, holder = Some (cpu_id (cpu s))\<rparr>)\<rparr>))"

definition release :: "lockid \<Rightarrow> 'a mach_scheme \<Rightarrow> ('a mach_scheme, 'a mach_scheme) kres" where
  "release lk s =
     (if \<not> holding lk s then kpanic ''release''
      else popcli (s\<lparr>locks := (locks s)(lk := \<lparr>locked = 0, holder = None\<rparr>)\<rparr>))"

section \<open>The nesting discipline\<close>

text \<open>
  \<open>lockset L s\<close>: this CPU holds exactly the locks \<open>L\<close>, no other CPU holds one, the nesting
  depth counts them, and interrupts are off while the depth is positive.
\<close>

definition lockset :: "lockid list \<Rightarrow> 'a mach_scheme \<Rightarrow> bool" where
  "lockset L s \<longleftrightarrow> distinct L \<and> ncli (cpu s) = int (length L) \<and> (L \<noteq> [] \<longrightarrow> \<not> IF s) \<and>
     (\<forall>lk. locks s lk = (if lk \<in> set L then \<lparr>locked = 1, holder = Some (cpu_id (cpu s))\<rparr>
                         else \<lparr>locked = 0, holder = None\<rparr>))"

text \<open>The states \<open>acquire\<close> and \<open>release\<close> lead to when they return.\<close>

definition acq :: "lockid \<Rightarrow> 'a mach_scheme \<Rightarrow> 'a mach_scheme" where
  "acq lk s = (pushcli s)\<lparr>locks := (locks s)(lk := \<lparr>locked = 1, holder = Some (cpu_id (cpu s))\<rparr>)\<rparr>"

definition rel :: "lockid \<Rightarrow> 'a mach_scheme \<Rightarrow> 'a mach_scheme" where
  "rel lk s = s\<lparr>locks := (locks s)(lk := \<lparr>locked = 0, holder = None\<rparr>),
     cpu := (cpu s)\<lparr>ncli := ncli (cpu s) - 1\<rparr>, IF := (ncli (cpu s) = 1 \<and> intena (cpu s))\<rparr>"

lemma pushcli_frame [simp]:
  "locks (pushcli s) = locks s" "cpu_id (cpu (pushcli s)) = cpu_id (cpu s)"
  "ncli (cpu (pushcli s)) = ncli (cpu s) + 1" "\<not> IF (pushcli s)"
  "mach.more (pushcli s) = mach.more s"
  by (simp_all add: pushcli_def Let_def)

lemma acq_frame [simp]:
  "cpu_id (cpu (acq lk s)) = cpu_id (cpu s)" "ncli (cpu (acq lk s)) = ncli (cpu s) + 1"
  "\<not> IF (acq lk s)" "mach.more (acq lk s) = mach.more s"
  by (simp_all add: acq_def)

lemma rel_frame [simp]:
  "cpu_id (cpu (rel lk s)) = cpu_id (cpu s)" "mach.more (rel lk s) = mach.more s"
  by (simp_all add: rel_def)

lemma acquire_acq:
  assumes "lockset L s" and "lk \<notin> set L"
  shows "acquire lk s = Inr (acq lk s)" and "lockset (lk # L) (acq lk s)"
  using assms by (auto simp: acquire_def acq_def lockset_def holding_def Let_def)

lemma release_rel:
  assumes "lockset (lk # L) s"
  shows "release lk s = Inr (rel lk s)" and "lockset L (rel lk s)"
  using assms
  by (auto simp: release_def rel_def lockset_def holding_def popcli_def Let_def)

lemma acquire_held_panics: "lockset L s \<Longrightarrow> lk \<in> set L \<Longrightarrow> acquire lk s = kpanic ''acquire''"
  by (auto simp: acquire_def lockset_def holding_def Let_def)

lemma release_free_panics: "lockset L s \<Longrightarrow> lk \<notin> set L \<Longrightarrow> release lk s = kpanic ''release''"
  by (auto simp: release_def lockset_def holding_def)

lemma lockset_perm:
  assumes "mset L = mset L'" shows "lockset L s = lockset L' s"
proof -
  from assms have "set L = set L'" "length L = length L'" "distinct L = distinct L'"
    by (auto dest: mset_eq_setD mset_eq_length mset_eq_imp_distinct_iff)
  then show ?thesis by (auto simp: lockset_def)
qed

lemma release_any:
  assumes "lockset L s" and "lk \<in> set L"
  shows "release lk s = Inr (rel lk s)" and "lockset (remove1 lk L) (rel lk s)"
proof -
  have "lockset (lk # remove1 lk L) s" using assms by (subst lockset_perm [of _ L]) auto
  then show "release lk s = Inr (rel lk s)" "lockset (remove1 lk L) (rel lk s)" by (auto intro: release_rel)
qed

fun acquire_all :: "lockid list \<Rightarrow> 'a mach_scheme \<Rightarrow> ('a mach_scheme, 'a mach_scheme) kres" where
  "acquire_all [] s = Inr s"
| "acquire_all (lk # L) s = kbind (acquire lk s) (acquire_all L)"

fun release_all :: "lockid list \<Rightarrow> 'a mach_scheme \<Rightarrow> ('a mach_scheme, 'a mach_scheme) kres" where
  "release_all [] s = Inr s"
| "release_all (lk # L) s = kbind (release lk s) (release_all L)"

lemma acquire_all_lockset:
  "lockset H s \<Longrightarrow> distinct (L @ H) \<Longrightarrow> returns (acquire_all L s) (\<lambda>t.
     lockset (rev L @ H) t \<and> mach.more t = mach.more s \<and> cpu_id (cpu t) = cpu_id (cpu s) \<and>
     intena (cpu t) = (if H = [] \<and> L \<noteq> [] then IF s else intena (cpu s)))"
proof (induction L arbitrary: H s)
  case Nil
  then show ?case by simp
next
  case (Cons lk L)
  have a: "acquire lk s = Inr (acq lk s)" "lockset (lk # H) (acq lk s)"
    using Cons.prems by (auto intro!: acquire_acq)
  have i: "intena (cpu (acq lk s)) = (if H = [] then IF s else intena (cpu s))"
    using Cons.prems(1) by (auto simp: acq_def pushcli_def lockset_def Let_def)
  show ?case
    using Cons.IH [OF a(2)] Cons.prems by (auto simp: a(1) i elim!: returns_mono)
qed

lemma release_all_lockset:
  "lockset H s \<Longrightarrow> mset L = mset H \<Longrightarrow> returns (release_all L s) (\<lambda>t.
     lockset [] t \<and> mach.more t = mach.more s \<and> cpu_id (cpu t) = cpu_id (cpu s) \<and>
     IF t = (if H = [] then IF s else intena (cpu s)))"
proof (induction L arbitrary: H s)
  case Nil
  then show ?case by simp
next
  case (Cons lk L)
  have r: "release lk s = Inr (rel lk s)" "lockset L (rel lk s)"
    using Cons.prems lockset_perm [of "lk # L" H s] by (auto intro!: release_rel [of lk L s])
  have n: "H \<noteq> []" "ncli (cpu s) = int (length H)" "length H = Suc (length L)"
    using Cons.prems mset_eq_length [OF Cons.prems(2)] by (auto simp: lockset_def)
  have i: "intena (cpu (rel lk s)) = intena (cpu s)"
    "L = [] \<longrightarrow> IF (rel lk s) = intena (cpu s)"
    using n by (auto simp: rel_def)
  show ?case
    using Cons.IH [OF r(2) refl] n i by (auto simp: r(1) elim!: returns_mono split: if_splits)
qed

section \<open>Several CPUs\<close>

text \<open>
  The same two routines as a set of CPUs run them on one lock, one access to the lock at a time.
  A CPU's position: outside; in \<^verbatim>\<open>acquire\<close>'s loop on \<^verbatim>\<open>xchg\<close>; past the loop and about to
  write \<^verbatim>\<open>lk->cpu\<close>; in the critical section; in \<^verbatim>\<open>release\<close>, between \<^verbatim>\<open>lk->cpu = 0\<close>
  and the final \<^verbatim>\<open>xchg\<close>. \<open>Panicked\<close> is where the two checks of \<^verbatim>\<open>holding\<close> lead.
\<close>

datatype lock_pc = Outside | Spinning | Got | Critical | Clearing | Panicked

record smp =
  slock :: spinlock
  pcs :: "nat \<Rightarrow> lock_pc"

definition smp_holding :: "nat \<Rightarrow> smp \<Rightarrow> bool" where
  "smp_holding c s \<longleftrightarrow> locked (slock s) \<noteq> 0 \<and> holder (slock s) = Some c"

inductive smp_step :: "smp \<Rightarrow> smp \<Rightarrow> bool" where
  acquire_panic: "pcs s c = Outside \<Longrightarrow> smp_holding c s \<Longrightarrow>
     smp_step s (s\<lparr>pcs := (pcs s)(c := Panicked)\<rparr>)"
| acquire_enter: "pcs s c = Outside \<Longrightarrow> \<not> smp_holding c s \<Longrightarrow>
     smp_step s (s\<lparr>pcs := (pcs s)(c := Spinning)\<rparr>)"
| acquire_xchg_busy: "pcs s c = Spinning \<Longrightarrow> locked (slock s) \<noteq> 0 \<Longrightarrow>
     smp_step s (s\<lparr>slock := (slock s)\<lparr>locked := 1\<rparr>\<rparr>)"
| acquire_xchg_free: "pcs s c = Spinning \<Longrightarrow> locked (slock s) = 0 \<Longrightarrow>
     smp_step s (s\<lparr>slock := (slock s)\<lparr>locked := 1\<rparr>, pcs := (pcs s)(c := Got)\<rparr>)"
| acquire_record: "pcs s c = Got \<Longrightarrow>
     smp_step s (s\<lparr>slock := (slock s)\<lparr>holder := Some c\<rparr>, pcs := (pcs s)(c := Critical)\<rparr>)"
| release_panic: "pcs s c = Critical \<Longrightarrow> \<not> smp_holding c s \<Longrightarrow>
     smp_step s (s\<lparr>pcs := (pcs s)(c := Panicked)\<rparr>)"
| release_clear: "pcs s c = Critical \<Longrightarrow> smp_holding c s \<Longrightarrow>
     smp_step s (s\<lparr>slock := (slock s)\<lparr>holder := None\<rparr>, pcs := (pcs s)(c := Clearing)\<rparr>)"
| release_xchg: "pcs s c = Clearing \<Longrightarrow>
     smp_step s (s\<lparr>slock := (slock s)\<lparr>locked := 0\<rparr>, pcs := (pcs s)(c := Outside)\<rparr>)"

definition smp_init :: "smp \<Rightarrow> bool" where
  "smp_init s \<longleftrightarrow> slock s = \<lparr>locked = 0, holder = None\<rparr> \<and> pcs s = (\<lambda>_. Outside)"

definition smp_owner :: "smp \<Rightarrow> nat \<Rightarrow> bool" where
  "smp_owner s c \<longleftrightarrow> pcs s c \<in> {Got, Critical, Clearing}"

text \<open>The invariant names the CPU, if any, that is past the loop and has not let go yet.\<close>

definition smp_owned :: "smp \<Rightarrow> nat option \<Rightarrow> bool" where
  "smp_owned s w \<longleftrightarrow> (\<forall>c. smp_owner s c = (w = Some c)) \<and> (locked (slock s) = 0) = (w = None) \<and>
     holder (slock s) = (case w of None \<Rightarrow> None | Some c \<Rightarrow> if pcs s c = Critical then Some c else None)"

definition smp_inv :: "smp \<Rightarrow> bool" where
  "smp_inv s \<longleftrightarrow> (\<forall>c. pcs s c \<noteq> Panicked) \<and> (\<exists>w. smp_owned s w)"

lemma smp_init_inv: "smp_init s \<Longrightarrow> smp_inv s"
  by (auto simp: smp_init_def smp_inv_def smp_owned_def smp_owner_def intro!: exI [of _ None])

lemma smp_step_inv:
  assumes "smp_inv s" and "smp_step s t"
  shows "smp_inv t"
proof -
  from assms(1) obtain w where w: "smp_owned s w" and np: "\<forall>c. pcs s c \<noteq> Panicked"
    by (auto simp: smp_inv_def)
  have own: "\<And>c. smp_owner s c = (w = Some c)" using w by (simp add: smp_owned_def)
  note defs = smp_inv_def smp_owned_def smp_owner_def smp_holding_def
  from assms(2) show ?thesis
  proof cases
    case (acquire_panic c)
    with w own [of c] show ?thesis by (auto simp: defs split: option.splits if_splits)
  next
    case (acquire_enter c)
    with w np own [of c] have "smp_owned t w"
      by (auto simp: defs split: option.splits if_splits)
    with np acquire_enter show ?thesis by (auto simp: smp_inv_def)
  next
    case (acquire_xchg_busy c)
    with w np have "smp_owned t w" by (auto simp: defs)
    with np acquire_xchg_busy show ?thesis by (auto simp: smp_inv_def)
  next
    case (acquire_xchg_free c)
    with w np have "smp_owned t (Some c)" by (auto simp: defs)
    with np acquire_xchg_free show ?thesis by (auto simp: smp_inv_def)
  next
    case (acquire_record c)
    with w own [of c] have "smp_owned t (Some c)" by (auto simp: defs)
    with np acquire_record show ?thesis by (auto simp: smp_inv_def)
  next
    case (release_panic c)
    with w own [of c] show ?thesis by (auto simp: defs)
  next
    case (release_clear c)
    with w own [of c] have "smp_owned t (Some c)" by (auto simp: defs)
    with np release_clear show ?thesis by (auto simp: smp_inv_def)
  next
    case (release_xchg c)
    with w own [of c] have "smp_owned t None" by (auto simp: defs)
    with np release_xchg show ?thesis by (auto simp: smp_inv_def)
  qed
qed

interpretation smp: step_system smp_init smp_step smp_inv
  by unfold_locales (fact smp_init_inv smp_step_inv)+

section \<open>Properties\<close>

text \<open>C3: for every interleaving of the lock's atomic accesses by any number of CPUs, starting
  from a free lock, no two CPUs are in the critical section at once, a CPU in it is the one
  recorded as the holder of a locked lock, and neither check on \<^verbatim>\<open>holding\<close> panics.\<close>

theorem spinlock_mutual_exclusion:
  assumes "reach smp_init smp_step s"
  shows "(\<forall>c d. pcs s c = Critical \<and> pcs s d = Critical \<longrightarrow> c = d) \<and>
    (\<forall>c. pcs s c = Critical \<longrightarrow> smp_holding c s) \<and> (\<forall>c. pcs s c \<noteq> Panicked)"
proof -
  from smp.reach_inv [OF assms] obtain w where w: "smp_owned s w" and np: "\<forall>c. pcs s c \<noteq> Panicked"
    by (auto simp: smp_inv_def)
  have own: "pcs s c = Critical \<Longrightarrow> w = Some c" for c
    using w by (auto simp: smp_owned_def smp_owner_def)
  with w np show ?thesis by (auto simp: smp_owned_def smp_holding_def dest!: own)
qed

theorem spinlock_mutual_exclusion_witness:
  "\<exists>s. reach smp_init smp_step s \<and> pcs s 1 = Critical \<and> pcs s 2 = Spinning \<and> smp_holding 1 s"
proof -
  let ?s0 = "\<lparr>slock = \<lparr>locked = 0, holder = None\<rparr>, pcs = \<lambda>_. Outside\<rparr>"
  let ?s1 = "?s0\<lparr>pcs := (pcs ?s0)(1 := Spinning)\<rparr>"
  let ?s2 = "?s1\<lparr>pcs := (pcs ?s1)(2 := Spinning)\<rparr>"
  let ?s3 = "?s2\<lparr>slock := (slock ?s2)\<lparr>locked := 1\<rparr>, pcs := (pcs ?s2)(1 := Got)\<rparr>"
  let ?s4 = "?s3\<lparr>slock := (slock ?s3)\<lparr>holder := Some 1\<rparr>, pcs := (pcs ?s3)(1 := Critical)\<rparr>"
  have "reach smp_init smp_step ?s0" by (rule reach_init) (simp add: smp_init_def)
  moreover have "smp_step ?s0 ?s1" by (rule acquire_enter) (simp_all add: smp_holding_def)
  moreover have "smp_step ?s1 ?s2" by (rule acquire_enter) (simp_all add: smp_holding_def)
  moreover have "smp_step ?s2 ?s3" by (rule acquire_xchg_free) simp_all
  moreover have "smp_step ?s3 ?s4" by (rule acquire_record) simp
  ultimately have r: "reach smp_init smp_step ?s4" by (blast intro: reach_step)
  moreover have "smp_holding 1 ?s4" using spinlock_mutual_exclusion [OF r] by simp
  ultimately show ?thesis by (intro exI [of _ ?s4]) simp
qed

text \<open>C23: a CPU that holds no lock can take any list of distinct free locks and release them in
  any order: none of the panics is reached, it then holds no lock, the interrupt flag is what it
  was at the start, and while the locks were held interrupts were off.\<close>

theorem nested_locks_restore_interrupts:
  assumes "lockset [] s" and "distinct L" and "mset L' = mset L" and "L \<noteq> []"
  shows "returns (acquire_all L s) (\<lambda>t. \<not> IF t \<and> (\<forall>lk\<in>set L. holding lk t) \<and>
     returns (release_all L' t) (\<lambda>u. lockset [] u \<and> IF u = IF s \<and> mach.more u = mach.more s))"
proof (rule returns_mono [OF acquire_all_lockset [OF assms(1), of L]])
  show "distinct (L @ [])" using assms(2) by simp
  fix t
  assume t: "lockset (rev L @ []) t \<and> mach.more t = mach.more s \<and> cpu_id (cpu t) = cpu_id (cpu s) \<and>
    intena (cpu t) = (if [] = [] \<and> L \<noteq> [] then IF s else intena (cpu s))"
  then have l: "lockset (rev L) t" by simp
  have "returns (release_all L' t) (\<lambda>u. lockset [] u \<and> IF u = IF s \<and> mach.more u = mach.more s)"
    by (rule returns_mono [OF release_all_lockset [OF l]]) (use assms t in auto)
  moreover have "\<not> IF t \<and> (\<forall>lk\<in>set L. holding lk t)"
    using l assms(4) by (auto simp: lockset_def holding_def)
  ultimately show "\<not> IF t \<and> (\<forall>lk\<in>set L. holding lk t) \<and>
     returns (release_all L' t) (\<lambda>u. lockset [] u \<and> IF u = IF s \<and> mach.more u = mach.more s)" by simp
qed

theorem nested_locks_restore_interrupts_witness:
  "\<exists>s :: mach. IF s \<and> returns (acquire_all [LLog, LPtable] s) (\<lambda>t. \<not> IF t \<and> (\<forall>lk\<in>set [LLog, LPtable]. holding lk t) \<and>
     returns (release_all [LLog, LPtable] t) (\<lambda>u. lockset [] u \<and> IF u = IF s \<and> mach.more u = mach.more s))"
proof -
  let ?s = "\<lparr>locks = \<lambda>_. \<lparr>locked = 0, holder = None\<rparr>, cpu = \<lparr>cpu_id = 0, ncli = 0, intena = False\<rparr>, IF = True\<rparr>"
  have "lockset [] ?s" by (simp add: lockset_def)
  then have "returns (acquire_all [LLog, LPtable] ?s) (\<lambda>t. \<not> IF t \<and> (\<forall>lk\<in>set [LLog, LPtable]. holding lk t) \<and>
     returns (release_all [LLog, LPtable] t) (\<lambda>u. lockset [] u \<and> IF u = IF ?s \<and> mach.more u = mach.more ?s))"
    by (intro nested_locks_restore_interrupts) simp_all
  then show ?thesis by (intro exI [of _ ?s] conjI) simp_all
qed

end
