(* ===== verification/Cstring.thy ===== *)
theory Cstring
  imports Kernel_Base "HOL-Library.Signed_Division"
begin

text \<open>
  The byte and string routines: \<^verbatim>\<open>string.c\<close> of the kernel, \<^verbatim>\<open>ulib.c\<close> of the user library,
  and the two string-store instructions of \<^verbatim>\<open>x86.h\<close> they use. Routines that write memory
  work on the byte store \<open>mem\<close>, with addresses that wrap at 32 bits. Routines that only read
  take a pointer as the bytes found from it on, a function of the offset; routines that fill a
  character array give the list of bytes they write, from the start of the array on.
\<close>

type_synonym mem = "u32 \<Rightarrow> u8"

section \<open>Loads, stores and string stores\<close>

definition load32 :: "mem \<Rightarrow> u32 \<Rightarrow> u32" where
  "load32 m a = of_le32 [m a, m (a + 1), m (a + 2), m (a + 3)]"

definition store32 :: "u32 \<Rightarrow> u32 \<Rightarrow> mem \<Rightarrow> mem" where
  "store32 a x m = m(a := le32 x ! 0, a + 1 := le32 x ! 1, a + 2 := le32 x ! 2, a + 3 := le32 x ! 3)"

fun stosb :: "u32 \<Rightarrow> u8 \<Rightarrow> nat \<Rightarrow> mem \<Rightarrow> mem" where
  "stosb a c 0 m = m"
| "stosb a c (Suc n) m = stosb (a + 1) c n (m(a := c))"

fun stosl :: "u32 \<Rightarrow> u32 \<Rightarrow> nat \<Rightarrow> mem \<Rightarrow> mem" where
  "stosl a d 0 m = m"
| "stosl a d (Suc n) m = stosl (a + 4) d n (store32 a d m)"

section \<open>\<^verbatim>\<open>string.c\<close>\<close>

definition memset :: "u32 \<Rightarrow> u32 \<Rightarrow> u32 \<Rightarrow> mem \<Rightarrow> mem" where
  "memset dst c n m =
     (if sint dst smod 4 = 0 \<and> n mod 4 = 0
      then let c = c AND 0xFF
           in stosl dst (push_bit 24 c OR push_bit 16 c OR push_bit 8 c OR c) (unat (n div 4)) m
      else stosb dst (ucast c) (unat n) m)"

fun memcmp :: "(nat \<Rightarrow> u8) \<Rightarrow> (nat \<Rightarrow> u8) \<Rightarrow> nat \<Rightarrow> int" where
  "memcmp s1 s2 0 = 0"
| "memcmp s1 s2 (Suc n) =
     (if s1 0 \<noteq> s2 0 then uint (s1 0) - uint (s2 0)
      else memcmp (\<lambda>i. s1 (Suc i)) (\<lambda>i. s2 (Suc i)) n)"

fun copy_up :: "u32 \<Rightarrow> u32 \<Rightarrow> nat \<Rightarrow> mem \<Rightarrow> mem" where
  "copy_up d s 0 m = m"
| "copy_up d s (Suc n) m = copy_up (d + 1) (s + 1) n (m(d := m s))"

fun copy_down :: "u32 \<Rightarrow> u32 \<Rightarrow> nat \<Rightarrow> mem \<Rightarrow> mem" where
  "copy_down d s 0 m = m"
| "copy_down d s (Suc n) m = copy_down (d - 1) (s - 1) n (m(d - 1 := m (s - 1)))"

definition memmove :: "u32 \<Rightarrow> u32 \<Rightarrow> u32 \<Rightarrow> mem \<Rightarrow> mem" where
  "memmove dst src n m =
     (if src < dst \<and> src + n > dst then copy_down (dst + n) (src + n) (unat n) m
      else copy_up dst src (unat n) m)"

definition memcpy :: "u32 \<Rightarrow> u32 \<Rightarrow> u32 \<Rightarrow> mem \<Rightarrow> mem" where
  "memcpy dst src n m = memmove dst src n m"

fun strncmp :: "(nat \<Rightarrow> u8) \<Rightarrow> (nat \<Rightarrow> u8) \<Rightarrow> nat \<Rightarrow> int" where
  "strncmp p q 0 = 0"
| "strncmp p q (Suc n) =
     (if p 0 \<noteq> 0 \<and> p 0 = q 0 then strncmp (\<lambda>i. p (Suc i)) (\<lambda>i. q (Suc i)) n
      else uint (p 0) - uint (q 0))"

fun strncpy :: "(nat \<Rightarrow> u8) \<Rightarrow> nat \<Rightarrow> u8 list" where
  "strncpy t 0 = []"
| "strncpy t (Suc n) =
     (if t 0 \<noteq> 0 then t 0 # strncpy (\<lambda>i. t (Suc i)) n else t 0 # replicate n 0)"

text \<open>\<^verbatim>\<open>safestrcpy\<close>: nothing is written when the size is not positive; \<open>safestrcpy_loop\<close> is
  its loop with the decremented size, then the terminating NUL.\<close>

fun safestrcpy_loop :: "(nat \<Rightarrow> u8) \<Rightarrow> nat \<Rightarrow> u8 list" where
  "safestrcpy_loop t 0 = [0]"
| "safestrcpy_loop t (Suc n) =
     (if t 0 \<noteq> 0 then t 0 # safestrcpy_loop (\<lambda>i. t (Suc i)) n else [t 0, 0])"

definition safestrcpy :: "(nat \<Rightarrow> u8) \<Rightarrow> int \<Rightarrow> u8 list" where
  "safestrcpy t n = (if n \<le> 0 then [] else safestrcpy_loop t (nat (n - 1)))"

text \<open>\<^verbatim>\<open>strlen\<close> scans until it meets a NUL; with none in reach it does not return.\<close>

partial_function (option) strlen_from :: "(nat \<Rightarrow> u8) \<Rightarrow> nat \<Rightarrow> nat option" where
  "strlen_from s n = (if s n \<noteq> 0 then strlen_from s (Suc n) else Some n)"

definition strlen :: "(nat \<Rightarrow> u8) \<Rightarrow> nat option" where
  "strlen s = strlen_from s 0"

text \<open>The characters at the address of a C string: those of the list, then NULs.\<close>

definition cstr :: "u8 list \<Rightarrow> nat \<Rightarrow> u8" where
  "cstr cs i = (if i < length cs then cs ! i else 0)"

section \<open>\<^verbatim>\<open>ulib.c\<close>\<close>

partial_function (option) strcpy :: "(nat \<Rightarrow> u8) \<Rightarrow> u8 list option" where
  "strcpy t = (if t 0 \<noteq> 0 then Option.bind (strcpy (\<lambda>i. t (Suc i))) (\<lambda>r. Some (t 0 # r))
               else Some [t 0])"

partial_function (option) strcmp :: "(nat \<Rightarrow> u8) \<Rightarrow> (nat \<Rightarrow> u8) \<Rightarrow> int option" where
  "strcmp p q = (if p 0 \<noteq> 0 \<and> p 0 = q 0 then strcmp (\<lambda>i. p (Suc i)) (\<lambda>i. q (Suc i))
                 else Some (uint (p 0) - uint (q 0)))"

definition u_memset :: "u32 \<Rightarrow> u32 \<Rightarrow> u32 \<Rightarrow> mem \<Rightarrow> mem" where
  "u_memset dst c n m = stosb dst (ucast c) (unat n) m"

text \<open>\<^verbatim>\<open>strchr\<close> gives the offset of the first occurrence, or no pointer.\<close>

partial_function (option) strchr_from :: "(nat \<Rightarrow> u8) \<Rightarrow> u8 \<Rightarrow> nat \<Rightarrow> nat option option" where
  "strchr_from s c n = (if s n = 0 then Some None
                        else if s n = c then Some (Some n) else strchr_from s c (Suc n))"

definition strchr :: "(nat \<Rightarrow> u8) \<Rightarrow> u8 \<Rightarrow> nat option option" where
  "strchr s c = strchr_from s c 0"

text \<open>\<^verbatim>\<open>atoi\<close> with the 32-bit wrap-around of \<^verbatim>\<open>n*10 + *s++ - '0'\<close>; \<^verbatim>\<open>char\<close> is signed, so
  the bytes above 127 are below \<^verbatim>\<open>'0'\<close>.\<close>

partial_function (option) atoi_from :: "(nat \<Rightarrow> u8) \<Rightarrow> u32 \<Rightarrow> u32 option" where
  "atoi_from s n =
     (if 48 \<le> sint (s 0) \<and> sint (s 0) \<le> 57
      then atoi_from (\<lambda>i. s (Suc i)) (n * 10 + scast (s 0) - 48) else Some n)"

definition atoi :: "(nat \<Rightarrow> u8) \<Rightarrow> u32 option" where
  "atoi s = atoi_from s 0"

definition u_memmove :: "u32 \<Rightarrow> u32 \<Rightarrow> int \<Rightarrow> mem \<Rightarrow> mem" where
  "u_memmove vdst vsrc n m = copy_up vdst vsrc (nat n) m"

text \<open>\<^verbatim>\<open>gets\<close>: \<open>inp\<close> are the results of the successive calls \<^verbatim>\<open>read(0, &c, 1)\<close>, a byte or a
  count below 1; the result is what is stored in \<^verbatim>\<open>buf\<close> and the calls left over.\<close>

fun gets_loop :: "u8 option list \<Rightarrow> nat \<Rightarrow> u8 list \<times> u8 option list" where
  "gets_loop inp 0 = ([0], inp)"
| "gets_loop [] (Suc k) = ([0], [])"
| "gets_loop (None # inp) (Suc k) = ([0], inp)"
| "gets_loop (Some c # inp) (Suc k) =
     (if c = 10 \<or> c = 13 then ([c, 0], inp)
      else let (r, rest) = gets_loop inp k in (c # r, rest))"

definition gets :: "u8 option list \<Rightarrow> int \<Rightarrow> u8 list \<times> u8 option list" where
  "gets inp mx = gets_loop inp (nat (mx - 1))"

section \<open>Stores\<close>

text \<open>An address lies in the run of \<open>n\<close> bytes from \<open>a\<close> when its distance from \<open>a\<close>,
  taken with the wrap-around, is below \<open>n\<close>.\<close>

lemma unat_minus_one_less: "y \<noteq> (0 :: u32) \<Longrightarrow> unat (y - 1) < n \<longleftrightarrow> unat y < Suc n"
  using unat_minus_one [of y] unat_gt_0 [of y] by auto

lemma run_Suc: "unat (x - a) < Suc n \<longleftrightarrow> x = a \<or> unat (x - (a + 1)) < n" for x :: u32
proof (cases "x = a")
  case False
  then have "x - a \<noteq> 0" by simp
  moreover have "x - (a + 1) = x - a - 1" by simp
  ultimately show ?thesis using unat_minus_one_less [of "x - a" n] False by (simp only:) simp
qed simp

lemma stosb_eq: "stosb a c n m = (\<lambda>x. if unat (x - a) < n then c else m x)"
proof (induction n arbitrary: a m)
  case (Suc n)
  then show ?case using run_Suc [of _ a n] by (auto simp: fun_eq_iff)
qed simp

lemma ff_mask: "(0xFF :: u32) = mask 8"
  by (simp add: mask_eq_exp_minus_1)

lemma store32_replicated:
  "store32 a (push_bit 24 c OR push_bit 16 c OR push_bit 8 c OR c) m = stosb a (ucast c) 4 m"
  if "c = c AND 0xFF"
proof -
  have b: "bit c n \<Longrightarrow> n < 8" for n
    by (subst (asm) that) (simp add: ff_mask bit_simps)
  then have nb: "\<not> bit c (8 + n)" "\<not> bit c (16 + n)" "\<not> bit c (24 + n)" for n
    by (metis add_lessD1 less_irrefl, fastforce+)
  have "le32 (push_bit 24 c OR push_bit 16 c OR push_bit 8 c OR c) =
      [ucast c, ucast c, ucast c, ucast c]"
    unfolding le32_def by (auto intro!: bit_word_eqI simp: bit_simps nb)
  then show ?thesis by (simp add: store32_def numeral_eq_Suc add.assoc)
qed

lemma stosb_add: "stosb a c (i + j) m = stosb (a + of_nat i) c j (stosb a c i m)"
  by (induction i arbitrary: a m) (simp_all add: add.assoc)

lemma stosl_replicated:
  assumes "c = c AND 0xFF"
  shows "stosl a (push_bit 24 c OR push_bit 16 c OR push_bit 8 c OR c) n m = stosb a (ucast c) (4 * n) m"
proof (induction n arbitrary: a m)
  case (Suc n)
  have "stosb a (ucast c) (4 * Suc n) m = stosb (a + 4) (ucast c) (4 * n) (stosb a (ucast c) 4 m)"
    using stosb_add [of a "ucast c" 4 "4 * n" m] by simp
  then show ?case using Suc store32_replicated [OF assms] by simp
qed simp

lemma memset_eq: "memset dst c n m = (\<lambda>x. if x - dst < n then ucast c else m x)"
proof -
  have "memset dst c n m = stosb dst (ucast c) (unat n) m"
  proof (cases "sint dst smod 4 = 0 \<and> n mod 4 = 0")
    case True
    let ?c = "c AND 0xFF"
    have u: "ucast ?c = (ucast c :: u8)"
      by (rule bit_word_eqI) (simp add: ff_mask bit_simps)
    have n4: "4 * unat (n div 4) = unat n"
    proof -
      have "unat n mod 4 = unat (n mod 4)" by (simp add: unat_mod)
      then have "unat n mod 4 = 0" using True by simp
      then have "4 * (unat n div 4) = unat n" by presburger
      then show ?thesis by (simp add: unat_div)
    qed
    show ?thesis
      using True stosl_replicated [of ?c dst "unat (n div 4)" m]
      by (simp add: memset_def Let_def u n4)
  next
    case False
    then show ?thesis by (auto simp: memset_def)
  qed
  then show ?thesis by (simp add: stosb_eq word_less_nat_alt)
qed

section \<open>Block moves\<close>

text \<open>The result a block move should have: the source bytes as they were before the call.\<close>

definition moved :: "u32 \<Rightarrow> u32 \<Rightarrow> nat \<Rightarrow> mem \<Rightarrow> mem" where
  "moved d s n m = (\<lambda>x. if unat (x - d) < n then m (s + (x - d)) else m x)"

lemma copy_up_moved:
  assumes "d = s \<or> n \<le> unat (d - s)"
  shows "copy_up d s n m = moved d s n m"
  using assms
proof (induction n arbitrary: d s m)
  case 0
  then show ?case by (simp add: moved_def)
next
  case (Suc n)
  have ih: "copy_up (d + 1) (s + 1) n (m(d := m s)) = moved (d + 1) (s + 1) n (m(d := m s))"
    using Suc.prems by (intro Suc.IH) auto
  have "moved (d + 1) (s + 1) n (m(d := m s)) x = moved d s (Suc n) m x" for x
  proof (cases "unat (x - (d + 1)) < n")
    case True
    have "s + 1 + (x - (d + 1)) = s + (x - d)" by simp
    moreover have "d \<noteq> s \<Longrightarrow> s + (x - d) \<noteq> d"
    proof
      assume "d \<noteq> s" and e: "s + (x - d) = d"
      then have "x - (d + 1) = d - s - 1" by (simp add: algebra_simps)
      with True have "unat (d - s - 1) < n" by simp
      with unat_minus_one_less [of "d - s" n] \<open>d \<noteq> s\<close> Suc.prems show False by simp
    qed
    ultimately show ?thesis using True run_Suc [of x d n]
      by (cases "d = s") (auto simp: moved_def)
  next
    case False
    then show ?thesis using run_Suc [of x d n] by (auto simp: moved_def)
  qed
  then show ?case using ih by (auto simp: fun_eq_iff)
qed

lemma copy_down_moved:
  assumes "d = s \<or> n \<le> unat (s - d)"
  shows "copy_down (d + of_nat n) (s + of_nat n) n m = moved d s n m"
  using assms
proof (induction n arbitrary: m)
  case 0
  then show ?case by (simp add: moved_def)
next
  case (Suc n)
  let ?k = "of_nat n :: u32"
  have e: "d + of_nat (Suc n) - 1 = d + ?k" "s + of_nat (Suc n) - 1 = s + ?k" by simp_all
  have ih: "copy_down (d + ?k) (s + ?k) n (m(d + ?k := m (s + ?k))) =
      moved d s n (m(d + ?k := m (s + ?k)))"
    using Suc.prems by (intro Suc.IH) auto
  have "moved d s n (m(d + ?k := m (s + ?k))) x = moved d s (Suc n) m x" for x
  proof (cases "unat (x - d) < n")
    case True
    have "s + (x - d) \<noteq> d + ?k \<or> d = s \<and> x = d + ?k"
    proof (rule ccontr)
      assume "\<not> ?thesis"
      then have *: "s + (x - d) = d + ?k" "d \<noteq> s \<or> x \<noteq> d + ?k" by auto
      then have "x - d = ?k - (s - d)" by (simp add: algebra_simps)
      show False
      proof (cases "d = s")
        case True
        with * show False by simp
      next
        case False
        with Suc.prems have "Suc n \<le> unat (s - d)" by simp
        then have n: "unat ?k = n" and "?k < s - d"
          using unat_u32_less [of "s - d"] by (auto simp: unat_of_nat32 word_less_nat_alt)
        have "unat (?k - (s - d)) = 2 ^ 32 + n - unat (s - d)"
          using \<open>?k < s - d\<close> n unat_sub_if' [of ?k "s - d"] by (simp add: word_le_nat_alt word_less_nat_alt)
        with True \<open>x - d = _\<close> unat_u32_less [of "s - d"] show False by simp
      qed
    qed
    with True show ?thesis by (auto simp: moved_def)
  next
    case False
    show ?thesis
    proof (cases "x = d + ?k")
      case True
      with False show ?thesis by (auto simp: moved_def unat_of_nat less_Suc_eq_le)
    next
      case ne: False
      have "\<not> unat (x - d) < Suc n"
      proof
        assume "unat (x - d) < Suc n"
        with False have "unat (x - d) = n" by simp
        then have "x - d = ?k" by (rule eq_of_unat)
        with ne show False by (simp add: algebra_simps)
      qed
      with False ne show ?thesis by (simp add: moved_def)
    qed
  qed
  then show ?case using ih e by (auto simp: fun_eq_iff)
qed

lemma memmove_moved:
  assumes "unat src + unat n < 2 ^ 32" and "unat dst + unat n < 2 ^ 32"
  shows "memmove dst src n m = moved dst src (unat n) m"
proof -
  have sn: "unat (src + n) = unat src + unat n"
    using assms(1) by (simp add: unat_word_ariths)
  consider (down) "src < dst" "src + n > dst" | (apart) "src < dst" "src + n \<le> dst"
    | (same) "src = dst" | (up) "dst < src" by fastforce
  then show ?thesis
  proof cases
    case down
    have "unat (src - dst) = 2 ^ 32 + unat src - unat dst"
      using down unat_sub_if' [of src dst] by (simp add: word_less_nat_alt)
    then have "unat n \<le> unat (src - dst)"
      using assms by linarith
    then show ?thesis using down copy_down_moved [of dst src "unat n" m]
      by (simp add: memmove_def)
  next
    case apart
    then have "unat n \<le> unat (dst - src)"
      using sn by (simp add: unat_sub_if' word_le_nat_alt word_less_nat_alt)
    then show ?thesis using apart copy_up_moved [of dst src "unat n" m]
      by (auto simp: memmove_def)
  next
    case same
    then show ?thesis by (simp add: memmove_def copy_up_moved)
  next
    case up
    have "unat (dst - src) = 2 ^ 32 + unat dst - unat src"
      using up unat_sub_if' [of dst src] by (simp add: word_less_nat_alt)
    then have "unat n \<le> unat (dst - src)"
      using assms by linarith
    then show ?thesis using up copy_up_moved [of dst src "unat n" m]
      by (auto simp: memmove_def)
  qed
qed

section \<open>Strings\<close>

text \<open>The characters of the string at \<open>p\<close>, looking at no more than \<open>n\<close> bytes.\<close>

definition cstrn :: "(nat \<Rightarrow> u8) \<Rightarrow> nat \<Rightarrow> u8 list" where
  "cstrn p n = takeWhile (\<lambda>c. c \<noteq> 0) (map p [0..<n])"

lemma cstrn_simps [simp]:
  "cstrn p 0 = []"
  "cstrn p (Suc n) = (if p 0 = 0 then [] else p 0 # cstrn (\<lambda>i. p (Suc i)) n)"
  by (simp_all add: cstrn_def map_upt_Suc del: upt_Suc)

lemma length_cstrn: "length (cstrn p n) \<le> n"
  by (induction n arbitrary: p) auto

lemma cstrn_nonzero: "0 \<notin> set (cstrn p n)"
  by (induction n arbitrary: p) auto

lemma strncmp_0_iff: "strncmp p q n = 0 \<longleftrightarrow> cstrn p n = cstrn q n"
  by (induction n arbitrary: p q) (auto simp: uint_0_iff dest: unsigned_word_eqI)

lemma strncpy_eq: "strncpy t n = cstrn t n @ replicate (n - length (cstrn t n)) 0"
  by (induction n arbitrary: t) (auto simp: replicate_append_same)

lemma length_strncpy [simp]: "length (strncpy t n) = n"
  using length_cstrn [of t n] by (simp add: strncpy_eq)

lemma cstrn_strncpy: "cstrn (\<lambda>i. strncpy t n ! i) n = cstrn t n"
  by (induction n arbitrary: t) auto

lemma safestrcpy_loop_eq:
  "safestrcpy_loop t n = cstrn t n @ (if length (cstrn t n) < n then [0, 0] else [0])"
  by (induction n arbitrary: t) auto

lemma strlen_from_least:
  "s (n + k) = 0 \<Longrightarrow> \<forall>i<k. s (n + i) \<noteq> 0 \<Longrightarrow> strlen_from s n = Some (n + k)"
proof (induction k arbitrary: n)
  case 0
  then show ?case by (simp add: strlen_from.simps)
next
  case (Suc k)
  have "strlen_from s (Suc n) = Some (Suc n + k)"
    using Suc.prems by (intro Suc.IH) auto
  moreover have "s n \<noteq> 0" using Suc.prems(2) by force
  ultimately show ?case by (subst strlen_from.simps) simp
qed

lemma strchr_from_first:
  "s (n + k) = c \<Longrightarrow> c \<noteq> 0 \<Longrightarrow> \<forall>i<k. s (n + i) \<noteq> c \<and> s (n + i) \<noteq> 0 \<Longrightarrow>
   strchr_from s c n = Some (Some (n + k))"
proof (induction k arbitrary: n)
  case 0
  then show ?case by (simp add: strchr_from.simps)
next
  case (Suc k)
  have "strchr_from s c (Suc n) = Some (Some (Suc n + k))"
    using Suc.prems by (intro Suc.IH) auto
  moreover have "s n \<noteq> 0" "s n \<noteq> c" using Suc.prems(3) by force+
  ultimately show ?case by (subst strchr_from.simps) simp
qed

section \<open>Properties\<close>

text \<open>The kernel's \<^verbatim>\<open>memset\<close>, word-sized or byte-sized stores alike, sets exactly the \<open>n\<close>
  bytes from \<open>dst\<close> (addresses wrap) to the low byte of \<open>c\<close>.\<close>

theorem memset_sets_exactly:
  "memset dst c n m x = (if x - dst < n then ucast c else m x)"
  by (simp add: memset_eq)

text \<open>C27: the kernel's \<^verbatim>\<open>memmove\<close> gives the destination the bytes the source had before the
  call, overlapping or not, and changes nothing else.\<close>

theorem memmove_overlap_safe:
  assumes "unat src + unat n < 2 ^ 32" and "unat dst + unat n < 2 ^ 32"
  shows "memmove dst src n m x = (if unat (x - dst) < unat n then m (src + (x - dst)) else m x)"
  using memmove_moved [OF assms] by (simp add: moved_def)

theorem memmove_overlap_safe_witness:
  "memmove 0x1002 0x1000 4 (\<lambda>a. ucast a) 0x1005 = 3"
  using memmove_overlap_safe [where src = "0x1000" and n = 4 and dst = "0x1002" and m = "\<lambda>a. ucast a" and x = "0x1005"] by simp

end
