(* ===== verification/Mmu.thy ===== *)
theory Mmu
  imports Kernel_Base
begin

text \<open>
  The constants and address macros of \<^verbatim>\<open>memlayout.h\<close> and \<^verbatim>\<open>mmu.h\<close>: the layout of the
  address space, page rounding, the two ten-bit indices of a virtual address, and page-table
  entries.
\<close>

definition EXTMEM :: u32 where "EXTMEM = 0x100000"
definition PHYSTOP :: u32 where "PHYSTOP = 0xE000000"
definition DEVSPACE :: u32 where "DEVSPACE = 0xFE000000"
definition KERNBASE :: u32 where "KERNBASE = 0x80000000"
definition KERNLINK :: u32 where "KERNLINK = KERNBASE + EXTMEM"

definition v2p :: "u32 \<Rightarrow> u32" where "v2p a = a - KERNBASE"
definition p2v :: "u32 \<Rightarrow> u32" where "p2v a = a + KERNBASE"

definition PGSIZE :: u32 where "PGSIZE = 4096"
definition NPDENTRIES :: nat where "NPDENTRIES = 1024"
definition NPTENTRIES :: u32 where "NPTENTRIES = 1024"

definition PDX :: "u32 \<Rightarrow> u32" where "PDX va = drop_bit 22 va AND 0x3FF"
definition PTX :: "u32 \<Rightarrow> u32" where "PTX va = drop_bit 12 va AND 0x3FF"

definition PGROUNDUP :: "u32 \<Rightarrow> u32" where "PGROUNDUP sz = (sz + PGSIZE - 1) AND NOT (PGSIZE - 1)"
definition PGROUNDDOWN :: "u32 \<Rightarrow> u32" where "PGROUNDDOWN a = a AND NOT (PGSIZE - 1)"

definition PTE_P :: u32 where "PTE_P = 0x001"
definition PTE_W :: u32 where "PTE_W = 0x002"
definition PTE_U :: u32 where "PTE_U = 0x004"

definition PTE_ADDR :: "u32 \<Rightarrow> u32" where "PTE_ADDR pte = pte AND NOT 0xFFF"
definition PTE_FLAGS :: "u32 \<Rightarrow> u32" where "PTE_FLAGS pte = pte AND 0xFFF"

section \<open>Page arithmetic\<close>

lemma fff_mask: "(0xFFF :: u32) = mask 12"
  by (simp add: mask_eq_exp_minus_1)

lemma PGSIZE_mask: "PGSIZE - 1 = mask 12"
  by (simp add: PGSIZE_def mask_eq_exp_minus_1)

lemma PGROUNDDOWN_bits: "PGROUNDDOWN a = push_bit 12 (drop_bit 12 a)"
  by (rule bit_word_eqI) (auto simp: PGROUNDDOWN_def PGSIZE_mask bit_simps)

lemma PTE_ADDR_bits: "PTE_ADDR a = push_bit 12 (drop_bit 12 a)"
  by (rule bit_word_eqI) (auto simp: PTE_ADDR_def fff_mask bit_simps)

lemma unat_page: "unat (push_bit 12 (drop_bit 12 a) :: u32) = unat a div 4096 * 4096"
proof -
  have e: "push_bit 12 (drop_bit 12 a) = a - take_bit 12 a"
    using bits_ident [of 12 a] by (simp add: algebra_simps)
  have t: "unat (take_bit 12 a) = unat a mod 4096"
    by (simp add: take_bit_eq_mod unat_mod)
  have "unat (a - take_bit 12 a) = unat a - unat a mod 4096"
    by (subst unat_sub) (auto simp: t word_le_nat_alt)
  then show ?thesis by (simp add: e minus_mod_eq_div_mult)
qed

lemma unat_PGROUNDDOWN: "unat (PGROUNDDOWN a) = unat a div 4096 * 4096"
  by (simp add: PGROUNDDOWN_bits unat_page)

lemma unat_PTE_ADDR: "unat (PTE_ADDR a) = unat a div 4096 * 4096"
  by (simp add: PTE_ADDR_bits unat_page)

lemma unat_PGROUNDUP:
  assumes "unat a + 4095 < 2 ^ 32"
  shows "unat (PGROUNDUP a) = (unat a + 4095) div 4096 * 4096"
proof -
  have "PGROUNDUP a = PGROUNDDOWN (a + 4095)"
    by (simp add: PGROUNDUP_def PGROUNDDOWN_def PGSIZE_def add.commute)
  moreover have "unat (a + 4095) = unat a + 4095"
    using assms by (simp add: unat_word_ariths)
  ultimately show ?thesis by (simp add: unat_PGROUNDDOWN)
qed

lemma PTE_ADDR_or_flags:
  assumes "pa AND 0xFFF = 0" and "fl AND NOT 0xFFF = 0"
  shows "PTE_ADDR (pa OR fl) = pa" and "PTE_FLAGS (pa OR fl) = fl"
proof -
  have p: "bit pa n \<Longrightarrow> \<not> n < 12" for n
    using arg_cong [OF assms(1), of "\<lambda>x. bit x n"] by (auto simp: fff_mask bit_simps)
  have f: "bit fl n \<Longrightarrow> n < 12" for n
    using arg_cong [OF assms(2), of "\<lambda>x. bit x n"]
    by (auto simp: fff_mask bit_simps dest: bit_imp_le_length)
  show "PTE_ADDR (pa OR fl) = pa" and "PTE_FLAGS (pa OR fl) = fl"
    unfolding PTE_ADDR_def PTE_FLAGS_def fff_mask
    by (auto intro!: bit_word_eqI simp: bit_simps dest: p f)
qed

end
