(* ===== verification/Kalloc.thy ===== *)
theory Kalloc
  imports Spinlock Cstring Mmu
begin

text \<open>
  The physical page allocator (\<^verbatim>\<open>kalloc.c\<close>). Its state extends the machine by the byte store
  and by \<^verbatim>\<open>kmem\<close>: the lock switch and the head of the free list. The list itself is in the
  free pages, as in the source: the first word of a free page is the address of the next one.
  The linker symbol \<^verbatim>\<open>end\<close> is the parameter \<open>kend\<close>.

  What is shown: on a state whose free list is well formed, \<open>kalloc\<close> and \<open>kfree\<close> refine pop
  and push on a list of distinct pages, which is the interface \<open>page_allocator\<close>; and boot
  hands out exactly the whole pages of the range it is given.
\<close>

record kmem_st = mach +
  mem :: mem
  use_lock :: bool
  freelist :: u32

definition kfree :: "u32 \<Rightarrow> u32 \<Rightarrow> 'a kmem_st_scheme \<Rightarrow> ('a kmem_st_scheme, 'a kmem_st_scheme) kres" where
  "kfree kend v s =
     (if v mod PGSIZE \<noteq> 0 \<or> v < kend \<or> v2p v \<ge> PHYSTOP then kpanic ''kfree''
      else let s = s\<lparr>mem := memset v 1 PGSIZE (mem s)\<rparr>
           in kbind (if use_lock s then acquire LKmem s else Inr s) (\<lambda>s.
              let s = s\<lparr>mem := store32 v (freelist s) (mem s)\<rparr>;
                  s = s\<lparr>freelist := v\<rparr>
              in if use_lock s then release LKmem s else Inr s))"

definition kalloc :: "'a kmem_st_scheme \<Rightarrow> ('a kmem_st_scheme, u32 \<times> 'a kmem_st_scheme) kres" where
  "kalloc s =
     kbind (if use_lock s then acquire LKmem s else Inr s) (\<lambda>s.
     let r = freelist s;
         s = (if r \<noteq> 0 then s\<lparr>freelist := load32 (mem s) r\<rparr> else s)
     in kbind (if use_lock s then release LKmem s else Inr s) (\<lambda>s. Inr (r, s)))"

text \<open>The loop of \<^verbatim>\<open>freerange\<close>; \<open>fuel\<close> bounds its rounds. The address space has \<open>2 ^ 20\<close>
  pages, so that many rounds are enough for any range.\<close>

fun freerange_loop ::
  "nat \<Rightarrow> u32 \<Rightarrow> u32 \<Rightarrow> u32 \<Rightarrow> 'a kmem_st_scheme \<Rightarrow> ('a kmem_st_scheme, 'a kmem_st_scheme) kres" where
  "freerange_loop 0 kend p vend s = Inl Diverge"
| "freerange_loop (Suc fuel) kend p vend s =
     (if p + PGSIZE \<le> vend then kbind (kfree kend p s) (freerange_loop fuel kend (p + PGSIZE) vend)
      else Inr s)"

definition freerange ::
  "u32 \<Rightarrow> u32 \<Rightarrow> u32 \<Rightarrow> 'a kmem_st_scheme \<Rightarrow> ('a kmem_st_scheme, 'a kmem_st_scheme) kres" where
  "freerange kend vstart vend s = freerange_loop (2 ^ 20) kend (PGROUNDUP vstart) vend s"

definition kinit1 ::
  "u32 \<Rightarrow> u32 \<Rightarrow> u32 \<Rightarrow> 'a kmem_st_scheme \<Rightarrow> ('a kmem_st_scheme, 'a kmem_st_scheme) kres" where
  "kinit1 kend vstart vend s =
     (let s = initlock LKmem s; s = s\<lparr>use_lock := False\<rparr> in freerange kend vstart vend s)"

definition kinit2 ::
  "u32 \<Rightarrow> u32 \<Rightarrow> u32 \<Rightarrow> 'a kmem_st_scheme \<Rightarrow> ('a kmem_st_scheme, 'a kmem_st_scheme) kres" where
  "kinit2 kend vstart vend s =
     kbind (freerange kend vstart vend s) (\<lambda>s. Inr (s\<lparr>use_lock := True\<rparr>))"

section \<open>The free list in memory\<close>

definition page_ok :: "u32 \<Rightarrow> u32 \<Rightarrow> bool" where
  "page_ok kend v \<longleftrightarrow> v \<noteq> 0 \<and> v mod PGSIZE = 0 \<and> kend \<le> v \<and> v2p v < PHYSTOP"

fun flist :: "mem \<Rightarrow> u32 \<Rightarrow> u32 list \<Rightarrow> bool" where
  "flist m a [] \<longleftrightarrow> a = 0"
| "flist m a (x # xs) \<longleftrightarrow> a = x \<and> flist m (load32 m x) xs"

definition kmem_inv :: "u32 \<Rightarrow> u32 list \<Rightarrow> 'a kmem_st_scheme \<Rightarrow> bool" where
  "kmem_inv kend xs s \<longleftrightarrow> flist (mem s) (freelist s) xs \<and> distinct xs \<and> (\<forall>x\<in>set xs. page_ok kend x)"

text \<open>Two pages do not overlap.\<close>

lemma page_disjoint:
  assumes "a mod PGSIZE = 0" "b mod PGSIZE = 0" "a \<noteq> b" "i < PGSIZE"
  shows "a + i - b \<ge> PGSIZE"
proof -
  have m: "unat x mod 4096 = unat (x mod PGSIZE)" for x :: u32
    by (simp add: PGSIZE_def unat_mod)
  have d: "\<exists>k. unat x = 4096 * k" if "x mod PGSIZE = 0" for x :: u32
    using m [of x] that by (auto simp: mod_eq_0_iff_dvd)
  obtain k l where k: "unat a = 4096 * k" and l: "unat b = 4096 * l" using d [OF assms(1)] d [OF assms(2)] by auto
  have ne: "k \<noteq> l" using eq_of_unat [OF k] eq_of_unat [OF l] assms(3) by auto
  have i: "unat i < 4096" using assms(4) by (simp add: PGSIZE_def word_less_nat_alt)
  have kl: "4096 * k < 2 ^ 32" "4096 * l < 2 ^ 32"
    using unat_u32_less [of a] unat_u32_less [of b] k l by auto
  have ai: "unat (a + i) = 4096 * k + unat i"
    using k i kl by (simp add: unat_word_ariths)
  have "unat (a + i - b) \<ge> 4096"
  proof (cases "l \<le> k")
    case True
    then have "4096 * l \<le> 4096 * k + unat i" by simp
    then have "unat (a + i - b) = 4096 * k + unat i - 4096 * l"
      using ai l by (simp add: unat_sub_if')
    moreover have "4096 * k \<ge> 4096 * l + 4096" using True ne by simp
    ultimately show ?thesis by simp
  next
    case False
    then have "4096 * k + 4096 \<le> 4096 * l" by simp
    then have "unat (a + i - b) = 4096 * k + unat i + 2 ^ 32 - 4096 * l"
      using ai l i by (simp add: unat_sub_if')
    moreover have "4096 * l + 4096 \<le> 2 ^ 32" using kl by simp
    ultimately show ?thesis by simp
  qed
  then show ?thesis by (simp add: PGSIZE_def word_le_nat_alt)
qed

lemma load32_cong:
  assumes "\<And>i. i < 4 \<Longrightarrow> m (a + i) = m' (a + i)"
  shows "load32 m a = load32 m' a"
  using assms [of 0] assms [of 1] assms [of 2] assms [of 3]
  by (simp add: load32_def word_less_nat_alt)

lemma load32_store32 [simp]: "load32 (store32 a x m) a = x"
proof -
  have "store32 a x m a = le32 x ! 0" "store32 a x m (a + 1) = le32 x ! 1"
    "store32 a x m (a + 2) = le32 x ! 2" "store32 a x m (a + 3) = le32 x ! 3"
    by (simp_all add: store32_def)
  moreover have "[le32 x ! 0, le32 x ! 1, le32 x ! 2, le32 x ! 3] = le32 x"
    by (simp add: le32_def)
  ultimately show ?thesis by (simp add: load32_def)
qed

lemma store32_apart: "\<lbrakk>x \<noteq> a; x \<noteq> a + 1; x \<noteq> a + 2; x \<noteq> a + 3\<rbrakk> \<Longrightarrow> store32 a v m x = m x"
  by (simp add: store32_def)

lemma store32_run: "\<not> x - a < 4 \<Longrightarrow> store32 a v m x = m x"
  by (rule store32_apart) (auto simp: word_less_nat_alt)

text \<open>A word and a run of bytes that do not overlap, wherever they lie.\<close>

lemma far_off:
  assumes "n \<le> b - a" "4 \<le> a - b" "i < 4"
  shows "\<not> b + i - a < (n :: u32)"
proof -
  define d where "d = a - b"
  have d: "b - a = 0 - d" "4 \<le> unat d" using assms(2) by (simp_all add: d_def word_le_nat_alt)
  then have "unat (b - a) = 2 ^ 32 - unat d" unfolding d(1) unat_sub_if' by simp
  then have "unat (b - a) + 4 \<le> 2 ^ 32" using d(2) unat_u32_less [of d] by simp
  then have "unat ((b - a) + i) = unat (b - a) + unat i"
    using assms(3) by (simp add: word_less_nat_alt unat_plus_if_size word_size)
  moreover have e: "b + i - a = (b - a) + i" by simp
  ultimately show ?thesis using assms(1) unfolding e by (simp add: word_le_nat_alt word_less_nat_alt)
qed

lemma load32_far:
  assumes "4 \<le> b - a" "4 \<le> a - b"
  shows "load32 (store32 a v m) b = load32 m b"
  by (rule load32_cong) (use far_off [OF assms] store32_run in blast)

lemma load32_memset_far:
  assumes "n \<le> b - a" "4 \<le> a - b"
  shows "load32 (memset a c n m) b = load32 m b"
  by (rule load32_cong) (use far_off [OF assms] in \<open>simp add: memset_eq\<close>)

text \<open>Memory outside a freed page keeps its contents.\<close>

lemma freed_page_frame:
  assumes "a mod PGSIZE = 0" "v mod PGSIZE = 0" "a \<noteq> v" "i < PGSIZE"
  shows "store32 v f (memset v c PGSIZE m) (a + i) = m (a + i)"
proof -
  have "PGSIZE \<le> a + i - v" using assms by (rule page_disjoint)
  then have "\<not> a + i - v < PGSIZE" "\<not> a + i - v < 4"
    by (auto simp: PGSIZE_def not_less word_le_nat_alt)
  then show ?thesis by (simp add: store32_run memset_eq)
qed

lemma flist_cong:
  assumes "\<forall>x\<in>set xs. load32 m x = load32 m' x"
  shows "flist m a xs = flist m' a xs"
  using assms by (induction xs arbitrary: a) auto

lemma kmem_frame [simp]:
  "mem (acq lk s) = mem s" "use_lock (acq lk s) = use_lock s" "freelist (acq lk s) = freelist s"
  "mem (rel lk s) = mem s" "use_lock (rel lk s) = use_lock s" "freelist (rel lk s) = freelist s"
  "kmem_st.more (acq lk s) = kmem_st.more s" "kmem_st.more (rel lk s) = kmem_st.more s"
  by (simp_all add: acq_def rel_def pushcli_def Let_def)

lemma lockset_kmem [simp]:
  "lockset L (s\<lparr>mem := m\<rparr>) = lockset L s" "lockset L (s\<lparr>freelist := f\<rparr>) = lockset L s"
  "lockset L (s\<lparr>use_lock := u\<rparr>) = lockset L s"
  by (simp_all add: lockset_def)

lemma flist_freed:
  assumes "flist m a xs" and "\<forall>x\<in>set xs. page_ok kend x" and "v mod PGSIZE = 0" and "v \<notin> set xs"
  shows "flist (store32 v f (memset v c PGSIZE m)) a xs"
proof -
  have "load32 (store32 v f (memset v c PGSIZE m)) x = load32 m x" if "x \<in> set xs" for x
  proof (rule load32_cong)
    fix i :: u32 assume "i < 4"
    then have "i < PGSIZE" by (simp add: PGSIZE_def word_less_nat_alt)
    then show "store32 v f (memset v c PGSIZE m) (x + i) = m (x + i)"
      using that assms by (intro freed_page_frame) (auto simp: page_ok_def)
  qed
  then show ?thesis using assms(1) by (subst flist_cong [of xs _ m]) auto
qed

text \<open>\<open>kfree\<close> pushes the page; it leaves the bytes of every other page alone.\<close>

lemma kfree_push:
  assumes "lockset L s" "LKmem \<notin> set L" "kmem_inv kend xs s" "page_ok kend v" "v \<notin> set xs"
  shows "returns (kfree kend v s) (\<lambda>t. kmem_inv kend (v # xs) t \<and> lockset L t \<and>
     use_lock t = use_lock s \<and> kmem_st.more t = kmem_st.more s \<and>
     mem t = store32 v (freelist s) (memset v 1 PGSIZE (mem s)))"
proof -
  have ok: "v mod PGSIZE = 0" "kend \<le> v" "v2p v < PHYSTOP" "v \<noteq> 0"
    using assms(4) by (auto simp: page_ok_def)
  have fl: "flist (store32 v (freelist s) (memset v 1 PGSIZE (mem s))) (freelist s) xs"
    using assms by (intro flist_freed [OF _ _ ok(1)]) (auto simp: kmem_inv_def)
  have inv: "kmem_inv kend (v # xs) t"
    if "mem t = store32 v (freelist s) (memset v 1 PGSIZE (mem s))" "freelist t = v" for t :: "'b kmem_st_scheme"
    using that fl assms ok by (auto simp: kmem_inv_def)
  let ?s1 = "s\<lparr>mem := memset v 1 PGSIZE (mem s)\<rparr>"
  have a: "acquire LKmem ?s1 = Inr (acq LKmem ?s1)" "lockset (LKmem # L) (acq LKmem ?s1)"
    using assms by (auto intro!: acquire_acq)
  let ?s2 = "(acq LKmem ?s1)\<lparr>mem := store32 v (freelist s) (memset v 1 PGSIZE (mem s)), freelist := v\<rparr>"
  have r: "release LKmem ?s2 = Inr (rel LKmem ?s2)" "lockset L (rel LKmem ?s2)"
    using a(2) by (auto intro!: release_rel)
  show ?thesis
    using ok a r assms by (auto simp: kfree_def Let_def not_le inv)
qed

lemma kalloc_pop:
  assumes "lockset L s" "LKmem \<notin> set L" "kmem_inv kend xs s"
  shows "returns (kalloc s) (\<lambda>(r, t). r = (case xs of [] \<Rightarrow> 0 | x # _ \<Rightarrow> x) \<and>
     kmem_inv kend (tl xs) t \<and> lockset L t \<and> use_lock t = use_lock s \<and>
     kmem_st.more t = kmem_st.more s \<and> mem t = mem s)"
proof -
  have a: "acquire LKmem s = Inr (acq LKmem s)" "lockset (LKmem # L) (acq LKmem s)"
    using assms by (auto intro!: acquire_acq)
  have r: "release LKmem ((acq LKmem s)\<lparr>freelist := f\<rparr>) = Inr (rel LKmem ((acq LKmem s)\<lparr>freelist := f\<rparr>))"
    "lockset L (rel LKmem ((acq LKmem s)\<lparr>freelist := f\<rparr>))" for f
    using a(2) by (auto intro!: release_rel)
  have r0: "release LKmem (acq LKmem s) = Inr (rel LKmem (acq LKmem s))" "lockset L (rel LKmem (acq LKmem s))"
    using a(2) by (auto intro!: release_rel)
  show ?thesis
    using assms by (cases xs) (auto simp: kalloc_def Let_def kmem_inv_def page_ok_def a r r0)
qed

section \<open>The allocator's interface\<close>

text \<open>What the clients of the allocator (page tables, kernel stacks, pipes) rely on: the free
  pages are a list of distinct usable pages, allocation takes the first one and gives the null
  address when there is none, and a page that is given back is on the list again.\<close>

locale page_allocator =
  fixes alloc :: "'s \<Rightarrow> ('s, u32 \<times> 's) kres" and free :: "u32 \<Rightarrow> 's \<Rightarrow> ('s, 's) kres"
    and usable :: "u32 \<Rightarrow> bool" and pages :: "u32 list \<Rightarrow> 's \<Rightarrow> bool"
  assumes alloc_first: "pages (x # xs) s \<Longrightarrow> returns (alloc s) (\<lambda>(r, t). r = x \<and> pages xs t)"
    and alloc_none: "pages [] s \<Longrightarrow> returns (alloc s) (\<lambda>(r, t). r = 0 \<and> pages [] t)"
    and free_page: "pages xs s \<Longrightarrow> usable x \<Longrightarrow> x \<notin> set xs \<Longrightarrow> returns (free x s) (pages (x # xs))"
    and pages_usable: "pages xs s \<Longrightarrow> distinct xs \<and> (\<forall>x\<in>set xs. usable x)"
    and usable_nonnull: "\<not> usable 0"
begin

fun alloc_n :: "nat \<Rightarrow> 's \<Rightarrow> ('s, u32 list \<times> 's) kres" where
  "alloc_n 0 s = Inr ([], s)"
| "alloc_n (Suc n) s = kbind (alloc s) (\<lambda>(r, s). kbind (alloc_n n s) (\<lambda>(rs, s). Inr (r # rs, s)))"

lemma alloc_n_take:
  "pages xs s \<Longrightarrow> n \<le> length xs \<Longrightarrow> returns (alloc_n n s) (\<lambda>(rs, t). rs = take n xs \<and> pages (drop n xs) t)"
proof (induction n arbitrary: xs s)
  case (Suc n)
  then obtain x ys where xs: "xs = x # ys" by (cases xs) auto
  have "returns (alloc s) (\<lambda>(r, t). r = x \<and> pages ys t)"
    using Suc.prems xs by (auto intro: alloc_first)
  then obtain t where "alloc s = Inr (x, t)" "pages ys t" by (auto elim!: returnsE)
  with Suc.IH [of ys t] Suc.prems xs show ?case by (auto simp: returns_kbind elim!: returns_mono)
qed simp

lemma alloc_n_distinct:
  assumes "pages xs s" and "n \<le> length xs"
  shows "returns (alloc_n n s) (\<lambda>(rs, t). distinct rs \<and> (\<forall>r\<in>set rs. usable r) \<and> length rs = n)"
  using pages_usable [OF assms(1)] alloc_n_take [OF assms] assms(2)
  by (auto elim!: returns_mono dest: in_set_takeD)

lemma free_alloc_same:
  assumes "pages xs s" and "usable x" and "x \<notin> set xs"
  shows "returns (kbind (free x s) alloc) (\<lambda>(r, t). r = x \<and> pages xs t)"
  by (rule returns_bindI [OF free_page [OF assms]]) (rule alloc_first)

end

interpretation km: page_allocator kalloc "kfree kend" "page_ok kend"
  "\<lambda>xs s. kmem_inv kend xs s \<and> lockset [] s" for kend
proof unfold_locales
  fix x xs and s :: "'a kmem_st_scheme"
  show "kmem_inv kend (x # xs) s \<and> lockset [] s \<Longrightarrow>
      returns (kalloc s) (\<lambda>(r, t). r = x \<and> kmem_inv kend xs t \<and> lockset [] t)"
    using kalloc_pop [of "[]" s kend "x # xs"] by (auto elim!: returns_mono)
  show "kmem_inv kend [] s \<and> lockset [] s \<Longrightarrow>
      returns (kalloc s) (\<lambda>(r, t). r = 0 \<and> kmem_inv kend [] t \<and> lockset [] t)"
    using kalloc_pop [of "[]" s kend "[]"] by (auto elim!: returns_mono)
  show "kmem_inv kend xs s \<and> lockset [] s \<Longrightarrow> page_ok kend x \<Longrightarrow> x \<notin> set xs \<Longrightarrow>
      returns (kfree kend x s) (\<lambda>s. kmem_inv kend (x # xs) s \<and> lockset [] s)"
    using kfree_push [of "[]" s kend xs x] by (auto elim!: returns_mono)
  show "kmem_inv kend xs s \<and> lockset [] s \<Longrightarrow> distinct xs \<and> (\<forall>x\<in>set xs. page_ok kend x)"
    by (simp add: kmem_inv_def)
qed (simp add: page_ok_def)

section \<open>Boot\<close>

definition page_run :: "u32 \<Rightarrow> nat \<Rightarrow> u32 list" where
  "page_run p n = map (\<lambda>i. p + of_nat i * PGSIZE) [0..<n]"

lemma page_run_Suc: "page_run p (Suc n) = p # page_run (p + PGSIZE) n"
  by (simp add: page_run_def map_upt_Suc algebra_simps del: upt_Suc)

lemma unat_page_run:
  assumes "unat p + 4096 * n < 2 ^ 32" and "i \<le> n"
  shows "unat (p + of_nat i * PGSIZE) = unat p + 4096 * i"
proof -
  have "i < 2 ^ 32" "4096 * i < 2 ^ 32" "unat p + 4096 * i < 2 ^ 32" using assms by auto
  then show ?thesis by (simp add: unat_word_ariths PGSIZE_def unat_of_nat mult.commute)
qed

lemma page_run_distinct:
  assumes "unat p + 4096 * n < 2 ^ 32"
  shows "distinct (page_run p n)"
  unfolding page_run_def distinct_map
proof (intro conjI inj_onI)
  fix i j assume "i \<in> set [0..<n]" "j \<in> set [0..<n]" and e: "p + of_nat i * PGSIZE = p + of_nat j * PGSIZE"
  then have "i \<le> n" "j \<le> n" by simp_all
  with arg_cong [OF e, of unat] show "i = j"
    unfolding unat_page_run [OF assms \<open>i \<le> n\<close>] unat_page_run [OF assms \<open>j \<le> n\<close>] by simp
qed simp

text \<open>The pages of a range of kernel memory that starts on a page boundary are usable.\<close>

lemma page_run_usable:
  assumes "p mod PGSIZE = 0" "kend \<le> p" "KERNBASE \<le> p" "unat p + 4096 * n \<le> unat (p2v PHYSTOP)"
    and "x \<in> set (page_run p n)"
  shows "page_ok kend x"
proof -
  have top: "unat (p2v PHYSTOP) = 0x8E000000" by (simp add: p2v_def PHYSTOP_def KERNBASE_def)
  obtain i where i: "i < n" "x = p + of_nat i * PGSIZE" using assms(5) by (auto simp: page_run_def)
  have ux: "unat x = unat p + 4096 * i" using unat_page_run [of p n i] assms(4) top i by simp
  have kb: "unat KERNBASE = 0x80000000" by (simp add: KERNBASE_def)
  have "unat p mod 4096 = 0" using arg_cong [OF assms(1), of unat] by (simp add: PGSIZE_def unat_mod)
  then have "unat (x mod PGSIZE) = 0" by (simp add: PGSIZE_def unat_mod ux)
  then have "x mod PGSIZE = 0" by (simp only: unat_eq_0)
  moreover have "v2p x < PHYSTOP"
    using assms(3,4) ux i kb top by (simp add: v2p_def word_less_nat_alt unat_sub_if' word_le_nat_alt PHYSTOP_def)
  moreover have "x \<noteq> 0" using assms(3) ux kb by (auto simp: word_le_nat_alt)
  ultimately show ?thesis using assms(2) ux by (simp add: page_ok_def word_le_nat_alt)
qed

lemma freerange_loop_pages:
  assumes "n < fuel" "unat vend \<le> unat (p2v PHYSTOP)"
    "unat p + 4096 * n \<le> unat vend" "unat vend < unat p + 4096 * (n + 1)"
    "\<forall>x\<in>set (page_run p n). page_ok kend x \<and> x \<notin> set xs"
    "lockset L s" "LKmem \<notin> set L" "kmem_inv kend xs s"
  shows "returns (freerange_loop fuel kend p vend s) (\<lambda>t.
     kmem_inv kend (rev (page_run p n) @ xs) t \<and> lockset L t \<and> use_lock t = use_lock s \<and>
     kmem_st.more t = kmem_st.more s \<and> (\<forall>a. (\<forall>x\<in>set (page_run p n). PGSIZE \<le> a - x) \<longrightarrow> mem t a = mem s a))"
  using assms
proof (induction n arbitrary: fuel p xs s)
  case 0
  then obtain f where f: "fuel = Suc f" by (cases fuel) auto
  have top: "unat (p2v PHYSTOP) = 0x8E000000" by (simp add: p2v_def PHYSTOP_def KERNBASE_def)
  have "unat (p + PGSIZE) = unat p + 4096"
    using 0 top by (simp add: PGSIZE_def unat_word_ariths)
  then show ?case using 0 f by (simp add: page_run_def word_le_nat_alt)
next
  case (Suc n)
  then obtain f where f: "fuel = Suc f" by (cases fuel) auto
  have top: "unat (p2v PHYSTOP) = 0x8E000000" by (simp add: p2v_def PHYSTOP_def KERNBASE_def)
  have up: "unat (p + PGSIZE) = unat p + 4096"
    using Suc.prems top by (simp add: PGSIZE_def unat_word_ariths)
  have dist: "distinct (page_run p (Suc n))"
    using Suc.prems top by (intro page_run_distinct) auto
  have "returns (kfree kend p s) (\<lambda>t. kmem_inv kend (p # xs) t \<and> lockset L t \<and>
     use_lock t = use_lock s \<and> kmem_st.more t = kmem_st.more s \<and> mem t = store32 p (freelist s) (memset p 1 PGSIZE (mem s)))"
    using Suc.prems by (intro returns_mono [OF kfree_push [of L s kend xs p]]) (auto simp: page_run_Suc)
  then obtain t where t: "kfree kend p s = Inr t" "kmem_inv kend (p # xs) t" "lockset L t"
     "use_lock t = use_lock s" "kmem_st.more t = kmem_st.more s" "mem t = store32 p (freelist s) (memset p 1 PGSIZE (mem s))" by (auto elim!: returnsE)
  have out: "mem t a = mem s a" if "PGSIZE \<le> a - p" for a
  proof -
    have "\<not> a - p < 4" "\<not> a - p < PGSIZE" using that by (auto simp: PGSIZE_def word_le_nat_alt word_less_nat_alt)
    then show ?thesis by (simp add: t(6) store32_run memset_eq)
  qed
  have "returns (freerange_loop f kend (p + PGSIZE) vend t) (\<lambda>t'.
     kmem_inv kend (rev (page_run (p + PGSIZE) n) @ p # xs) t' \<and> lockset L t' \<and> use_lock t' = use_lock t \<and>
     kmem_st.more t' = kmem_st.more t \<and> (\<forall>a. (\<forall>x\<in>set (page_run (p + PGSIZE) n). PGSIZE \<le> a - x) \<longrightarrow> mem t' a = mem t a))"
    using Suc.prems t up f dist by (intro Suc.IH) (auto simp: page_run_Suc)
  then show ?case
    using t(1-5) up Suc.prems f out by (auto simp: word_le_nat_alt page_run_Suc elim!: returns_mono)
qed

text \<open>A change of memory that stays inside one page.\<close>

definition page_only :: "u32 \<Rightarrow> mem \<Rightarrow> mem \<Rightarrow> bool" where
  "page_only k m m' \<longleftrightarrow> (\<forall>a. PGSIZE \<le> a - k \<longrightarrow> m' a = m a)"

lemma page_only_refl [simp]: "page_only k m m"
  by (simp add: page_only_def)

lemma page_only_trans: "page_only k m m' \<Longrightarrow> page_only k m' m'' \<Longrightarrow> page_only k m m''"
  by (simp add: page_only_def)

lemma offset_sub: "off \<le> x \<Longrightarrow> unat ((x :: u32) - off) = unat x - unat off"
  by (simp add: unat_sub_if' word_le_nat_alt)

lemma page_only_memset:
  assumes "unat off + unat n \<le> 4096"
  shows "page_only k m (memset (k + off) c n m)"
proof -
  have "\<not> a - (k + off) < n" if "PGSIZE \<le> a - k" for a
  proof -
    have "off \<le> a - k" using that assms by (simp add: PGSIZE_def word_le_nat_alt)
    then have "unat (a - (k + off)) = unat (a - k) - unat off" using offset_sub [of off "a - k"] by (simp add: diff_diff_add)
    then show ?thesis using that assms by (simp add: PGSIZE_def word_le_nat_alt word_less_nat_alt)
  qed
  then show ?thesis by (auto simp: page_only_def memset_eq)
qed

lemma page_only_store32:
  assumes "unat off + 4 \<le> 4096"
  shows "page_only k m (store32 (k + off) v m)"
proof -
  have "\<not> a - (k + off) < 4" if "PGSIZE \<le> a - k" for a
  proof -
    have "off \<le> a - k" using that assms by (simp add: PGSIZE_def word_le_nat_alt)
    then have "unat (a - (k + off)) = unat (a - k) - unat off" using offset_sub [of off "a - k"] by (simp add: diff_diff_add)
    then show ?thesis using that assms by (simp add: PGSIZE_def word_le_nat_alt word_less_nat_alt)
  qed
  then show ?thesis by (auto simp: page_only_def store32_run)
qed

lemma page_only_load32:
  assumes "page_only k m m'" "x mod PGSIZE = 0" "k mod PGSIZE = 0" "x \<noteq> k" "unat off + 4 \<le> 4096"
  shows "load32 m' (x + off) = load32 m (x + off)"
proof (rule load32_cong)
  fix i :: u32 assume "i < 4"
  then have "unat (off + i) = unat off + unat i" "unat i < 4"
    using assms(5) by (auto simp: unat_word_ariths word_less_nat_alt)
  then have "off + i < PGSIZE" using assms(5) by (simp add: PGSIZE_def word_less_nat_alt)
  from page_disjoint [OF assms(2,3,4) this] show "m' (x + off + i) = m (x + off + i)"
    using assms(1) by (simp add: page_only_def add.assoc)
qed

lemma kmem_inv_page_only:
  assumes "kmem_inv kend xs s" "page_only k (mem s) (mem t)" "freelist t = freelist s"
    "k mod PGSIZE = 0" "k \<notin> set xs"
  shows "kmem_inv kend xs t"
proof -
  have "load32 (mem t) x = load32 (mem s) x" if "x \<in> set xs" for x
    using page_only_load32 [OF assms(2), of x 0] that assms(1,4,5) by (auto simp: kmem_inv_def page_ok_def)
  then show ?thesis using assms(1,3) by (simp add: kmem_inv_def flist_cong [of xs "mem t" "mem s"])
qed

section \<open>Properties\<close>

text \<open>C24: on a well-formed free list and with no lock held, freeing a usable page that is not on the
  list and allocating again gives that page back, with the list as before and no lock held. No
  panic is reached.\<close>

theorem kfree_then_kalloc:
  assumes "kmem_inv kend xs s" and "lockset [] s" and "page_ok kend v" and "v \<notin> set xs"
  shows "returns (kbind (kfree kend v s) kalloc) (\<lambda>(r, t). r = v \<and> kmem_inv kend xs t \<and> lockset [] t)"
  using km.free_alloc_same [of kend xs s v] assms by simp

theorem kfree_then_kalloc_witness:
  "\<exists>s :: kmem_st. returns (kbind (kfree 0x80100000 0x80400000 s) kalloc)
     (\<lambda>(r, t). r = 0x80400000 \<and> kmem_inv 0x80100000 [] t \<and> lockset [] t)"
proof -
  let ?s = "\<lparr>locks = \<lambda>_. \<lparr>locked = 0, holder = None\<rparr>, cpu = \<lparr>cpu_id = 0, ncli = 0, intena = False\<rparr>,
     IF = True, mem = \<lambda>_. 0, use_lock = True, freelist = 0\<rparr>"
  have "kmem_inv 0x80100000 [] ?s" "lockset [] ?s" by (simp_all add: kmem_inv_def lockset_def)
  moreover have "page_ok 0x80100000 0x80400000"
    by (simp add: page_ok_def PGSIZE_def v2p_def KERNBASE_def PHYSTOP_def)
  ultimately show ?thesis by (intro exI [of _ ?s] kfree_then_kalloc) simp_all
qed

text \<open>C26: boot gives the allocator exactly the whole pages of the range: starting from an empty
  list, \<^verbatim>\<open>kinit1\<close> on a range that starts on a page boundary above the kernel and ends inside
  physical memory returns, and the free list is then the \<open>n\<close> pages that fit into the range,
  highest first, each one usable.\<close>

theorem kinit1_frees_whole_pages:
  assumes "PGROUNDUP vstart = p" "p mod PGSIZE = 0" "kend \<le> p" "KERNBASE \<le> p"
    and "unat p + 4096 * n \<le> unat vend" "unat vend < unat p + 4096 * (n + 1)" "unat vend \<le> unat (p2v PHYSTOP)"
    and "lockset [] s" and "freelist s = 0"
  shows "returns (kinit1 kend vstart vend s) (\<lambda>t. kmem_inv kend (rev (page_run p n)) t \<and>
     lockset [] t \<and> \<not> use_lock t \<and> (\<forall>x\<in>set (page_run p n). page_ok kend x))"
proof -
  have us: "\<forall>x\<in>set (page_run p n). page_ok kend x"
    using page_run_usable [of p kend n] assms by auto
  have top: "unat (p2v PHYSTOP) = 0x8E000000" by (simp add: p2v_def PHYSTOP_def KERNBASE_def)
  have "unat p \<ge> 0x80000000" using assms(4) by (simp add: KERNBASE_def word_le_nat_alt)
  then have n: "n < 2 ^ 20" using assms(5,7) top by simp
  let ?s = "(initlock LKmem s)\<lparr>use_lock := False\<rparr>"
  have l: "lockset [] ?s" using assms(8) by (auto simp: lockset_def initlock_def)
  have "freelist (initlock LKmem s) = freelist s" by (simp add: initlock_def)
  then have "kmem_inv kend [] ?s" using assms(9) by (simp add: kmem_inv_def)
  with freerange_loop_pages [OF n assms(7,5,6), of kend "[]" "[]" ?s] l us show ?thesis
    by (auto simp: kinit1_def freerange_def assms(1) Let_def elim!: returns_mono)
qed

theorem kinit1_frees_whole_pages_witness:
  "\<exists>s :: kmem_st. returns (kinit1 0x80100000 0x80100400 0x80104000 s) (\<lambda>t.
     kmem_inv 0x80100000 [0x80103000, 0x80102000, 0x80101000] t)"
proof -
  let ?s = "\<lparr>locks = \<lambda>_. \<lparr>locked = 0, holder = None\<rparr>, cpu = \<lparr>cpu_id = 0, ncli = 0, intena = False\<rparr>,
     IF = True, mem = \<lambda>_. 0, use_lock = True, freelist = 0\<rparr>"
  have p: "PGROUNDUP 0x80100400 = 0x80101000" by (simp add: PGROUNDUP_def PGSIZE_def)
  have l: "lockset [] ?s" by (simp add: lockset_def)
  have "page_run 0x80101000 3 = [0x80101000, 0x80102000, 0x80103000]"
    by (simp add: page_run_def upt_rec PGSIZE_def)
  then show ?thesis
    using kinit1_frees_whole_pages [OF p, where kend = "0x80100000" and n = 3 and vend = "0x80104000" and s = "?s"] l
    by (intro exI [of _ ?s])
      (auto simp: PGSIZE_def KERNBASE_def p2v_def PHYSTOP_def word_le_nat_alt elim!: returns_mono)
qed

end
