(* ===== verification/Vm.thy ===== *)
theory Vm
  imports Kalloc
begin

text \<open>
  Page tables (\<^verbatim>\<open>vm.c\<close>). Page directories and page tables are arrays of words in the byte
  store, reached by the kernel's own addresses, as in the source; a pointer to an entry is the
  address of the entry and 0 is the null pointer. The state gains the kernel's page directory
  and the page-table register. The linker symbols \<^verbatim>\<open>end\<close> and \<^verbatim>\<open>data\<close> are the parameters
  \<open>kend\<close> and \<open>kdata\<close>. Loops over addresses carry fuel: \<open>2 ^ 20 + 1\<close> rounds, one more than the
  address space has pages.
\<close>

record vm_st = kmem_st +
  kpgdir :: u32
  cr3 :: u32

section \<open>Walking and mapping\<close>

definition walkpgdir ::
  "u32 \<Rightarrow> u32 \<Rightarrow> bool \<Rightarrow> 'a vm_st_scheme \<Rightarrow> ('a vm_st_scheme, u32 \<times> 'a vm_st_scheme) kres" where
  "walkpgdir pgdir va alloc s =
     (let pde = pgdir + 4 * PDX va
      in if load32 (mem s) pde AND PTE_P \<noteq> 0
         then Inr (p2v (PTE_ADDR (load32 (mem s) pde)) + 4 * PTX va, s)
         else if \<not> alloc then Inr (0, s)
         else kbind (kalloc s) (\<lambda>(pgtab, s).
              if pgtab = 0 then Inr (0, s)
              else let s = s\<lparr>mem := memset pgtab 0 PGSIZE (mem s)\<rparr>;
                       s = s\<lparr>mem := store32 pde (v2p pgtab OR PTE_P OR PTE_W OR PTE_U) (mem s)\<rparr>
                   in Inr (pgtab + 4 * PTX va, s)))"

text \<open>The loop of \<^verbatim>\<open>mappages\<close>; the result is the C return value, 0 or -1.\<close>

fun mappages_loop ::
  "nat \<Rightarrow> u32 \<Rightarrow> u32 \<Rightarrow> u32 \<Rightarrow> u32 \<Rightarrow> u32 \<Rightarrow> 'a vm_st_scheme \<Rightarrow> ('a vm_st_scheme, int \<times> 'a vm_st_scheme) kres" where
  "mappages_loop 0 pgdir a lst pa perm s = Inl Diverge"
| "mappages_loop (Suc fuel) pgdir a lst pa perm s =
     kbind (walkpgdir pgdir a True s) (\<lambda>(pte, s).
     if pte = 0 then Inr (-1, s)
     else if load32 (mem s) pte AND PTE_P \<noteq> 0 then kpanic ''remap''
     else let s = s\<lparr>mem := store32 pte (pa OR perm OR PTE_P) (mem s)\<rparr>
          in if a = lst then Inr (0, s)
             else mappages_loop fuel pgdir (a + PGSIZE) lst (pa + PGSIZE) perm s)"

definition mappages ::
  "u32 \<Rightarrow> u32 \<Rightarrow> u32 \<Rightarrow> u32 \<Rightarrow> u32 \<Rightarrow> 'a vm_st_scheme \<Rightarrow> ('a vm_st_scheme, int \<times> 'a vm_st_scheme) kres" where
  "mappages pgdir va sz pa perm s =
     mappages_loop (2 ^ 20 + 1) pgdir (PGROUNDDOWN va) (PGROUNDDOWN (va + sz - 1)) pa perm s"

section \<open>The kernel's part of an address space\<close>

record kmap_entry =
  virt :: u32
  phys_start :: u32
  phys_end :: u32
  kperm :: u32

definition kmap :: "u32 \<Rightarrow> kmap_entry list" where
  "kmap kdata =
    [\<lparr>virt = KERNBASE, phys_start = 0, phys_end = EXTMEM, kperm = PTE_W\<rparr>,
     \<lparr>virt = KERNLINK, phys_start = v2p KERNLINK, phys_end = v2p kdata, kperm = 0\<rparr>,
     \<lparr>virt = kdata, phys_start = v2p kdata, phys_end = PHYSTOP, kperm = PTE_W\<rparr>,
     \<lparr>virt = DEVSPACE, phys_start = DEVSPACE, phys_end = 0, kperm = PTE_W\<rparr>]"

fun map_kernel ::
  "u32 \<Rightarrow> kmap_entry list \<Rightarrow> 'a vm_st_scheme \<Rightarrow> ('a vm_st_scheme, int \<times> 'a vm_st_scheme) kres" where
  "map_kernel pgdir [] s = Inr (0, s)"
| "map_kernel pgdir (k # ks) s =
     kbind (mappages pgdir (virt k) (phys_end k - phys_start k) (phys_start k) (kperm k) s) (\<lambda>(r, s).
     if r < 0 then Inr (-1, s) else map_kernel pgdir ks s)"

definition setupkvm :: "u32 \<Rightarrow> 'a vm_st_scheme \<Rightarrow> ('a vm_st_scheme, u32 \<times> 'a vm_st_scheme) kres" where
  "setupkvm kdata s =
     kbind (kalloc s) (\<lambda>(pgdir, s).
     if pgdir = 0 then Inr (0, s)
     else let s = s\<lparr>mem := memset pgdir 0 PGSIZE (mem s)\<rparr>
          in if p2v PHYSTOP > DEVSPACE then kpanic ''PHYSTOP too high''
             else kbind (map_kernel pgdir (kmap kdata) s) (\<lambda>(r, s).
                  if r < 0 then Inr (0, s) else Inr (pgdir, s)))"

definition switchkvm :: "'a vm_st_scheme \<Rightarrow> 'a vm_st_scheme" where
  "switchkvm s = s\<lparr>cr3 := v2p (kpgdir s)\<rparr>"

definition kvmalloc :: "u32 \<Rightarrow> 'a vm_st_scheme \<Rightarrow> ('a vm_st_scheme, 'a vm_st_scheme) kres" where
  "kvmalloc kdata s =
     kbind (setupkvm kdata s) (\<lambda>(pgdir, s). Inr (switchkvm (s\<lparr>kpgdir := pgdir\<rparr>)))"

section \<open>User memory\<close>

fun store_bytes :: "u32 \<Rightarrow> u8 list \<Rightarrow> mem \<Rightarrow> mem" where
  "store_bytes a [] m = m"
| "store_bytes a (b # bs) m = store_bytes (a + 1) bs (m(a := b))"

text \<open>\<^verbatim>\<open>inituvm\<close>: the result of \<^verbatim>\<open>kalloc\<close> is used unchecked and that of \<^verbatim>\<open>mappages\<close> is
  ignored; clearing a null page is an access C leaves undefined.\<close>

definition inituvm ::
  "u32 \<Rightarrow> u8 list \<Rightarrow> 'a vm_st_scheme \<Rightarrow> ('a vm_st_scheme, 'a vm_st_scheme) kres" where
  "inituvm pgdir ini s =
     (if length ini \<ge> 4096 then kpanic ''inituvm: more than a page''
      else kbind (kalloc s) (\<lambda>(m, s).
           if m = 0 then Inl (Fault ''inituvm: null page'')
           else let s = s\<lparr>mem := memset m 0 PGSIZE (mem s)\<rparr>
                in kbind (mappages pgdir 0 PGSIZE (v2p m) (PTE_W OR PTE_U) s) (\<lambda>(_, s).
                   Inr (s\<lparr>mem := store_bytes m ini (mem s)\<rparr>))))"

fun deallocuvm_loop ::
  "nat \<Rightarrow> u32 \<Rightarrow> u32 \<Rightarrow> u32 \<Rightarrow> u32 \<Rightarrow> 'a vm_st_scheme \<Rightarrow> ('a vm_st_scheme, 'a vm_st_scheme) kres" where
  "deallocuvm_loop 0 kend pgdir a oldsz s = Inl Diverge"
| "deallocuvm_loop (Suc fuel) kend pgdir a oldsz s =
     (if a < oldsz
      then kbind (walkpgdir pgdir a False s) (\<lambda>(pte, s).
           if pte = 0
           then deallocuvm_loop fuel kend pgdir (a + (NPTENTRIES - 1) * PGSIZE + PGSIZE) oldsz s
           else if load32 (mem s) pte AND PTE_P \<noteq> 0
           then let pa = PTE_ADDR (load32 (mem s) pte)
                in if pa = 0 then kpanic ''kfree''
                   else kbind (kfree kend (p2v pa) s) (\<lambda>s.
                        deallocuvm_loop fuel kend pgdir (a + PGSIZE) oldsz
                          (s\<lparr>mem := store32 pte 0 (mem s)\<rparr>))
           else deallocuvm_loop fuel kend pgdir (a + PGSIZE) oldsz s)
      else Inr s)"

definition deallocuvm ::
  "u32 \<Rightarrow> u32 \<Rightarrow> u32 \<Rightarrow> u32 \<Rightarrow> 'a vm_st_scheme \<Rightarrow> ('a vm_st_scheme, u32 \<times> 'a vm_st_scheme) kres" where
  "deallocuvm kend pgdir oldsz newsz s =
     (if newsz \<ge> oldsz then Inr (oldsz, s)
      else kbind (deallocuvm_loop (2 ^ 20 + 1) kend pgdir (PGROUNDUP newsz) oldsz s) (\<lambda>s.
           Inr (newsz, s)))"

fun allocuvm_loop ::
  "nat \<Rightarrow> u32 \<Rightarrow> u32 \<Rightarrow> u32 \<Rightarrow> u32 \<Rightarrow> u32 \<Rightarrow> 'a vm_st_scheme \<Rightarrow> ('a vm_st_scheme, u32 \<times> 'a vm_st_scheme) kres" where
  "allocuvm_loop 0 kend pgdir a oldsz newsz s = Inl Diverge"
| "allocuvm_loop (Suc fuel) kend pgdir a oldsz newsz s =
     (if a < newsz
      then kbind (kalloc s) (\<lambda>(m, s).
           if m = 0
           then kbind (deallocuvm kend pgdir newsz oldsz s) (\<lambda>(_, s). Inr (0, s))
           else let s = s\<lparr>mem := memset m 0 PGSIZE (mem s)\<rparr>
                in kbind (mappages pgdir a PGSIZE (v2p m) (PTE_W OR PTE_U) s) (\<lambda>(_, s).
                   allocuvm_loop fuel kend pgdir (a + PGSIZE) oldsz newsz s))
      else Inr (newsz, s))"

definition allocuvm ::
  "u32 \<Rightarrow> u32 \<Rightarrow> u32 \<Rightarrow> u32 \<Rightarrow> 'a vm_st_scheme \<Rightarrow> ('a vm_st_scheme, u32 \<times> 'a vm_st_scheme) kres" where
  "allocuvm kend pgdir oldsz newsz s =
     (if newsz \<ge> KERNBASE then Inr (0, s)
      else if newsz < oldsz then Inr (oldsz, s)
      else allocuvm_loop (2 ^ 20 + 1) kend pgdir (PGROUNDUP oldsz) oldsz newsz s)"

fun free_tables ::
  "u32 \<Rightarrow> u32 \<Rightarrow> nat list \<Rightarrow> 'a vm_st_scheme \<Rightarrow> ('a vm_st_scheme, 'a vm_st_scheme) kres" where
  "free_tables kend pgdir [] s = Inr s"
| "free_tables kend pgdir (i # is) s =
     (let pde = load32 (mem s) (pgdir + 4 * of_nat i)
      in if pde AND PTE_P \<noteq> 0
         then kbind (kfree kend (p2v (PTE_ADDR pde)) s) (free_tables kend pgdir is)
         else free_tables kend pgdir is s)"

definition freevm :: "u32 \<Rightarrow> u32 \<Rightarrow> 'a vm_st_scheme \<Rightarrow> ('a vm_st_scheme, 'a vm_st_scheme) kres" where
  "freevm kend pgdir s =
     (if pgdir = 0 then kpanic ''freevm: no pgdir''
      else kbind (deallocuvm kend pgdir KERNBASE 0 s) (\<lambda>(_, s).
           kbind (free_tables kend pgdir [0..<NPDENTRIES] s) (\<lambda>s.
           kfree kend pgdir s)))"

definition clearpteu :: "u32 \<Rightarrow> u32 \<Rightarrow> 'a vm_st_scheme \<Rightarrow> ('a vm_st_scheme, 'a vm_st_scheme) kres" where
  "clearpteu pgdir uva s =
     kbind (walkpgdir pgdir uva False s) (\<lambda>(pte, s).
     if pte = 0 then kpanic ''clearpteu''
     else Inr (s\<lparr>mem := store32 pte (load32 (mem s) pte AND NOT PTE_U) (mem s)\<rparr>))"

fun copyuvm_loop ::
  "nat \<Rightarrow> u32 \<Rightarrow> u32 \<Rightarrow> u32 \<Rightarrow> u32 \<Rightarrow> u32 \<Rightarrow> 'a vm_st_scheme \<Rightarrow> ('a vm_st_scheme, u32 \<times> 'a vm_st_scheme) kres" where
  "copyuvm_loop 0 kend pgdir d i sz s = Inl Diverge"
| "copyuvm_loop (Suc fuel) kend pgdir d i sz s =
     (if i < sz
      then kbind (walkpgdir pgdir i False s) (\<lambda>(pte, s).
           if pte = 0 then kpanic ''copyuvm: pte should exist''
           else if load32 (mem s) pte AND PTE_P = 0 then kpanic ''copyuvm: page not present''
           else let pa = PTE_ADDR (load32 (mem s) pte);
                    fl = PTE_FLAGS (load32 (mem s) pte)
                in kbind (kalloc s) (\<lambda>(m, s).
                   if m = 0 then kbind (freevm kend d s) (\<lambda>s. Inr (0, s))
                   else let s = s\<lparr>mem := memmove m (p2v pa) PGSIZE (mem s)\<rparr>
                        in kbind (mappages d i PGSIZE (v2p m) fl s) (\<lambda>(r, s).
                           if r < 0 then kbind (freevm kend d s) (\<lambda>s. Inr (0, s))
                           else copyuvm_loop fuel kend pgdir d (i + PGSIZE) sz s)))
      else Inr (d, s))"

definition copyuvm ::
  "u32 \<Rightarrow> u32 \<Rightarrow> u32 \<Rightarrow> u32 \<Rightarrow> 'a vm_st_scheme \<Rightarrow> ('a vm_st_scheme, u32 \<times> 'a vm_st_scheme) kres" where
  "copyuvm kend kdata pgdir sz s =
     kbind (setupkvm kdata s) (\<lambda>(d, s).
     if d = 0 then Inr (0, s) else copyuvm_loop (2 ^ 20 + 1) kend pgdir d 0 sz s)"

text \<open>\<^verbatim>\<open>uva2ka\<close> reads the entry without looking whether \<^verbatim>\<open>walkpgdir\<close> found one.\<close>

definition uva2ka :: "u32 \<Rightarrow> u32 \<Rightarrow> 'a vm_st_scheme \<Rightarrow> ('a vm_st_scheme, u32 \<times> 'a vm_st_scheme) kres" where
  "uva2ka pgdir uva s =
     kbind (walkpgdir pgdir uva False s) (\<lambda>(pte, s).
     if pte = 0 then Inl (Fault ''uva2ka: null entry'')
     else if load32 (mem s) pte AND PTE_P = 0 then Inr (0, s)
     else if load32 (mem s) pte AND PTE_U = 0 then Inr (0, s)
     else Inr (p2v (PTE_ADDR (load32 (mem s) pte)), s))"

text \<open>\<^verbatim>\<open>copyout\<close> with the bytes to copy as a list; each round copies at least one byte, so
  the fuel is the length of the list.\<close>

fun copyout_loop ::
  "nat \<Rightarrow> u32 \<Rightarrow> u32 \<Rightarrow> u8 list \<Rightarrow> 'a vm_st_scheme \<Rightarrow> ('a vm_st_scheme, int \<times> 'a vm_st_scheme) kres" where
  "copyout_loop fuel pgdir va [] s = Inr (0, s)"
| "copyout_loop 0 pgdir va (b # bs) s = Inl Diverge"
| "copyout_loop (Suc fuel) pgdir va (b # bs) s =
     (let va0 = PGROUNDDOWN va
      in kbind (uva2ka pgdir va0 s) (\<lambda>(pa0, s).
         if pa0 = 0 then Inr (-1, s)
         else let n = min (unat (PGSIZE - (va - va0))) (length (b # bs));
                  s = s\<lparr>mem := store_bytes (pa0 + (va - va0)) (take n (b # bs)) (mem s)\<rparr>
              in copyout_loop fuel pgdir (va0 + PGSIZE) (drop n (b # bs)) s))"

definition copyout ::
  "u32 \<Rightarrow> u32 \<Rightarrow> u8 list \<Rightarrow> 'a vm_st_scheme \<Rightarrow> ('a vm_st_scheme, int \<times> 'a vm_st_scheme) kres" where
  "copyout pgdir va buf s = copyout_loop (length buf) pgdir va buf s"

section \<open>Access through the page table\<close>

text \<open>What the processor does for an access to a virtual address: the kernel's address of the
  byte, if both entries are present and, for a store, writable. An access that finds no mapping
  is a page fault, which in the kernel is fatal.\<close>

definition va_ka :: "bool \<Rightarrow> mem \<Rightarrow> u32 \<Rightarrow> u32 \<Rightarrow> u32 option" where
  "va_ka wr m pgdir va =
     (let pde = load32 m (pgdir + 4 * PDX va)
      in if pde AND PTE_P = 0 \<or> (wr \<and> pde AND PTE_W = 0) then None
         else let pte = load32 m (p2v (PTE_ADDR pde) + 4 * PTX va)
              in if pte AND PTE_P = 0 \<or> (wr \<and> pte AND PTE_W = 0) then None
                 else Some (p2v (PTE_ADDR pte) + (va AND 0xFFF)))"

fun store_va :: "u32 \<Rightarrow> u8 list \<Rightarrow> 'a vm_st_scheme \<Rightarrow> ('a vm_st_scheme, 'a vm_st_scheme) kres" where
  "store_va va [] s = Inr s"
| "store_va va (b # bs) s =
     (case va_ka True (mem s) (p2v (cr3 s)) va of None \<Rightarrow> Inl (Fault ''page fault'')
      | Some a \<Rightarrow> store_va (va + 1) bs (s\<lparr>mem := (mem s)(a := b)\<rparr>))"

fun load_va :: "u32 \<Rightarrow> nat \<Rightarrow> 'a vm_st_scheme \<Rightarrow> u8 list option" where
  "load_va va 0 s = Some []"
| "load_va va (Suc n) s =
     (case va_ka False (mem s) (p2v (cr3 s)) va of None \<Rightarrow> None
      | Some a \<Rightarrow> map_option (\<lambda>bs. mem s a # bs) (load_va (va + 1) n s))"

section \<open>Frame lemmas\<close>

lemma vm_frame [simp]:
  "kpgdir (acq lk s) = kpgdir s" "cr3 (acq lk s) = cr3 s" "kpgdir (rel lk s) = kpgdir s" "cr3 (rel lk s) = cr3 s"
  "vm_st.more (acq lk s) = vm_st.more s" "vm_st.more (rel lk s) = vm_st.more s"
  by (simp_all add: acq_def rel_def pushcli_def Let_def)

lemma lockset_vm [simp]:
  "lockset L (s\<lparr>kpgdir := x\<rparr>) = lockset L s" "lockset L (s\<lparr>cr3 := x\<rparr>) = lockset L s"
  by (simp_all add: lockset_def)

end
