(* ===== verification/Ptable.thy ===== *)
theory Ptable
  imports Vm "HOL-Library.While_Combinator"
begin

text \<open>
  The process table, the scheduler, sleep and wakeup, \<^verbatim>\<open>kill\<close>, \<^verbatim>\<open>setprio\<close>, and the parts of
  \<^verbatim>\<open>exit\<close>, \<^verbatim>\<open>wait\<close> and \<^verbatim>\<open>waitpid\<close> that run under \<^verbatim>\<open>ptable.lock\<close> (\<^verbatim>\<open>proc.c\<close>). A pointer to
  a process is its index in the table; counters that C keeps as \<^verbatim>\<open>int\<close> are integers.

  A context switch ends a routine: \<open>Switch s\<close> is the state in which \<^verbatim>\<open>swtch\<close> leaves the
  process. What the process does when it is scheduled again is a definition of its own
  (\<open>sleep_resume\<close>, \<open>wait_resume\<close>, \<open>waitpid_resume\<close>, \<open>yield_resume\<close>), which starts from the
  state at that time.
\<close>

section \<open>Data\<close>

definition NPROC :: nat where "NPROC = 64"
definition KSTACKSIZE :: u32 where "KSTACKSIZE = 4096"
definition NOFILE :: nat where "NOFILE = 16"

datatype procstate = UNUSED | EMBRYO | SLEEPING | RUNNABLE | RUNNING | ZOMBIE

record proc =
  p_sz :: u32
  p_pgdir :: u32
  p_kstack :: u32
  p_state :: procstate
  p_pid :: int
  p_parent :: "nat option"
  p_tf :: u32
  p_context :: u32
  p_chan :: "chan option"
  p_killed :: bool
  p_ofile :: "nat option list"
  p_cwd :: "nat option"
  p_name :: "u8 list"
  p_est :: int
  p_cur_index :: int
  p_prio :: int

record proc_st = vm_st +
  procs :: "proc list"
  curproc :: "nat option"
  initproc :: "nat option"
  nextpid :: int
  ts_ss0 :: u16
  ts_esp0 :: u32

text \<open>\<^verbatim>\<open>p->field = v\<close> for the process of index \<open>i\<close>.\<close>

definition upd_proc :: "nat \<Rightarrow> (proc \<Rightarrow> proc) \<Rightarrow> 'a proc_st_scheme \<Rightarrow> 'a proc_st_scheme" where
  "upd_proc i f s = s\<lparr>procs := (procs s)[i := f (procs s ! i)]\<rparr>"

section \<open>Context switches\<close>

definition pinit :: "'a proc_st_scheme \<Rightarrow> 'a proc_st_scheme" where
  "pinit s = initlock LPtable s"

text \<open>\<^verbatim>\<open>switchuvm\<close> (\<^verbatim>\<open>vm.c\<close>): the task state's stack is that of the current process, the page
  table that of the argument. The descriptor that tells the CPU where the task state is has
  always the same value.\<close>

definition switchuvm :: "nat \<Rightarrow> 'a proc_st_scheme \<Rightarrow> ('a proc_st_scheme, 'a proc_st_scheme) kres" where
  "switchuvm p s =
     (let s = pushcli s;
          s = s\<lparr>ts_ss0 := 16\<rparr>
      in case curproc s of None \<Rightarrow> Inl (Fault ''switchuvm: no current process'')
         | Some c \<Rightarrow>
           let s = s\<lparr>ts_esp0 := p_kstack (procs s ! c) + KSTACKSIZE\<rparr>
           in if p_pgdir (procs s ! p) = 0 then kpanic ''switchuvm: no pgdir''
              else popcli (s\<lparr>cr3 := v2p (p_pgdir (procs s ! p))\<rparr>))"

definition sched :: "'a proc_st_scheme \<Rightarrow> ('a proc_st_scheme, 'b) kres" where
  "sched s =
     (if \<not> holding LPtable s then kpanic ''sched ptable.lock''
      else if ncli (cpu s) \<noteq> 1 then kpanic ''sched locks''
      else case curproc s of None \<Rightarrow> Inl (Fault ''sched: no current process'')
      | Some c \<Rightarrow>
        if p_state (procs s ! c) = RUNNING then kpanic ''sched running''
        else if IF s then kpanic ''sched interruptible''
        else Inl (Switch s))"

text \<open>What \<^verbatim>\<open>sched\<close> does when it is resumed: it restores the flag it saved.\<close>

definition sched_resume :: "bool \<Rightarrow> 'a proc_st_scheme \<Rightarrow> 'a proc_st_scheme" where
  "sched_resume saved s = s\<lparr>cpu := (cpu s)\<lparr>intena := saved\<rparr>\<rparr>"

text \<open>The scheduler's choice: \<^verbatim>\<open>hp\<close> starts as the process the outer loop is at and moves to
  every runnable process of higher priority.\<close>

definition sched_pick :: "proc list \<Rightarrow> nat \<Rightarrow> nat" where
  "sched_pick ps p =
     fold (\<lambda>pp hp. if p_state (ps ! pp) \<noteq> RUNNABLE then hp
                   else if p_prio (ps ! hp) < p_prio (ps ! pp) then pp else hp) [0..<length ps] p"

text \<open>The outer loop from index \<open>i\<close> on, up to the switch to the chosen process (\<open>Some\<close>) or to
  the end of the table (\<open>None\<close>).\<close>

definition scheduler_from ::
  "nat \<Rightarrow> 'a proc_st_scheme \<Rightarrow> ('a proc_st_scheme, nat option \<times> 'a proc_st_scheme) kres" where
  "scheduler_from i s =
     (case List.find (\<lambda>p. p_state (procs s ! p) = RUNNABLE) [i..<length (procs s)] of
        None \<Rightarrow> kbind (release LPtable s) (\<lambda>s. Inr (None, s))
      | Some p \<Rightarrow>
        let hp = sched_pick (procs s) p; s = s\<lparr>curproc := Some hp\<rparr>
        in kbind (switchuvm hp s) (\<lambda>s. Inr (Some hp, upd_proc hp (p_state_update (\<lambda>_. RUNNING)) s)))"

definition scheduler ::
  "'a proc_st_scheme \<Rightarrow> ('a proc_st_scheme, nat option \<times> 'a proc_st_scheme) kres" where
  "scheduler s = kbind (acquire LPtable (s\<lparr>IF := True\<rparr>)) (scheduler_from 0)"

text \<open>The process \<open>hp\<close> has switched back: the loop goes on behind it.\<close>

definition scheduler_resume ::
  "nat \<Rightarrow> 'a proc_st_scheme \<Rightarrow> ('a proc_st_scheme, nat option \<times> 'a proc_st_scheme) kres" where
  "scheduler_resume hp s = scheduler_from (Suc hp) ((switchkvm s)\<lparr>curproc := None\<rparr>)"

definition yield :: "'a proc_st_scheme \<Rightarrow> ('a proc_st_scheme, 'b) kres" where
  "yield s =
     kbind (acquire LPtable s) (\<lambda>s. case curproc s of None \<Rightarrow> Inl (Fault ''yield: no current process'')
     | Some c \<Rightarrow> sched (upd_proc c (p_state_update (\<lambda>_. RUNNABLE)) s))"

definition yield_resume :: "bool \<Rightarrow> 'a proc_st_scheme \<Rightarrow> ('a proc_st_scheme, 'a proc_st_scheme) kres" where
  "yield_resume saved s = release LPtable (sched_resume saved s)"

text \<open>\<^verbatim>\<open>setprio\<close>: the loop changes the first process with the caller's pid.\<close>

definition clamp_prio :: "int \<Rightarrow> int" where
  "clamp_prio v = (if v \<ge> 0 \<and> v \<le> 63 then v else if v < 0 then 0 else 63)"

definition setprio :: "int \<Rightarrow> 'a proc_st_scheme \<Rightarrow> ('a proc_st_scheme, 'b) kres" where
  "setprio v s =
     kbind (acquire LPtable s) (\<lambda>s. case curproc s of None \<Rightarrow> Inl (Fault ''setprio: no current process'')
     | Some c \<Rightarrow>
       (case List.find (\<lambda>p. p_pid (procs s ! p) = p_pid (procs s ! c)) [0..<length (procs s)] of
          None \<Rightarrow> sched s
        | Some p \<Rightarrow> sched (upd_proc p (\<lambda>q. q\<lparr>p_prio := clamp_prio v, p_state := RUNNABLE\<rparr>) s)))"

definition setprio_resume :: "bool \<Rightarrow> 'a proc_st_scheme \<Rightarrow> ('a proc_st_scheme, 'a proc_st_scheme) kres" where
  "setprio_resume saved s = release LPtable (sched_resume saved s)"

section \<open>Sleep and wakeup\<close>

definition sleep :: "chan \<Rightarrow> lockid \<Rightarrow> 'a proc_st_scheme \<Rightarrow> ('a proc_st_scheme, 'b) kres" where
  "sleep ch lk s =
     (case curproc s of None \<Rightarrow> kpanic ''sleep''
      | Some c \<Rightarrow>
        kbind (if lk \<noteq> LPtable then kbind (acquire LPtable s) (release lk) else Inr s) (\<lambda>s.
        sched (upd_proc c (\<lambda>q. q\<lparr>p_chan := Some ch, p_state := SLEEPING\<rparr>) s)))"

definition sleep_resume ::
  "bool \<Rightarrow> lockid \<Rightarrow> 'a proc_st_scheme \<Rightarrow> ('a proc_st_scheme, 'a proc_st_scheme) kres" where
  "sleep_resume saved lk s =
     (let s = sched_resume saved s
      in case curproc s of None \<Rightarrow> Inl (Fault ''sleep: no current process'')
         | Some c \<Rightarrow>
           let s = upd_proc c (p_chan_update (\<lambda>_. None)) s
           in if lk \<noteq> LPtable then kbind (release LPtable s) (acquire lk) else Inr s)"

definition awaken :: "chan option \<Rightarrow> proc \<Rightarrow> proc" where
  "awaken ch p = (if p_state p = SLEEPING \<and> p_chan p = ch then p\<lparr>p_state := RUNNABLE\<rparr> else p)"

definition wakeup1 :: "chan option \<Rightarrow> 'a proc_st_scheme \<Rightarrow> 'a proc_st_scheme" where
  "wakeup1 ch s = s\<lparr>procs := map (awaken ch) (procs s)\<rparr>"

definition wakeup :: "chan \<Rightarrow> 'a proc_st_scheme \<Rightarrow> ('a proc_st_scheme, 'a proc_st_scheme) kres" where
  "wakeup ch s = kbind (acquire LPtable s) (\<lambda>s. release LPtable (wakeup1 (Some ch) s))"

text \<open>\<^verbatim>\<open>wakeuppid\<close> also takes one off the counter of the process it is given for every sleeper
  it wakes.\<close>

definition wakeuppid :: "nat \<Rightarrow> proc list \<Rightarrow> proc list" where
  "wakeuppid i ps =
     fold (\<lambda>j ps.
       if p_state (ps ! j) = SLEEPING \<and> p_chan (ps ! j) = Some (ChProc i)
       then let ps = ps[j := (ps ! j)\<lparr>p_state := RUNNABLE\<rparr>]
            in ps[i := (ps ! i)\<lparr>p_cur_index := p_cur_index (ps ! i) - 1\<rparr>]
       else ps) [0..<length ps] ps"

definition kill :: "int \<Rightarrow> 'a proc_st_scheme \<Rightarrow> ('a proc_st_scheme, int \<times> 'a proc_st_scheme) kres" where
  "kill pid s =
     kbind (acquire LPtable s) (\<lambda>s.
     case List.find (\<lambda>p. p_pid (procs s ! p) = pid) [0..<length (procs s)] of
       None \<Rightarrow> kbind (release LPtable s) (\<lambda>s. Inr (-1, s))
     | Some p \<Rightarrow>
       let s = upd_proc p (\<lambda>q. q\<lparr>p_killed := True,
                 p_state := (if p_state q = SLEEPING then RUNNABLE else p_state q)\<rparr>) s
       in kbind (release LPtable s) (\<lambda>s. Inr (0, s)))"

section \<open>Creating a process\<close>

definition sizeof_tf :: u32 where "sizeof_tf = 76"
definition sizeof_context :: u32 where "sizeof_context = 20"

text \<open>\<open>forkret\<close> and \<open>trapret\<close> are the addresses of the two entry points.\<close>

definition allocproc ::
  "u32 \<Rightarrow> u32 \<Rightarrow> 'a proc_st_scheme \<Rightarrow> ('a proc_st_scheme, nat option \<times> 'a proc_st_scheme) kres" where
  "allocproc forkret trapret s =
     kbind (acquire LPtable s) (\<lambda>s.
     case List.find (\<lambda>p. p_state (procs s ! p) = UNUSED) [0..<length (procs s)] of
       None \<Rightarrow> kbind (release LPtable s) (\<lambda>s. Inr (None, s))
     | Some p \<Rightarrow>
       let s = upd_proc p (\<lambda>q. q\<lparr>p_prio := 1, p_cur_index := 0, p_state := EMBRYO, p_pid := nextpid s\<rparr>) s;
           s = s\<lparr>nextpid := nextpid s + 1\<rparr>
       in kbind (release LPtable s) (\<lambda>s.
          kbind (kalloc s) (\<lambda>(k, s).
          let s = upd_proc p (p_kstack_update (\<lambda>_. k)) s
          in if k = 0 then Inr (None, upd_proc p (p_state_update (\<lambda>_. UNUSED)) s)
             else let sp = k + KSTACKSIZE - sizeof_tf;
                      s = upd_proc p (p_tf_update (\<lambda>_. sp)) s;
                      sp = sp - 4;
                      s = s\<lparr>mem := store32 sp trapret (mem s)\<rparr>;
                      sp = sp - sizeof_context;
                      s = upd_proc p (p_context_update (\<lambda>_. sp)) s;
                      s = s\<lparr>mem := memset sp 0 sizeof_context (mem s)\<rparr>;
                      s = s\<lparr>mem := store32 (sp + 16) forkret (mem s)\<rparr>
                  in Inr (Some p, s))))"

definition growproc ::
  "u32 \<Rightarrow> int \<Rightarrow> 'a proc_st_scheme \<Rightarrow> ('a proc_st_scheme, int \<times> 'a proc_st_scheme) kres" where
  "growproc kend n s =
     (case curproc s of None \<Rightarrow> Inl (Fault ''growproc: no current process'')
      | Some c \<Rightarrow>
        let sz = p_sz (procs s ! c); pgdir = p_pgdir (procs s ! c);
            finish = (\<lambda>sz s. kbind (switchuvm c (upd_proc c (p_sz_update (\<lambda>_. sz)) s)) (\<lambda>s. Inr (0, s)))
        in if n > 0 then kbind (allocuvm kend pgdir sz (sz + of_int n) s) (\<lambda>(sz, s).
             if sz = 0 then Inr (-1, s) else finish sz s)
           else if n < 0 then kbind (deallocuvm kend pgdir sz (sz + of_int n) s) (\<lambda>(sz, s).
             if sz = 0 then Inr (-1, s) else finish sz s)
           else finish sz s)"

section \<open>Exit and wait\<close>

text \<open>The loop \<^verbatim>\<open>while(proc->cur_index > 0) wakeuppid(proc)\<close>; \<open>None\<close> if it never ends.\<close>

definition wake_waiters :: "nat \<Rightarrow> proc list \<Rightarrow> proc list option" where
  "wake_waiters c = while_option (\<lambda>ps. p_cur_index (ps ! c) > 0) (wakeuppid c)"

text \<open>The loop that gives the children to init; the wakeup of init happens inside the loop.\<close>

definition adopt :: "nat \<Rightarrow> nat option \<Rightarrow> proc list \<Rightarrow> proc list" where
  "adopt c ini ps =
     fold (\<lambda>j ps.
       if p_parent (ps ! j) = Some c
       then let ps = ps[j := (ps ! j)\<lparr>p_parent := ini\<rparr>]
            in if p_state (ps ! j) = ZOMBIE then map (awaken (map_option ChProc ini)) ps else ps
       else ps) [0..<length ps] ps"

text \<open>\<^verbatim>\<open>exit\<close> from \<^verbatim>\<open>acquire(&ptable.lock)\<close> on, for the current process \<open>c\<close>.\<close>

definition exit_locked :: "nat \<Rightarrow> int \<Rightarrow> 'a proc_st_scheme \<Rightarrow> ('a proc_st_scheme, unit) kres" where
  "exit_locked c st s =
     kbind (acquire LPtable s) (\<lambda>s.
     let s = wakeup1 (map_option ChProc (p_parent (procs s ! c))) s;
         s = upd_proc c (p_est_update (\<lambda>_. st)) s
     in case wake_waiters c (procs s) of None \<Rightarrow> Inl Diverge
        | Some ps \<Rightarrow>
          let s = s\<lparr>procs := adopt c (initproc s) ps\<rparr>
          in sched (upd_proc c (p_state_update (\<lambda>_. ZOMBIE)) s))"

text \<open>What \<^verbatim>\<open>wait\<close> and \<^verbatim>\<open>waitpid\<close> do with a zombie: the stack and the address space go back
  to the allocator and the slot is free.\<close>

definition reap :: "u32 \<Rightarrow> nat \<Rightarrow> 'a proc_st_scheme \<Rightarrow> ('a proc_st_scheme, 'a proc_st_scheme) kres" where
  "reap kend p s =
     kbind (kfree kend (p_kstack (procs s ! p)) s) (\<lambda>s.
     let s = upd_proc p (p_kstack_update (\<lambda>_. 0)) s
     in kbind (freevm kend (p_pgdir (procs s ! p)) s) (\<lambda>s.
        Inr (upd_proc p (\<lambda>q. q\<lparr>p_state := UNUSED, p_pid := 0, p_parent := None,
               p_name := (p_name q)[0 := 0], p_killed := False\<rparr>) s)))"

definition put_status :: "u32 \<Rightarrow> int \<Rightarrow> 'a proc_st_scheme \<Rightarrow> ('a proc_st_scheme, 'a proc_st_scheme) kres" where
  "put_status st v s = (if st \<noteq> 0 then store_va st (le32 (of_int v)) s else Inr s)"

text \<open>One round of \<^verbatim>\<open>wait\<close>'s loop: it returns the child's pid, returns -1, or sleeps.\<close>

definition wait_round ::
  "u32 \<Rightarrow> u32 \<Rightarrow> 'a proc_st_scheme \<Rightarrow> ('a proc_st_scheme, int \<times> 'a proc_st_scheme) kres" where
  "wait_round kend st s =
     (case curproc s of None \<Rightarrow> Inl (Fault ''wait: no current process'')
      | Some c \<Rightarrow>
        case List.find (\<lambda>p. p_parent (procs s ! p) = Some c \<and> p_state (procs s ! p) = ZOMBIE)
               [0..<length (procs s)] of
          Some p \<Rightarrow>
            let pid = p_pid (procs s ! p)
            in kbind (reap kend p s) (\<lambda>s.
               kbind (put_status st (p_est (procs s ! p)) s) (\<lambda>s.
               kbind (release LPtable s) (\<lambda>s. Inr (pid, s))))
        | None \<Rightarrow>
            if \<not> list_ex (\<lambda>q. p_parent q = Some c) (procs s) \<or> p_killed (procs s ! c)
            then kbind (put_status st (-1) s) (\<lambda>s.
                 kbind (release LPtable s) (\<lambda>s. Inr (-1, s)))
            else sleep (ChProc c) LPtable s)"

definition wait ::
  "u32 \<Rightarrow> u32 \<Rightarrow> 'a proc_st_scheme \<Rightarrow> ('a proc_st_scheme, int \<times> 'a proc_st_scheme) kres" where
  "wait kend st s = kbind (acquire LPtable s) (wait_round kend st)"

definition wait_resume ::
  "bool \<Rightarrow> u32 \<Rightarrow> u32 \<Rightarrow> 'a proc_st_scheme \<Rightarrow> ('a proc_st_scheme, int \<times> 'a proc_st_scheme) kres" where
  "wait_resume saved kend st s = kbind (sleep_resume saved LPtable s) (wait_round kend st)"

text \<open>\<^verbatim>\<open>waitpid\<close>'s inner loop from index \<open>i\<close> on, and one round of the outer loop, which ends in
  a return or in another round (\<open>Inr None\<close>). The inner loop sleeps on the process it waits for.\<close>

definition waitpid_from ::
  "u32 \<Rightarrow> int \<Rightarrow> u32 \<Rightarrow> bool \<Rightarrow> nat \<Rightarrow> 'a proc_st_scheme \<Rightarrow> ('a proc_st_scheme, int option \<times> 'a proc_st_scheme) kres" where
  "waitpid_from kend pid st found i s =
     (case curproc s of None \<Rightarrow> Inl (Fault ''waitpid: no current process'')
      | Some c \<Rightarrow>
        case List.find (\<lambda>p. p_pid (procs s ! p) = pid) [i..<length (procs s)] of
          Some p \<Rightarrow>
            if p_state (procs s ! p) = ZOMBIE
            then kbind (reap kend p s) (\<lambda>s.
                 kbind (put_status st (p_est (procs s ! p)) s) (\<lambda>s.
                 kbind (release LPtable s) (\<lambda>s. Inr (Some pid, s))))
            else if p_state (procs s ! p) = UNUSED
            then kbind (put_status st (p_est (procs s ! p)) s) (\<lambda>s.
                 kbind (release LPtable s) (\<lambda>s. Inr (Some pid, s)))
            else sleep (ChProc p) LPtable
                   (upd_proc p (\<lambda>q. q\<lparr>p_cur_index := p_cur_index q + 1\<rparr>) s)
        | None \<Rightarrow>
            if \<not> found \<or> p_killed (procs s ! c)
            then kbind (put_status st (-1) s) (\<lambda>s.
                 kbind (release LPtable s) (\<lambda>s. Inr (Some (-1), s)))
            else Inr (None, s))"

text \<open>A new round of the outer loop finds the pid, and then returns or sleeps, or does not find
  it, and then returns: there is no second round in a row.\<close>

definition waitpid_round ::
  "u32 \<Rightarrow> int \<Rightarrow> u32 \<Rightarrow> 'a proc_st_scheme \<Rightarrow> ('a proc_st_scheme, int option \<times> 'a proc_st_scheme) kres" where
  "waitpid_round kend pid st s = waitpid_from kend pid st False 0 s"

definition waitpid ::
  "u32 \<Rightarrow> int \<Rightarrow> u32 \<Rightarrow> int \<Rightarrow> 'a proc_st_scheme \<Rightarrow> ('a proc_st_scheme, int option \<times> 'a proc_st_scheme) kres" where
  "waitpid kend pid st op s = kbind (acquire LPtable s) (waitpid_round kend pid st)"

text \<open>Resumption after the sleep on the process of index \<open>p\<close>: the inner loop goes on behind
  it, and if that ends without a result the outer loop starts again.\<close>

definition waitpid_resume ::
  "bool \<Rightarrow> u32 \<Rightarrow> int \<Rightarrow> u32 \<Rightarrow> nat \<Rightarrow> 'a proc_st_scheme \<Rightarrow> ('a proc_st_scheme, int option \<times> 'a proc_st_scheme) kres" where
  "waitpid_resume saved kend pid st p s =
     kbind (sleep_resume saved LPtable s) (\<lambda>s.
     kbind (waitpid_from kend pid st True (Suc p) s) (\<lambda>(r, s).
     if r = None then waitpid_round kend pid st s else Inr (r, s)))"

end
