(* ===== verification/Ptable_Lemmas.thy ===== *)
theory Ptable_Lemmas
  imports Ptable
begin

text \<open>
  Facts about the process table: what the scheduler picks, what sleep, wakeup, exit and process
  allocation leave behind, and the properties of these routines.
\<close>

section \<open>Frame lemmas\<close>

lemma proc_frame [simp]:
  "procs (acq lk s) = procs s" "curproc (acq lk s) = curproc s" "initproc (acq lk s) = initproc s"
  "nextpid (acq lk s) = nextpid s" "procs (rel lk s) = procs s" "curproc (rel lk s) = curproc s"
  "initproc (rel lk s) = initproc s" "nextpid (rel lk s) = nextpid s"
  "proc_st.more (acq lk s) = proc_st.more s" "proc_st.more (rel lk s) = proc_st.more s"
  by (simp_all add: acq_def rel_def pushcli_def Let_def)

lemma lockset_proc [simp]:
  "lockset L (s\<lparr>procs := x\<rparr>) = lockset L s" "lockset L (s\<lparr>curproc := y\<rparr>) = lockset L s"
  "lockset L (s\<lparr>nextpid := z\<rparr>) = lockset L s" "lockset L (s\<lparr>ts_ss0 := v\<rparr>) = lockset L s"
  "lockset L (s\<lparr>ts_esp0 := w\<rparr>) = lockset L s"
  by (simp_all add: lockset_def)

lemma upd_proc_frame [simp]:
  "lockset L (upd_proc i f s) = lockset L s" "curproc (upd_proc i f s) = curproc s"
  "initproc (upd_proc i f s) = initproc s" "nextpid (upd_proc i f s) = nextpid s"
  "length (procs (upd_proc i f s)) = length (procs s)"
  "mem (upd_proc i f s) = mem s" "cr3 (upd_proc i f s) = cr3 s"
  "freelist (upd_proc i f s) = freelist s" "use_lock (upd_proc i f s) = use_lock s"
  "proc_st.more (upd_proc i f s) = proc_st.more s"
  by (simp_all add: upd_proc_def)

lemma procs_upd_proc: "procs (upd_proc i f s) = (procs s)[i := f (procs s ! i)]"
  by (simp add: upd_proc_def)

lemma wakeup1_frame [simp]:
  "lockset L (wakeup1 ch s) = lockset L s" "curproc (wakeup1 ch s) = curproc s"
  "initproc (wakeup1 ch s) = initproc s" "procs (wakeup1 ch s) = map (awaken ch) (procs s)"
  "proc_st.more (wakeup1 ch s) = proc_st.more s" "mem (wakeup1 ch s) = mem s"
  by (simp_all add: wakeup1_def)

text \<open>\<open>sched\<close> reaches the context switch when only \<^verbatim>\<open>ptable.lock\<close> is held.\<close>

lemma sched_switches:
  assumes "lockset [LPtable] s" "curproc s = Some c" "p_state (procs s ! c) \<noteq> RUNNING"
  shows "sched s = Inl (Switch s)"
  using assms by (auto simp: sched_def lockset_def holding_def)

lemma sleep_switches:
  assumes "lockset [lk] s" "curproc s = Some c" "c < length (procs s)"
  shows "\<exists>t. sleep ch lk s = Inl (Switch t) \<and> lockset [LPtable] t \<and> curproc t = Some c \<and>
     procs t = (procs s)[c := (procs s ! c)\<lparr>p_chan := Some ch, p_state := SLEEPING\<rparr>] \<and>
     proc_st.more t = proc_st.more s"
proof (cases "lk = LPtable")
  case True
  then show ?thesis
    using assms by (auto simp: sleep_def sched_switches procs_upd_proc)
next
  case False
  have a: "acquire LPtable s = Inr (acq LPtable s)" "lockset [LPtable, lk] (acq LPtable s)"
    using assms False by (auto intro: acquire_acq)
  have r: "release lk (acq LPtable s) = Inr (rel lk (acq LPtable s))" "lockset [LPtable] (rel lk (acq LPtable s))"
    using release_any [OF a(2), of lk] False by auto
  show ?thesis
    using assms False r by (auto simp: sleep_def a(1) sched_switches procs_upd_proc)
qed


section \<open>The scheduler's choice\<close>

lemma sched_pick_best:
  fixes ps :: "proc list" and p :: nat
  defines "f \<equiv> \<lambda>pp hp. if p_state (ps ! pp) \<noteq> RUNNABLE then hp
                   else if p_prio (ps ! hp) < p_prio (ps ! pp) then pp else hp"
  assumes "p < length ps" "p_state (ps ! p) = RUNNABLE" "n \<le> length ps"
  shows "fold f [0..<n] p < length ps \<and> p_state (ps ! fold f [0..<n] p) = RUNNABLE \<and>
     p_prio (ps ! p) \<le> p_prio (ps ! fold f [0..<n] p) \<and>
     (\<forall>j<n. p_state (ps ! j) = RUNNABLE \<longrightarrow> p_prio (ps ! j) \<le> p_prio (ps ! fold f [0..<n] p))"
  using assms(4)
proof (induction n)
  case 0
  then show ?case using assms by simp
next
  case (Suc n)
  then show ?case by (auto simp: f_def less_Suc_eq)
qed

lemma sched_pick_max:
  assumes "p < length ps" "p_state (ps ! p) = RUNNABLE"
  shows "sched_pick ps p < length ps" "p_state (ps ! sched_pick ps p) = RUNNABLE"
    "\<And>j. j < length ps \<Longrightarrow> p_state (ps ! j) = RUNNABLE \<Longrightarrow> p_prio (ps ! j) \<le> p_prio (ps ! sched_pick ps p)"
  using sched_pick_best [OF assms, of "length ps"] by (auto simp: sched_pick_def)

section \<open>Waking the waiters\<close>

definition waits_for :: "nat \<Rightarrow> proc \<Rightarrow> bool" where
  "waits_for c q \<longleftrightarrow> p_state q = SLEEPING \<and> p_chan q = Some (ChProc c)"

lemma awaken_eq: "awaken (Some (ChProc c)) q = (if waits_for c q then q\<lparr>p_state := RUNNABLE\<rparr> else q)"
  by (simp add: awaken_def waits_for_def)

lemma awaken_fields [simp]:
  "p_cur_index (awaken ch q) = p_cur_index q" "p_pid (awaken ch q) = p_pid q" "p_prio (awaken ch q) = p_prio q"
  "p_parent (awaken ch q) = p_parent q" "p_killed (awaken ch q) = p_killed q" "p_est (awaken ch q) = p_est q"
  "p_pgdir (awaken ch q) = p_pgdir q" "p_kstack (awaken ch q) = p_kstack q" "p_chan (awaken ch q) = p_chan q"
  by (simp_all add: awaken_def)

lemma awaken_state: "p_state (awaken ch q) = (if p_state q = SLEEPING \<and> p_chan q = ch then RUNNABLE else p_state q)"
  by (simp add: awaken_def)

lemma not_waits_for_awaken [simp]: "\<not> waits_for c (awaken (Some (ChProc c)) q)"
  by (simp add: awaken_def waits_for_def)

lemma fold_upt_Suc: "fold f [0..<Suc n] x = f n (fold f [0..<n] x)"
  by simp

lemma wakeuppid_eq:
  assumes "c < length ps"
  shows "wakeuppid c ps = (map (awaken (Some (ChProc c))) ps)
     [c := (awaken (Some (ChProc c)) (ps ! c))\<lparr>p_cur_index := p_cur_index (ps ! c) - int (length (filter (waits_for c) ps))\<rparr>]"
proof -
  let ?a = "awaken (Some (ChProc c))"
  define k where "k n = p_cur_index (ps ! c) - int (length (filter (waits_for c) (take n ps)))" for n
  define q where "q n i = (if i < n then ?a (ps ! i) else ps ! i)" for n i
  define g where "g n i = (if i = c then (q n i)\<lparr>p_cur_index := k n\<rparr> else q n i)" for n i
  define r where "r n = map (g n) [0..<length ps]" for n
  define f where "f j (ps :: proc list) = (if p_state (ps ! j) = SLEEPING \<and> p_chan (ps ! j) = Some (ChProc c)
       then let ps = ps[j := (ps ! j)\<lparr>p_state := RUNNABLE\<rparr>]
            in ps[c := (ps ! c)\<lparr>p_cur_index := p_cur_index (ps ! c) - 1\<rparr>]
       else ps)" for j ps
  have nth: "r n ! i = g n i" if "i < length ps" for n i using that by (simp add: r_def)
  have len: "length (r n) = length ps" for n by (simp add: r_def)
  have step: "f n (r n) = r (Suc n)" if n: "n < length ps" for n
  proof (cases "waits_for c (ps ! n)")
    case False
    then have "k (Suc n) = k n" "q (Suc n) = q n"
      using n by (auto simp: k_def q_def take_Suc_conv_app_nth awaken_eq fun_eq_iff less_Suc_eq)
    then have "r (Suc n) = r n" by (simp add: r_def g_def)
    moreover have "\<not> waits_for c (r n ! n)" using False n by (auto simp: nth g_def q_def waits_for_def)
    ultimately show ?thesis by (auto simp: f_def waits_for_def)
  next
    case True
    then have k: "k (Suc n) = k n - 1" using n by (simp add: k_def take_Suc_conv_app_nth)
    have qn: "q (Suc n) i = (if i = n then (q n n)\<lparr>p_state := RUNNABLE\<rparr> else q n i)" for i
      using True by (simp add: q_def awaken_eq less_Suc_eq)
    have w: "p_state (r n ! n) = SLEEPING \<and> p_chan (r n ! n) = Some (ChProc c)"
      using True n by (auto simp: nth g_def q_def waits_for_def)
    define u where "u = (r n)[n := (g n n)\<lparr>p_state := RUNNABLE\<rparr>]"
    have "f n (r n) = u[c := (u ! c)\<lparr>p_cur_index := p_cur_index (u ! c) - 1\<rparr>]"
      using w n by (simp add: f_def u_def nth Let_def)
    moreover have "u ! i = (if i = n then (g n n)\<lparr>p_state := RUNNABLE\<rparr> else g n i)" if "i < length ps" for i
      using that n by (simp add: u_def len nth nth_list_update)
    ultimately show ?thesis
      using n assms by (intro nth_equalityI) (auto simp: len nth u_def nth_list_update g_def k qn)
  qed
  have "fold f [0..<n] ps = r n" if "n \<le> length ps" for n
    using that
  proof (induction n)
    case 0
    then show ?case by (auto simp: r_def g_def q_def k_def intro!: nth_equalityI)
  next
    case (Suc n)
    then show ?case using step [of n] by simp
  qed
  from this [of "length ps"] have "wakeuppid c ps = r (length ps)" by (simp add: wakeuppid_def f_def [abs_def])
  then show ?thesis using assms by (auto simp: r_def g_def q_def k_def nth_list_update intro!: nth_equalityI)
qed

lemma while_option_stuck: "b s \<Longrightarrow> c s = s \<Longrightarrow> while_option b c s = None"
proof -
  assume "b s" "c s = s"
  then have "(c ^^ k) s = s" for k by (induction k) simp_all
  then show ?thesis using \<open>b s\<close> by (simp add: while_option_def)
qed

text \<open>The loop ends exactly if the counter does not exceed the number of sleepers; it then wakes
  all of them in one round.\<close>

lemma wake_waiters_eq:
  assumes "c < length ps"
  shows "wake_waiters c ps =
    (if p_cur_index (ps ! c) \<le> 0 then Some ps
     else if p_cur_index (ps ! c) \<le> int (length (filter (waits_for c) ps)) then Some (wakeuppid c ps)
     else None)"
proof -
  let ?b = "\<lambda>ps. p_cur_index (ps ! c) > 0" and ?qs = "wakeuppid c ps"
  have q: "p_cur_index (?qs ! c) = p_cur_index (ps ! c) - int (length (filter (waits_for c) ps))"
    "length ?qs = length ps"
    using assms by (simp_all add: wakeuppid_eq)
  have nw: "\<not> waits_for c q" if "q \<in> set ?qs" for q
  proof -
    obtain j where "j < length ps" "q = ?qs ! j" using \<open>q \<in> set ?qs\<close> q(2) by (metis in_set_conv_nth)
    then show ?thesis using assms
      by (cases "j = c") (auto simp: wakeuppid_eq waits_for_def awaken_def)
  qed
  then have "filter (waits_for c) ?qs = []" "map (awaken (Some (ChProc c))) ?qs = ?qs"
    by (auto simp: filter_empty_conv awaken_eq intro: map_idI)
  then have fp: "wakeuppid c ?qs = ?qs"
    using assms q(2) nw [of "?qs ! c"] by (subst wakeuppid_eq) (auto simp: awaken_eq)
  have "while_option ?b (wakeuppid c) ?qs = (if ?b ?qs then None else Some ?qs)"
    using while_option_stuck [of ?b ?qs "wakeuppid c"] fp by (cases "?b ?qs") (simp, subst while_option_unfold, simp)
  then show ?thesis using q(1) unfolding wake_waiters_def
    by (subst while_option_unfold) simp
qed


section \<open>Giving the children to init\<close>

definition reparent :: "nat \<Rightarrow> nat option \<Rightarrow> proc \<Rightarrow> proc" where
  "reparent c ini q = (if p_parent q = Some c then q\<lparr>p_parent := ini\<rparr> else q)"

definition zombie_child :: "nat \<Rightarrow> proc \<Rightarrow> bool" where
  "zombie_child c q \<longleftrightarrow> p_parent q = Some c \<and> p_state q = ZOMBIE"

definition awaken_if :: "bool \<Rightarrow> chan option \<Rightarrow> proc \<Rightarrow> proc" where
  "awaken_if b ch q = (if b then awaken ch q else q)"

lemma awaken_if_fields [simp]:
  "p_parent (awaken_if b ch q) = p_parent q" "p_pid (awaken_if b ch q) = p_pid q"
  "p_prio (awaken_if b ch q) = p_prio q" "p_est (awaken_if b ch q) = p_est q"
  "p_killed (awaken_if b ch q) = p_killed q" "p_cur_index (awaken_if b ch q) = p_cur_index q"
  "p_state (awaken_if b ch q) = ZOMBIE \<longleftrightarrow> p_state q = ZOMBIE"
  "p_state (awaken_if b ch q) = UNUSED \<longleftrightarrow> p_state q = UNUSED"
  "p_state (awaken_if b ch q) = RUNNING \<longleftrightarrow> p_state q = RUNNING"
  "p_state (awaken_if b ch q) = EMBRYO \<longleftrightarrow> p_state q = EMBRYO"
  "awaken ch (awaken_if b ch q) = awaken ch q"
  "(awaken_if b ch q)\<lparr>p_parent := x\<rparr> = awaken_if b ch (q\<lparr>p_parent := x\<rparr>)"
  by (auto simp: awaken_if_def awaken_def)

lemma adopt_eq:
  "adopt c ini ps = map (\<lambda>q. awaken_if (list_ex (zombie_child c) ps) (map_option ChProc ini) (reparent c ini q)) ps"
proof -
  let ?a = "awaken (map_option ChProc ini)" and ?w = "\<lambda>b. awaken_if b (map_option ChProc ini)"
  define z where "z n = list_ex (zombie_child c) (take n ps)" for n
  define g where "g n i = ?w (z n) (if i < n then reparent c ini (ps ! i) else ps ! i)" for n i
  define r where "r n = map (g n) [0..<length ps]" for n
  define f where "f j ps = (if p_parent (ps ! j) = Some c
       then let ps = ps[j := (ps ! j)\<lparr>p_parent := ini\<rparr>]
            in if p_state (ps ! j) = ZOMBIE then map ?a ps else ps
       else ps)" for j and ps :: "proc list"
  have nth: "r n ! i = g n i" if "i < length ps" for n i using that by (simp add: r_def)
  have len: "length (r n) = length ps" for n by (simp add: r_def)
  have step: "f n (r n) = r (Suc n)" if n: "n < length ps" for n
  proof -
    have z: "z (Suc n) \<longleftrightarrow> z n \<or> zombie_child c (ps ! n)"
      using n by (simp add: z_def take_Suc_conv_app_nth)
    have gn: "p_parent (g n n) = p_parent (ps ! n)" "p_state (g n n) = ZOMBIE \<longleftrightarrow> p_state (ps ! n) = ZOMBIE"
      by (simp_all add: g_def)
    consider (none) "p_parent (ps ! n) \<noteq> Some c" | (live) "p_parent (ps ! n) = Some c" "p_state (ps ! n) \<noteq> ZOMBIE"
      | (zombie) "p_parent (ps ! n) = Some c" "p_state (ps ! n) = ZOMBIE" by blast
    then show ?thesis
    proof cases
      case none
      then show ?thesis using n z
        by (auto simp: f_def nth gn len zombie_child_def g_def reparent_def less_Suc_eq intro!: nth_equalityI)
    next
      case live
      then have "f n (r n) = (r n)[n := (g n n)\<lparr>p_parent := ini\<rparr>]"
        using n by (simp add: f_def nth gn len Let_def)
      then show ?thesis using n z live
        by (auto simp: nth len zombie_child_def g_def reparent_def less_Suc_eq nth_list_update intro!: nth_equalityI)
    next
      case zombie
      then have "f n (r n) = map ?a ((r n)[n := (g n n)\<lparr>p_parent := ini\<rparr>])"
        using n by (simp add: f_def nth gn len Let_def)
      then show ?thesis using n z zombie
        by (auto simp: nth len zombie_child_def g_def reparent_def less_Suc_eq nth_list_update
            awaken_if_def [of True] intro!: nth_equalityI)
    qed
  qed
  have "fold f [0..<n] ps = r n" if "n \<le> length ps" for n
    using that
  proof (induction n)
    case 0
    then show ?case by (auto simp: r_def g_def z_def awaken_if_def intro!: nth_equalityI)
  next
    case (Suc n)
    then show ?case using step [of n] by simp
  qed
  from this [of "length ps"] have "adopt c ini ps = r (length ps)" by (simp add: adopt_def f_def [abs_def])
  then show ?thesis by (auto simp: r_def g_def z_def intro!: nth_equalityI)
qed


section \<open>Dispatch\<close>

lemma find_upt_Some:
  "List.find P [i..<n] = Some p \<longleftrightarrow> i \<le> p \<and> p < n \<and> P p \<and> (\<forall>j. i \<le> j \<and> j < p \<longrightarrow> \<not> P j)"
proof (induction n)
  case (Suc n)
  have "List.find P (xs @ [x]) = (case List.find P xs of None \<Rightarrow> if P x then Some x else None | Some y \<Rightarrow> Some y)"
    for xs and x :: nat by (induction xs) auto
  moreover have "List.find P [i..<n] = None \<longleftrightarrow> (\<forall>j. i \<le> j \<and> j < n \<longrightarrow> \<not> P j)"
    by (auto simp: find_None_iff)
  ultimately show ?case
    using Suc by (cases "i \<le> n"; cases "List.find P [i..<n]") (auto simp: less_Suc_eq)
qed simp

lemma find_upt_unique:
  "p < n \<Longrightarrow> P p \<Longrightarrow> \<forall>i<n. P i \<longrightarrow> i = p \<Longrightarrow> List.find P [0..<n] = Some p"
  unfolding find_upt_Some by (metis le0 less_trans nat_neq_iff)

lemma find_upt_None: "List.find P [i..<n] = None \<longleftrightarrow> (\<forall>j. i \<le> j \<and> j < n \<longrightarrow> \<not> P j)"
  by (auto simp: find_None_iff)

lemma pushcli_proc [simp]:
  "curproc (pushcli s) = curproc s" "procs (pushcli s) = procs s" "mem (pushcli s) = mem s"
  "kpgdir (pushcli s) = kpgdir s" "proc_st.more (pushcli s) = proc_st.more s"
  "initproc (pushcli s) = initproc s" "nextpid (pushcli s) = nextpid s"
  by (simp_all add: pushcli_def Let_def)

lemma switchuvm_ok:
  assumes "lockset L s" "L \<noteq> []" "curproc s = Some c" "p_pgdir (procs s ! p) \<noteq> 0"
  shows "\<exists>t. switchuvm p s = Inr t \<and> lockset L t \<and> cr3 t = v2p (p_pgdir (procs s ! p)) \<and>
     ts_esp0 t = p_kstack (procs s ! c) + KSTACKSIZE \<and> procs t = procs s \<and> curproc t = curproc s \<and>
     mem t = mem s \<and> initproc t = initproc s \<and> nextpid t = nextpid s \<and> proc_st.more t = proc_st.more s"
proof -
  have "ncli (cpu s) > 0" using assms(1,2) by (simp add: lockset_def)
  then show ?thesis
    using assms by (auto simp: switchuvm_def popcli_def pushcli_def lockset_def Let_def)
qed

lemma scheduler_from_dispatch:
  assumes "lockset [LPtable] s" "i \<le> p" "p < length (procs s)" "p_state (procs s ! p) = RUNNABLE"
    and pg: "\<forall>q<length (procs s). p_state (procs s ! q) = RUNNABLE \<longrightarrow> p_pgdir (procs s ! q) \<noteq> 0"
  shows "returns (scheduler_from i s) (\<lambda>(r, t). \<exists>hp. r = Some hp \<and> hp < length (procs s) \<and>
     p_state (procs s ! hp) = RUNNABLE \<and>
     (\<forall>j<length (procs s). p_state (procs s ! j) = RUNNABLE \<longrightarrow> p_prio (procs s ! j) \<le> p_prio (procs s ! hp)) \<and>
     lockset [LPtable] t \<and> curproc t = Some hp \<and> cr3 t = v2p (p_pgdir (procs s ! hp)) \<and>
     ts_esp0 t = p_kstack (procs s ! hp) + KSTACKSIZE \<and>
     procs t = (procs s)[hp := (procs s ! hp)\<lparr>p_state := RUNNING\<rparr>])"
proof -
  let ?P = "\<lambda>p. p_state (procs s ! p) = RUNNABLE"
  obtain q where q: "List.find ?P [i..<length (procs s)] = Some q"
    using assms(2-4) by (cases "List.find ?P [i..<length (procs s)]") (auto simp: find_upt_None)
  then have q': "q < length (procs s)" "?P q" by (auto simp: find_upt_Some)
  define hp where "hp = sched_pick (procs s) q"
  note hp = sched_pick_max [OF q', folded hp_def]
  obtain t where t: "switchuvm hp (s\<lparr>curproc := Some hp\<rparr>) = Inr t" "lockset [LPtable] t" "procs t = procs s"
     "curproc t = Some hp" "cr3 t = v2p (p_pgdir (procs s ! hp))" "ts_esp0 t = p_kstack (procs s ! hp) + KSTACKSIZE"
    using switchuvm_ok [of "[LPtable]" "s\<lparr>curproc := Some hp\<rparr>" hp hp] assms(1) pg hp by auto
  moreover have "ts_esp0 (upd_proc hp g t) = ts_esp0 t" for g by (simp add: upd_proc_def)
  ultimately show ?thesis
    using hp q by (auto simp: scheduler_from_def hp_def [symmetric] procs_upd_proc intro!: exI [of _ hp])
qed

section \<open>Exit\<close>

text \<open>The only thing that can happen to another process is that it wakes up.\<close>

definition woken :: "proc \<Rightarrow> proc \<Rightarrow> bool" where
  "woken q q' \<longleftrightarrow> q' = q \<or> p_state q = SLEEPING \<and> q' = q\<lparr>p_state := RUNNABLE\<rparr>"

lemma woken_simps [simp]: "woken q q" "woken q (awaken ch q)" "woken q (awaken_if b ch q)"
  by (auto simp: woken_def awaken_def awaken_if_def)

lemma woken_trans: "woken p q \<Longrightarrow> woken q r \<Longrightarrow> woken p r"
  by (auto simp: woken_def)

lemma woken_reparent: "woken p q \<Longrightarrow> woken (reparent c ini p) (reparent c ini q)"
  by (auto simp: woken_def reparent_def)

lemma woken_running: "woken p q \<Longrightarrow> p_state p \<noteq> SLEEPING \<Longrightarrow> q = p"
  by (simp add: woken_def)

lemma filter_length_cong:
  "length xs = length ys \<Longrightarrow> (\<And>i. i < length ys \<Longrightarrow> P (xs ! i) = P (ys ! i)) \<Longrightarrow>
   length (filter P xs) = length (filter P ys)"
  by (simp add: length_filter_conv_card cong: conj_cong)

lemma wake_waiters_woken:
  assumes "c < length ps" "\<not> waits_for c (ps ! c)" "wake_waiters c ps = Some qs"
  shows "length qs = length ps" "\<And>j. j < length ps \<Longrightarrow> j \<noteq> c \<Longrightarrow> woken (ps ! j) (qs ! j)"
    "\<exists>k. qs ! c = (ps ! c)\<lparr>p_cur_index := k\<rparr>"
    "\<And>j. p_cur_index (ps ! c) > 0 \<Longrightarrow> j < length ps \<Longrightarrow> \<not> waits_for c (qs ! j)"
  using assms(2,3)
  by (auto simp: wake_waiters_eq [OF assms(1)] wakeuppid_eq [OF assms(1)] awaken_eq nth_list_update
      waits_for_def woken_def assms(1) split: if_splits intro: exI [of _ "p_cur_index (ps ! c)"])

definition exiting :: "nat \<Rightarrow> 'a proc_st_scheme \<Rightarrow> bool" where
  "exiting c s \<longleftrightarrow> lockset [] s \<and> curproc s = Some c \<and> c < length (procs s) \<and>
     p_state (procs s ! c) = RUNNING \<and> p_parent (procs s ! c) \<noteq> Some c"

lemma exit_locked_wake:
  fixes s :: "'a proc_st_scheme" and st :: int
  assumes "exiting c s"
  defines "ch \<equiv> map_option ChProc (p_parent (procs s ! c))"
  defines "ps \<equiv> (map (awaken ch) (procs s))[c := (procs s ! c)\<lparr>p_est := st\<rparr>]"
  shows "p_cur_index (ps ! c) = p_cur_index (procs s ! c)" "\<not> waits_for c (ps ! c)"
    "length (filter (waits_for c) ps) = length (filter (waits_for c) (procs s))"
    "exit_locked c st s = (case wake_waiters c ps of None \<Rightarrow> Inl Diverge
      | Some qs \<Rightarrow> sched (upd_proc c (p_state_update (\<lambda>_. ZOMBIE)) ((acq LPtable s)\<lparr>procs := adopt c (initproc s) qs\<rparr>)))"
proof -
  have c: "c < length (procs s)" "p_state (procs s ! c) = RUNNING" "ch \<noteq> Some (ChProc c)"
    using assms(1) by (auto simp: exiting_def ch_def)
  have a: "acquire LPtable s = Inr (acq LPtable s)"
    using assms(1) by (auto simp: exiting_def intro!: acquire_acq)
  show "p_cur_index (ps ! c) = p_cur_index (procs s ! c)" "\<not> waits_for c (ps ! c)"
    using c by (auto simp: ps_def waits_for_def)
  show "length (filter (waits_for c) ps) = length (filter (waits_for c) (procs s))"
    using c by (intro filter_length_cong) (auto simp: ps_def nth_list_update waits_for_def awaken_def)
  have "awaken ch (procs s ! c) = procs s ! c" using c by (simp add: awaken_def)
  then show "exit_locked c st s = (case wake_waiters c ps of None \<Rightarrow> Inl Diverge
      | Some qs \<Rightarrow> sched (upd_proc c (p_state_update (\<lambda>_. ZOMBIE)) ((acq LPtable s)\<lparr>procs := adopt c (initproc s) qs\<rparr>)))"
    using c by (simp add: exit_locked_def a ch_def [symmetric] ps_def upd_proc_def wakeup1_def Let_def cong: option.case_cong)
qed

lemma exit_locked_diverges:
  assumes "exiting c s" "p_cur_index (procs s ! c) > int (length (filter (waits_for c) (procs s)))"
  shows "exit_locked c st s = Inl Diverge"
  using exit_locked_wake [OF assms(1), of st] assms
  by (simp add: wake_waiters_eq exiting_def)

lemma exit_locked_switches:
  fixes s :: "'a proc_st_scheme"
  assumes e: "exiting c s"
    and k: "p_cur_index (procs s ! c) \<le> int (length (filter (waits_for c) (procs s)))"
  shows "\<exists>t :: 'a proc_st_scheme. exit_locked c st s = Inl (Switch t) \<and> lockset [LPtable] t \<and>
     length (procs t) = length (procs s) \<and> initproc t = initproc s \<and> nextpid t = nextpid s \<and>
     curproc t = Some c \<and> mem t = mem s \<and>
     (\<exists>i. procs t ! c = (procs s ! c)\<lparr>p_est := st, p_cur_index := i, p_state := ZOMBIE\<rparr>) \<and>
     (\<forall>j<length (procs s). j \<noteq> c \<longrightarrow> woken (reparent c (initproc s) (procs s ! j)) (procs t ! j) \<and>
        (p_state (procs s ! j) = SLEEPING \<longrightarrow>
         p_chan (procs s ! j) = map_option ChProc (p_parent (procs s ! c)) \<longrightarrow> p_state (procs t ! j) = RUNNABLE))"
proof -
  let ?ch = "map_option ChProc (p_parent (procs s ! c))"
  let ?ps = "(map (awaken ?ch) (procs s))[c := (procs s ! c)\<lparr>p_est := st\<rparr>]"
  let ?n = "int (length (filter (waits_for c) (procs s)))"
  note w = exit_locked_wake [OF e, of st]
  have c: "c < length (procs s)" "curproc s = Some c" "p_state (procs s ! c) = RUNNING" "p_parent (procs s ! c) \<noteq> Some c"
    "lockset [LPtable] (acq LPtable s)"
    using e acquire_acq [of "[]" s LPtable] by (auto simp: exiting_def)
  have "wake_waiters c ?ps \<noteq> None" using k w(1,3) c(1) by (simp add: wake_waiters_eq)
  then obtain qs where qs: "wake_waiters c ?ps = Some qs" by blast
  have l: "length qs = length (procs s)"
    and o: "\<And>j. j < length (procs s) \<Longrightarrow> j \<noteq> c \<Longrightarrow> woken (awaken ?ch (procs s ! j)) (qs ! j)"
    and q: "\<exists>i. qs ! c = (procs s ! c)\<lparr>p_est := st, p_cur_index := i\<rparr>"
    using wake_waiters_woken [OF _ w(2) qs] c(1) by auto
  define zs where "zs = adopt c (initproc s) qs"
  have z: "zs ! j = awaken_if (list_ex (zombie_child c) qs) (map_option ChProc (initproc s)) (reparent c (initproc s) (qs ! j))"
    if "j < length (procs s)" for j using that l by (simp add: zs_def adopt_eq)
  define t where "t = upd_proc c (p_state_update (\<lambda>_. ZOMBIE)) ((acq LPtable s)\<lparr>procs := zs\<rparr>)"
  have lz: "length zs = length (procs s)" using l by (simp add: zs_def adopt_eq)
  have zc: "\<exists>i. zs ! c = (procs s ! c)\<lparr>p_est := st, p_cur_index := i\<rparr>"
  proof -
    obtain i where i: "qs ! c = (procs s ! c)\<lparr>p_est := st, p_cur_index := i\<rparr>" using q by blast
    have "reparent c (initproc s) (qs ! c) = qs ! c" "awaken_if b ch (qs ! c) = qs ! c" for b ch
      using c(3,4) by (simp_all add: i reparent_def awaken_if_def awaken_def)
    then show ?thesis using z [OF c(1)] i by auto
  qed
  have "exit_locked c st s = Inl (Switch t)"
  proof -
    have "sched t = (Inl (Switch t) :: ('a proc_st_scheme, unit) kres)"
      using c lz by (intro sched_switches [of _ c]) (simp_all add: t_def procs_upd_proc)
    then show ?thesis unfolding w(4) qs by (simp add: t_def zs_def)
  qed
  moreover have "woken (reparent c (initproc s) (procs s ! j)) (procs t ! j)" if "j < length (procs s)" "j \<noteq> c" for j
  proof -
    have "woken (procs s ! j) (qs ! j)" using o [OF that] woken_simps(2) woken_trans by blast
    then have "woken (reparent c (initproc s) (procs s ! j)) (zs ! j)"
      unfolding z [OF that(1)] by (intro woken_trans [OF woken_reparent woken_simps(3)])
    then show ?thesis using that by (simp add: t_def procs_upd_proc)
  qed
  moreover have "p_state (procs t ! j) = RUNNABLE"
    if "j < length (procs s)" "j \<noteq> c" "p_state (procs s ! j) = SLEEPING" "p_chan (procs s ! j) = ?ch" for j
  proof -
    have "p_state (awaken ?ch (procs s ! j)) = RUNNABLE" using that by (simp add: awaken_state)
    then have "p_state (qs ! j) = RUNNABLE" using o [OF that(1,2)] by (auto simp: woken_def)
    then show ?thesis using that z [OF that(1)]
      by (simp add: t_def procs_upd_proc awaken_if_def awaken_def reparent_def)
  qed
  ultimately show ?thesis
    using c lz zc by (intro exI [of _ t]) (auto simp: t_def procs_upd_proc)
qed

section \<open>Allocation\<close>

lemma allocproc_returns:
  assumes "lockset [] s" "kmem_inv kend (k # ks) s"
    and f: "List.find (\<lambda>i. p_state (procs s ! i) = UNUSED) [0..<length (procs s)] = Some p"
  shows "returns (allocproc fr tr s) (\<lambda>(q, t). q = Some p \<and> lockset [] t \<and> kmem_inv kend ks t \<and>
     page_only k (mem s) (mem t) \<and> nextpid t = nextpid s + 1 \<and> curproc t = curproc s \<and>
     initproc t = initproc s \<and> proc_st.more t = proc_st.more s \<and> load32 (mem t) (k + 4012) = fr \<and> load32 (mem t) (k + 4016) = tr \<and>
     kpgdir t = kpgdir s \<and> cr3 t = cr3 s \<and> use_lock t = use_lock s \<and>
     procs t = (procs s)[p := (procs s ! p)\<lparr>p_prio := 1, p_cur_index := 0, p_state := EMBRYO, p_pid := nextpid s,
       p_kstack := k, p_tf := k + 4020, p_context := k + 3996\<rparr>])"
proof -
  have p: "p < length (procs s)" using f by (simp add: find_upt_Some)
  have l: "acquire LPtable s = Inr (acq LPtable s)" "lockset [LPtable] (acq LPtable s)"
    using acquire_acq [OF assms(1), of LPtable] by auto
  define v where "v = (upd_proc p (\<lambda>q. q\<lparr>p_prio := 1, p_cur_index := 0, p_state := EMBRYO, p_pid := nextpid s\<rparr>)
     (acq LPtable s))\<lparr>nextpid := nextpid s + 1\<rparr>"
  have lv: "length (procs v) = length (procs s)" by (simp add: v_def)
  have r: "release LPtable v = Inr (rel LPtable v)" "lockset [] (rel LPtable v)"
    using release_rel [of LPtable "[]" v] l by (auto simp: v_def)
  have "kmem_inv kend (k # ks) (rel LPtable v)" using assms(2) by (simp add: v_def kmem_inv_def)
  with kalloc_pop [OF r(2) _ this] obtain w where w: "kalloc (rel LPtable v) = Inr (k, w)" "kmem_inv kend ks w"
    "kmem_st.more w = kmem_st.more (rel LPtable v)" "mem w = mem s" "lockset [] w" "use_lock w = use_lock s"
    by (auto elim!: returnsE simp: v_def)
  have k: "k \<noteq> 0" "k mod PGSIZE = 0" "k \<notin> set ks" using assms(2) by (auto simp: kmem_inv_def page_ok_def)
  have pw: "procs w = procs v" "nextpid w = nextpid v" "curproc w = curproc v" "initproc w = initproc v"
    "proc_st.more w = proc_st.more v" "kpgdir w = kpgdir v" "cr3 w = cr3 v"
    using w(3) by (cases w; cases v; simp add: rel_def)+
  let ?m = "store32 (k + 4012) fr (memset (k + 3996) 0 20 (store32 (k + 4016) tr (mem s)))"
  have m: "page_only k (mem s) ?m"
    by (intro page_only_trans [OF page_only_trans [OF page_only_store32 page_only_memset] page_only_store32]) simp_all
  let ?t = "(upd_proc p (\<lambda>q. q\<lparr>p_kstack := k, p_tf := k + 4020, p_context := k + 3996\<rparr>) w)\<lparr>mem := ?m\<rparr>"
  have "allocproc fr tr s = Inr (Some p, ?t)"
    using p k(1)
    by (simp add: allocproc_def l f v_def [symmetric] r w(1,4) Let_def KSTACKSIZE_def sizeof_tf_def sizeof_context_def)
      (simp add: upd_proc_def pw lv add.commute [of k])
  moreover have "kmem_inv kend ks ?t"
    using m w(4) by (intro kmem_inv_page_only [OF w(2) _ _ k(2,3)]) simp_all
  moreover have "load32 ?m (k + 4012) = fr" "load32 ?m (k + 4016) = tr" by (simp_all add: load32_far load32_memset_far)
  moreover have "kpgdir ?t = kpgdir s" "cr3 ?t = cr3 s" "use_lock ?t = use_lock s"
    using w(6) by (simp_all add: upd_proc_def pw v_def acq_def pushcli_def Let_def)
  ultimately show ?thesis
    using p w(5) m by (simp add: procs_upd_proc pw v_def)
qed

section \<open>Properties\<close>

text \<open>The table and the machine as the loader leaves them, for examples.\<close>

definition proc0 :: proc where
  "proc0 = \<lparr>p_sz = 0, p_pgdir = 0, p_kstack = 0, p_state = UNUSED, p_pid = 0, p_parent = None, p_tf = 0,
     p_context = 0, p_chan = None, p_killed = False, p_ofile = replicate NOFILE None, p_cwd = None,
     p_name = replicate 16 0, p_est = 0, p_cur_index = 0, p_prio = 0\<rparr>"

definition pst0 :: "proc list \<Rightarrow> proc_st" where
  "pst0 ps = \<lparr>locks = \<lambda>_. \<lparr>locked = 0, holder = None\<rparr>, cpu = \<lparr>cpu_id = 0, ncli = 0, intena = False\<rparr>,
     IF = True, mem = \<lambda>_. 0, use_lock = True, freelist = 0, kpgdir = 0, cr3 = 0, procs = ps, curproc = None,
     initproc = None, nextpid = 1, ts_ss0 = 0, ts_esp0 = 0\<rparr>"

lemma pst0_simps [simp]:
  "lockset [] (pst0 ps)" "procs (pst0 ps) = ps" "curproc (pst0 ps) = None"
  by (simp_all add: pst0_def lockset_def)

text \<open>C17: the scheduler switches to a runnable process of the highest priority there is: if no
  lock is held and some process is runnable, a round of \<^verbatim>\<open>scheduler\<close> reaches the switch with a
  process that was runnable and has at least the priority of every runnable process; it is then
  the current process, running, on its own page table and kernel stack, only \<^verbatim>\<open>ptable.lock\<close> is
  held, and no other entry of the table has changed.\<close>

theorem scheduler_runs_highest_priority:
  assumes "lockset [] s" "p < length (procs s)" "p_state (procs s ! p) = RUNNABLE"
    and "\<forall>q<length (procs s). p_state (procs s ! q) = RUNNABLE \<longrightarrow> p_pgdir (procs s ! q) \<noteq> 0"
  shows "returns (scheduler s) (\<lambda>(r, t). \<exists>hp. r = Some hp \<and> hp < length (procs s) \<and>
     p_state (procs s ! hp) = RUNNABLE \<and>
     (\<forall>j<length (procs s). p_state (procs s ! j) = RUNNABLE \<longrightarrow> p_prio (procs s ! j) \<le> p_prio (procs s ! hp)) \<and>
     lockset [LPtable] t \<and> curproc t = Some hp \<and> cr3 t = v2p (p_pgdir (procs s ! hp)) \<and>
     ts_esp0 t = p_kstack (procs s ! hp) + KSTACKSIZE \<and>
     procs t = (procs s)[hp := (procs s ! hp)\<lparr>p_state := RUNNING\<rparr>])"
proof -
  have "lockset [] (s\<lparr>IF := True\<rparr>)" using assms(1) by (auto simp: lockset_def)
  then have a: "acquire LPtable (s\<lparr>IF := True\<rparr>) = Inr (acq LPtable (s\<lparr>IF := True\<rparr>))"
     "lockset [LPtable] (acq LPtable (s\<lparr>IF := True\<rparr>))" by (auto intro!: acquire_acq)
  then show ?thesis
    using scheduler_from_dispatch [OF a(2), of 0 p] assms by (simp add: scheduler_def)
qed

theorem scheduler_runs_highest_priority_witness:
  "returns (scheduler (pst0 [proc0, proc0\<lparr>p_state := RUNNABLE, p_prio := 1, p_pgdir := 0x80401000\<rparr>,
       proc0\<lparr>p_state := RUNNABLE, p_prio := 5, p_pgdir := 0x80402000\<rparr>]))
     (\<lambda>(r, t). r = Some 2 \<and> cr3 t = 0x402000)"
proof -
  define ps where "ps = [proc0, proc0\<lparr>p_state := RUNNABLE, p_prio := 1, p_pgdir := 0x80401000\<rparr>,
       proc0\<lparr>p_state := RUNNABLE, p_prio := 5, p_pgdir := 0x80402000\<rparr>]"
  have ps: "length ps = 3" "p_state (ps ! 1) = RUNNABLE" "p_state (ps ! 2) = RUNNABLE" "p_pgdir (ps ! 2) = 0x80402000"
    "\<forall>q<length ps. p_state (ps ! q) = RUNNABLE \<longrightarrow> p_pgdir (ps ! q) \<noteq> 0"
    by (simp_all add: ps_def All_less_Suc2 proc0_def)
  have best: "hp = 2" if "\<forall>j<3. p_state (ps ! j) = RUNNABLE \<longrightarrow> p_prio (ps ! j) \<le> p_prio (ps ! hp)" "hp < 3" for hp
    using that(1) [rule_format, of 2] that(2) by (cases hp; cases "hp - 1"; auto simp: ps_def proc0_def numeral_eq_Suc less_Suc_eq)
  have "returns (scheduler (pst0 ps)) (\<lambda>(r, t). r = Some 2 \<and> cr3 t = 0x402000)"
    by (rule returns_mono [OF scheduler_runs_highest_priority [of "pst0 ps" 1]])
      (use ps in \<open>auto simp: v2p_def KERNBASE_def dest!: best\<close>)
  then show ?thesis by (simp only: ps_def)
qed





text \<open>C34: a process \<open>b\<close> whose counter is right stops the machine when it exits after a process
  \<open>a\<close> that waits for it in \<^verbatim>\<open>waitpid\<close> has been killed: \<open>a\<close>'s call counts itself and sleeps, the
  kill wakes it without taking it off the counter, and \<open>b\<close>'s exit never ends.\<close>

theorem killed_waitpid_caller_hangs_exit:
  fixes s :: "'a proc_st_scheme"
  assumes "lockset [] s" "curproc s = Some a" "a < length (procs s)" "b < length (procs s)" "a \<noteq> b"
    and "p_state (procs s ! a) = RUNNING" "p_state (procs s ! b) = RUNNABLE" "p_parent (procs s ! b) \<noteq> Some b"
    and "\<forall>i<length (procs s). p_pid (procs s ! i) = p_pid (procs s ! a) \<longrightarrow> i = a"
    and "\<forall>i<length (procs s). p_pid (procs s ! i) = p_pid (procs s ! b) \<longrightarrow> i = b"
    and "p_cur_index (procs s ! b) = int (length (filter (waits_for b) (procs s)))"
  shows "\<exists>(t :: 'a proc_st_scheme) u. waitpid kend (p_pid (procs s ! b)) st op s = Inl (Switch t) \<and>
     kill (p_pid (procs s ! a)) (upd_proc b (p_state_update (\<lambda>_. RUNNING)) ((rel LPtable t)\<lparr>curproc := Some b\<rparr>)) = Inr (0, u) \<and>
     exit_locked b e u = Inl Diverge"
proof -
  let ?n = "length (procs s)"
  have l: "acquire LPtable s = Inr (acq LPtable s)" "lockset [LPtable] (acq LPtable s)"
    using acquire_acq [OF assms(1), of LPtable] by auto
  have fb: "List.find (\<lambda>p. p_pid (procs s ! p) = p_pid (procs s ! b)) [0..<?n] = Some b"
    using assms(4,10) by (intro find_upt_unique) auto
  let ?s1 = "upd_proc b (\<lambda>q. q\<lparr>p_cur_index := p_cur_index q + 1\<rparr>) (acq LPtable s)"
  obtain t :: "'a proc_st_scheme" where t: "sleep (ChProc b) LPtable ?s1 = (Inl (Switch t) :: ('a proc_st_scheme, int option \<times> 'a proc_st_scheme) kres)"
    "lockset [LPtable] t" "procs t = (procs ?s1)[a := (procs ?s1 ! a)\<lparr>p_chan := Some (ChProc b), p_state := SLEEPING\<rparr>]"
    using sleep_switches [of LPtable ?s1 a "ChProc b"] assms l by auto
  have w: "waitpid kend (p_pid (procs s ! b)) st op s = Inl (Switch t)"
    using assms t(1) by (simp add: waitpid_def l waitpid_round_def waitpid_from_def fb)
  define v where "v = upd_proc b (p_state_update (\<lambda>_. RUNNING)) ((rel LPtable t)\<lparr>curproc := Some b\<rparr>)"
  have pt: "procs v ! i = (if i = a then (procs s ! a)\<lparr>p_chan := Some (ChProc b), p_state := SLEEPING\<rparr>
      else if i = b then (procs s ! b)\<lparr>p_cur_index := p_cur_index (procs s ! b) + 1, p_state := RUNNING\<rparr> else procs s ! i)"
    if "i < ?n" for i using that t(3) assms by (simp add: procs_upd_proc nth_list_update v_def)
  have lt: "length (procs v) = ?n" "curproc v = Some b" using t(3) by (simp_all add: v_def)
  have "lockset [] v" using release_rel [OF t(2)] by (simp add: v_def)
  then have l2: "acquire LPtable v = Inr (acq LPtable v)" "lockset [LPtable] (acq LPtable v)"
    using acquire_acq [of "[]" v LPtable] by auto
  have fa: "List.find (\<lambda>p. p_pid (procs v ! p) = p_pid (procs s ! a)) [0..<?n] = Some a"
    using assms(3-5,9) by (intro find_upt_unique) (auto simp: pt)
  let ?v = "upd_proc a (\<lambda>q. q\<lparr>p_killed := True, p_state := (if p_state q = SLEEPING then RUNNABLE else p_state q)\<rparr>) (acq LPtable v)"
  have r: "release LPtable ?v = Inr (rel LPtable ?v)" "lockset [] (rel LPtable ?v)"
    using l2(2) by (auto intro!: release_rel)
  have k: "kill (p_pid (procs s ! a)) v = Inr (0, rel LPtable ?v)"
    using r(1) by (simp add: kill_def l2 fa lt Let_def)
  have pv: "procs ?v ! i = (if i = a then (procs s ! a)\<lparr>p_chan := Some (ChProc b), p_killed := True, p_state := RUNNABLE\<rparr>
      else procs v ! i)" if "i < ?n" for i
    using that assms(3) lt pt [OF that] by (simp add: procs_upd_proc nth_list_update pt)
  have "length (filter (waits_for b) (procs ?v)) = length (filter (waits_for b) (procs s))"
    using lt assms by (intro filter_length_cong) (auto simp: pv pt waits_for_def)
  then have "p_cur_index (procs ?v ! b) > int (length (filter (waits_for b) (procs ?v)))"
    using assms by (simp add: pv pt)
  moreover have "exiting b (rel LPtable ?v)"
    using r(2) assms lt by (simp add: exiting_def pv pt)
  ultimately have "exit_locked b e (rel LPtable ?v) = Inl Diverge"
    using exit_locked_diverges [of b "rel LPtable ?v" e] by simp
  with w k show ?thesis unfolding v_def by blast
qed

theorem killed_waitpid_caller_hangs_exit_witness:
  "\<exists>t u. waitpid 0x80100000 2 0 0 ((pst0 [proc0\<lparr>p_state := RUNNING, p_pid := 1\<rparr>,
       proc0\<lparr>p_state := RUNNABLE, p_pid := 2, p_parent := Some 0\<rparr>])\<lparr>curproc := Some 0\<rparr>) = Inl (Switch t) \<and>
     kill 1 (upd_proc 1 (p_state_update (\<lambda>_. RUNNING)) ((rel LPtable t)\<lparr>curproc := Some 1\<rparr>)) = Inr (0, u) \<and>
     exit_locked 1 0 u = Inl Diverge"
  using killed_waitpid_caller_hangs_exit [of "(pst0 [proc0\<lparr>p_state := RUNNING, p_pid := 1\<rparr>,
       proc0\<lparr>p_state := RUNNABLE, p_pid := 2, p_parent := Some 0\<rparr>])\<lparr>curproc := Some 0\<rparr>" 0 1 "0x80100000" 0 0 0]
  by (simp add: proc0_def waits_for_def All_less_Suc)

text \<open>C35: \<^verbatim>\<open>kill(0)\<close> marks a process that does not exist yet. With no lock held and the first free
  slot being the first with pid 0, as it is after boot, the call succeeds, and the next process
  allocated is put into that slot already killed.\<close>

theorem kill_zero_marks_next_process:
  fixes s :: "'a proc_st_scheme"
  assumes "lockset [] s" "p < length (procs s)" "p_state (procs s ! p) = UNUSED" "p_pid (procs s ! p) = 0"
    and "\<forall>i<p. p_state (procs s ! i) \<noteq> UNUSED \<and> p_pid (procs s ! i) \<noteq> 0"
    and "kmem_inv kend (k # ks) s"
  shows "returns (kbind (kill 0 s) (\<lambda>(r, t). kbind (allocproc fr tr t) (\<lambda>(q, u). Inr (r, q, u))))
     (\<lambda>(r, q, u). r = 0 \<and> q = Some p \<and> p_killed (procs u ! p) \<and> p_state (procs u ! p) = EMBRYO \<and>
        p_pid (procs u ! p) = nextpid s)"
proof -
  have l: "acquire LPtable s = Inr (acq LPtable s)" "lockset [LPtable] (acq LPtable s)"
    using acquire_acq [OF assms(1), of LPtable] by auto
  have f: "List.find (\<lambda>i. p_pid (procs s ! i) = 0) [0..<length (procs s)] = Some p"
    using assms by (auto simp: find_upt_Some)
  define t where "t = rel LPtable (upd_proc p (\<lambda>q. q\<lparr>p_killed := True,
    p_state := (if p_state q = SLEEPING then RUNNABLE else p_state q)\<rparr>) (acq LPtable s))"
  have t: "kill 0 s = Inr (0, t)" "lockset [] t"
    using l release_rel [of LPtable "[]" "upd_proc p (\<lambda>q. q\<lparr>p_killed := True,
      p_state := (if p_state q = SLEEPING then RUNNABLE else p_state q)\<rparr>) (acq LPtable s)"]
    by (simp_all add: kill_def f t_def Let_def)
  have pt: "procs t = (procs s)[p := (procs s ! p)\<lparr>p_killed := True, p_state := UNUSED\<rparr>]" "nextpid t = nextpid s"
    "kmem_inv kend (k # ks) t"
    using assms(2,3,6) by (simp_all add: t_def procs_upd_proc kmem_inv_def)
  have "List.find (\<lambda>i. p_state (procs t ! i) = UNUSED) [0..<length (procs t)] = Some p"
    using assms by (auto simp: find_upt_Some pt nth_list_update)
  from allocproc_returns [OF t(2) pt(3) this, of fr tr] show ?thesis
    using assms(2) by (auto simp: t(1) pt returns_kbind elim!: returns_mono)
qed

theorem kill_zero_marks_next_process_witness:
  "\<exists>s :: proc_st. returns (kbind (kill 0 s) (\<lambda>(r, t). kbind (allocproc 0x80103000 0x80104000 t) (\<lambda>(q, u). Inr (r, q, u))))
     (\<lambda>(r, q, u). r = 0 \<and> q = Some 1 \<and> p_killed (procs u ! 1) \<and> p_pid (procs u ! 1) = 1)"
proof -
  let ?s = "(pst0 [proc0\<lparr>p_state := RUNNING, p_pid := 9\<rparr>, proc0])\<lparr>freelist := 0x80400000\<rparr>"
  have "load32 (mem ?s) 0x80400000 = 0" by (simp add: pst0_def load32_def of_le32_def)
  then have k: "kmem_inv 0x80100000 [0x80400000] ?s"
    by (simp add: kmem_inv_def page_ok_def PGSIZE_def v2p_def KERNBASE_def PHYSTOP_def)
  have "returns (kbind (kill 0 ?s) (\<lambda>(r, t). kbind (allocproc 0x80103000 0x80104000 t) (\<lambda>(q, u). Inr (r, q, u))))
     (\<lambda>(r, q, u). r = 0 \<and> q = Some 1 \<and> p_killed (procs u ! 1) \<and> p_state (procs u ! 1) = EMBRYO \<and> p_pid (procs u ! 1) = nextpid ?s)"
    by (rule kill_zero_marks_next_process [OF _ _ _ _ _ k]) (simp_all add: proc0_def)
  then show ?thesis by (intro exI [of _ ?s]) (auto simp: pst0_def elim!: returns_mono)
qed

end
