(* ===== verification/Ide.thy ===== *)
theory Ide
  imports Ptable_Lemmas
begin

text \<open>
  Disk drivers: the interrupt-driven IDE driver (\<^verbatim>\<open>ide.c\<close>) and the memory disk that replaces it
  in the \<^verbatim>\<open>kernelmemfs\<close> configuration (\<^verbatim>\<open>memide.c\<close>). A buffer (\<^verbatim>\<open>buf.h\<close>) is an index; the three
  bits of \<^verbatim>\<open>flags\<close> are three booleans. The cache's array and its list head are one list of
  buffers whose last element is the head.

  The memory disk is kept as its first contents and the sequence of sector writes since, so that
  what a crash can leave behind is a prefix of that sequence. The IDE drive is the command that
  was last given to its ports and the contents of its two disks.
\<close>

section \<open>Buffers\<close>

definition BSIZE :: nat where "BSIZE = 512"

record buf =
  b_busy :: bool
  b_valid :: bool
  b_dirty :: bool
  b_dev :: u32
  b_sector :: u32
  b_prev :: nat
  b_next :: nat
  b_qnext :: "nat option"
  b_data :: "u8 list"

type_synonym sector_writes = "(u32 \<times> u8 list) list"

record ide_cmd =
  cmd_write :: bool
  cmd_dev :: u32
  cmd_sector :: u32
  cmd_data :: "u8 list"

record disk_st = proc_st +
  bufs :: "buf list"
  disksize :: u32
  image :: "u32 \<Rightarrow> u8 list"
  writes :: sector_writes
  idequeue :: "nat option"
  havedisk1 :: bool
  ide_port :: "ide_cmd option"
  ide_disk :: "u32 \<Rightarrow> u32 \<Rightarrow> u8 list"

definition upd_buf :: "nat \<Rightarrow> (buf \<Rightarrow> buf) \<Rightarrow> 'a disk_st_scheme \<Rightarrow> 'a disk_st_scheme" where
  "upd_buf i f s = s\<lparr>bufs := (bufs s)[i := f (bufs s ! i)]\<rparr>"

definition apply_writes :: "sector_writes \<Rightarrow> (u32 \<Rightarrow> u8 list) \<Rightarrow> u32 \<Rightarrow> u8 list" where
  "apply_writes ws d = fold (\<lambda>(a, x) d. d(a := x)) ws d"

definition disk :: "'a disk_st_scheme \<Rightarrow> u32 \<Rightarrow> u8 list" where
  "disk s = apply_writes (writes s) (image s)"

section \<open>The memory disk\<close>

text \<open>\<^verbatim>\<open>disksize\<close> is signed in C and compared as unsigned; sectors are addressed by number.\<close>

definition memide_init :: "(u32 \<Rightarrow> u8 list) \<Rightarrow> u32 \<Rightarrow> 'a disk_st_scheme \<Rightarrow> 'a disk_st_scheme" where
  "memide_init img size_bytes s = s\<lparr>image := img, writes := [], disksize := size_bytes div 512\<rparr>"

definition iderw :: "nat \<Rightarrow> 'a disk_st_scheme \<Rightarrow> ('a disk_st_scheme, 'a disk_st_scheme) kres" where
  "iderw b s =
     (let bb = bufs s ! b
      in if \<not> b_busy bb then kpanic ''iderw: buf not busy''
         else if b_valid bb \<and> \<not> b_dirty bb then kpanic ''iderw: nothing to do''
         else if b_dev bb \<noteq> 1 then kpanic ''iderw: request not for disk 1''
         else if b_sector bb \<ge> disksize s then kpanic ''iderw: sector out of range''
         else let s = (if b_dirty bb
                       then (upd_buf b (b_dirty_update (\<lambda>_. False)) s)\<lparr>writes := writes s @ [(b_sector bb, b_data bb)]\<rparr>
                       else upd_buf b (b_data_update (\<lambda>_. disk s (b_sector bb))) s)
              in Inr (upd_buf b (b_valid_update (\<lambda>_. True)) s))"

section \<open>The IDE drive\<close>

text \<open>\<^verbatim>\<open>idewait\<close> on the successive readings of the status port: the result and the readings left;
  \<open>None\<close> if the drive is not ready in any of them. \<^verbatim>\<open>ideinit\<close> is given the readings of the second
  drive's port.\<close>

fun idewait :: "bool \<Rightarrow> u8 list \<Rightarrow> (int \<times> u8 list) option" where
  "idewait checkerr [] = None"
| "idewait checkerr (r # rs) =
     (if r AND 0xC0 \<noteq> 0x40 then idewait checkerr rs
      else if checkerr \<and> r AND 0x21 \<noteq> 0 then Some (-1, rs) else Some (0, rs))"

definition ideinit :: "u8 list \<Rightarrow> 'a disk_st_scheme \<Rightarrow> 'a disk_st_scheme" where
  "ideinit status1 s =
     (let s = initlock LIde s
      in if list_ex (\<lambda>r. r \<noteq> 0) (take 1000 status1) then s\<lparr>havedisk1 := True\<rparr> else s)"

text \<open>What \<^verbatim>\<open>idestart\<close> puts on the ports: the drive, 28 bits of the sector number, the command
  and, for a write, the data. Waiting for the drive to be ready has no other effect.\<close>

definition idestart :: "nat option \<Rightarrow> 'a disk_st_scheme \<Rightarrow> ('a disk_st_scheme, 'a disk_st_scheme) kres" where
  "idestart bo s =
     (case bo of None \<Rightarrow> kpanic ''idestart''
      | Some b \<Rightarrow>
        let bb = bufs s ! b
        in Inr (s\<lparr>ide_port := Some \<lparr>cmd_write = b_dirty bb, cmd_dev = b_dev bb AND 1,
                   cmd_sector = b_sector bb AND 0xFFFFFFF,
                   cmd_data = (if b_dirty bb then b_data bb else [])\<rparr>\<rparr>))"

text \<open>The drive carries out the command on its ports, before it raises its interrupt.\<close>

definition ide_device :: "'a disk_st_scheme \<Rightarrow> 'a disk_st_scheme" where
  "ide_device s =
     (case ide_port s of None \<Rightarrow> s
      | Some c \<Rightarrow>
        if cmd_write c
        then s\<lparr>ide_disk := (ide_disk s)(cmd_dev c := (ide_disk s (cmd_dev c))(cmd_sector c := cmd_data c))\<rparr>
        else s)"

definition ide_insl :: "'a disk_st_scheme \<Rightarrow> u8 list" where
  "ide_insl s = (case ide_port s of None \<Rightarrow> [] | Some c \<Rightarrow> ide_disk s (cmd_dev c) (cmd_sector c))"

text \<open>The handler; \<open>err\<close> is the drive's answer when \<^verbatim>\<open>idewait(1)\<close> reads its status.\<close>

definition ideintr :: "bool \<Rightarrow> 'a disk_st_scheme \<Rightarrow> ('a disk_st_scheme, 'a disk_st_scheme) kres" where
  "ideintr err s =
     kbind (acquire LIde s) (\<lambda>s.
     case idequeue s of None \<Rightarrow> release LIde s
     | Some b \<Rightarrow>
       let s = s\<lparr>idequeue := b_qnext (bufs s ! b)\<rparr>;
           s = (if \<not> b_dirty (bufs s ! b) \<and> \<not> err then upd_buf b (b_data_update (\<lambda>_. ide_insl s)) s else s);
           s = upd_buf b (\<lambda>q. q\<lparr>b_valid := True, b_dirty := False\<rparr>) s
       in kbind (wakeup (ChBuf b) s) (\<lambda>s.
          kbind (if idequeue s \<noteq> None then idestart (idequeue s) s else Inr s) (release LIde)))"

text \<open>Appending to the queue: the loop walks to the end, so fuel for all buffers is enough
  unless the list is circular.\<close>

fun queue_append :: "nat \<Rightarrow> nat \<Rightarrow> nat \<Rightarrow> 'a disk_st_scheme \<Rightarrow> ('a disk_st_scheme, 'a disk_st_scheme) kres" where
  "queue_append 0 i b s = Inl Diverge"
| "queue_append (Suc fuel) i b s =
     (case b_qnext (bufs s ! i) of
        None \<Rightarrow> Inr (upd_buf i (b_qnext_update (\<lambda>_. Some b)) s)
      | Some j \<Rightarrow> queue_append fuel j b s)"

text \<open>\<^verbatim>\<open>iderw\<close> of \<^verbatim>\<open>ide.c\<close> up to its first sleep or return, and the loop it re-enters.\<close>

definition ide_wait :: "nat \<Rightarrow> 'a disk_st_scheme \<Rightarrow> ('a disk_st_scheme, 'a disk_st_scheme) kres" where
  "ide_wait b s =
     (if b_valid (bufs s ! b) \<and> \<not> b_dirty (bufs s ! b) then release LIde s else sleep (ChBuf b) LIde s)"

definition ide_iderw :: "nat \<Rightarrow> 'a disk_st_scheme \<Rightarrow> ('a disk_st_scheme, 'a disk_st_scheme) kres" where
  "ide_iderw b s =
     (let bb = bufs s ! b
      in if \<not> b_busy bb then kpanic ''iderw: buf not busy''
         else if b_valid bb \<and> \<not> b_dirty bb then kpanic ''iderw: nothing to do''
         else if b_dev bb \<noteq> 0 \<and> \<not> havedisk1 s then kpanic ''iderw: ide disk 1 not present''
         else kbind (acquire LIde s) (\<lambda>s.
              let s = upd_buf b (b_qnext_update (\<lambda>_. None)) s
              in kbind (case idequeue s of None \<Rightarrow> Inr (s\<lparr>idequeue := Some b\<rparr>)
                        | Some h \<Rightarrow> queue_append (length (bufs s)) h b s) (\<lambda>s.
                 kbind (if idequeue s = Some b then idestart (Some b) s else Inr s) (ide_wait b))))"

definition ide_resume :: "bool \<Rightarrow> nat \<Rightarrow> 'a disk_st_scheme \<Rightarrow> ('a disk_st_scheme, 'a disk_st_scheme) kres" where
  "ide_resume saved b s = kbind (sleep_resume saved LIde s) (ide_wait b)"

end
