(* ===== verification/Bio.thy ===== *)
theory Bio
  imports Ide
begin

text \<open>
  The buffer cache (\<^verbatim>\<open>bio.c\<close>): an array of buffers on a doubly linked list, most recently used
  first, whose head is the element of index \<open>NBUF\<close>.
\<close>

definition NBUF :: nat where "NBUF = 10"

definition binit_step :: "nat \<Rightarrow> buf list \<Rightarrow> buf list" where
  "binit_step b bs =
     (let bs = bs[b := (bs ! b)\<lparr>b_next := b_next (bs ! NBUF)\<rparr>];
          bs = bs[b := (bs ! b)\<lparr>b_prev := NBUF\<rparr>];
          bs = bs[b := (bs ! b)\<lparr>b_dev := -1\<rparr>];
          h = b_next (bs ! NBUF);
          bs = bs[h := (bs ! h)\<lparr>b_prev := b\<rparr>]
      in bs[NBUF := (bs ! NBUF)\<lparr>b_next := b\<rparr>])"

definition binit :: "'a disk_st_scheme \<Rightarrow> 'a disk_st_scheme" where
  "binit s =
     (let s = initlock LBcache s;
          s = upd_buf NBUF (\<lambda>q. q\<lparr>b_prev := NBUF, b_next := NBUF\<rparr>) s
      in s\<lparr>bufs := fold binit_step [0..<NBUF] (bufs s)\<rparr>)"

text \<open>The two loops of \<^verbatim>\<open>bget\<close>, along \<^verbatim>\<open>next\<close> for a cached sector and along \<^verbatim>\<open>prev\<close> for a buffer
  to recycle; fuel for every buffer and the head is enough on a well-formed list, and running out
  of it is a loop that does not end.\<close>

fun scan_next :: "nat \<Rightarrow> (buf \<Rightarrow> bool) \<Rightarrow> buf list \<Rightarrow> nat \<Rightarrow> nat option option" where
  "scan_next 0 P bs b = None"
| "scan_next (Suc fuel) P bs b =
     (if b = NBUF then Some None
      else if P (bs ! b) then Some (Some b) else scan_next fuel P bs (b_next (bs ! b)))"

fun scan_prev :: "nat \<Rightarrow> (buf \<Rightarrow> bool) \<Rightarrow> buf list \<Rightarrow> nat \<Rightarrow> nat option option" where
  "scan_prev 0 P bs b = None"
| "scan_prev (Suc fuel) P bs b =
     (if b = NBUF then Some None
      else if P (bs ! b) then Some (Some b) else scan_prev fuel P bs (b_prev (bs ! b)))"

definition bget_loop ::
  "u32 \<Rightarrow> u32 \<Rightarrow> 'a disk_st_scheme \<Rightarrow> ('a disk_st_scheme, nat \<times> 'a disk_st_scheme) kres" where
  "bget_loop dev sector s =
     (case scan_next (NBUF + 1) (\<lambda>q. b_dev q = dev \<and> b_sector q = sector) (bufs s) (b_next (bufs s ! NBUF)) of
        None \<Rightarrow> Inl Diverge
      | Some (Some b) \<Rightarrow>
          if \<not> b_busy (bufs s ! b)
          then kbind (release LBcache (upd_buf b (b_busy_update (\<lambda>_. True)) s)) (\<lambda>s. Inr (b, s))
          else sleep (ChBuf b) LBcache s
      | Some None \<Rightarrow>
          (case scan_prev (NBUF + 1) (\<lambda>q. \<not> b_busy q \<and> \<not> b_dirty q) (bufs s) (b_prev (bufs s ! NBUF)) of
             None \<Rightarrow> Inl Diverge
           | Some None \<Rightarrow> kpanic ''bget: no buffers''
           | Some (Some b) \<Rightarrow>
               let s = upd_buf b (\<lambda>q. q\<lparr>b_dev := dev, b_sector := sector,
                         b_busy := True, b_valid := False, b_dirty := False\<rparr>) s
               in kbind (release LBcache s) (\<lambda>s. Inr (b, s))))"

definition bget :: "u32 \<Rightarrow> u32 \<Rightarrow> 'a disk_st_scheme \<Rightarrow> ('a disk_st_scheme, nat \<times> 'a disk_st_scheme) kres" where
  "bget dev sector s = kbind (acquire LBcache s) (bget_loop dev sector)"

definition bget_resume ::
  "bool \<Rightarrow> u32 \<Rightarrow> u32 \<Rightarrow> 'a disk_st_scheme \<Rightarrow> ('a disk_st_scheme, nat \<times> 'a disk_st_scheme) kres" where
  "bget_resume saved dev sector s = kbind (sleep_resume saved LBcache s) (bget_loop dev sector)"

definition bread :: "u32 \<Rightarrow> u32 \<Rightarrow> 'a disk_st_scheme \<Rightarrow> ('a disk_st_scheme, nat \<times> 'a disk_st_scheme) kres" where
  "bread dev sector s =
     kbind (bget dev sector s) (\<lambda>(b, s).
     if \<not> b_valid (bufs s ! b) then kbind (iderw b s) (\<lambda>s. Inr (b, s)) else Inr (b, s))"

definition bwrite :: "nat \<Rightarrow> 'a disk_st_scheme \<Rightarrow> ('a disk_st_scheme, 'a disk_st_scheme) kres" where
  "bwrite b s =
     (if \<not> b_busy (bufs s ! b) then kpanic ''bwrite''
      else iderw b (upd_buf b (b_dirty_update (\<lambda>_. True)) s))"

text \<open>The pointer assignments of \<^verbatim>\<open>brelse\<close>, in their order.\<close>

definition move_to_front :: "nat \<Rightarrow> buf list \<Rightarrow> buf list" where
  "move_to_front b bs =
     (let n = b_next (bs ! b); bs = bs[n := (bs ! n)\<lparr>b_prev := b_prev (bs ! b)\<rparr>];
          p = b_prev (bs ! b); bs = bs[p := (bs ! p)\<lparr>b_next := b_next (bs ! b)\<rparr>];
          bs = bs[b := (bs ! b)\<lparr>b_next := b_next (bs ! NBUF)\<rparr>];
          bs = bs[b := (bs ! b)\<lparr>b_prev := NBUF\<rparr>];
          h = b_next (bs ! NBUF); bs = bs[h := (bs ! h)\<lparr>b_prev := b\<rparr>]
      in bs[NBUF := (bs ! NBUF)\<lparr>b_next := b\<rparr>])"

definition brelse :: "nat \<Rightarrow> 'a disk_st_scheme \<Rightarrow> ('a disk_st_scheme, 'a disk_st_scheme) kres" where
  "brelse b s =
     (if \<not> b_busy (bufs s ! b) then kpanic ''brelse''
      else kbind (acquire LBcache s) (\<lambda>s.
           let s = s\<lparr>bufs := move_to_front b (bufs s)\<rparr>;
               s = upd_buf b (b_busy_update (\<lambda>_. False)) s
           in kbind (wakeup (ChBuf b) s) (release LBcache)))"

end
