(* ===== verification/Bio_Lemmas.thy ===== *)
theory Bio_Lemmas
  imports Bio
begin

text \<open>
  The buffer cache refines an abstract cache (\<open>cache_view\<close>): the contents of every block as the
  kernel sees them, the contents of the disk, the blocks somebody holds and the blocks that must
  stay in the cache. \<open>cache_inv\<close> is the invariant of the list and of the buffers. Each routine is
  specified by what it does to the view; the clients of the cache use nothing else.
\<close>

section \<open>Doubly linked lists\<close>

text \<open>\<open>chain nx pv a xs z\<close>: from \<open>a\<close> the \<open>nx\<close> pointers lead through \<open>xs\<close> to \<open>z\<close>, and the \<open>pv\<close>
  pointers lead back.\<close>

fun chain :: "(nat \<Rightarrow> nat) \<Rightarrow> (nat \<Rightarrow> nat) \<Rightarrow> nat \<Rightarrow> nat list \<Rightarrow> nat \<Rightarrow> bool" where
  "chain nx pv a [] z \<longleftrightarrow> nx a = z \<and> pv z = a"
| "chain nx pv a (x # xs) z \<longleftrightarrow> nx a = x \<and> pv x = a \<and> chain nx pv x xs z"

lemma chain_append:
  "chain nx pv a (xs @ y # ys) z \<longleftrightarrow> chain nx pv a xs y \<and> chain nx pv y ys z"
  by (induction xs arbitrary: a) auto

lemma chain_cong:
  "(\<And>i. i = a \<or> i \<in> set xs \<Longrightarrow> nx' i = nx i) \<Longrightarrow> (\<And>i. i = z \<or> i \<in> set xs \<Longrightarrow> pv' i = pv i) \<Longrightarrow>
   chain nx' pv' a xs z = chain nx pv a xs z"
  by (induction xs arbitrary: a) auto

lemma chain_upd_next: "i \<noteq> a \<Longrightarrow> i \<notin> set xs \<Longrightarrow> chain (nx(i := v)) pv a xs z = chain nx pv a xs z"
  by (rule chain_cong) auto

lemma chain_upd_prev: "i \<noteq> z \<Longrightarrow> i \<notin> set xs \<Longrightarrow> chain nx (pv(i := v)) a xs z = chain nx pv a xs z"
  by (rule chain_cong) auto

lemma chain_unlink:
  assumes "chain nx pv a ys b" "chain nx pv b zs z" "distinct (ys @ b # zs)" "a \<notin> set ys" "a \<noteq> b" "z \<noteq> b"
    "z \<notin> set ys" "z \<notin> set zs" "a \<notin> set zs"
  shows "chain (nx(pv b := nx b)) (pv(nx b := pv b)) a (ys @ zs) z"
  using assms
proof (induction ys arbitrary: a)
  case Nil
  show ?case
  proof (cases zs)
    case Nil
    then show ?thesis using Nil.prems by simp
  next
    case (Cons x xs)
    have "chain (nx(a := x)) (pv(x := a)) x xs z = chain nx pv x xs z"
      using Nil.prems Cons by (intro chain_cong) auto
    moreover have "nx b = x" "pv b = a" "chain nx pv x xs z" "a \<noteq> x" using Nil.prems Cons by auto
    ultimately show ?thesis unfolding Cons append_Nil chain.simps by (simp only:) simp
  qed
next
  case (Cons y ys)
  have n: "nx b = z \<or> nx b \<in> set zs" using Cons.prems(2) by (cases zs) auto
  have "pv b = y \<or> pv b \<in> set ys" using Cons.prems(1) by (cases ys rule: rev_cases) (auto simp: chain_append)
  with n Cons.prems show ?case using Cons.IH [of y] by auto
qed

lemma chain_insert:
  assumes "chain nx pv a ws z" "b \<notin> set ws" "a \<noteq> b" "z \<noteq> b" "a \<notin> set ws" "z \<notin> set ws" "distinct ws"
  shows "chain ((nx(b := nx a))(a := b)) ((pv(b := a))(nx a := b)) a (b # ws) z"
  using assms by (cases ws) (auto simp: chain_upd_next chain_upd_prev)

section \<open>The list of the cache\<close>

definition nexts :: "buf list \<Rightarrow> nat \<Rightarrow> nat" where "nexts bs i = b_next (bs ! i)"
definition prevs :: "buf list \<Rightarrow> nat \<Rightarrow> nat" where "prevs bs i = b_prev (bs ! i)"

definition lru :: "buf list \<Rightarrow> nat list \<Rightarrow> bool" where
  "lru bs xs \<longleftrightarrow> chain (nexts bs) (prevs bs) NBUF xs NBUF \<and> distinct xs \<and> set xs = {0..<NBUF} \<and> length bs = NBUF + 1"

lemma nexts_upd_next:
  "i < length bs \<Longrightarrow> nexts (bs[i := (bs ! i)\<lparr>b_next := x\<rparr>]) = (nexts bs)(i := x)"
  "prevs (bs[i := (bs ! i)\<lparr>b_next := x\<rparr>]) = prevs bs"
  by (auto simp: nexts_def fun_eq_iff) (cases "i < length bs"; auto simp: prevs_def fun_eq_iff nth_list_update not_less list_update_beyond)

lemma nexts_upd_prev:
  "i < length bs \<Longrightarrow> prevs (bs[i := (bs ! i)\<lparr>b_prev := x\<rparr>]) = (prevs bs)(i := x)"
  "nexts (bs[i := (bs ! i)\<lparr>b_prev := x\<rparr>]) = nexts bs"
  by (auto simp: prevs_def fun_eq_iff) (cases "i < length bs"; auto simp: nexts_def fun_eq_iff nth_list_update not_less list_update_beyond)

lemma chain_ends:
  assumes "chain nx pv a xs z"
  shows "nx a \<in> insert z (set xs)" "pv z \<in> insert a (set xs)"
proof -
  show "nx a \<in> insert z (set xs)" using assms by (cases xs) auto
  show "pv z \<in> insert a (set xs)" using assms by (cases xs rule: rev_cases) (auto simp: chain_append)
qed

lemma scan_next_find:
  assumes "chain (nexts bs) pv a xs NBUF" "NBUF \<notin> set xs"
  shows "scan_next (Suc (length xs)) P bs (nexts bs a) = Some (List.find (\<lambda>i. P (bs ! i)) xs)"
  using assms by (induction xs arbitrary: a) (auto simp: nexts_def)

lemma scan_prev_find:
  assumes "chain nx (prevs bs) NBUF xs z" "NBUF \<notin> set xs"
  shows "scan_prev (Suc (length xs)) P bs (prevs bs z) = Some (List.find (\<lambda>i. P (bs ! i)) (rev xs))"
  using assms
proof (induction xs arbitrary: z rule: rev_induct)
  case (snoc x xs)
  then have x: "x \<noteq> NBUF" "prevs bs z = x" "chain nx (prevs bs) NBUF xs x" by (auto simp: chain_append)
  then have "scan_prev (Suc (length (xs @ [x]))) P bs (prevs bs z) =
      (if P (bs ! x) then Some (Some x) else scan_prev (Suc (length xs)) P bs (prevs bs x))"
    by (simp add: prevs_def [of bs x] del: scan_prev.simps) simp
  then show ?case using snoc.IH [OF x(3)] snoc.prems by simp
qed simp

definition same_but_links :: "buf list \<Rightarrow> buf list \<Rightarrow> bool" where
  "same_but_links bs bs' \<longleftrightarrow> length bs' = length bs \<and>
     (\<forall>i<length bs. (bs' ! i)\<lparr>b_prev := 0, b_next := 0\<rparr> = (bs ! i)\<lparr>b_prev := 0, b_next := 0\<rparr>)"


lemma same_but_links_upd:
  "same_but_links xs (xs[i := (xs ! i)\<lparr>b_next := x\<rparr>])" "same_but_links xs (xs[i := (xs ! i)\<lparr>b_prev := x\<rparr>])"
  by (cases "i < length xs"; auto simp: same_but_links_def nth_list_update not_less list_update_beyond)+

lemma same_but_links_trans: "same_but_links xs ys \<Longrightarrow> same_but_links ys zs \<Longrightarrow> same_but_links xs zs"
  by (auto simp: same_but_links_def)

lemma move_to_front_links:
  assumes "length bs = NBUF + 1" "b < NBUF" "nexts bs b \<le> NBUF" "prevs bs b \<le> NBUF" "nexts bs NBUF \<le> NBUF"
    "nexts bs b \<noteq> b" "prevs bs b \<noteq> b"
  defines "u \<equiv> (nexts bs)(prevs bs b := nexts bs b)" and "v \<equiv> (prevs bs)(nexts bs b := prevs bs b)"
  shows "nexts (move_to_front b bs) = (u(b := u NBUF))(NBUF := b)"
    "prevs (move_to_front b bs) = (v(b := NBUF))(u NBUF := b)"
    "same_but_links bs (move_to_front b bs)"
proof -
  let ?n = "nexts bs b" and ?p = "prevs bs b"
  define b1 where "b1 = bs[?n := (bs ! ?n)\<lparr>b_prev := ?p\<rparr>]"
  define b2 where "b2 = b1[?p := (b1 ! ?p)\<lparr>b_next := ?n\<rparr>]"
  define b3 where "b3 = b2[b := (b2 ! b)\<lparr>b_next := b_next (b2 ! NBUF)\<rparr>]"
  define b4 where "b4 = b3[b := (b3 ! b)\<lparr>b_prev := NBUF\<rparr>]"
  define h where "h = b_next (b4 ! NBUF)"
  define b5 where "b5 = b4[h := (b4 ! h)\<lparr>b_prev := b\<rparr>]"
  define b6 where "b6 = b5[NBUF := (b5 ! NBUF)\<lparr>b_next := b\<rparr>]"
  have pn: "b_next (bs ! b) = ?n" "b_prev (bs ! b) = ?p" by (simp_all add: nexts_def prevs_def)
  have b1b: "b1 ! b = bs ! b" using assms by (simp add: b1_def)
  have m: "move_to_front b bs = b6"
    unfolding move_to_front_def Let_def pn b1_def [symmetric] b1b b2_def [symmetric] b3_def [symmetric] b4_def [symmetric]
      h_def [symmetric] b5_def [symmetric] b6_def [symmetric] ..
  have l: "length b1 = NBUF + 1" "length b2 = NBUF + 1" "length b3 = NBUF + 1" "length b4 = NBUF + 1" "length b5 = NBUF + 1"
    using assms(1) by (simp_all add: b1_def b2_def b3_def b4_def b5_def)
  note f = nexts_upd_next nexts_upd_prev
  have n1: "nexts b1 = nexts bs" "prevs b1 = v" using assms by (simp_all add: b1_def f v_def)
  have n2: "nexts b2 = u" "prevs b2 = v" using assms l n1 by (simp_all add: b2_def f u_def)
  have n3: "nexts b3 = u(b := u NBUF)" "prevs b3 = v" using assms l n2 by (simp_all add: b3_def f flip: nexts_def)
  have n4: "nexts b4 = u(b := u NBUF)" "prevs b4 = v(b := NBUF)" using assms l n3 by (simp_all add: b4_def f)
  have h: "h = u NBUF" using n4(1) assms(2) by (simp add: h_def flip: nexts_def)
  have hl: "h \<le> NBUF" using assms by (auto simp: h u_def)
  have n5: "nexts b5 = u(b := u NBUF)" "prevs b5 = (v(b := NBUF))(h := b)" using l n4 hl by (simp_all add: b5_def f)
  show "nexts (move_to_front b bs) = (u(b := u NBUF))(NBUF := b)"
    "prevs (move_to_front b bs) = (v(b := NBUF))(u NBUF := b)"
    using l n5 h by (simp_all add: m b6_def f)
  show "same_but_links bs (move_to_front b bs)"
    unfolding m b6_def b5_def b4_def b3_def b2_def b1_def by (intro same_but_links_trans [OF _ same_but_links_upd(1)] same_but_links_trans [OF _ same_but_links_upd(2)]) (simp add: same_but_links_def)
qed

lemma lru_move_to_front:
  assumes "lru bs (ys @ b # zs)"
  shows "lru (move_to_front b bs) (b # ys @ zs)" "same_but_links bs (move_to_front b bs)"
proof -
  let ?nx = "nexts bs" and ?pv = "prevs bs"
  have c: "chain ?nx ?pv NBUF ys b" "chain ?nx ?pv b zs NBUF" and d: "distinct (ys @ b # zs)"
    and s: "set (ys @ b # zs) = {0..<NBUF}" and l: "length bs = NBUF + 1"
    using assms by (auto simp: lru_def chain_append)
  have nb: "b < NBUF" "NBUF \<notin> set ys" "NBUF \<notin> set zs" using s by auto
  have i: "nexts bs b \<in> insert NBUF (set zs)" "prevs bs b \<in> insert NBUF (set ys)" "nexts bs NBUF \<in> insert b (set ys)"
    using chain_ends [OF c(1)] chain_ends [OF c(2)] by auto
  have le: "nexts bs b \<le> NBUF" "prevs bs b \<le> NBUF" "nexts bs NBUF \<le> NBUF" "nexts bs b \<noteq> b" "prevs bs b \<noteq> b"
  proof -
    have "set ys \<subseteq> set (ys @ b # zs)" "set zs \<subseteq> set (ys @ b # zs)" by auto
    then have "set ys \<subseteq> {0..<NBUF}" "set zs \<subseteq> {0..<NBUF}" unfolding s .
    then have "\<And>x. x \<in> set ys \<Longrightarrow> x < NBUF" "\<And>x. x \<in> set zs \<Longrightarrow> x < NBUF" by auto
    then show "nexts bs b \<le> NBUF" "prevs bs b \<le> NBUF" "nexts bs NBUF \<le> NBUF" using i nb(1)
      by (auto intro: less_imp_le)
    show "nexts bs b \<noteq> b" "prevs bs b \<noteq> b" using i d nb by auto
  qed
  define u where "u = ?nx(?pv b := ?nx b)"
  define v where "v = ?pv(?nx b := ?pv b)"
  have c2: "chain u v NBUF (ys @ zs) NBUF"
    unfolding u_def v_def using c d nb by (intro chain_unlink) auto
  have "chain ((u(b := u NBUF))(NBUF := b)) ((v(b := NBUF))(u NBUF := b)) NBUF (b # ys @ zs) NBUF"
    using c2 d nb by (intro chain_insert) auto
  moreover note mv = move_to_front_links [OF l nb(1) le, folded u_def v_def]
  ultimately show "lru (move_to_front b bs) (b # ys @ zs)"
    using d s l mv(3) unfolding lru_def mv(1,2) by (auto simp: same_but_links_def)
  show "same_but_links bs (move_to_front b bs)" by (rule mv(3))
qed

section \<open>Frames\<close>

lemma disk_frame [simp]:
  "bufs (acq lk s) = bufs s" "writes (acq lk s) = writes s" "image (acq lk s) = image s" "disksize (acq lk s) = disksize s"
  "bufs (rel lk s) = bufs s" "writes (rel lk s) = writes s" "image (rel lk s) = image s" "disksize (rel lk s) = disksize s"
  "disk_st.more (acq lk s) = disk_st.more s" "disk_st.more (rel lk s) = disk_st.more s"
  "disk (acq lk s) = disk s" "disk (rel lk s) = disk s"
  by (simp_all add: acq_def rel_def pushcli_def Let_def disk_def)

lemma lockset_disk [simp]:
  "lockset L (s\<lparr>bufs := x\<rparr>) = lockset L s" "lockset L (s\<lparr>writes := y\<rparr>) = lockset L s"
  "lockset L (s\<lparr>idequeue := z\<rparr>) = lockset L s" "lockset L (s\<lparr>ide_port := p\<rparr>) = lockset L s"
  by (simp_all add: lockset_def)

lemma upd_buf_frame [simp]:
  "lockset L (upd_buf i f s) = lockset L s" "writes (upd_buf i f s) = writes s" "image (upd_buf i f s) = image s"
  "disksize (upd_buf i f s) = disksize s" "length (bufs (upd_buf i f s)) = length (bufs s)" "disk (upd_buf i f s) = disk s"
  "procs (upd_buf i f s) = procs s" "disk_st.more (upd_buf i f s) = disk_st.more s" "curproc (upd_buf i f s) = curproc s"
  by (simp_all add: upd_buf_def disk_def)

lemma bufs_upd_buf: "bufs (upd_buf i f s) = (bufs s)[i := f (bufs s ! i)]"
  by (simp add: upd_buf_def)

lemma disk_write [simp]: "disk (s\<lparr>writes := writes s @ [(a, x)]\<rparr>) = (disk s)(a := x)"
  by (simp add: disk_def apply_writes_def)

text \<open>What disk operations leave alone: everything but the locks, the cache, the disk and processes
  that wake up.\<close>

definition disk_rest :: "'a disk_st_scheme \<Rightarrow> 'a disk_st_scheme \<Rightarrow> bool" where
  "disk_rest s t \<longleftrightarrow> mach.more (t\<lparr>procs := [], bufs := [], writes := []\<rparr>) = mach.more (s\<lparr>procs := [], bufs := [], writes := []\<rparr>)
     \<and> list_all2 woken (procs s) (procs t)"

lemma disk_rest_refl [simp]: "disk_rest s s"
  by (simp add: disk_rest_def list_all2_refl)

lemma disk_rest_trans [trans]: "disk_rest s t \<Longrightarrow> disk_rest t u \<Longrightarrow> disk_rest s u"
  unfolding disk_rest_def by (auto elim: list_all2_trans [rotated 1] intro: woken_trans)

lemma disk_rest_upd [simp]:
  "disk_rest s (upd_buf i f s)" "disk_rest s (s\<lparr>writes := w\<rparr>)" "disk_rest s (acq lk s)" "disk_rest s (rel lk s)"
  "disk_rest s (wakeup1 ch s)" "disk_rest s (s\<lparr>bufs := x\<rparr>)"
  by (cases s; simp add: disk_rest_def upd_buf_def wakeup1_def acq_def rel_def pushcli_def Let_def list_all2_conv_all_nth)+

lemma disk_rest_fields:
  assumes "disk_rest s t"
  shows "disk_st.more t = disk_st.more s" "disksize t = disksize s" "image t = image s" "curproc t = curproc s"
    "mem t = mem s" "cr3 t = cr3 s" "freelist t = freelist s" "use_lock t = use_lock s" "initproc t = initproc s" "nextpid t = nextpid s"
    "length (procs t) = length (procs s)"
  using assms by (cases s; cases t; auto simp: disk_rest_def dest: list_all2_lengthD)+

section \<open>The cache and the blocks it stands for\<close>

definition holds_sector :: "buf \<Rightarrow> u32 \<Rightarrow> bool" where
  "holds_sector q a \<longleftrightarrow> b_dev q = 1 \<and> b_sector q = a"

text \<open>A buffer is unused or is for the disk; a dirty one is valid; one that nobody holds and that
  is valid and clean agrees with the disk.\<close>

definition buf_ok :: "(u32 \<Rightarrow> u8 list) \<Rightarrow> buf \<Rightarrow> bool" where
  "buf_ok d q \<longleftrightarrow> (b_dev q = 1 \<or> b_dev q = -1 \<and> \<not> b_busy q \<and> \<not> b_dirty q \<and> \<not> b_valid q) \<and>
     (b_dirty q \<longrightarrow> b_valid q) \<and> (b_valid q \<and> \<not> b_dirty q \<and> \<not> b_busy q \<longrightarrow> b_data q = d (b_sector q))"

definition one_buffer_each :: "buf list \<Rightarrow> bool" where
  "one_buffer_each bs \<longleftrightarrow> (\<forall>i<NBUF. \<forall>j<NBUF. b_dev (bs ! i) = 1 \<and> b_dev (bs ! j) = 1 \<and>
     b_sector (bs ! i) = b_sector (bs ! j) \<longrightarrow> i = j)"

definition cache_inv :: "'a disk_st_scheme \<Rightarrow> bool" where
  "cache_inv s \<longleftrightarrow> (\<exists>xs. lru (bufs s) xs) \<and> one_buffer_each (bufs s) \<and> (\<forall>i<NBUF. buf_ok (disk s) (bufs s ! i))"

text \<open>The abstract cache: the contents of every block as the kernel sees them, the contents of the
  disk, the blocks somebody holds and the blocks that must not be evicted.\<close>

record cache_view =
  v_blk :: "u32 \<Rightarrow> u8 list"
  v_disk :: "u32 \<Rightarrow> u8 list"
  v_busy :: "u32 set"
  v_dirty :: "u32 set"

definition blk_of :: "buf list \<Rightarrow> (u32 \<Rightarrow> u8 list) \<Rightarrow> u32 \<Rightarrow> u8 list" where
  "blk_of bs d a = (case List.find (\<lambda>i. holds_sector (bs ! i) a \<and> b_valid (bs ! i)) [0..<NBUF] of
     Some i \<Rightarrow> b_data (bs ! i) | None \<Rightarrow> d a)"

definition sectors :: "(buf \<Rightarrow> bool) \<Rightarrow> buf list \<Rightarrow> u32 set" where
  "sectors P bs = {a. \<exists>i<NBUF. holds_sector (bs ! i) a \<and> P (bs ! i)}"

definition view :: "'a disk_st_scheme \<Rightarrow> cache_view" where
  "view s = \<lparr>v_blk = blk_of (bufs s) (disk s), v_disk = disk s,
     v_busy = sectors b_busy (bufs s), v_dirty = sectors b_dirty (bufs s)\<rparr>"

definition held :: "'a disk_st_scheme \<Rightarrow> nat \<Rightarrow> u32 \<Rightarrow> bool" where
  "held s b a \<longleftrightarrow> b < NBUF \<and> holds_sector (bufs s ! b) a \<and> b_busy (bufs s ! b) \<and> b_valid (bufs s ! b)"

lemma blk_of_cached:
  assumes "one_buffer_each bs" "i < NBUF" "holds_sector (bs ! i) a" "b_valid (bs ! i)"
  shows "blk_of bs d a = b_data (bs ! i)"
proof -
  have "List.find (\<lambda>i. holds_sector (bs ! i) a \<and> b_valid (bs ! i)) [0..<NBUF] = Some i"
    using assms by (intro find_upt_unique) (auto simp: one_buffer_each_def holds_sector_def)
  then show ?thesis by (simp add: blk_of_def)
qed

lemma blk_of_uncached:
  assumes "\<And>i. i < NBUF \<Longrightarrow> holds_sector (bs ! i) a \<Longrightarrow> \<not> b_valid (bs ! i)"
  shows "blk_of bs d a = d a"
proof -
  have "List.find (\<lambda>i. holds_sector (bs ! i) a \<and> b_valid (bs ! i)) [0..<NBUF] = None"
    using assms by (auto simp: find_upt_None)
  then show ?thesis by (simp add: blk_of_def)
qed

lemma blk_of_eqI:
  assumes "one_buffer_each bs"
    and "\<And>i. i < NBUF \<Longrightarrow> holds_sector (bs ! i) a \<Longrightarrow> b_valid (bs ! i) \<Longrightarrow> b_data (bs ! i) = x"
    and "(\<And>i. i < NBUF \<Longrightarrow> holds_sector (bs ! i) a \<Longrightarrow> \<not> b_valid (bs ! i)) \<Longrightarrow> d a = x"
  shows "blk_of bs d a = x"
  using blk_of_cached [OF assms(1)] blk_of_uncached assms(2,3) by metis


lemma sectors_iff: "a \<in> sectors P bs \<longleftrightarrow> (\<exists>i<NBUF. holds_sector (bs ! i) a \<and> P (bs ! i))"
  by (simp add: sectors_def)

lemma same_but_links_fields:
  assumes "same_but_links bs bs'" "i < length bs"
  shows "b_busy (bs' ! i) = b_busy (bs ! i)" "b_valid (bs' ! i) = b_valid (bs ! i)" "b_dirty (bs' ! i) = b_dirty (bs ! i)"
    "b_dev (bs' ! i) = b_dev (bs ! i)" "b_sector (bs' ! i) = b_sector (bs ! i)" "b_data (bs' ! i) = b_data (bs ! i)"
proof -
  have "(bs' ! i)\<lparr>b_prev := 0, b_next := 0\<rparr> = (bs ! i)\<lparr>b_prev := 0, b_next := 0\<rparr>"
    using assms by (simp add: same_but_links_def)
  then show "b_busy (bs' ! i) = b_busy (bs ! i)" "b_valid (bs' ! i) = b_valid (bs ! i)" "b_dirty (bs' ! i) = b_dirty (bs ! i)"
    "b_dev (bs' ! i) = b_dev (bs ! i)" "b_sector (bs' ! i) = b_sector (bs ! i)" "b_data (bs' ! i) = b_data (bs ! i)"
    by (cases "bs ! i"; cases "bs' ! i"; simp)+
qed

text \<open>Changing the contents of one buffer keeps the list.\<close>

lemma lru_upd:
  assumes "lru bs xs" "b < NBUF" "b_next q = b_next (bs ! b)" "b_prev q = b_prev (bs ! b)"
  shows "lru (bs[b := q]) xs"
proof -
  have "nexts (bs[b := q]) = nexts bs" "prevs (bs[b := q]) = prevs bs"
    using assms by (auto simp: lru_def nexts_def prevs_def fun_eq_iff nth_list_update)
  then show ?thesis using assms(1) by (simp add: lru_def)
qed

text \<open>An update of buffer \<open>b\<close> to \<open>q\<close> that keeps the invariant.\<close>

lemma cache_inv_upd:
  assumes "cache_inv s" "b < NBUF" "b_next q = b_next (bufs s ! b)" "b_prev q = b_prev (bufs s ! b)"
    and "bufs t = (bufs s)[b := q]"
    and "\<And>i. i < NBUF \<Longrightarrow> i \<noteq> b \<Longrightarrow> b_dev q = 1 \<Longrightarrow> \<not> holds_sector (bufs s ! i) (b_sector q)"
    and "buf_ok (disk t) q" and "\<And>i. i < NBUF \<Longrightarrow> i \<noteq> b \<Longrightarrow> buf_ok (disk t) (bufs s ! i)"
  shows "cache_inv t"
proof -
  obtain xs where "lru (bufs s) xs" using assms(1) by (auto simp: cache_inv_def)
  then have l: "lru (bufs t) xs" unfolding assms(5) using assms(2-4) by (rule lru_upd)
  have len: "length (bufs s) = NBUF + 1" using assms(1) by (auto simp: cache_inv_def lru_def)
  have nth: "bufs t ! i = (if i = b then q else bufs s ! i)" if "i < NBUF" for i
    using that assms(2,5) len by (simp add: nth_list_update)
  have "one_buffer_each (bufs t)"
    unfolding one_buffer_each_def
  proof (intro allI impI)
    fix i j assume "i < NBUF" "j < NBUF" "b_dev (bufs t ! i) = 1 \<and> b_dev (bufs t ! j) = 1 \<and> b_sector (bufs t ! i) = b_sector (bufs t ! j)"
    then show "i = j"
      using assms(1) assms(6) [of i] assms(6) [of j]
      by (cases "i = b"; cases "j = b") (auto simp: nth cache_inv_def one_buffer_each_def holds_sector_def)
  qed
  then show ?thesis using l assms(7,8) by (auto simp: cache_inv_def nth)
qed


lemma cache_len: "cache_inv s \<Longrightarrow> length (bufs s) = NBUF + 1"
  by (auto simp: cache_inv_def lru_def)

lemma held_unique: "cache_inv s \<Longrightarrow> held s b a \<Longrightarrow> i < NBUF \<Longrightarrow> holds_sector (bufs s ! i) a \<Longrightarrow> i = b"
  by (auto simp: cache_inv_def one_buffer_each_def held_def holds_sector_def)

lemma held_blk: "cache_inv s \<Longrightarrow> held s b a \<Longrightarrow> v_blk (view s) a = b_data (bufs s ! b)"
  by (simp add: view_def held_def cache_inv_def blk_of_cached)

text \<open>The effect on the view of changing one buffer that stays with its sector.\<close>

definition mark :: "bool \<Rightarrow> u32 \<Rightarrow> u32 set \<Rightarrow> u32 set" where
  "mark p a A = (if p then insert a A else A - {a})"

lemma sectors_upd:
  assumes "one_buffer_each bs" "length bs = NBUF + 1" "b < NBUF" "holds_sector (bs ! b) a" "holds_sector q a"
  shows "sectors P (bs[b := q]) = mark (P q) a (sectors P bs)"
proof (intro set_eqI)
  fix z
  have nth: "bs[b := q] ! i = (if i = b then q else bs ! i)" if "i < NBUF" for i
    using that assms(2,3) by (simp add: nth_list_update)
  have u: "i = b" if "i < NBUF" "holds_sector (bs ! i) a" for i
    using that assms by (auto simp: one_buffer_each_def holds_sector_def)
  have qz: "holds_sector q z \<longleftrightarrow> z = a" "holds_sector (bs ! b) z \<longleftrightarrow> z = a" using assms(4,5) by (auto simp: holds_sector_def)
  show "z \<in> sectors P (bs[b := q]) \<longleftrightarrow> z \<in> mark (P q) a (sectors P bs)"
  proof (cases "z = a")
    case True
    have "holds_sector (bs[b := q] ! i) a \<longleftrightarrow> i = b" if "i < NBUF" for i
      using nth [OF that] u [OF that] assms(5) by (cases "i = b") auto
    then have "a \<in> sectors P (bs[b := q]) \<longleftrightarrow> P q"
      unfolding sectors_iff using assms(3) nth [OF assms(3)] by metis
    then show ?thesis using True by (simp add: mark_def)
  next
    case False
    then have "z \<in> mark (P q) a (sectors P bs) \<longleftrightarrow> z \<in> sectors P bs" by (simp add: mark_def)
    also have "\<dots> \<longleftrightarrow> z \<in> sectors P (bs[b := q])"
    proof -
      have "(holds_sector (bs ! i) z \<and> P (bs ! i)) = (holds_sector (bs[b := q] ! i) z \<and> P (bs[b := q] ! i))" if "i < NBUF" for i
        using nth [OF that] False qz by (cases "i = b") auto
      then show ?thesis unfolding sectors_iff by blast
    qed
    finally show ?thesis by simp
  qed
qed

lemma blk_of_upd:
  assumes "one_buffer_each bs" "length bs = NBUF + 1" "b < NBUF" "holds_sector (bs ! b) a" "holds_sector q a"
    and "\<And>z. z \<noteq> a \<Longrightarrow> d' z = d z"
  shows "blk_of (bs[b := q]) d' = (blk_of bs d)(a := if b_valid q then b_data q else d' a)"
proof
  fix z
  have nth: "bs[b := q] ! i = (if i = b then q else bs ! i)" if "i < NBUF" for i
    using that assms(2,3) by (simp add: nth_list_update)
  have u: "i = b" if "i < NBUF" "holds_sector (bs ! i) a" for i
    using that assms by (auto simp: one_buffer_each_def holds_sector_def)
  have qz: "holds_sector q z \<longleftrightarrow> z = a" "holds_sector (bs ! b) z \<longleftrightarrow> z = a" using assms(4,5) by (auto simp: holds_sector_def)
  show "blk_of (bs[b := q]) d' z = ((blk_of bs d)(a := if b_valid q then b_data q else d' a)) z"
  proof (cases "z = a")
    case True
    have "List.find (\<lambda>i. holds_sector (bs[b := q] ! i) a \<and> b_valid (bs[b := q] ! i)) [0..<NBUF] = (if b_valid q then Some b else None)"
    proof (cases "b_valid q")
      case True
      then have "List.find (\<lambda>i. holds_sector (bs[b := q] ! i) a \<and> b_valid (bs[b := q] ! i)) [0..<NBUF] = Some b"
        using u assms(3,5) by (intro find_upt_unique) (auto simp: nth split: if_splits)
      then show ?thesis using True by simp
    next
      case False
      then have "\<not> (holds_sector (bs[b := q] ! i) a \<and> b_valid (bs[b := q] ! i))" if "i < NBUF" for i
        using u [OF that] nth [OF that] by (cases "i = b") auto
      then show ?thesis using False by (simp add: find_upt_None)
    qed
    then show ?thesis using True assms(2,3) by (simp add: blk_of_def)
  next
    case False
    have p: "(holds_sector (bs[b := q] ! i) z \<and> b_valid (bs[b := q] ! i)) = (holds_sector (bs ! i) z \<and> b_valid (bs ! i))" if "i < NBUF" for i
      using False qz by (auto simp: nth [OF that])
    have e: "List.find (\<lambda>i. holds_sector (bs[b := q] ! i) z \<and> b_valid (bs[b := q] ! i)) [0..<NBUF] =
        List.find (\<lambda>i. holds_sector (bs ! i) z \<and> b_valid (bs ! i)) [0..<NBUF]"
      using p by (intro find_cong) auto
    show ?thesis
    proof (cases "List.find (\<lambda>i. holds_sector (bs ! i) z \<and> b_valid (bs ! i)) [0..<NBUF]")
      case None
      then show ?thesis using False assms(6) [OF False] unfolding blk_of_def e by simp
    next
      case (Some i)
      then have i: "i < NBUF" "holds_sector (bs ! i) z" by (auto simp: find_upt_Some)
      then have "i \<noteq> b" using False qz by auto
      then show ?thesis using False Some nth [OF i(1)] unfolding blk_of_def e by simp
    qed
  qed
qed

lemma cache_upd_same_sector:
  assumes c: "cache_inv s" and b: "b < NBUF" "holds_sector (bufs s ! b) a" "holds_sector q a"
    and l: "b_next q = b_next (bufs s ! b)" "b_prev q = b_prev (bufs s ! b)"
    and t: "bufs t = (bufs s)[b := q]" "\<And>z. z \<noteq> a \<Longrightarrow> disk t z = disk s z" and q: "buf_ok (disk t) q"
  shows "cache_inv t" "view t = \<lparr>v_blk = (v_blk (view s))(a := if b_valid q then b_data q else disk t a), v_disk = disk t,
     v_busy = mark (b_busy q) a (v_busy (view s)), v_dirty = mark (b_dirty q) a (v_dirty (view s))\<rparr>"
proof -
  have o: "one_buffer_each (bufs s)" using c by (simp add: cache_inv_def)
  have u: "i = b" if "i < NBUF" "holds_sector (bufs s ! i) a" for i
    using that b o by (auto simp: one_buffer_each_def holds_sector_def)
  show "cache_inv t"
  proof (rule cache_inv_upd [OF c b(1) l t(1) _ q])
    show "\<not> holds_sector (bufs s ! i) (b_sector q)" if "i < NBUF" "i \<noteq> b" for i
      using u [of i] that b(3) by (auto simp: holds_sector_def)
    show "buf_ok (disk t) (bufs s ! i)" if "i < NBUF" "i \<noteq> b" for i
    proof -
      have "b_dev (bufs s ! i) = 1 \<Longrightarrow> b_sector (bufs s ! i) \<noteq> a" using u [of i] that by (auto simp: holds_sector_def)
      then show ?thesis using c that t(2) [of "b_sector (bufs s ! i)"] by (auto simp: cache_inv_def buf_ok_def)
    qed
  qed
  show "view t = \<lparr>v_blk = (v_blk (view s))(a := if b_valid q then b_data q else disk t a), v_disk = disk t,
     v_busy = mark (b_busy q) a (v_busy (view s)), v_dirty = mark (b_dirty q) a (v_dirty (view s))\<rparr>"
    using sectors_upd [OF o cache_len [OF c] b] blk_of_upd [OF o cache_len [OF c] b, of "disk t" "disk s"] t
    by (simp add: view_def)
qed

lemma held_fields:
  assumes "cache_inv s" "held s b a"
  shows "b < NBUF" "b < length (bufs s)" "holds_sector (bufs s ! b) a" "b_busy (bufs s ! b)" "b_valid (bufs s ! b)"
    "buf_ok (disk s) (bufs s ! b)" "a \<in> v_busy (view s)" "b_dirty (bufs s ! b) \<longleftrightarrow> a \<in> v_dirty (view s)"
  using assms cache_len [OF assms(1)] held_unique [OF assms]
  by (auto simp: held_def view_def sectors_iff cache_inv_def)

text \<open>Writing the data or the dirty bit of a held buffer.\<close>

lemma view_set_data:
  fixes x :: "u8 list"
  assumes c: "cache_inv s" and h: "held s b a"
  defines "t \<equiv> upd_buf b (b_data_update (\<lambda>_. x)) s"
  shows "cache_inv t" "held t b a" "b_data (bufs t ! b) = x" "view t = (view s)\<lparr>v_blk := (v_blk (view s))(a := x)\<rparr>"
proof -
  note hf = held_fields [OF c h]
  have bt: "bufs t = (bufs s)[b := (bufs s ! b)\<lparr>b_data := x\<rparr>]" "disk t = disk s" by (simp_all add: t_def bufs_upd_buf)
  have "holds_sector ((bufs s ! b)\<lparr>b_data := x\<rparr>) a" "buf_ok (disk t) ((bufs s ! b)\<lparr>b_data := x\<rparr>)"
    using hf by (auto simp: holds_sector_def buf_ok_def)
  from cache_upd_same_sector [OF c hf(1,3) this(1) _ _ bt(1) _ this(2)] bt(2) hf
  show "cache_inv t" "view t = (view s)\<lparr>v_blk := (v_blk (view s))(a := x)\<rparr>"
    by (auto simp: view_def mark_def insert_absorb)
  show "held t b a" "b_data (bufs t ! b) = x" using hf by (auto simp: held_def holds_sector_def bt)
qed

lemma view_set_dirty:
  assumes c: "cache_inv s" and h: "held s b a"
  defines "t \<equiv> upd_buf b (b_dirty_update (\<lambda>_. True)) s"
  shows "cache_inv t" "held t b a" "b_data (bufs t ! b) = b_data (bufs s ! b)"
    "view t = (view s)\<lparr>v_dirty := insert a (v_dirty (view s))\<rparr>"
proof -
  note hf = held_fields [OF c h]
  have bt: "bufs t = (bufs s)[b := (bufs s ! b)\<lparr>b_dirty := True\<rparr>]" "disk t = disk s" by (simp_all add: t_def bufs_upd_buf)
  have "holds_sector ((bufs s ! b)\<lparr>b_dirty := True\<rparr>) a" "buf_ok (disk t) ((bufs s ! b)\<lparr>b_dirty := True\<rparr>)"
    using hf by (auto simp: holds_sector_def buf_ok_def)
  from cache_upd_same_sector [OF c hf(1,3) this(1) _ _ bt(1) _ this(2)] bt(2) hf held_blk [OF c h]
  show "cache_inv t" "view t = (view s)\<lparr>v_dirty := insert a (v_dirty (view s))\<rparr>"
    by (auto simp: view_def mark_def insert_absorb)
  show "held t b a" "b_data (bufs t ! b) = b_data (bufs s ! b)" using hf by (auto simp: held_def holds_sector_def bt)
qed

section \<open>Recycling a buffer\<close>

lemma cache_evict:
  assumes c: "cache_inv s" and j: "j < NBUF" "\<not> b_busy (bufs s ! j)" "\<not> b_dirty (bufs s ! j)"
    and miss: "\<And>i. i < NBUF \<Longrightarrow> \<not> holds_sector (bufs s ! i) a"
    and q: "q = (bufs s ! j)\<lparr>b_dev := 1, b_sector := a, b_busy := True, b_dirty := False, b_data := disk s a, b_valid := True\<rparr>"
    and t: "bufs t = (bufs s)[j := q]" "disk t = disk s"
  shows "cache_inv t" "view t = (view s)\<lparr>v_busy := insert a (v_busy (view s))\<rparr>" "v_blk (view s) a = disk s a"
proof -
  have o: "one_buffer_each (bufs s)" and ok: "buf_ok (disk s) (bufs s ! j)" using c j(1) by (auto simp: cache_inv_def)
  have qf: "holds_sector q a" "b_valid q" "b_busy q" "\<not> b_dirty q" "b_data q = disk s a" by (auto simp: q holds_sector_def)
  show ct: "cache_inv t"
  proof (rule cache_inv_upd [OF c j(1) _ _ t(1)])
    show "\<not> holds_sector (bufs s ! i) (b_sector q)" if "i < NBUF" for i using miss [OF that] by (simp add: q)
    show "buf_ok (disk t) q" by (simp add: q buf_ok_def t(2))
    show "buf_ok (disk t) (bufs s ! i)" if "i < NBUF" for i using c that by (simp add: cache_inv_def t(2))
  qed (simp_all add: q)
  have nth: "bufs t ! i = (if i = j then q else bufs s ! i)" if "i < NBUF" for i
    using that t(1) cache_len [OF c] j(1) by (simp add: nth_list_update)
  show da: "v_blk (view s) a = disk s a" using blk_of_uncached [of "bufs s" a "disk s"] miss by (auto simp: view_def)
  have blk: "blk_of (bufs t) (disk t) z = blk_of (bufs s) (disk s) z" for z
  proof (cases "z = a")
    case True
    have "blk_of (bufs t) (disk t) a = b_data (bufs t ! j)"
      using ct qf by (intro blk_of_cached) (auto simp: cache_inv_def nth [OF j(1)] j(1))
    then show ?thesis using da True qf nth [OF j(1)] by (simp add: view_def)
  next
    case za: False
    show ?thesis
    proof (cases "\<exists>i<NBUF. i \<noteq> j \<and> holds_sector (bufs s ! i) z \<and> b_valid (bufs s ! i)")
      case True
      then obtain i where i: "i < NBUF" "i \<noteq> j" "holds_sector (bufs s ! i) z" "b_valid (bufs s ! i)" by blast
      have "one_buffer_each (bufs t)" using ct by (simp add: cache_inv_def)
      then show ?thesis using blk_of_cached [of "bufs t" i z "disk t"] blk_of_cached [OF o i(1,3,4), of "disk s"] i nth [OF i(1)] by simp
    next
      case False
      have "blk_of (bufs t) (disk t) z = disk t z"
      proof (rule blk_of_uncached)
        fix i assume "i < NBUF" "holds_sector (bufs t ! i) z"
        then show "\<not> b_valid (bufs t ! i)" using False za qf nth [of i] by (cases "i = j") (auto simp: holds_sector_def)
      qed
      moreover have "blk_of (bufs s) (disk s) z = disk s z"
      proof (rule blk_of_eqI [OF o])
        fix i assume "i < NBUF" "holds_sector (bufs s ! i) z" "b_valid (bufs s ! i)"
        then show "b_data (bufs s ! i) = disk s z" using False ok j by (cases "i = j") (auto simp: buf_ok_def holds_sector_def)
      qed simp
      ultimately show ?thesis by (simp add: t(2))
    qed
  qed
  moreover have "sectors b_busy (bufs t) = insert a (sectors b_busy (bufs s))"
  proof (intro set_eqI iffI)
    fix z assume "z \<in> sectors b_busy (bufs t)"
    then obtain i where "i < NBUF" "holds_sector (bufs t ! i) z" "b_busy (bufs t ! i)" by (auto simp: sectors_iff)
    then show "z \<in> insert a (sectors b_busy (bufs s))"
      using nth [of i] qf by (cases "i = j") (auto simp: sectors_iff holds_sector_def)
  next
    fix z assume z: "z \<in> insert a (sectors b_busy (bufs s))"
    show "z \<in> sectors b_busy (bufs t)"
    proof (cases "z = a")
      case True
      then show ?thesis using j(1) qf nth [OF j(1)] by (auto simp: sectors_iff)
    next
      case False
      with z obtain i where i: "i < NBUF" "holds_sector (bufs s ! i) z" "b_busy (bufs s ! i)" by (auto simp: sectors_iff)
      then have "i \<noteq> j" using j by auto
      then show ?thesis using i nth [OF i(1)] by (auto simp: sectors_iff)
    qed
  qed
  moreover have "sectors b_dirty (bufs t) = sectors b_dirty (bufs s)"
  proof (intro set_eqI)
    fix z
    have "(holds_sector (bufs t ! i) z \<and> b_dirty (bufs t ! i)) = (holds_sector (bufs s ! i) z \<and> b_dirty (bufs s ! i))" if "i < NBUF" for i
      using nth [OF that] qf j by (cases "i = j") auto
    then show "z \<in> sectors b_dirty (bufs t) \<longleftrightarrow> z \<in> sectors b_dirty (bufs s)" unfolding sectors_iff by blast
  qed
  moreover have "blk_of (bufs t) (disk t) = blk_of (bufs s) (disk s)" by (rule ext) (rule blk)
  ultimately show "view t = (view s)\<lparr>v_busy := insert a (v_busy (view s))\<rparr>"
    by (simp add: view_def t(2))
qed

section \<open>Reading, writing and releasing\<close>

lemma find_unique:
  assumes "x \<in> set xs" "P x" "\<And>y. y \<in> set xs \<Longrightarrow> P y \<Longrightarrow> y = x"
  shows "List.find P xs = Some x"
  using assms(1,3)
proof (induction xs)
  case (Cons y ys)
  show ?case
  proof (cases "P y")
    case True
    then show ?thesis using Cons.prems(2) [of y] by simp
  next
    case False
    then have "x \<in> set ys" using Cons.prems(1) assms(2) by auto
    moreover have "\<And>z. z \<in> set ys \<Longrightarrow> P z \<Longrightarrow> z = x" using Cons.prems(2) by simp
    ultimately show ?thesis using Cons.IH False by simp
  qed
qed simp

lemma lru_length: "lru bs xs \<Longrightarrow> length xs = NBUF"
  using distinct_card [of xs] by (auto simp: lru_def)

lemma lru_scan:
  assumes "lru bs xs"
  shows "scan_next (NBUF + 1) P bs (b_next (bs ! NBUF)) = Some (List.find (\<lambda>i. P (bs ! i)) xs)"
    "scan_prev (NBUF + 1) P bs (b_prev (bs ! NBUF)) = Some (List.find (\<lambda>i. P (bs ! i)) (rev xs))"
proof -
  have c: "chain (nexts bs) (prevs bs) NBUF xs NBUF" "NBUF \<notin> set xs" and n: "NBUF + 1 = Suc (length xs)"
    using assms lru_length [OF assms] by (auto simp: lru_def)
  show "scan_next (NBUF + 1) P bs (b_next (bs ! NBUF)) = Some (List.find (\<lambda>i. P (bs ! i)) xs)"
    unfolding n using scan_next_find [OF c, of P] by (simp only: nexts_def)
  show "scan_prev (NBUF + 1) P bs (b_prev (bs ! NBUF)) = Some (List.find (\<lambda>i. P (bs ! i)) (rev xs))"
    unfolding n using scan_prev_find [OF c, of P] by (simp only: prevs_def)
qed

lemma bget_hit:
  assumes c: "cache_inv s" and l: "lockset L s" "LBcache \<notin> set L"
    and i: "i < NBUF" "holds_sector (bufs s ! i) a" "\<not> b_busy (bufs s ! i)"
  shows "\<exists>t. bget 1 a s = Inr (i, t) \<and> bufs t = (bufs s)[i := (bufs s ! i)\<lparr>b_busy := True\<rparr>] \<and>
     disk_rest s t \<and> writes t = writes s \<and> lockset L t"
proof -
  obtain xs where xs: "lru (bufs s) xs" using c by (auto simp: cache_inv_def)
  have a: "acquire LBcache s = Inr (acq LBcache s)" "lockset (LBcache # L) (acq LBcache s)"
    using acquire_acq [OF l] by auto
  have f: "List.find (\<lambda>i. b_dev (bufs s ! i) = 1 \<and> b_sector (bufs s ! i) = a) xs = Some i"
  proof (rule find_unique)
    show "i \<in> set xs" using xs i(1) by (auto simp: lru_def)
    show "b_dev (bufs s ! i) = 1 \<and> b_sector (bufs s ! i) = a" using i(2) by (simp add: holds_sector_def)
    show "y = i" if "y \<in> set xs" "b_dev (bufs s ! y) = 1 \<and> b_sector (bufs s ! y) = a" for y
      using that xs c i by (auto simp: lru_def cache_inv_def one_buffer_each_def holds_sector_def)
  qed
  let ?s = "upd_buf i (b_busy_update (\<lambda>_. True)) (acq LBcache s)"
  have r: "release LBcache ?s = Inr (rel LBcache ?s)" "lockset L (rel LBcache ?s)"
    using release_rel [of LBcache L ?s] a by auto
  have "bget 1 a s = Inr (i, rel LBcache ?s)"
    using lru_scan(1) [OF xs, of "\<lambda>q. b_dev q = 1 \<and> b_sector q = a"] i(3)
    by (simp add: bget_def a(1) bget_loop_def f r(1) del: scan_next.simps)
  moreover have "disk_rest s (rel LBcache ?s)" by (rule disk_rest_trans [OF disk_rest_trans]) (rule disk_rest_upd)+
  ultimately show ?thesis using r(2) by (auto simp: bufs_upd_buf)
qed

lemma bget_miss:
  assumes c: "cache_inv s" and l: "lockset L s" "LBcache \<notin> set L"
    and miss: "\<And>i. i < NBUF \<Longrightarrow> \<not> holds_sector (bufs s ! i) a"
    and free: "\<exists>j<NBUF. \<not> b_busy (bufs s ! j) \<and> \<not> b_dirty (bufs s ! j)"
  shows "\<exists>j t. j < NBUF \<and> \<not> b_busy (bufs s ! j) \<and> \<not> b_dirty (bufs s ! j) \<and> bget 1 a s = Inr (j, t) \<and>
     bufs t = (bufs s)[j := (bufs s ! j)\<lparr>b_dev := 1, b_sector := a, b_busy := True, b_valid := False, b_dirty := False\<rparr>] \<and>
     disk_rest s t \<and> writes t = writes s \<and> lockset L t"
proof -
  obtain xs where xs: "lru (bufs s) xs" using c by (auto simp: cache_inv_def)
  have a: "acquire LBcache s = Inr (acq LBcache s)" "lockset (LBcache # L) (acq LBcache s)"
    using acquire_acq [OF l] by auto
  have f: "List.find (\<lambda>i. b_dev (bufs s ! i) = 1 \<and> b_sector (bufs s ! i) = a) xs = None"
    using xs miss by (auto simp: find_None_iff lru_def holds_sector_def)
  let ?P = "\<lambda>i. \<not> b_busy (bufs s ! i) \<and> \<not> b_dirty (bufs s ! i)"
  have "List.find ?P (rev xs) \<noteq> None" using xs free by (auto simp: find_None_iff lru_def)
  then obtain j where fj: "List.find ?P (rev xs) = Some j" by blast
  then have j: "j \<in> set xs" "?P j" by (auto simp: find_Some_iff) (metis nth_mem set_rev length_rev)
  let ?s = "upd_buf j (\<lambda>q. q\<lparr>b_dev := 1, b_sector := a, b_busy := True, b_valid := False, b_dirty := False\<rparr>) (acq LBcache s)"
  have r: "release LBcache ?s = Inr (rel LBcache ?s)" "lockset L (rel LBcache ?s)"
    using release_rel [of LBcache L ?s] a by auto
  have "bget 1 a s = Inr (j, rel LBcache ?s)"
    using lru_scan(1) [OF xs, of "\<lambda>q. b_dev q = 1 \<and> b_sector q = a"] lru_scan(2) [OF xs, of "\<lambda>q. \<not> b_busy q \<and> \<not> b_dirty q"]
    unfolding bget_def a(1) kbind_simps bget_loop_def
    by (simp add: f fj r(1) Let_def del: scan_next.simps scan_prev.simps)
  moreover have "disk_rest s (rel LBcache ?s)" by (rule disk_rest_trans [OF disk_rest_trans]) (rule disk_rest_upd)+
  moreover have "j < NBUF" using j(1) xs by (simp add: lru_def)
  ultimately show ?thesis using r(2) j(2) by (intro exI [of _ j] exI [of _ "rel LBcache ?s"]) (simp add: bufs_upd_buf)
qed

definition keeps_held :: "'a disk_st_scheme \<Rightarrow> 'a disk_st_scheme \<Rightarrow> bool" where
  "keeps_held s t \<longleftrightarrow> (\<forall>b a. held s b a \<longrightarrow> held t b a)"

text \<open>Room in the cache: the block is there, or fewer blocks than buffers are held or dirty.\<close>

definition room :: "u32 \<Rightarrow> cache_view \<Rightarrow> bool" where
  "room a v \<longleftrightarrow> a \<in> v_dirty v \<or> card (v_busy v \<union> v_dirty v) < NBUF"

lemma free_buffer:
  assumes c: "cache_inv s" and "card (v_busy (view s) \<union> v_dirty (view s)) < NBUF"
  shows "\<exists>j<NBUF. \<not> b_busy (bufs s ! j) \<and> \<not> b_dirty (bufs s ! j)"
proof (rule ccontr)
  assume n: "\<not> ?thesis"
  have dev: "b_dev (bufs s ! j) = 1" if "j < NBUF" for j
    using c n that by (auto simp: cache_inv_def buf_ok_def)
  have "inj_on (\<lambda>j. b_sector (bufs s ! j)) {0..<NBUF}"
    using c dev by (auto simp: inj_on_def cache_inv_def one_buffer_each_def)
  then have "card ((\<lambda>j. b_sector (bufs s ! j)) ` {0..<NBUF}) = NBUF" by (simp add: card_image)
  moreover have "(\<lambda>j. b_sector (bufs s ! j)) ` {0..<NBUF} \<subseteq> v_busy (view s) \<union> v_dirty (view s)"
  proof
    fix x assume "x \<in> (\<lambda>j. b_sector (bufs s ! j)) ` {0..<NBUF}"
    then obtain j where "j < NBUF" "x = b_sector (bufs s ! j)" by auto
    then have "holds_sector (bufs s ! j) x" "b_busy (bufs s ! j) \<or> b_dirty (bufs s ! j)" using n dev by (auto simp: holds_sector_def)
    then show "x \<in> v_busy (view s) \<union> v_dirty (view s)" using \<open>j < NBUF\<close> by (auto simp: view_def sectors_iff)
  qed
  moreover have "finite (v_busy (view s) \<union> v_dirty (view s))"
    by (rule finite_subset [of _ "(\<lambda>j. b_sector (bufs s ! j)) ` {0..<NBUF}"])
      (auto simp: view_def sectors_def holds_sector_def)
  ultimately have "NBUF \<le> card (v_busy (view s) \<union> v_dirty (view s))" by (metis card_mono)
  then show False using assms(2) by simp
qed

lemma iderw_read:
  assumes "b_busy (bufs s ! b)" "\<not> b_valid (bufs s ! b)" "\<not> b_dirty (bufs s ! b)" "b_dev (bufs s ! b) = 1"
    "b_sector (bufs s ! b) < disksize s" "b < length (bufs s)"
  shows "\<exists>t. iderw b s = Inr t \<and> bufs t = (bufs s)[b := (bufs s ! b)\<lparr>b_data := disk s (b_sector (bufs s ! b)), b_valid := True\<rparr>] \<and>
     disk_rest s t \<and> writes t = writes s \<and> (\<forall>L. lockset L t = lockset L s)"
proof -
  let ?t = "upd_buf b (b_valid_update (\<lambda>_. True)) (upd_buf b (b_data_update (\<lambda>_. disk s (b_sector (bufs s ! b)))) s)"
  have "iderw b s = Inr ?t" using assms by (simp add: iderw_def Let_def)
  moreover have "disk_rest s ?t" by (rule disk_rest_trans) (rule disk_rest_upd)+
  ultimately show ?thesis using assms(6) by (intro exI [of _ ?t]) (simp add: bufs_upd_buf)
qed

lemma disk_of_rest: "disk_rest s t \<Longrightarrow> writes t = writes s \<Longrightarrow> disk t = disk s"
  by (simp add: disk_def disk_rest_fields)

lemma bread_spec:
  assumes c: "cache_inv s" and l: "lockset L s" "LBcache \<notin> set L"
    and a: "a < disksize s" "a \<notin> v_busy (view s)" "room a (view s)"
  shows "returns (bread 1 a s) (\<lambda>(b, t). cache_inv t \<and> held t b a \<and> b_data (bufs t ! b) = v_blk (view s) a \<and>
     view t = (view s)\<lparr>v_busy := insert a (v_busy (view s))\<rparr> \<and> disk_rest s t \<and> writes t = writes s \<and>
     lockset L t \<and> keeps_held s t)"
proof (cases "\<exists>i<NBUF. holds_sector (bufs s ! i) a")
  case True
  then obtain i where i: "i < NBUF" "holds_sector (bufs s ! i) a" by blast
  then have nb: "\<not> b_busy (bufs s ! i)" using a(2) by (auto simp: view_def sectors_iff)
  obtain t where t: "bget 1 a s = Inr (i, t)" "bufs t = (bufs s)[i := (bufs s ! i)\<lparr>b_busy := True\<rparr>]" "disk_rest s t"
    "writes t = writes s" "lockset L t"
    using bget_hit [OF c l i nb] by blast
  have len: "i < length (bufs s)" using i cache_len [OF c] by simp
  have ok: "buf_ok (disk s) (bufs s ! i)" and o: "one_buffer_each (bufs s)" using c i by (auto simp: cache_inv_def)
  have u: "k = i" if "k < NBUF" "holds_sector (bufs s ! k) a" for k
    using that i o by (auto simp: one_buffer_each_def holds_sector_def)
  let ?q = "(bufs s ! i)\<lparr>b_busy := True, b_data := v_blk (view s) a, b_valid := True\<rparr>"
  have blk: "v_blk (view s) a = (if b_valid (bufs s ! i) then b_data (bufs s ! i) else disk s a)"
    using blk_of_cached [OF o i] blk_of_uncached [of "bufs s" a "disk s"] u by (auto simp: view_def)
  have q: "holds_sector ?q a" "buf_ok d ?q" for d using i ok by (auto simp: holds_sector_def buf_ok_def)
  have key: "cache_inv u \<and> held u i a \<and> b_data (bufs u ! i) = v_blk (view s) a \<and>
     view u = (view s)\<lparr>v_busy := insert a (v_busy (view s))\<rparr> \<and> disk_rest s u \<and> writes u = writes s \<and>
     lockset L u \<and> keeps_held s u"
    if u: "bufs u = (bufs s)[i := ?q]" "disk_rest s u" "writes u = writes s" "lockset L u" for u :: "'a disk_st_scheme"
  proof -
    have du: "disk u = disk s" using u by (simp add: disk_of_rest)
    note cu = cache_upd_same_sector [OF c i q(1) _ _ u(1) _ q(2)]
    have "sectors b_dirty (bufs s) = mark (b_dirty (bufs s ! i)) a (sectors b_dirty (bufs s))"
      using sectors_upd [OF o cache_len [OF c] i i(2), of b_dirty] by simp
    then have "view u = (view s)\<lparr>v_busy := insert a (v_busy (view s))\<rparr>"
      using cu(2) du by (simp add: view_def mark_def)
    moreover have "held u i a" "b_data (bufs u ! i) = v_blk (view s) a" using i len q u by (auto simp: held_def)
    moreover have "keeps_held s u"
      using u(1) nb len by (auto simp: keeps_held_def held_def nth_list_update split: if_splits)
    moreover have "cache_inv u" using cu(1) du by simp
    ultimately show ?thesis using u by simp
  qed
  show ?thesis
  proof (cases "b_valid (bufs s ! i)")
    case True
    then have "?q = (bufs s ! i)\<lparr>b_busy := True\<rparr>" using blk by simp
    then show ?thesis using t key [of t] True len by (simp add: bread_def)
  next
    case False
    have nd: "\<not> b_dirty (bufs s ! i)" using ok False by (simp add: buf_ok_def)
    have "disksize t = disksize s" using disk_rest_fields [OF t(3)] by simp
    then obtain u where u: "iderw i t = Inr u" "disk_rest t u" "writes u = writes t" "lockset L u"
      "bufs u = (bufs t)[i := (bufs t ! i)\<lparr>b_data := disk t a, b_valid := True\<rparr>]"
      using iderw_read [of t i] i nd False t a(1) len by (auto simp: holds_sector_def)
    have "bufs u = (bufs s)[i := ?q]"
      using u(5) t(2) blk False len disk_of_rest [OF t(3,4)] by simp
    then show ?thesis using t u key [of u] False len disk_rest_trans [OF t(3) u(2)] by (simp add: bread_def)
  qed
next
  case False
  then have miss: "\<And>i. i < NBUF \<Longrightarrow> \<not> holds_sector (bufs s ! i) a" by blast
  then have "a \<notin> v_dirty (view s)" by (auto simp: view_def sectors_iff)
  then have fr: "\<exists>j<NBUF. \<not> b_busy (bufs s ! j) \<and> \<not> b_dirty (bufs s ! j)"
    using a(3) free_buffer [OF c] by (simp add: room_def)
  obtain j t where j: "j < NBUF" "\<not> b_busy (bufs s ! j)" "\<not> b_dirty (bufs s ! j)" and t: "bget 1 a s = Inr (j, t)"
    "bufs t = (bufs s)[j := (bufs s ! j)\<lparr>b_dev := 1, b_sector := a, b_busy := True, b_valid := False, b_dirty := False\<rparr>]"
    "disk_rest s t" "writes t = writes s" "lockset L t"
    using bget_miss [OF c l miss fr] by blast
  have len: "j < length (bufs s)" using j cache_len [OF c] by simp
  have "disksize t = disksize s" using disk_rest_fields [OF t(3)] by simp
  then obtain u where u: "iderw j t = Inr u" "disk_rest t u" "writes u = writes t" "lockset L u"
    "bufs u = (bufs t)[j := (bufs t ! j)\<lparr>b_data := disk t a, b_valid := True\<rparr>]"
    using iderw_read [of t j] t a(1) len by auto
  have r: "disk_rest s u" "writes u = writes s" using disk_rest_trans [OF t(3) u(2)] u t by simp_all
  have bu: "bufs u = (bufs s)[j := (bufs s ! j)\<lparr>b_dev := 1, b_sector := a, b_busy := True, b_dirty := False, b_data := disk s a, b_valid := True\<rparr>]"
    using u(5) t(2) len disk_of_rest [OF t(3,4)] by simp
  note e = cache_evict [OF c j miss refl bu disk_of_rest [OF r]]
  have "held u j a" "b_data (bufs u ! j) = v_blk (view s) a" using bu len j e(3) by (auto simp: held_def holds_sector_def)
  moreover have "keeps_held s u" using bu j len by (auto simp: keeps_held_def held_def nth_list_update split: if_splits)
  ultimately show ?thesis using t u r e len by (simp add: bread_def)
qed

lemma bwrite_spec:
  assumes c: "cache_inv s" and h: "held s b a" and a: "a < disksize s"
  shows "returns (bwrite b s) (\<lambda>t. cache_inv t \<and> held t b a \<and>
     view t = (view s)\<lparr>v_disk := (v_disk (view s))(a := v_blk (view s) a), v_dirty := v_dirty (view s) - {a}\<rparr> \<and>
     writes t = writes s @ [(a, v_blk (view s) a)] \<and> disk_rest s t \<and> (\<forall>L. lockset L t = lockset L s) \<and> keeps_held s t)"
proof -
  note hf = held_fields [OF c h]
  have as: "b_dev (bufs s ! b) = 1" "b_sector (bufs s ! b) = a" using hf by (auto simp: holds_sector_def)
  have d: "b_data (bufs s ! b) = v_blk (view s) a" using held_blk [OF c h] by simp
  let ?s = "upd_buf b (b_dirty_update (\<lambda>_. True)) s"
  let ?t = "upd_buf b (b_valid_update (\<lambda>_. True)) ((upd_buf b (b_dirty_update (\<lambda>_. False)) ?s)\<lparr>writes := writes s @ [(a, v_blk (view s) a)]\<rparr>)"
  have w: "bwrite b s = Inr ?t"
    using hf as a d by (simp add: bwrite_def iderw_def Let_def bufs_upd_buf)
  let ?q = "(bufs s ! b)\<lparr>b_dirty := False, b_valid := True\<rparr>"
  have bt: "bufs ?t = (bufs s)[b := ?q]" using hf by (simp add: bufs_upd_buf)
  have r: "disk_rest s ?t" by (rule disk_rest_trans [OF disk_rest_trans [OF disk_rest_trans]]) (rule disk_rest_upd)+
  have dt: "disk ?t = (disk s)(a := v_blk (view s) a)"
    using disk_rest_fields(3) [OF r] by (simp add: disk_def apply_writes_def)
  have q: "holds_sector ?q a" "buf_ok (disk ?t) ?q" using hf by (auto simp: holds_sector_def buf_ok_def)
  note cu = cache_upd_same_sector [OF c hf(1,3) q(1) _ _ bt _ q(2)]
  have "view ?t = (view s)\<lparr>v_disk := (v_disk (view s))(a := v_blk (view s) a), v_dirty := v_dirty (view s) - {a}\<rparr>"
    using cu(2) dt hf d by (simp add: view_def mark_def insert_absorb)
  moreover have "cache_inv ?t" using cu(1) dt by simp
  moreover have "held ?t b a" using hf q bt by (simp add: held_def)
  moreover have "keeps_held s ?t" using bt hf(2)
    by (auto simp: keeps_held_def held_def holds_sector_def nth_list_update)
  moreover have "lockset L ?t = lockset L s" for L by simp
  ultimately show ?thesis using w r by simp
qed

lemma cache_same_links:
  assumes c: "cache_inv s" and l: "lru bs xs" and sb: "same_but_links (bufs s) bs"
  shows "cache_inv (s\<lparr>bufs := bs\<rparr>)" "view (s\<lparr>bufs := bs\<rparr>) = view s" "held (s\<lparr>bufs := bs\<rparr>) b a = held s b a"
proof -
  have f: "b_busy (bs ! i) = b_busy (bufs s ! i)" "b_valid (bs ! i) = b_valid (bufs s ! i)" "b_dirty (bs ! i) = b_dirty (bufs s ! i)"
    "b_dev (bs ! i) = b_dev (bufs s ! i)" "b_sector (bs ! i) = b_sector (bufs s ! i)" "b_data (bs ! i) = b_data (bufs s ! i)"
    "holds_sector (bs ! i) z = holds_sector (bufs s ! i) z" if "i < NBUF" for i z
    using same_but_links_fields [OF sb, of i] that cache_len [OF c] by (auto simp: holds_sector_def)
  have d: "disk (s\<lparr>bufs := bs\<rparr>) = disk s" by (simp add: disk_def)
  have "one_buffer_each bs" using c f by (auto simp: cache_inv_def one_buffer_each_def)
  moreover have "buf_ok (disk s) (bs ! i)" if "i < NBUF" for i using c f [OF that] that by (simp add: cache_inv_def buf_ok_def)
  ultimately show "cache_inv (s\<lparr>bufs := bs\<rparr>)" using l d by (auto simp: cache_inv_def)
  show "held (s\<lparr>bufs := bs\<rparr>) b a = held s b a" using f by (auto simp: held_def)
  have "sectors b_busy bs = sectors b_busy (bufs s)" "sectors b_dirty bs = sectors b_dirty (bufs s)"
    using f by (auto simp: sectors_def)
  moreover have "blk_of bs (disk s) z = blk_of (bufs s) (disk s) z" for z
  proof -
    have e: "List.find (\<lambda>i. holds_sector (bs ! i) z \<and> b_valid (bs ! i)) [0..<NBUF] =
        List.find (\<lambda>i. holds_sector (bufs s ! i) z \<and> b_valid (bufs s ! i)) [0..<NBUF]"
      using f by (intro find_cong) auto
    show ?thesis
    proof (cases "List.find (\<lambda>i. holds_sector (bufs s ! i) z \<and> b_valid (bufs s ! i)) [0..<NBUF]")
      case (Some i)
      then have "i < NBUF" by (simp add: find_upt_Some)
      then show ?thesis using Some f(6) unfolding blk_of_def e by simp
    qed (simp add: blk_of_def e)
  qed
  ultimately show "view (s\<lparr>bufs := bs\<rparr>) = view s" by (simp add: view_def d fun_eq_iff)
qed

lemma wakeup_ok:
  assumes "lockset L s" "LPtable \<notin> set L"
  shows "wakeup ch s = Inr (rel LPtable (wakeup1 (Some ch) (acq LPtable s)))"
    "lockset L (rel LPtable (wakeup1 (Some ch) (acq LPtable s)))"
proof -
  have a: "acquire LPtable s = Inr (acq LPtable s)" "lockset (LPtable # L) (acq LPtable s)"
    using acquire_acq [OF assms] by auto
  then have "lockset (LPtable # L) (wakeup1 (Some ch) (acq LPtable s))" by simp
  from release_rel [OF this] a(1) show "wakeup ch s = Inr (rel LPtable (wakeup1 (Some ch) (acq LPtable s)))"
    "lockset L (rel LPtable (wakeup1 (Some ch) (acq LPtable s)))" by (auto simp: wakeup_def)
qed

lemma view_cong: "bufs t = bufs s \<Longrightarrow> disk t = disk s \<Longrightarrow> view t = view s \<and> cache_inv t = cache_inv s \<and> held t b a = held s b a"
  by (simp add: view_def cache_inv_def held_def)

lemma disk_wakeup1 [simp]: "bufs (wakeup1 ch s) = bufs s" "disk (wakeup1 ch s) = disk s" "writes (wakeup1 ch s) = writes s"
  by (simp_all add: wakeup1_def disk_def)

lemma brelse_spec:
  assumes c: "cache_inv s" and h: "held s b a" and l: "lockset L s" "LBcache \<notin> set L" "LPtable \<notin> set L"
    and ok: "a \<in> v_dirty (view s) \<or> v_blk (view s) a = v_disk (view s) a"
  shows "returns (brelse b s) (\<lambda>t. cache_inv t \<and> view t = (view s)\<lparr>v_busy := v_busy (view s) - {a}\<rparr> \<and>
     writes t = writes s \<and> disk_rest s t \<and> lockset L t \<and> (\<forall>b' a'. held s b' a' \<and> a' \<noteq> a \<longrightarrow> held t b' a'))"
proof -
  note hf = held_fields [OF c h]
  obtain xs where xs: "lru (bufs s) xs" using c by (auto simp: cache_inv_def)
  then have "b \<in> set xs" using hf(1) by (auto simp: lru_def)
  then obtain ys zs where "xs = ys @ b # zs" by (auto simp: in_set_conv_decomp)
  with xs have mv: "lru (move_to_front b (bufs s)) (b # ys @ zs)" "same_but_links (bufs s) (move_to_front b (bufs s))"
    using lru_move_to_front by auto
  have a: "acquire LBcache s = Inr (acq LBcache s)" "lockset (LBcache # L) (acq LBcache s)"
    using acquire_acq [OF l(1,2)] by auto
  define s1 where "s1 = s\<lparr>bufs := move_to_front b (bufs s)\<rparr>"
  have s1: "cache_inv s1" "view s1 = view s" "held s1 b' a' = held s b' a'" for b' a'
    unfolding s1_def using cache_same_links [OF c mv] by auto
  note hf1 = held_fields [OF s1(1), unfolded s1(3), OF h]
  let ?q = "(bufs s1 ! b)\<lparr>b_busy := False\<rparr>"
  define u where "u = upd_buf b (b_busy_update (\<lambda>_. False)) ((acq LBcache s)\<lparr>bufs := move_to_front b (bufs s)\<rparr>)"
  have lu: "lockset (LBcache # L) u" using a(2) by (simp add: u_def)
  define t where "t = rel LBcache (rel LPtable (wakeup1 (Some (ChBuf b)) (acq LPtable u)))"
  have lt: "lockset L t" "release LBcache (rel LPtable (wakeup1 (Some (ChBuf b)) (acq LPtable u))) = Inr t"
    using release_rel [OF wakeup_ok(2) [OF lu]] l(3) by (auto simp: t_def)
  have "brelse b s = Inr t"
    using hf wakeup_ok(1) [OF lu] l(3) lt(2) by (simp add: brelse_def a(1) u_def [symmetric] Let_def)
  moreover have bt: "bufs t = (bufs s1)[b := ?q]" "disk t = disk s" "writes t = writes s"
    by (simp_all add: t_def u_def s1_def bufs_upd_buf) (simp add: disk_def)
  moreover have r: "disk_rest s t"
    unfolding t_def u_def
    by (rule disk_rest_trans [OF disk_rest_trans [OF disk_rest_trans [OF disk_rest_trans [OF disk_rest_trans [OF disk_rest_trans]]]]])
      (rule disk_rest_upd)+
  moreover have d1: "disk s1 = disk s" by (simp add: s1_def disk_def)
  have q: "holds_sector ?q a" "buf_ok (disk t) ?q"
    using hf1 ok held_blk [OF s1(1), unfolded s1(3), OF h] s1(2) bt(2)
    by (auto simp: holds_sector_def buf_ok_def view_def)
  note cu = cache_upd_same_sector [OF s1(1) hf1(1,3) q(1) _ _ bt(1) _ q(2)]
  have "view t = (view s)\<lparr>v_busy := v_busy (view s) - {a}\<rparr>"
    using cu(2) hf1 bt(2) d1 s1(2) held_blk [OF s1(1), unfolded s1(3), OF h]
    by (cases "a \<in> v_dirty (view s)") (auto simp: view_def mark_def insert_absorb)
  moreover have "cache_inv t" using cu(1) bt(2) d1 by simp
  moreover have "held t b' a'" if "held s b' a'" "a' \<noteq> a" for b' a'
  proof -
    have "held s1 b' a'" using that(1) s1(3) by simp
    moreover have "b' \<noteq> b" using hf1(3) that(2) calculation by (auto simp: held_def holds_sector_def)
    ultimately show ?thesis using hf1(2) by (simp add: held_def bt(1))
  qed
  ultimately show ?thesis using lt(1) by simp
qed

section \<open>Initialisation\<close>

lemma binit_step_links:
  assumes "length bs = NBUF + 1" "b < NBUF" "nexts bs NBUF \<le> NBUF"
  shows "nexts (binit_step b bs) = ((nexts bs)(b := nexts bs NBUF))(NBUF := b)"
    "prevs (binit_step b bs) = ((prevs bs)(b := NBUF))(nexts bs NBUF := b)"
    "same_but_links (bs[b := (bs ! b)\<lparr>b_dev := -1\<rparr>]) (binit_step b bs)"
proof -
  define b1 where "b1 = bs[b := (bs ! b)\<lparr>b_next := b_next (bs ! NBUF)\<rparr>]"
  define b2 where "b2 = b1[b := (b1 ! b)\<lparr>b_prev := NBUF\<rparr>]"
  define b3 where "b3 = b2[b := (b2 ! b)\<lparr>b_dev := -1\<rparr>]"
  define h where "h = b_next (b3 ! NBUF)"
  define b4 where "b4 = b3[h := (b3 ! h)\<lparr>b_prev := b\<rparr>]"
  define b5 where "b5 = b4[NBUF := (b4 ! NBUF)\<lparr>b_next := b\<rparr>]"
  have m: "binit_step b bs = b5"
    unfolding binit_step_def Let_def b1_def [symmetric] b2_def [symmetric] b3_def [symmetric] h_def [symmetric]
      b4_def [symmetric] b5_def [symmetric] ..
  have l: "length b1 = NBUF + 1" "length b2 = NBUF + 1" "length b3 = NBUF + 1" "length b4 = NBUF + 1"
    using assms(1) by (simp_all add: b1_def b2_def b3_def b4_def)
  note f = nexts_upd_next nexts_upd_prev
  have n1: "nexts b1 = (nexts bs)(b := nexts bs NBUF)" "prevs b1 = prevs bs" using assms by (simp_all add: b1_def f flip: nexts_def)
  have n2: "nexts b2 = (nexts bs)(b := nexts bs NBUF)" "prevs b2 = (prevs bs)(b := NBUF)" using assms l n1 by (simp_all add: b2_def f)
  have n3: "nexts b3 = nexts b2" "prevs b3 = prevs b2"
    using assms l by (auto simp: b3_def nexts_def prevs_def fun_eq_iff nth_list_update)
  have h: "h = nexts bs NBUF" using n3 n2 assms(2) by (simp add: h_def flip: nexts_def)
  have n4: "nexts b4 = nexts b2" "prevs b4 = ((prevs bs)(b := NBUF))(h := b)" using l n3 n2 h assms(3) by (simp_all add: b4_def f)
  show "nexts (binit_step b bs) = ((nexts bs)(b := nexts bs NBUF))(NBUF := b)"
    "prevs (binit_step b bs) = ((prevs bs)(b := NBUF))(nexts bs NBUF := b)"
    using l n4 n2 h by (simp_all add: m b5_def f)
  have "b3 = bs[b := (bs ! b)\<lparr>b_next := b_next (bs ! NBUF), b_prev := NBUF, b_dev := -1\<rparr>]"
    using assms by (simp add: b1_def b2_def b3_def)
  then have "same_but_links (bs[b := (bs ! b)\<lparr>b_dev := -1\<rparr>]) b3" using assms by (simp add: same_but_links_def nth_list_update)
  then show "same_but_links (bs[b := (bs ! b)\<lparr>b_dev := -1\<rparr>]) (binit_step b bs)"
    unfolding m b5_def b4_def by (intro same_but_links_trans [OF _ same_but_links_upd(1)] same_but_links_trans [OF _ same_but_links_upd(2)])
qed

definition clear_buf :: "buf \<Rightarrow> bool" where
  "clear_buf q \<longleftrightarrow> \<not> b_busy q \<and> \<not> b_valid q \<and> \<not> b_dirty q"

lemma binit_steps:
  assumes "length bs = NBUF + 1" "nexts bs NBUF = NBUF" "prevs bs NBUF = NBUF" "\<forall>i<NBUF. clear_buf (bs ! i)" "n \<le> NBUF"
  defines "cs \<equiv> fold binit_step [0..<n] bs"
  shows "length cs = NBUF + 1 \<and> chain (nexts cs) (prevs cs) NBUF (rev [0..<n]) NBUF \<and>
    (\<forall>i<NBUF. clear_buf (cs ! i)) \<and> (\<forall>i<n. b_dev (cs ! i) = -1)"
  unfolding cs_def using assms(5)
proof (induction n)
  case 0
  then show ?case using assms by simp
next
  case (Suc n)
  define ds where "ds = fold binit_step [0..<n] bs"
  have ih: "length ds = NBUF + 1" "chain (nexts ds) (prevs ds) NBUF (rev [0..<n]) NBUF" "\<forall>i<NBUF. clear_buf (ds ! i)"
    "\<forall>i<n. b_dev (ds ! i) = -1" using Suc by (auto simp: ds_def)
  have n: "n < NBUF" using Suc.prems by simp
  have "nexts ds NBUF \<in> insert NBUF (set (rev [0..<n]))" using chain_ends [OF ih(2)] by simp
  then have le: "nexts ds NBUF \<le> NBUF" using n by auto
  note bl = binit_step_links [OF ih(1) n le]
  have "chain (nexts (binit_step n ds)) (prevs (binit_step n ds)) NBUF (n # rev [0..<n]) NBUF"
    unfolding bl(1,2) using ih(2) n by (intro chain_insert) auto
  moreover have len: "length (binit_step n ds) = NBUF + 1" using bl(3) ih(1) by (simp add: same_but_links_def)
  moreover have "clear_buf (binit_step n ds ! i)" if "i < NBUF" for i
    using same_but_links_fields [OF bl(3), of i] ih(1,3) n that by (auto simp: clear_buf_def nth_list_update)
  moreover have "b_dev (binit_step n ds ! i) = -1" if "i < Suc n" for i
    using same_but_links_fields(4) [OF bl(3), of i] ih(1,4) n that by (auto simp: nth_list_update)
  ultimately show ?case by (simp add: ds_def)
qed

lemma binit_cache_inv:
  assumes "length (bufs s) = NBUF + 1" "\<forall>i<NBUF. clear_buf (bufs s ! i)"
  shows "cache_inv (binit s)" "view (binit s) = \<lparr>v_blk = disk s, v_disk = disk s, v_busy = {}, v_dirty = {}\<rparr>"
proof -
  let ?bs = "(bufs s)[NBUF := (bufs s ! NBUF)\<lparr>b_prev := NBUF, b_next := NBUF\<rparr>]"
  define cs where "cs = fold binit_step [0..<NBUF] ?bs"
  have "length cs = NBUF + 1 \<and> chain (nexts cs) (prevs cs) NBUF (rev [0..<NBUF]) NBUF \<and>
    (\<forall>i<NBUF. clear_buf (cs ! i)) \<and> (\<forall>i<NBUF. b_dev (cs ! i) = -1)"
    unfolding cs_def using assms by (intro binit_steps) (auto simp: nexts_def prevs_def)
  then have cs: "lru cs (rev [0..<NBUF])" "\<And>i. i < NBUF \<Longrightarrow> clear_buf (cs ! i) \<and> b_dev (cs ! i) = -1"
    by (auto simp: lru_def)
  have b: "bufs (binit s) = cs" "disk (binit s) = disk s"
    by (simp_all add: binit_def cs_def initlock_def upd_buf_def disk_def)
  have m1: "(-1 :: u32) \<noteq> 1" by simp
  show "cache_inv (binit s)"
    using cs m1 by (auto simp: cache_inv_def b one_buffer_each_def buf_ok_def clear_buf_def)
  have "sectors P cs = {}" for P using cs(2) m1 by (auto simp: sectors_def holds_sector_def)
  moreover have "blk_of cs (disk s) z = disk s z" for z
    using cs(2) by (intro blk_of_uncached) (auto simp: clear_buf_def)
  ultimately show "view (binit s) = \<lparr>v_blk = disk s, v_disk = disk s, v_busy = {}, v_dirty = {}\<rparr>"
    by (simp add: view_def b fun_eq_iff)
qed

end
