(* ===== verification/Log.thy ===== *)
theory Log
  imports Bio_Lemmas
begin

text \<open>
  The log (\<^verbatim>\<open>log.c\<close>) and the super block (\<^verbatim>\<open>readsb\<close> of \<^verbatim>\<open>fs.c\<close>). The header block holds the
  count in its first word and the sector numbers in the next ones; the in-memory header is
  \<open>lh_n\<close> and \<open>lh_sector\<close>. A count read from disk that exceeds the in-memory array is an access
  past its end.
\<close>

definition LOGSIZE :: nat where "LOGSIZE = 10"
definition ROOTDEV :: u32 where "ROOTDEV = 1"

record log_st = disk_st +
  lg_start :: u32
  lg_size :: int
  lg_busy :: bool
  lg_dev :: u32
  lh_n :: int
  lh_sector :: "u32 list"

record superblock =
  sb_size :: u32
  sb_nblocks :: u32
  sb_ninodes :: u32
  sb_nlog :: u32

definition readsb ::
  "u32 \<Rightarrow> 'a disk_st_scheme \<Rightarrow> ('a disk_st_scheme, superblock \<times> 'a disk_st_scheme) kres" where
  "readsb dev s =
     kbind (bread dev 1 s) (\<lambda>(b, s).
     let d = b_data (bufs s ! b);
         sb = \<lparr>sb_size = get32 d 0, sb_nblocks = get32 d 1, sb_ninodes = get32 d 2, sb_nlog = get32 d 3\<rparr>
     in kbind (brelse b s) (\<lambda>s. Inr (sb, s)))"

section \<open>Installing a transaction\<close>

fun install_loop :: "nat list \<Rightarrow> 'a log_st_scheme \<Rightarrow> ('a log_st_scheme, 'a log_st_scheme) kres" where
  "install_loop [] s = Inr s"
| "install_loop (tail # ts) s =
     kbind (bread (lg_dev s) (lg_start s + of_nat tail + 1) s) (\<lambda>(lbuf, s).
     kbind (bread (lg_dev s) (lh_sector s ! tail) s) (\<lambda>(dbuf, s).
     let s = upd_buf dbuf (b_data_update (\<lambda>_. b_data (bufs s ! lbuf))) s
     in kbind (bwrite dbuf s) (\<lambda>s.
        kbind (brelse lbuf s) (\<lambda>s.
        kbind (brelse dbuf s) (install_loop ts)))))"

definition install_trans :: "'a log_st_scheme \<Rightarrow> ('a log_st_scheme, 'a log_st_scheme) kres" where
  "install_trans s = install_loop [0..<nat (lh_n s)] s"

definition read_head :: "'a log_st_scheme \<Rightarrow> ('a log_st_scheme, 'a log_st_scheme) kres" where
  "read_head s =
     kbind (bread (lg_dev s) (lg_start s) s) (\<lambda>(b, s).
     let d = b_data (bufs s ! b); n = sint (get32 d 0)
     in if n > int LOGSIZE then Inl (Fault ''read_head: sector array'')
        else let s = s\<lparr>lh_n := n,
                       lh_sector := map (\<lambda>i. get32 d (i + 1)) [0..<nat n] @ drop (nat n) (lh_sector s)\<rparr>
             in brelse b s)"

definition head_block :: "int \<Rightarrow> u32 list \<Rightarrow> u8 list \<Rightarrow> u8 list" where
  "head_block n secs d = fold (\<lambda>i d. put32 d (i + 1) (secs ! i)) [0..<nat n] (put32 d 0 (of_int n))"

definition write_head :: "'a log_st_scheme \<Rightarrow> ('a log_st_scheme, 'a log_st_scheme) kres" where
  "write_head s =
     kbind (bread (lg_dev s) (lg_start s) s) (\<lambda>(b, s).
     let s = upd_buf b (\<lambda>q. q\<lparr>b_data := head_block (lh_n s) (lh_sector s) (b_data q)\<rparr>) s
     in kbind (bwrite b s) (brelse b))"

definition recover_from_log :: "'a log_st_scheme \<Rightarrow> ('a log_st_scheme, 'a log_st_scheme) kres" where
  "recover_from_log s =
     kbind (read_head s) (\<lambda>s.
     kbind (install_trans s) (\<lambda>s.
     write_head (s\<lparr>lh_n := 0\<rparr>)))"

definition initlog :: "'a log_st_scheme \<Rightarrow> ('a log_st_scheme, 'a log_st_scheme) kres" where
  "initlog s =
     kbind (readsb ROOTDEV (initlock LLog s)) (\<lambda>(sb, s).
     recover_from_log (s\<lparr>lg_start := sb_size sb - sb_nlog sb, lg_size := sint (sb_nlog sb), lg_dev := ROOTDEV\<rparr>))"

section \<open>Transactions\<close>

definition begin_round :: "'a log_st_scheme \<Rightarrow> ('a log_st_scheme, 'a log_st_scheme) kres" where
  "begin_round s = (if lg_busy s then sleep ChLog LLog s else release LLog (s\<lparr>lg_busy := True\<rparr>))"

definition begin_trans :: "'a log_st_scheme \<Rightarrow> ('a log_st_scheme, 'a log_st_scheme) kres" where
  "begin_trans s = kbind (acquire LLog s) begin_round"

definition begin_resume :: "bool \<Rightarrow> 'a log_st_scheme \<Rightarrow> ('a log_st_scheme, 'a log_st_scheme) kres" where
  "begin_resume saved s = kbind (sleep_resume saved LLog s) begin_round"

definition commit_trans :: "'a log_st_scheme \<Rightarrow> ('a log_st_scheme, 'a log_st_scheme) kres" where
  "commit_trans s =
     kbind (if lh_n s > 0
            then kbind (write_head s) (\<lambda>s.
                 kbind (install_trans s) (\<lambda>s.
                 write_head (s\<lparr>lh_n := 0\<rparr>)))
            else Inr s) (\<lambda>s.
     kbind (acquire LLog s) (\<lambda>s.
     kbind (wakeup ChLog (s\<lparr>lg_busy := False\<rparr>)) (release LLog)))"

text \<open>The place of a sector in the header: the first entry with its number, or the next free one.\<close>

definition log_slot :: "u32 \<Rightarrow> 'a log_st_scheme \<Rightarrow> nat" where
  "log_slot a s = (case List.find (\<lambda>i. lh_sector s ! i = a) [0..<nat (lh_n s)] of Some i \<Rightarrow> i | None \<Rightarrow> nat (lh_n s))"

definition log_write :: "nat \<Rightarrow> 'a log_st_scheme \<Rightarrow> ('a log_st_scheme, 'a log_st_scheme) kres" where
  "log_write b s =
     (if lh_n s \<ge> int LOGSIZE \<or> lh_n s \<ge> lg_size s - 1 then kpanic ''too big a transaction''
      else if \<not> lg_busy s then kpanic ''write outside of trans''
      else let a = b_sector (bufs s ! b); i = log_slot a s;
               s = s\<lparr>lh_sector := (lh_sector s)[i := a]\<rparr>
           in kbind (bread (b_dev (bufs s ! b)) (lg_start s + of_nat i + 1) s) (\<lambda>(lbuf, s).
              let s = upd_buf lbuf (b_data_update (\<lambda>_. b_data (bufs s ! b))) s
              in kbind (bwrite lbuf s) (\<lambda>s.
                 kbind (brelse lbuf s) (\<lambda>s.
                 let s = (if int i = lh_n s then s\<lparr>lh_n := lh_n s + 1\<rparr> else s)
                 in Inr (upd_buf b (b_dirty_update (\<lambda>_. True)) s)))))"

end
