(* ===== verification/Inode.thy ===== *)
theory Inode
  imports Log
begin

text \<open>
  Blocks and inodes (\<^verbatim>\<open>fs.c\<close> up to \<^verbatim>\<open>stati\<close>): the free-block bitmap, the inodes on disk, and the
  cache of inodes in memory. A pointer to an in-memory inode is its index in the table, so the
  tests for a null pointer have nothing to test. \<^verbatim>\<open>short\<close> fields are 16-bit words; the bits of
  \<^verbatim>\<open>flags\<close> are booleans.
\<close>

section \<open>Layout\<close>

definition NINODE :: nat where "NINODE = 50"
definition ROOTINO :: u32 where "ROOTINO = 1"
definition NDIRECT :: nat where "NDIRECT = 12"
definition NINDIRECT :: nat where "NINDIRECT = 128"
definition MAXFILE :: nat where "MAXFILE = NDIRECT + NINDIRECT"
definition IPB :: u32 where "IPB = 8"
definition BPB :: nat where "BPB = 4096"

definition T_DIR :: u16 where "T_DIR = 1"
definition T_FILE :: u16 where "T_FILE = 2"
definition T_DEV :: u16 where "T_DEV = 3"

definition IBLOCK :: "u32 \<Rightarrow> u32" where "IBLOCK i = i div IPB + 2"
definition BBLOCK :: "u32 \<Rightarrow> u32 \<Rightarrow> u32" where "BBLOCK b ninodes = b div of_nat BPB + ninodes div IPB + 3"

record dinode =
  d_type :: u16
  d_major :: u16
  d_minor :: u16
  d_nlink :: u16
  d_size :: u32
  d_addrs :: "u32 list"

definition dinode_bytes :: "dinode \<Rightarrow> u8 list" where
  "dinode_bytes d = le16 (d_type d) @ le16 (d_major d) @ le16 (d_minor d) @ le16 (d_nlink d) @ le32 (d_size d) @
     concat (map le32 (d_addrs d))"

definition dinode_of :: "u8 list \<Rightarrow> dinode" where
  "dinode_of bs = \<lparr>d_type = of_le16 (take 2 bs), d_major = of_le16 (take 2 (drop 2 bs)),
     d_minor = of_le16 (take 2 (drop 4 bs)), d_nlink = of_le16 (take 2 (drop 6 bs)),
     d_size = of_le32 (take 4 (drop 8 bs)), d_addrs = map (\<lambda>i. get32 bs (i + 3)) [0..<NDIRECT + 1]\<rparr>"

record inode =
  i_dev :: u32
  i_inum :: u32
  i_ref :: int
  i_busy :: bool
  i_valid :: bool
  i_type :: u16
  i_major :: u16
  i_minor :: u16
  i_nlink :: u16
  i_size :: u32
  i_addrs :: "u32 list"

record ino_st = log_st +
  inodes :: "inode list"

definition upd_inode :: "nat \<Rightarrow> (inode \<Rightarrow> inode) \<Rightarrow> 'a ino_st_scheme \<Rightarrow> 'a ino_st_scheme" where
  "upd_inode i f s = s\<lparr>inodes := (inodes s)[i := f (inodes s ! i)]\<rparr>"

section \<open>Blocks\<close>

definition bzero :: "u32 \<Rightarrow> u32 \<Rightarrow> 'a log_st_scheme \<Rightarrow> ('a log_st_scheme, 'a log_st_scheme) kres" where
  "bzero dev bno s =
     kbind (bread dev bno s) (\<lambda>(b, s).
     let s = upd_buf b (b_data_update (\<lambda>_. replicate BSIZE 0)) s
     in kbind (log_write b s) (brelse b))"

text \<open>The search in one bitmap block: the first clear bit among the first \<open>n\<close>.\<close>

definition free_bit :: "u8 list \<Rightarrow> nat \<Rightarrow> nat option" where
  "free_bit d n = List.find (\<lambda>bi. \<not> bit (d ! (bi div 8)) (bi mod 8)) [0..<n]"

definition put_bit :: "bool \<Rightarrow> nat \<Rightarrow> u8 list \<Rightarrow> u8 list" where
  "put_bit v bi d = d[bi div 8 := (if v then set_bit (bi mod 8) (d ! (bi div 8)) else unset_bit (bi mod 8) (d ! (bi div 8)))]"

text \<open>The outer loop of \<^verbatim>\<open>balloc\<close> over the numbers of the first blocks of the groups.\<close>

fun balloc_loop ::
  "u32 \<Rightarrow> superblock \<Rightarrow> nat list \<Rightarrow> 'a log_st_scheme \<Rightarrow> ('a log_st_scheme, u32 \<times> 'a log_st_scheme) kres" where
  "balloc_loop dev sb [] s = kpanic ''balloc: out of blocks''"
| "balloc_loop dev sb (b # bs) s =
     kbind (bread dev (BBLOCK (of_nat b) (sb_ninodes sb)) s) (\<lambda>(bp, s).
     case free_bit (b_data (bufs s ! bp)) (min BPB (unat (sb_size sb) - b)) of
       Some bi \<Rightarrow>
         let s = upd_buf bp (\<lambda>q. q\<lparr>b_data := put_bit True bi (b_data q)\<rparr>) s
         in kbind (log_write bp s) (\<lambda>s.
            kbind (brelse bp s) (\<lambda>s.
            kbind (bzero dev (of_nat (b + bi)) s) (\<lambda>s. Inr (of_nat (b + bi), s))))
     | None \<Rightarrow> kbind (brelse bp s) (balloc_loop dev sb bs))"

definition balloc :: "u32 \<Rightarrow> 'a log_st_scheme \<Rightarrow> ('a log_st_scheme, u32 \<times> 'a log_st_scheme) kres" where
  "balloc dev s =
     kbind (readsb dev s) (\<lambda>(sb, s).
     balloc_loop dev sb (map (\<lambda>k. k * BPB) [0..<(unat (sb_size sb) + BPB - 1) div BPB]) s)"

definition bfree :: "u32 \<Rightarrow> u32 \<Rightarrow> 'a log_st_scheme \<Rightarrow> ('a log_st_scheme, 'a log_st_scheme) kres" where
  "bfree dev b s =
     kbind (readsb dev s) (\<lambda>(sb, s).
     kbind (bread dev (BBLOCK b (sb_ninodes sb)) s) (\<lambda>(bp, s).
     let bi = unat b mod BPB
     in if \<not> bit (b_data (bufs s ! bp) ! (bi div 8)) (bi mod 8) then kpanic ''freeing free block''
        else let s = upd_buf bp (\<lambda>q. q\<lparr>b_data := put_bit False bi (b_data q)\<rparr>) s
             in kbind (log_write bp s) (brelse bp)))"

section \<open>The inode cache\<close>

definition iinit :: "'a ino_st_scheme \<Rightarrow> 'a ino_st_scheme" where
  "iinit s = initlock LIcache s"

definition iget :: "u32 \<Rightarrow> u32 \<Rightarrow> 'a ino_st_scheme \<Rightarrow> ('a ino_st_scheme, nat \<times> 'a ino_st_scheme) kres" where
  "iget dev inum s =
     kbind (acquire LIcache s) (\<lambda>s.
     case List.find (\<lambda>i. i_ref (inodes s ! i) > 0 \<and> i_dev (inodes s ! i) = dev \<and> i_inum (inodes s ! i) = inum)
            [0..<length (inodes s)] of
       Some i \<Rightarrow>
         kbind (release LIcache (upd_inode i (\<lambda>q. q\<lparr>i_ref := i_ref q + 1\<rparr>) s)) (\<lambda>s. Inr (i, s))
     | None \<Rightarrow>
         (case List.find (\<lambda>i. i_ref (inodes s ! i) = 0) [0..<length (inodes s)] of
            None \<Rightarrow> kpanic ''iget: no inodes''
          | Some i \<Rightarrow>
              kbind (release LIcache (upd_inode i (\<lambda>q. q\<lparr>i_dev := dev, i_inum := inum, i_ref := 1,
                       i_busy := False, i_valid := False\<rparr>) s)) (\<lambda>s. Inr (i, s))))"

definition idup :: "nat \<Rightarrow> 'a ino_st_scheme \<Rightarrow> ('a ino_st_scheme, nat \<times> 'a ino_st_scheme) kres" where
  "idup ip s =
     kbind (acquire LIcache s) (\<lambda>s.
     kbind (release LIcache (upd_inode ip (\<lambda>q. q\<lparr>i_ref := i_ref q + 1\<rparr>) s)) (\<lambda>s. Inr (ip, s)))"

text \<open>The inode of number \<open>inum\<close> in its block.\<close>

definition dinode_at :: "u32 \<Rightarrow> u8 list \<Rightarrow> dinode" where
  "dinode_at inum d = dinode_of (take 64 (drop (64 * unat (inum mod IPB)) d))"

definition put_dinode :: "u32 \<Rightarrow> dinode \<Rightarrow> u8 list \<Rightarrow> u8 list" where
  "put_dinode inum di d = overwrite (64 * unat (inum mod IPB)) (dinode_bytes di) d"

fun ialloc_loop ::
  "u32 \<Rightarrow> u16 \<Rightarrow> nat list \<Rightarrow> 'a ino_st_scheme \<Rightarrow> ('a ino_st_scheme, nat \<times> 'a ino_st_scheme) kres" where
  "ialloc_loop dev ty [] s = kpanic ''ialloc: no inodes''"
| "ialloc_loop dev ty (n # ns) s =
     (let inum = of_nat n
      in kbind (bread dev (IBLOCK inum) s) (\<lambda>(bp, s).
         if d_type (dinode_at inum (b_data (bufs s ! bp))) = 0
         then let zero = \<lparr>d_type = ty, d_major = 0, d_minor = 0, d_nlink = 0, d_size = 0,
                          d_addrs = replicate (NDIRECT + 1) 0\<rparr>;
                  s = upd_buf bp (\<lambda>q. q\<lparr>b_data := put_dinode inum zero (b_data q)\<rparr>) s
              in kbind (log_write bp s) (\<lambda>s.
                 kbind (brelse bp s) (iget dev inum))
         else kbind (brelse bp s) (ialloc_loop dev ty ns)))"

definition ialloc :: "u32 \<Rightarrow> u16 \<Rightarrow> 'a ino_st_scheme \<Rightarrow> ('a ino_st_scheme, nat \<times> 'a ino_st_scheme) kres" where
  "ialloc dev ty s =
     kbind (readsb dev s) (\<lambda>(sb, s). ialloc_loop dev ty [1..<unat (sb_ninodes sb)] s)"

definition inode_dinode :: "inode \<Rightarrow> dinode" where
  "inode_dinode q = \<lparr>d_type = i_type q, d_major = i_major q, d_minor = i_minor q, d_nlink = i_nlink q,
     d_size = i_size q, d_addrs = i_addrs q\<rparr>"

definition load_dinode :: "dinode \<Rightarrow> inode \<Rightarrow> inode" where
  "load_dinode d q = q\<lparr>i_type := d_type d, i_major := d_major d, i_minor := d_minor d, i_nlink := d_nlink d,
     i_size := d_size d, i_addrs := d_addrs d\<rparr>"

definition iupdate :: "nat \<Rightarrow> 'a ino_st_scheme \<Rightarrow> ('a ino_st_scheme, 'a ino_st_scheme) kres" where
  "iupdate ip s =
     kbind (bread (i_dev (inodes s ! ip)) (IBLOCK (i_inum (inodes s ! ip))) s) (\<lambda>(bp, s).
     let q = inodes s ! ip;
         s = upd_buf bp (\<lambda>b. b\<lparr>b_data := put_dinode (i_inum q) (inode_dinode q) (b_data b)\<rparr>) s
     in kbind (log_write bp s) (brelse bp))"

text \<open>\<^verbatim>\<open>ilock\<close> once it has \<^verbatim>\<open>icache.lock\<close>: it sleeps while the inode is busy.\<close>

definition ilock_round :: "nat \<Rightarrow> 'a ino_st_scheme \<Rightarrow> ('a ino_st_scheme, 'a ino_st_scheme) kres" where
  "ilock_round ip s =
     (if i_busy (inodes s ! ip) then sleep (ChInode ip) LIcache s
      else kbind (release LIcache (upd_inode ip (i_busy_update (\<lambda>_. True)) s)) (\<lambda>s.
           if i_valid (inodes s ! ip) then Inr s
           else kbind (bread (i_dev (inodes s ! ip)) (IBLOCK (i_inum (inodes s ! ip))) s) (\<lambda>(bp, s).
                let d = dinode_at (i_inum (inodes s ! ip)) (b_data (bufs s ! bp));
                    s = upd_inode ip (load_dinode d) s
                in kbind (brelse bp s) (\<lambda>s.
                   let s = upd_inode ip (i_valid_update (\<lambda>_. True)) s
                   in if i_type (inodes s ! ip) = 0 then kpanic ''ilock: no type'' else Inr s))))"

definition ilock :: "nat \<Rightarrow> 'a ino_st_scheme \<Rightarrow> ('a ino_st_scheme, 'a ino_st_scheme) kres" where
  "ilock ip s =
     (if i_ref (inodes s ! ip) < 1 then kpanic ''ilock''
      else kbind (acquire LIcache s) (ilock_round ip))"

definition ilock_resume :: "bool \<Rightarrow> nat \<Rightarrow> 'a ino_st_scheme \<Rightarrow> ('a ino_st_scheme, 'a ino_st_scheme) kres" where
  "ilock_resume saved ip s = kbind (sleep_resume saved LIcache s) (ilock_round ip)"

definition iunlock :: "nat \<Rightarrow> 'a ino_st_scheme \<Rightarrow> ('a ino_st_scheme, 'a ino_st_scheme) kres" where
  "iunlock ip s =
     (if \<not> i_busy (inodes s ! ip) \<or> i_ref (inodes s ! ip) < 1 then kpanic ''iunlock''
      else kbind (acquire LIcache s) (\<lambda>s.
           kbind (wakeup (ChInode ip) (upd_inode ip (i_busy_update (\<lambda>_. False)) s)) (release LIcache)))"

section \<open>Content\<close>

definition bmap :: "nat \<Rightarrow> u32 \<Rightarrow> 'a ino_st_scheme \<Rightarrow> ('a ino_st_scheme, u32 \<times> 'a ino_st_scheme) kres" where
  "bmap ip bn s =
     (let q = inodes s ! ip; dev = i_dev q
      in if unat bn < NDIRECT
         then let addr = i_addrs q ! unat bn
              in if addr = 0
                 then kbind (balloc dev s) (\<lambda>(addr, s).
                      Inr (addr, upd_inode ip (\<lambda>q. q\<lparr>i_addrs := (i_addrs q)[unat bn := addr]\<rparr>) s))
                 else Inr (addr, s)
         else let bn = bn - of_nat NDIRECT
              in if unat bn < NINDIRECT
                 then kbind (if i_addrs q ! NDIRECT = 0
                             then kbind (balloc dev s) (\<lambda>(addr, s).
                                  Inr (addr, upd_inode ip (\<lambda>q. q\<lparr>i_addrs := (i_addrs q)[NDIRECT := addr]\<rparr>) s))
                             else Inr (i_addrs q ! NDIRECT, s)) (\<lambda>(addr, s).
                      kbind (bread dev addr s) (\<lambda>(bp, s).
                      let addr = get32 (b_data (bufs s ! bp)) (unat bn)
                      in kbind (if addr = 0
                                then kbind (balloc dev s) (\<lambda>(addr, s).
                                     let s = upd_buf bp (\<lambda>b. b\<lparr>b_data := put32 (b_data b) (unat bn) addr\<rparr>) s
                                     in kbind (log_write bp s) (\<lambda>s. Inr (addr, s)))
                                else Inr (addr, s)) (\<lambda>(addr, s).
                         kbind (brelse bp s) (\<lambda>s. Inr (addr, s)))))
                 else kpanic ''bmap: out of range'')"

fun itrunc_direct :: "nat \<Rightarrow> nat list \<Rightarrow> 'a ino_st_scheme \<Rightarrow> ('a ino_st_scheme, 'a ino_st_scheme) kres" where
  "itrunc_direct ip [] s = Inr s"
| "itrunc_direct ip (i # is) s =
     (if i_addrs (inodes s ! ip) ! i \<noteq> 0
      then kbind (bfree (i_dev (inodes s ! ip)) (i_addrs (inodes s ! ip) ! i) s) (\<lambda>s.
           itrunc_direct ip is (upd_inode ip (\<lambda>q. q\<lparr>i_addrs := (i_addrs q)[i := 0]\<rparr>) s))
      else itrunc_direct ip is s)"

fun itrunc_indirect :: "u32 \<Rightarrow> nat \<Rightarrow> nat list \<Rightarrow> 'a ino_st_scheme \<Rightarrow> ('a ino_st_scheme, 'a ino_st_scheme) kres" where
  "itrunc_indirect dev bp [] s = Inr s"
| "itrunc_indirect dev bp (j # js) s =
     (let a = get32 (b_data (bufs s ! bp)) j
      in if a \<noteq> 0 then kbind (bfree dev a s) (itrunc_indirect dev bp js)
         else itrunc_indirect dev bp js s)"

definition itrunc :: "nat \<Rightarrow> 'a ino_st_scheme \<Rightarrow> ('a ino_st_scheme, 'a ino_st_scheme) kres" where
  "itrunc ip s =
     kbind (itrunc_direct ip [0..<NDIRECT] s) (\<lambda>s.
     let dev = i_dev (inodes s ! ip); a = i_addrs (inodes s ! ip) ! NDIRECT
     in kbind (if a \<noteq> 0
               then kbind (bread dev a s) (\<lambda>(bp, s).
                    kbind (itrunc_indirect dev bp [0..<NINDIRECT] s) (\<lambda>s.
                    kbind (brelse bp s) (\<lambda>s.
                    kbind (bfree dev a s) (\<lambda>s.
                    Inr (upd_inode ip (\<lambda>q. q\<lparr>i_addrs := (i_addrs q)[NDIRECT := 0]\<rparr>) s)))))
               else Inr s) (\<lambda>s.
        iupdate ip (upd_inode ip (i_size_update (\<lambda>_. 0)) s)))"

definition iput :: "nat \<Rightarrow> 'a ino_st_scheme \<Rightarrow> ('a ino_st_scheme, 'a ino_st_scheme) kres" where
  "iput ip s =
     kbind (acquire LIcache s) (\<lambda>s.
     kbind (if i_ref (inodes s ! ip) = 1 \<and> i_valid (inodes s ! ip) \<and> i_nlink (inodes s ! ip) = 0
            then if i_busy (inodes s ! ip) then kpanic ''iput busy''
                 else kbind (release LIcache (upd_inode ip (i_busy_update (\<lambda>_. True)) s)) (\<lambda>s.
                      kbind (itrunc ip s) (\<lambda>s.
                      kbind (iupdate ip (upd_inode ip (i_type_update (\<lambda>_. 0)) s)) (\<lambda>s.
                      kbind (acquire LIcache s) (\<lambda>s.
                      wakeup (ChInode ip) (upd_inode ip (\<lambda>q. q\<lparr>i_busy := False, i_valid := False\<rparr>) s)))))
            else Inr s) (\<lambda>s.
     release LIcache (upd_inode ip (\<lambda>q. q\<lparr>i_ref := i_ref q - 1\<rparr>) s)))"

definition iunlockput :: "nat \<Rightarrow> 'a ino_st_scheme \<Rightarrow> ('a ino_st_scheme, 'a ino_st_scheme) kres" where
  "iunlockput ip s = kbind (iunlock ip s) (iput ip)"

record stat =
  st_type :: u16
  st_dev :: u32
  st_ino :: u32
  st_nlink :: u16
  st_size :: u32

definition stati :: "nat \<Rightarrow> 'a ino_st_scheme \<Rightarrow> stat" where
  "stati ip s = (let q = inodes s ! ip in
     \<lparr>st_type = i_type q, st_dev = i_dev q, st_ino = i_inum q, st_nlink = i_nlink q, st_size = i_size q\<rparr>)"

end
