(* ===== verification/Printf.thy ===== *)
theory Printf
  imports Cstring
begin

text \<open>
  Number formatting and the two formatted-output routines: \<^verbatim>\<open>printint\<close> and \<^verbatim>\<open>printf\<close> of
  \<^verbatim>\<open>printf.c\<close> (user side) and \<^verbatim>\<open>printint\<close> of \<^verbatim>\<open>console.c\<close>, whose output the console's character
  routine consumes. The output is the list of characters written. Arguments are words or strings
  (\<open>None\<close> for a null pointer); a directive with no argument of its kind left reads memory that is
  not an argument, and the result is then \<open>None\<close>.
\<close>

definition bytes :: "string \<Rightarrow> u8 list" where
  "bytes cs = map of_char cs"

text \<open>The \<^verbatim>\<open>do\<close> loop: the digits, least significant first. The callers' bases are 10 and 16.\<close>

function digits_rev :: "u8 list \<Rightarrow> u32 \<Rightarrow> u32 \<Rightarrow> u8 list" where
  "digits_rev digs base x =
     (if base \<le> 1 then [] else
      digs ! unat (x mod base) # (if x div base = 0 then [] else digits_rev digs base (x div base)))"
  by pat_completeness auto
termination
proof (relation "measure (\<lambda>(digs, base, x). unat x)")
  fix digs :: "u8 list" and base x :: u32
  assume "\<not> base \<le> 1" "x div base \<noteq> 0"
  then have "1 < unat base" "unat x \<noteq> 0" by (auto simp: word_le_nat_alt not_le unat_eq_0)
  then show "((digs, base, x div base), (digs, base, x)) \<in> measure (\<lambda>(digs, base, x). unat x)"
    by (simp add: unat_div)
qed simp

declare digits_rev.simps [simp del]

definition lower_digits :: "u8 list" where "lower_digits = bytes ''0123456789abcdef''"
definition upper_digits :: "u8 list" where "upper_digits = bytes ''0123456789ABCDEF''"

definition fmt_int :: "u8 list \<Rightarrow> u32 \<Rightarrow> u32 \<Rightarrow> bool \<Rightarrow> u8 list" where
  "fmt_int digs xx base sg =
     (let neg = sg \<and> sint xx < 0; x = (if neg then - xx else xx)
      in rev (digits_rev digs base x @ (if neg then [45] else [])))"

definition printint :: "u32 \<Rightarrow> u32 \<Rightarrow> bool \<Rightarrow> u8 list" where
  "printint xx base sg = fmt_int upper_digits xx base sg"

definition cons_printint :: "u32 \<Rightarrow> u32 \<Rightarrow> bool \<Rightarrow> u8 list" where
  "cons_printint xx base sg = fmt_int lower_digits xx base sg"

datatype fmt_arg = AInt u32 | AStr "u8 list option"

text \<open>\<^verbatim>\<open>printf\<close>; the boolean is \<^verbatim>\<open>state == '%'\<close>.\<close>

fun printf_loop :: "bool \<Rightarrow> u8 list \<Rightarrow> fmt_arg list \<Rightarrow> u8 list option" where
  "printf_loop st [] args = Some []"
| "printf_loop False (c # fmt) args =
     (if c = 37 then printf_loop True fmt args
      else map_option (\<lambda>out. c # out) (printf_loop False fmt args))"
| "printf_loop True (c # fmt) args =
     (if c = 100 then (case args of AInt x # args' \<Rightarrow>
          map_option (\<lambda>out. printint x 10 True @ out) (printf_loop False fmt args') | _ \<Rightarrow> None)
      else if c = 120 \<or> c = 112 then (case args of AInt x # args' \<Rightarrow>
          map_option (\<lambda>out. printint x 16 False @ out) (printf_loop False fmt args') | _ \<Rightarrow> None)
      else if c = 115 then (case args of AStr so # args' \<Rightarrow>
          map_option (\<lambda>out. (case so of None \<Rightarrow> bytes ''(null)'' | Some str \<Rightarrow> str) @ out) (printf_loop False fmt args')
          | _ \<Rightarrow> None)
      else if c = 99 then (case args of AInt x # args' \<Rightarrow>
          map_option (\<lambda>out. ucast x # out) (printf_loop False fmt args') | _ \<Rightarrow> None)
      else if c = 37 then map_option (\<lambda>out. c # out) (printf_loop False fmt args)
      else map_option (\<lambda>out. 37 # c # out) (printf_loop False fmt args))"

definition printf :: "u8 list \<Rightarrow> fmt_arg list \<Rightarrow> u8 list option" where
  "printf fmt args = printf_loop False fmt args"

text \<open>\<^verbatim>\<open>cprintf\<close>: the characters it passes to \<^verbatim>\<open>consputc\<close>. It looks one character ahead and stops
  at a \<^verbatim>\<open>%\<close> at the end; it knows no \<^verbatim>\<open>%c\<close>.\<close>

fun cprintf_chars :: "u8 list \<Rightarrow> fmt_arg list \<Rightarrow> u8 list option" where
  "cprintf_chars [] args = Some []"
| "cprintf_chars [c] args = (if c \<noteq> 37 then Some [c] else Some [])"
| "cprintf_chars (c # d # fmt) args =
     (if c \<noteq> 37 then map_option (\<lambda>out. c # out) (cprintf_chars (d # fmt) args)
      else if d = 100 then (case args of AInt x # args' \<Rightarrow>
          map_option (\<lambda>out. cons_printint x 10 True @ out) (cprintf_chars fmt args') | _ \<Rightarrow> None)
      else if d = 120 \<or> d = 112 then (case args of AInt x # args' \<Rightarrow>
          map_option (\<lambda>out. cons_printint x 16 False @ out) (cprintf_chars fmt args') | _ \<Rightarrow> None)
      else if d = 115 then (case args of AStr so # args' \<Rightarrow>
          map_option (\<lambda>out. (case so of None \<Rightarrow> bytes ''(null)'' | Some str \<Rightarrow> str) @ out) (cprintf_chars fmt args')
          | _ \<Rightarrow> None)
      else if d = 37 then map_option (\<lambda>out. 37 # out) (cprintf_chars fmt args)
      else map_option (\<lambda>out. 37 # d # out) (cprintf_chars fmt args))"

section \<open>Lemmas\<close>

lemma length_digits_rev:
  assumes "1 < base" "unat x < unat base ^ n" "0 < n"
  shows "length (digits_rev digs base x) \<le> n"
  using assms
proof (induction digs base x arbitrary: n rule: digits_rev.induct)
  case (1 digs base x)
  show ?case
  proof (cases "x div base = 0")
    case True
    then show ?thesis using 1 by (simp add: digits_rev.simps)
  next
    case False
    have "n \<noteq> 1"
    proof
      assume "n = 1"
      then have "unat x div unat base = 0" using 1(3) by simp
      then show False using False by (simp add: unat_div [symmetric] unat_eq_0)
    qed
    then obtain m where m: "n = Suc m" "0 < m" using 1(4) by (cases n) auto
    have "unat (x div base) < unat base ^ m"
      using 1(3) m by (simp add: unat_div less_mult_imp_div_less mult.commute)
    then have "length (digits_rev digs base (x div base)) \<le> m"
      using 1(1) [OF _ False] 1(2) m by (simp add: not_le)
    then show ?thesis using 1(2) m by (simp add: digits_rev.simps [of _ _ x] not_le)
  qed
qed

lemma cstr_Suc: "(\<lambda>i. cstr (c # cs) (Suc i)) = cstr cs"
  by (simp add: cstr_def fun_eq_iff)

lemma atoi_from_digits:
  assumes "\<forall>d\<in>set ds. d < 10"
  shows "atoi_from (cstr (map (\<lambda>d. 48 + ucast d) ds)) n = Some (fold (\<lambda>d n. n * 10 + d) ds n)"
  using assms
proof (induction ds arbitrary: n)
  case Nil
  then show ?case by (subst atoi_from.simps) (simp add: cstr_def)
next
  case (Cons d ds)
  then have "unat d < 10" by (simp add: word_less_nat_alt)
  then have "d \<in> {0, 1, 2, 3, 4, 5, 6, 7, 8, 9}" by (auto dest!: eq_of_unat simp: less_Suc_eq numeral_eq_Suc)
  then have "48 \<le> sint (48 + ucast d :: u8)" "sint (48 + ucast d :: u8) \<le> 57" "scast (48 + ucast d :: u8) - 48 = d"
    by auto
  then show ?case using Cons by (subst atoi_from.simps) (simp add: cstr_Suc, simp add: cstr_def algebra_simps)
qed

lemma upper_digit: "d < 10 \<Longrightarrow> upper_digits ! unat d = 48 + ucast (d :: u32)"
proof -
  assume "d < 10"
  then have "unat d < 10" by (simp add: word_less_nat_alt)
  then have "d \<in> {0, 1, 2, 3, 4, 5, 6, 7, 8, 9}" by (auto dest!: eq_of_unat simp: less_Suc_eq numeral_eq_Suc)
  then show ?thesis by (auto simp: upper_digits_def bytes_def)
qed

lemma digits_rev_vals:
  "\<exists>ds. digits_rev upper_digits 10 x = map (\<lambda>d. 48 + ucast d) ds \<and> (\<forall>d\<in>set ds. d < 10) \<and>
     foldr (\<lambda>d n. n * 10 + d) ds 0 = x"
proof (induction "unat x" arbitrary: x rule: less_induct)
  case less
  have m: "x mod 10 < 10" by (simp add: word_less_nat_alt unat_mod)
  have e: "x div 10 * 10 + x mod 10 = x" by (simp add: word_mod_div_equality)
  show ?case
  proof (cases "x div 10 = 0")
    case True
    then show ?thesis using m e
      by (intro exI [of _ "[x mod 10]"]) (simp add: digits_rev.simps upper_digit word_le_nat_alt)
  next
    case False
    then have "x \<noteq> 0" by auto
    then have "unat (x div 10) < unat x" by (simp add: unat_div unat_gt_0)
    from less [OF this] obtain ds where "digits_rev upper_digits 10 (x div 10) = map (\<lambda>d. 48 + ucast d) ds"
      "\<forall>d\<in>set ds. d < 10" "foldr (\<lambda>d n. n * 10 + d) ds 0 = x div 10" by blast
    then show ?thesis using m e False
      by (intro exI [of _ "x mod 10 # ds"]) (simp add: digits_rev.simps [of _ _ x] upper_digit word_le_nat_alt)
  qed
qed

section \<open>Properties\<close>

text \<open>The array \<^verbatim>\<open>char buf[16]\<close> of both \<^verbatim>\<open>printint\<close> is large enough: for every value, with and
  without sign, in the bases the callers use, at least one and at most eleven characters are
  stored.\<close>

theorem printint_fits_buffer:
  assumes "base = 10 \<or> base = 16"
  shows "0 < length (printint xx base sg) \<and> length (printint xx base sg) \<le> 11 \<and>
    0 < length (cons_printint xx base sg) \<and> length (cons_printint xx base sg) \<le> 11"
proof -
  have l: "length (digits_rev digs base x) \<le> 10" "digits_rev digs base x \<noteq> []" for digs x
    using assms length_digits_rev [of base x 10 digs] unat_u32_less [of x]
    by (auto simp: digits_rev.simps [of _ _ x] word_le_nat_alt)
  have "length (fmt_int digs xx base sg) \<le> 11 \<and> 0 < length (fmt_int digs xx base sg)" for digs
    using l [of digs xx] l [of digs "- xx"] by (simp add: fmt_int_def Let_def)
  then show ?thesis by (simp add: printint_def cons_printint_def)
qed

theorem printint_fits_buffer_witness:
  "0 < length (printint (- 0x80000000) 10 True) \<and> length (printint (- 0x80000000) 10 True) \<le> 11"
  using printint_fits_buffer [of 10 "- 0x80000000" True] by simp

text \<open>C32: what \<^verbatim>\<open>printf\<close> prints for \<^verbatim>\<open>%d\<close> is read back by \<^verbatim>\<open>atoi\<close>, for every non-negative number.\<close>

theorem printf_atoi_roundtrip:
  assumes "0 \<le> sint x"
  shows "\<exists>out. printf (bytes ''%d'') [AInt x] = Some out \<and> atoi (cstr out) = Some x"
proof -
  obtain ds where ds: "digits_rev upper_digits 10 x = map (\<lambda>d. 48 + ucast d) ds" "\<forall>d\<in>set ds. d < 10"
    "foldr (\<lambda>d n. n * 10 + d) ds 0 = x" using digits_rev_vals by blast
  then have "printint x 10 True = map (\<lambda>d. 48 + ucast d) (rev ds)"
    using assms by (simp add: printint_def fmt_int_def rev_map)
  then show ?thesis using ds atoi_from_digits [of "rev ds" 0]
    by (simp add: printf_def bytes_def atoi_def foldr_conv_fold)
qed

theorem printf_atoi_roundtrip_witness:
  "\<exists>out. printf (bytes ''%d'') [AInt 153] = Some out \<and> atoi (cstr out) = Some 153"
  using printf_atoi_roundtrip [of 153] by simp

end
