(* ===== verification/Kbd.thy ===== *)
theory Kbd
  imports Kernel_Base
begin

text \<open>
  The keyboard (\<^verbatim>\<open>kbd.c\<close>, \<^verbatim>\<open>kbd.h\<close>): scan codes to characters. The state is \<^verbatim>\<open>shift\<close>; the two
  ports are the arguments: the status and the data byte. Tables are given by the entries that are
  not 0.
\<close>

unbundle bit_operations_syntax

definition SHIFT :: u32 where "SHIFT = 1"
definition CTL :: u32 where "CTL = 2"
definition ALT :: u32 where "ALT = 4"
definition CAPSLOCK :: u32 where "CAPSLOCK = 8"
definition NUMLOCK :: u32 where "NUMLOCK = 16"
definition SCROLLLOCK :: u32 where "SCROLLLOCK = 32"
definition E0ESC :: u32 where "E0ESC = 64"

definition shiftcode :: "u32 \<Rightarrow> u32" where
  "shiftcode d = (if d = 0x1D \<or> d = 0x9D then CTL else if d = 0x2A \<or> d = 0x36 then SHIFT
     else if d = 0x38 \<or> d = 0xB8 then ALT else 0)"

definition togglecode :: "u32 \<Rightarrow> u32" where
  "togglecode d = (if d = 0x3A then CAPSLOCK else if d = 0x45 then NUMLOCK else if d = 0x46 then SCROLLLOCK else 0)"

definition tab :: "string \<Rightarrow> u32 list" where "tab cs = map of_char cs"

definition key_codes :: "u32 \<Rightarrow> u32 \<Rightarrow> u32 \<Rightarrow> u32" where
  "key_codes enter kpdiv d =
     (if d = 0x9C then enter else if d = 0xB5 then kpdiv else if d = 0xC8 then 0xE2 else if d = 0xD0 then 0xE3
      else if d = 0xC9 then 0xE6 else if d = 0xD1 then 0xE7 else if d = 0xCB then 0xE4 else if d = 0xCD then 0xE5
      else if d = 0x97 then 0xE0 else if d = 0xCF then 0xE1 else if d = 0xD2 then 0xE8 else if d = 0xD3 then 0xE9
      else 0)"

definition normal_rows :: "u32 list" where
  "normal_rows = [0, 0x1B] @ tab ''1234567890-='' @ [8, 9] @ tab ''qwertyuiop[]'' @ [10, 0] @ tab ''asdfghjkl;'' @
     [39, 96, 0, 92] @ tab ''zxcvbnm,./'' @ [0, 42, 0, 32] @ replicate 13 0 @ tab ''789-456+1230.'' @ [0, 0, 0, 0]"

definition shift_rows :: "u32 list" where
  "shift_rows = [0, 27] @ tab ''!@#$%^&*()_+'' @ [8, 9] @ tab ''QWERTYUIOP{}'' @ [10, 0] @ tab ''ASDFGHJKL:'' @
     [34, 126, 0, 124] @ tab ''ZXCVBNM<>?'' @ [0, 42, 0, 32] @ replicate 13 0 @ tab ''789-456+1230.'' @ [0, 0, 0, 0]"

definition control :: "u32 list \<Rightarrow> u32 list" where "control cs = map (\<lambda>c. (c - 64) AND 0xFF) cs"

definition ctl_rows :: "u32 list" where
  "ctl_rows = replicate 16 0 @ control (tab ''QWERTYUIOP'') @ [0, 0, 13, 0] @ control (tab ''ASDFGHJKL'') @
     [0, 0, 0, 0] @ control (92 # tab ''ZXCVBNM'') @ [0, 0] @ control (tab ''/'') @ [0, 0]"

definition row :: "u32 list \<Rightarrow> u32 \<Rightarrow> u32 option" where
  "row rows d = (if unat d < length rows then Some (rows ! unat d) else None)"

definition normalmap :: "u32 \<Rightarrow> u32" where
  "normalmap d = (case row normal_rows d of Some c \<Rightarrow> c | None \<Rightarrow> key_codes 10 47 d)"

definition shiftmap :: "u32 \<Rightarrow> u32" where
  "shiftmap d = (case row shift_rows d of Some c \<Rightarrow> c | None \<Rightarrow> key_codes 10 47 d)"

definition ctlmap :: "u32 \<Rightarrow> u32" where
  "ctlmap d = (case row ctl_rows d of Some c \<Rightarrow> c | None \<Rightarrow> key_codes 13 (47 - 64) d AND 0xFF)"

definition charcode :: "u32 \<Rightarrow> u32 \<Rightarrow> u32" where
  "charcode i = (if i = 0 then normalmap else if i = 1 then shiftmap else ctlmap)"

definition caps :: "u32 \<Rightarrow> u32 \<Rightarrow> u32" where
  "caps shift c =
     (if shift AND CAPSLOCK \<noteq> 0
      then if 97 \<le> c \<and> c \<le> 122 then c - 32 else if 65 \<le> c \<and> c \<le> 90 then c + 32 else c
      else c)"

text \<open>\<^verbatim>\<open>kbdgetc\<close>: the result (-1, 0 or a character) and the new \<^verbatim>\<open>shift\<close>.\<close>

definition kbdgetc :: "u8 \<Rightarrow> u8 \<Rightarrow> u32 \<Rightarrow> int \<times> u32" where
  "kbdgetc st data shift =
     (if st AND 1 = 0 then (-1, shift)
      else let data = ucast data :: u32
           in if data = 0xE0 then (0, shift OR E0ESC)
              else if data AND 0x80 \<noteq> 0
              then let data = (if shift AND E0ESC \<noteq> 0 then data else data AND 0x7F)
                   in (0, shift AND NOT (shiftcode data OR E0ESC))
              else let e0 = shift AND E0ESC \<noteq> 0;
                       data = (if e0 then data OR 0x80 else data);
                       shift = (if e0 then shift AND NOT E0ESC else shift);
                       shift = shift OR shiftcode data;
                       shift = shift XOR togglecode data;
                       c = charcode (shift AND (CTL OR SHIFT)) data;
                       c = caps shift c
                   in (uint c, shift))"

section \<open>Lemmas\<close>

lemma rows_small:
  "\<forall>c\<in>set normal_rows. c < 256" "\<forall>c\<in>set shift_rows. c < 256" "\<forall>c\<in>set ctl_rows. c < 256"
  by (simp_all add: normal_rows_def shift_rows_def ctl_rows_def tab_def control_def)

lemma key_codes_small: "enter < 256 \<Longrightarrow> kpdiv < 256 \<Longrightarrow> key_codes enter kpdiv d < 256"
  by (simp add: key_codes_def)

lemma row_small: "\<forall>c\<in>set rows. c < 256 \<Longrightarrow> row rows d = Some c \<Longrightarrow> c < 256"
  by (auto simp: row_def split: if_splits)

lemma charcode_small: "charcode i d < 256"
proof -
  have "x AND 0xFF \<le> 0xFF" for x :: u32 by (rule word_and_le1)
  then have "x AND 0xFF < 256" for x :: u32 by (rule order.strict_trans1) simp
  then show ?thesis
    using key_codes_small [of 10 47 d] row_small [OF rows_small(1), of d] row_small [OF rows_small(2), of d] row_small [OF rows_small(3), of d]
    by (auto simp: charcode_def normalmap_def shiftmap_def ctlmap_def split: option.splits)
qed

lemma caps_small: "c < 256 \<Longrightarrow> caps shift c < 256"
proof -
  assume "c < 256"
  moreover have "unat (c - 32) < 256" if "97 \<le> c" "c \<le> 122"
    using that by (simp add: word_le_nat_alt unat_sub)
  moreover have "unat (c + 32) < 256" if "65 \<le> c" "c \<le> 90"
    using that by (simp add: word_le_nat_alt unat_add_lem [THEN iffD1])
  ultimately show ?thesis by (simp add: caps_def word_less_nat_alt)
qed

lemma uint_byte: "(c :: u32) < 256 \<Longrightarrow> uint c \<le> 255 \<and> - 1 \<le> uint c"
  using order_trans [OF _ uint_ge_0 [of c], of "- 1"] by (simp add: word_less_alt)

lemma scan_code_bits:
  assumes "k < (0x80 :: u8)"
  shows "ucast k AND 0x80 = (0 :: u32)" "ucast (k OR 0x80) = (ucast k OR 0x80 :: u32)"
    "(ucast k OR 0x80) AND 0x7F = (ucast k :: u32)" "(ucast k OR 0x80) AND 0x80 \<noteq> (0 :: u32)"
proof -
  have "k AND mask 7 = k" using less_mask_eq [of k 7] assms by simp
  then have nb: "\<not> bit k n" if "7 \<le> n" for n using that by (metis bit_and_iff bit_mask_iff leD)
  have "bit (2 ^ 7 :: int) n \<longleftrightarrow> n = 7" for n by (subst bit_exp_iff) auto
  then have b7: "bit (0x80 :: int) n \<longleftrightarrow> n = 7" for n by simp
  have "bit (mask 7 :: int) n \<longleftrightarrow> n < 7" for n by (auto simp: bit_mask_iff)
  then have "bit (0x7F :: int) n \<longleftrightarrow> n < 7" for n by (simp add: mask_eq_exp_minus_1)
  note b = bit_and_iff bit_or_iff bit_unsigned_iff b7 this
  show "ucast k AND 0x80 = (0 :: u32)" by (rule bit_word_eqI) (auto simp: b nb)
  show "ucast (k OR 0x80) = (ucast k OR 0x80 :: u32)" by (rule bit_word_eqI) (auto simp: b nb)
  show "(ucast k OR 0x80) AND 0x7F = (ucast k :: u32)" by (rule bit_word_eqI) (use nb not_le in \<open>auto simp: b\<close>)
  have "bit ((ucast k OR 0x80) AND 0x80 :: u32) 7" by (simp add: b)
  then show "(ucast k OR 0x80) AND 0x80 \<noteq> (0 :: u32)" by force
qed

lemma shiftcode_E0: "shiftcode d AND E0ESC = 0"
  by (simp add: shiftcode_def E0ESC_def CTL_def SHIFT_def ALT_def)

lemma clear_or:
  assumes "x AND y = (0 :: u32)" "x AND z = 0"
  shows "(x OR y) AND NOT (y OR z) = x"
proof (rule bit_word_eqI)
  fix n
  assume "n < LENGTH(32)"
  moreover have "\<not> (bit x n \<and> bit y n)" "\<not> (bit x n \<and> bit z n)"
    using arg_cong [OF assms(1), of "\<lambda>w. bit w n"] arg_cong [OF assms(2), of "\<lambda>w. bit w n"] by (simp_all add: bit_and_iff)
  ultimately show "bit ((x OR y) AND NOT (y OR z)) n = bit x n"
    by (auto simp: bit_and_iff bit_or_iff bit_not_iff)
qed

section \<open>Properties\<close>

text \<open>\<^verbatim>\<open>kbdgetc\<close> returns -1 or the code of a character, whatever the ports read and whatever the
  state of the modifier keys.\<close>

theorem kbdgetc_range: "fst (kbdgetc st data shift) \<in> {- 1..255}"
  by (simp add: kbdgetc_def Let_def uint_byte caps_small charcode_small)

text \<open>A modifier key acts while it is held. Pressing and releasing a key that is no lock key
  leaves the state of the modifiers as it was, unless the modifier was already down or an escape
  code is pending; the scan code \<open>0x60\<close>, whose release code is the escape code, is the exception.\<close>

theorem modifier_restored:
  assumes "k < 0x80" "k \<noteq> 0x60" "togglecode (ucast k) = 0" "shift AND E0ESC = 0" "shift AND shiftcode (ucast k) = 0"
  shows "snd (kbdgetc 1 (k OR 0x80) (snd (kbdgetc 1 k shift))) = shift"
proof -
  note b = scan_code_bits [OF assms(1)]
  have "(ucast k :: u32) \<noteq> 0xE0" using b(1) by force
  moreover have "(ucast k OR 0x80 :: u32) \<noteq> 0xE0"
  proof
    assume "(ucast k OR 0x80 :: u32) = 0xE0"
    then have "ucast k = (0x60 :: u32)" using b(3) by simp
    moreover have "ucast (ucast k :: u32) = k" by (rule bit_word_eqI) (simp add: bit_unsigned_iff)
    ultimately show False using assms(2) by simp
  qed
  moreover have "(shift OR shiftcode (ucast k)) AND E0ESC = 0"
    using assms(4) shiftcode_E0 by (simp add: bit.conj_disj_distrib2)
  ultimately show ?thesis using assms(3) b clear_or [OF assms(5,4)] by (simp add: kbdgetc_def Let_def assms(4))
qed

theorem modifier_restored_witness:
  "snd (kbdgetc 1 (0x2A OR 0x80) (snd (kbdgetc 1 0x2A CAPSLOCK))) = CAPSLOCK"
  by (rule modifier_restored) (simp_all add: togglecode_def shiftcode_def CAPSLOCK_def E0ESC_def SHIFT_def)

end
