(* ===== verification/Console.thy ===== *)
theory Console
  imports Inode Printf Kbd
begin

text \<open>
  The console (\<^verbatim>\<open>console.c\<close>), the serial port it writes to (\<^verbatim>\<open>uart.c\<close>) and the process listing
  (\<^verbatim>\<open>procdump\<close> of \<^verbatim>\<open>proc.c\<close>). The state adds the screen (the 16-bit cells of the display memory
  and the cursor register), the bytes sent to the serial port, the ring buffer of the input line
  with its three counters, and the two flags \<^verbatim>\<open>cons.locking\<close> and \<^verbatim>\<open>panicked\<close>.

  \<open>consoleread\<close> returns the characters the code stores through \<^verbatim>\<open>dst\<close> beside its result.
\<close>

section \<open>State\<close>

definition INPUT_BUF :: nat where "INPUT_BUF = 128"
definition BACKSPACE :: u32 where "BACKSPACE = 0x100"

record cons_st = ino_st +
  cons_locking :: bool
  panicked :: bool
  in_buf :: "u8 list"
  in_r :: u32
  in_w :: u32
  in_e :: u32
  uart :: bool
  uart_out :: "u8 list"
  crt :: "u16 list"
  crt_pos :: u16
  kbd_shift :: u32
  dev_console :: bool

section \<open>Output\<close>

text \<open>The wait for the transmitter in \<^verbatim>\<open>uartputc\<close> is bounded and only delays.\<close>

definition uartputc :: "u32 \<Rightarrow> 'a cons_st_scheme \<Rightarrow> 'a cons_st_scheme" where
  "uartputc c s = (if \<not> uart s then s else s\<lparr>uart_out := uart_out s @ [ucast c]\<rparr>)"

text \<open>\<open>lsr\<close> is what the line status port reads.\<close>

definition uartinit :: "u8 \<Rightarrow> 'a cons_st_scheme \<Rightarrow> 'a cons_st_scheme" where
  "uartinit lsr s =
     (if lsr = 0xFF then s
      else fold (\<lambda>c. uartputc (ucast c)) (bytes ''xv6...'' @ [10]) (s\<lparr>uart := True\<rparr>))"

text \<open>Writing a cell outside the display memory, and clearing a negative number of cells, are
  accesses the code does not mean to make.\<close>

definition cgaputc :: "u32 \<Rightarrow> 'a cons_st_scheme \<Rightarrow> ('a cons_st_scheme, 'a cons_st_scheme) kres" where
  "cgaputc c s =
     (let pos = unat (crt_pos s); cells = crt s
      in kbind (if c = 10 then Inr (pos + (80 - pos mod 80), cells)
                else if c = BACKSPACE then Inr (if pos > 0 then pos - 1 else pos, cells)
                else if pos < length cells then Inr (pos + 1, cells[pos := (ucast c AND 0xFF) OR 0x0700])
                else Inl (Fault ''cgaputc: cell'')) (\<lambda>(pos, cells).
         kbind (if pos div 80 \<ge> 24
                then let cells = take (23 * 80) (drop 80 cells) @ drop (23 * 80) cells;
                         pos = pos - 80
                     in if pos > 24 * 80 then Inl (Fault ''cgaputc: memset'')
                        else Inr (pos, overwrite pos (replicate (24 * 80 - pos) 0) cells)
                else Inr (pos, cells)) (\<lambda>(pos, cells).
         if pos < length cells
         then Inr (s\<lparr>crt := cells[pos := 0x0720], crt_pos := of_nat pos\<rparr>)
         else Inl (Fault ''cgaputc: cursor''))))"

definition consputc :: "u32 \<Rightarrow> 'a cons_st_scheme \<Rightarrow> ('a cons_st_scheme, 'a cons_st_scheme) kres" where
  "consputc c s =
     (if panicked s then Inl Diverge
      else cgaputc c (if c = BACKSPACE then uartputc 8 (uartputc 32 (uartputc 8 s)) else uartputc c s))"

fun consputs :: "u8 list \<Rightarrow> 'a cons_st_scheme \<Rightarrow> ('a cons_st_scheme, 'a cons_st_scheme) kres" where
  "consputs [] s = Inr s"
| "consputs (c # cs) s = kbind (consputc (ucast c) s) (consputs cs)"

definition cprintf ::
  "u8 list \<Rightarrow> fmt_arg list \<Rightarrow> 'a cons_st_scheme \<Rightarrow> ('a cons_st_scheme, 'a cons_st_scheme) kres" where
  "cprintf fmt args s =
     (let locking = cons_locking s
      in kbind (if locking then acquire LCons s else Inr s) (\<lambda>s.
         case cprintf_chars fmt args of None \<Rightarrow> Inl (Fault ''cprintf: arguments'')
         | Some out \<Rightarrow> kbind (consputs out s) (\<lambda>s. if locking then release LCons s else Inr s)))"

section \<open>Stack traces\<close>

fun getcallerpcs_loop :: "nat \<Rightarrow> u32 \<Rightarrow> mem \<Rightarrow> u32 list" where
  "getcallerpcs_loop 0 ebp m = []"
| "getcallerpcs_loop (Suc k) ebp m =
     (if ebp = 0 \<or> ebp < KERNBASE \<or> ebp = 0xFFFFFFFF then replicate (Suc k) 0
      else load32 m (ebp + 4) # getcallerpcs_loop k (load32 m ebp) m)"

definition getcallerpcs :: "u32 \<Rightarrow> mem \<Rightarrow> u32 list" where
  "getcallerpcs v m = getcallerpcs_loop 10 (v - 8) m"

fun print_pcs :: "u32 list \<Rightarrow> 'a cons_st_scheme \<Rightarrow> ('a cons_st_scheme, 'a cons_st_scheme) kres" where
  "print_pcs [] s = Inr s"
| "print_pcs (x # xs) s = kbind (cprintf (bytes '' %p'') [AInt x] s) (print_pcs xs)"

text \<open>\<^verbatim>\<open>panic\<close>, up to the loop in which it then stays; \<open>frame\<close> is the address of its argument.\<close>

definition panic :: "u8 list \<Rightarrow> u32 \<Rightarrow> 'a cons_st_scheme \<Rightarrow> ('a cons_st_scheme, 'a cons_st_scheme) kres" where
  "panic msg frame s =
     (let s = s\<lparr>IF := False, cons_locking := False\<rparr>
      in kbind (cprintf (bytes ''cpu%d: panic: '') [AInt (of_nat (cpu_id (cpu s)))] s) (\<lambda>s.
         kbind (cprintf msg [] s) (\<lambda>s.
         kbind (cprintf [10] [] s) (\<lambda>s.
         kbind (print_pcs (getcallerpcs frame (mem s)) s) (\<lambda>s. Inr (s\<lparr>panicked := True\<rparr>))))))"

fun state_name :: "procstate \<Rightarrow> u8 list" where
  "state_name UNUSED = bytes ''unused''"
| "state_name EMBRYO = bytes ''embryo''"
| "state_name SLEEPING = bytes ''sleep ''"
| "state_name RUNNABLE = bytes ''runble''"
| "state_name RUNNING = bytes ''run   ''"
| "state_name ZOMBIE = bytes ''zombie''"

fun procdump_loop :: "proc list \<Rightarrow> 'a cons_st_scheme \<Rightarrow> ('a cons_st_scheme, 'a cons_st_scheme) kres" where
  "procdump_loop [] s = Inr s"
| "procdump_loop (p # ps) s =
     (if p_state p = UNUSED then procdump_loop ps s
      else kbind (cprintf (bytes ''%d %s %s'')
                   [AInt (of_int (p_pid p)), AStr (Some (state_name (p_state p))),
                    AStr (Some (takeWhile (\<lambda>c. c \<noteq> 0) (p_name p)))] s) (\<lambda>s.
           kbind (if p_state p = SLEEPING
                  then let ebp = load32 (mem s) (p_context p + 12)
                       in print_pcs (takeWhile (\<lambda>pc. pc \<noteq> 0) (getcallerpcs (ebp + 8) (mem s))) s
                  else Inr s) (\<lambda>s.
           kbind (cprintf [10] [] s) (procdump_loop ps))))"

definition procdump :: "'a cons_st_scheme \<Rightarrow> ('a cons_st_scheme, 'a cons_st_scheme) kres" where
  "procdump s = procdump_loop (procs s) s"

section \<open>Input\<close>

text \<open>\<^verbatim>\<open>C('U')\<close>: the loop runs at most as often as there are characters in the line.\<close>

definition kill_char :: "'a cons_st_scheme \<Rightarrow> bool" where
  "kill_char s \<longleftrightarrow> in_e s \<noteq> in_w s \<and> in_buf s ! (unat (in_e s - 1) mod INPUT_BUF) \<noteq> 10"

fun kill_line :: "nat \<Rightarrow> 'a cons_st_scheme \<Rightarrow> ('a cons_st_scheme, 'a cons_st_scheme) kres" where
  "kill_line 0 s = (if kill_char s then Inl Diverge else Inr s)"
| "kill_line (Suc k) s =
     (if kill_char s then kbind (consputc BACKSPACE (s\<lparr>in_e := in_e s - 1\<rparr>)) (kill_line k) else Inr s)"

definition console_char :: "u32 \<Rightarrow> 'a cons_st_scheme \<Rightarrow> ('a cons_st_scheme, 'a cons_st_scheme) kres" where
  "console_char c s =
     (if c = 16 then procdump s
      else if c = 21 then kill_line (unat (in_e s - in_w s)) s
      else if c = 8 \<or> c = 0x7F
      then if in_e s \<noteq> in_w s then consputc BACKSPACE (s\<lparr>in_e := in_e s - 1\<rparr>) else Inr s
      else if c \<noteq> 0 \<and> in_e s - in_r s < of_nat INPUT_BUF
      then let c = (if c = 13 then 10 else c);
               s = s\<lparr>in_buf := (in_buf s)[unat (in_e s) mod INPUT_BUF := ucast c], in_e := in_e s + 1\<rparr>
           in kbind (consputc c s) (\<lambda>s.
              if c = 10 \<or> c = 4 \<or> in_e s = in_r s + of_nat INPUT_BUF
              then wakeup ChInput (s\<lparr>in_w := in_e s\<rparr>) else Inr s)
      else Inr s)"

text \<open>\<^verbatim>\<open>consoleintr\<close>: \<open>cs\<close> are the results of \<^verbatim>\<open>getc\<close> before the first negative one.\<close>

fun console_chars :: "u32 list \<Rightarrow> 'a cons_st_scheme \<Rightarrow> ('a cons_st_scheme, 'a cons_st_scheme) kres" where
  "console_chars [] s = Inr s"
| "console_chars (c # cs) s = kbind (console_char c s) (console_chars cs)"

definition consoleintr :: "u32 list \<Rightarrow> 'a cons_st_scheme \<Rightarrow> ('a cons_st_scheme, 'a cons_st_scheme) kres" where
  "consoleintr cs s =
     kbind (acquire LInput s) (\<lambda>s. kbind (console_chars cs s) (release LInput))"

text \<open>The successive readings of the keyboard's two ports.\<close>

fun kbd_chars :: "(u8 \<times> u8) list \<Rightarrow> u32 \<Rightarrow> u32 list \<times> u32" where
  "kbd_chars [] shift = ([], shift)"
| "kbd_chars ((st, data) # ports) shift =
     (let (c, shift) = kbdgetc st data shift
      in if c < 0 then ([], shift) else let (cs, shift) = kbd_chars ports shift in (of_int c # cs, shift))"

definition kbdintr :: "(u8 \<times> u8) list \<Rightarrow> 'a cons_st_scheme \<Rightarrow> ('a cons_st_scheme, 'a cons_st_scheme) kres" where
  "kbdintr ports s =
     (let (cs, shift) = kbd_chars ports (kbd_shift s) in consoleintr cs (s\<lparr>kbd_shift := shift\<rparr>))"

text \<open>\<^verbatim>\<open>uartgetc\<close> on the line status and data ports, and \<^verbatim>\<open>uartintr\<close> on their readings.\<close>

definition uartgetc :: "bool \<Rightarrow> u8 \<Rightarrow> u8 \<Rightarrow> int" where
  "uartgetc present lsr data = (if \<not> present then -1 else if lsr AND 1 = 0 then -1 else uint data)"

definition uartintr :: "(u8 \<times> u8) list \<Rightarrow> 'a cons_st_scheme \<Rightarrow> ('a cons_st_scheme, 'a cons_st_scheme) kres" where
  "uartintr ports s =
     consoleintr (map of_int (takeWhile (\<lambda>c. c \<ge> 0) (map (\<lambda>(lsr, data). uartgetc (uart s) lsr data) ports))) s"

section \<open>The device\<close>

text \<open>The loop of \<^verbatim>\<open>consoleread\<close>: whether it stopped because the process is killed, what is left
  of \<^verbatim>\<open>n\<close>, the characters.\<close>

fun consoleread_loop ::
  "nat \<Rightarrow> nat \<Rightarrow> u8 list \<Rightarrow> 'a cons_st_scheme \<Rightarrow> ('a cons_st_scheme, bool \<times> nat \<times> u8 list \<times> 'a cons_st_scheme) kres" where
  "consoleread_loop target 0 out s = Inr (False, 0, out, s)"
| "consoleread_loop target (Suc n) out s =
     (if in_r s = in_w s
      then case curproc s of None \<Rightarrow> Inl (Fault ''consoleread: no current process'')
           | Some p \<Rightarrow> if p_killed (procs s ! p) then Inr (True, Suc n, out, s) else sleep ChInput LInput s
      else let c = in_buf s ! (unat (in_r s) mod INPUT_BUF); s = s\<lparr>in_r := in_r s + 1\<rparr>
           in if c = 4
              then Inr (False, Suc n, out, if Suc n < target then s\<lparr>in_r := in_r s - 1\<rparr> else s)
              else if c = 10 then Inr (False, n, out @ [c], s)
              else consoleread_loop target n (out @ [c]) s)"

definition consoleread_rest ::
  "nat \<Rightarrow> nat \<Rightarrow> nat \<Rightarrow> u8 list \<Rightarrow> 'a cons_st_scheme \<Rightarrow> ('a cons_st_scheme, int \<times> u8 list \<times> 'a cons_st_scheme) kres" where
  "consoleread_rest ip target n out s =
     kbind (consoleread_loop target n out s) (\<lambda>(killed, n, out, s).
     kbind (release LInput s) (\<lambda>s.
     kbind (ilock ip s) (\<lambda>s.
     Inr (if killed then -1 else int target - int n, out, s))))"

definition consoleread ::
  "nat \<Rightarrow> nat \<Rightarrow> 'a cons_st_scheme \<Rightarrow> ('a cons_st_scheme, int \<times> u8 list \<times> 'a cons_st_scheme) kres" where
  "consoleread ip n s =
     kbind (iunlock ip s) (\<lambda>s. kbind (acquire LInput s) (consoleread_rest ip n n []))"

text \<open>The process is woken with \<open>n\<close> characters to go, having read \<open>out\<close>.\<close>

definition consoleread_resume ::
  "bool \<Rightarrow> nat \<Rightarrow> nat \<Rightarrow> nat \<Rightarrow> u8 list \<Rightarrow> 'a cons_st_scheme \<Rightarrow> ('a cons_st_scheme, int \<times> u8 list \<times> 'a cons_st_scheme) kres" where
  "consoleread_resume saved ip target n out s =
     kbind (sleep_resume saved LInput s) (consoleread_rest ip target n out)"

definition consolewrite ::
  "nat \<Rightarrow> u8 list \<Rightarrow> 'a cons_st_scheme \<Rightarrow> ('a cons_st_scheme, int \<times> 'a cons_st_scheme) kres" where
  "consolewrite ip cs s =
     kbind (iunlock ip s) (\<lambda>s.
     kbind (acquire LCons s) (\<lambda>s.
     kbind (consputs cs s) (\<lambda>s.
     kbind (release LCons s) (\<lambda>s.
     kbind (ilock ip s) (\<lambda>s. Inr (int (length cs), s))))))"

definition consoleinit :: "'a cons_st_scheme \<Rightarrow> 'a cons_st_scheme" where
  "consoleinit s = (initlock LInput (initlock LCons s))\<lparr>dev_console := True, cons_locking := True\<rparr>"

end
