(* ===== verification/Fs.thy ===== *)
theory Fs
  imports Console
begin

text \<open>
  File contents, directories and paths (\<^verbatim>\<open>fs.c\<close> from \<^verbatim>\<open>readi\<close> on). A C string is the list of
  its bytes before the NUL. \<open>readi\<close> returns the bytes the code stores through \<^verbatim>\<open>dst\<close> beside its
  result, \<open>writei\<close> takes the \<^verbatim>\<open>n\<close> bytes at \<^verbatim>\<open>src\<close>.
\<close>

definition NDEV :: int where "NDEV = 10"
definition CONSOLE :: u16 where "CONSOLE = 1"
definition DIRSIZ :: nat where "DIRSIZ = 14"
definition sizeof_dirent :: nat where "sizeof_dirent = 16"

section \<open>Contents\<close>

text \<open>The test of \<^verbatim>\<open>devsw[ip->major]\<close>: the table has the console's entry only.\<close>

definition no_device :: "u16 \<Rightarrow> 'a cons_st_scheme \<Rightarrow> bool" where
  "no_device major s \<longleftrightarrow> sint major < 0 \<or> sint major \<ge> NDEV \<or> \<not> (major = CONSOLE \<and> dev_console s)"

function readi_loop ::
  "nat \<Rightarrow> nat \<Rightarrow> nat \<Rightarrow> 'a cons_st_scheme \<Rightarrow> ('a cons_st_scheme, u8 list \<times> 'a cons_st_scheme) kres" where
  "readi_loop ip off n s =
     (if n = 0 then Inr ([], s)
      else kbind (bmap ip (of_nat (off div BSIZE)) s) (\<lambda>(addr, s).
           kbind (bread (i_dev (inodes s ! ip)) addr s) (\<lambda>(bp, s).
           let m = min n (BSIZE - off mod BSIZE);
               out = take m (drop (off mod BSIZE) (b_data (bufs s ! bp)))
           in kbind (brelse bp s) (\<lambda>s.
              kbind (readi_loop ip (off + m) (n - m) s) (\<lambda>(rest, s). Inr (out @ rest, s))))))"
  by pat_completeness auto
termination
  by (relation "measure (\<lambda>(ip, off, n, s). n)") (simp_all add: BSIZE_def)

declare readi_loop.simps [simp del]

definition readi ::
  "nat \<Rightarrow> u32 \<Rightarrow> u32 \<Rightarrow> 'a cons_st_scheme \<Rightarrow> ('a cons_st_scheme, int \<times> u8 list \<times> 'a cons_st_scheme) kres" where
  "readi ip off n s =
     (let q = inodes s ! ip
      in if i_type q = T_DEV
         then if no_device (i_major q) s then Inr (-1, [], s) else consoleread ip (nat (sint n)) s
         else if off > i_size q \<or> off + n < off then Inr (-1, [], s)
         else let n = (if off + n > i_size q then i_size q - off else n)
              in kbind (readi_loop ip (unat off) (unat n) s) (\<lambda>(out, s). Inr (sint n, out, s)))"

function writei_loop ::
  "nat \<Rightarrow> nat \<Rightarrow> u8 list \<Rightarrow> 'a cons_st_scheme \<Rightarrow> ('a cons_st_scheme, 'a cons_st_scheme) kres" where
  "writei_loop ip off src s =
     (if src = [] then Inr s
      else kbind (bmap ip (of_nat (off div BSIZE)) s) (\<lambda>(addr, s).
           kbind (bread (i_dev (inodes s ! ip)) addr s) (\<lambda>(bp, s).
           let m = min (length src) (BSIZE - off mod BSIZE);
               s = upd_buf bp (\<lambda>b. b\<lparr>b_data := overwrite (off mod BSIZE) (take m src) (b_data b)\<rparr>) s
           in kbind (log_write bp s) (\<lambda>s.
              kbind (brelse bp s) (writei_loop ip (off + m) (drop m src))))))"
  by pat_completeness auto
termination
  by (relation "measure (\<lambda>(ip, off, src, s). length src)") (simp_all add: BSIZE_def)

declare writei_loop.simps [simp del]

definition writei ::
  "nat \<Rightarrow> u8 list \<Rightarrow> u32 \<Rightarrow> 'a cons_st_scheme \<Rightarrow> ('a cons_st_scheme, int \<times> 'a cons_st_scheme) kres" where
  "writei ip src off s =
     (let q = inodes s ! ip; n = of_nat (length src) :: u32
      in if i_type q = T_DEV
         then if no_device (i_major q) s then Inr (-1, s) else consolewrite ip src s
         else if off > i_size q \<or> off + n < off then Inr (-1, s)
         else if off + n > of_nat (MAXFILE * BSIZE) then Inr (-1, s)
         else kbind (writei_loop ip (unat off) src s) (\<lambda>s.
              if n > 0 \<and> off + n > i_size (inodes s ! ip)
              then kbind (iupdate ip (upd_inode ip (i_size_update (\<lambda>_. off + n)) s)) (\<lambda>s. Inr (sint n, s))
              else Inr (sint n, s)))"

section \<open>Directories\<close>

definition namecmp :: "u8 list \<Rightarrow> u8 list \<Rightarrow> int" where
  "namecmp s t = strncmp (cstr s) (cstr t) DIRSIZ"

record dirent =
  de_inum :: u16
  de_name :: "u8 list"

definition dirent_bytes :: "dirent \<Rightarrow> u8 list" where
  "dirent_bytes de = le16 (de_inum de) @ de_name de"

definition dirent_of :: "u8 list \<Rightarrow> dirent" where
  "dirent_of bs = \<lparr>de_inum = of_le16 (take 2 bs), de_name = take DIRSIZ (drop 2 bs)\<rparr>"

text \<open>The offsets \<^verbatim>\<open>for(off = 0; off < dp->size; off += sizeof(de))\<close>.\<close>

definition dirent_offs :: "u32 \<Rightarrow> nat list" where
  "dirent_offs sz = map (\<lambda>k. k * sizeof_dirent) [0..<(unat sz + sizeof_dirent - 1) div sizeof_dirent]"

definition read_dirent ::
  "nat \<Rightarrow> nat \<Rightarrow> 'a cons_st_scheme \<Rightarrow> ('a cons_st_scheme, dirent \<times> 'a cons_st_scheme) kres" where
  "read_dirent dp off s =
     kbind (readi dp (of_nat off) (of_nat sizeof_dirent) s) (\<lambda>(r, bs, s).
     if r \<noteq> int sizeof_dirent then kpanic ''dirlink read'' else Inr (dirent_of bs, s))"

fun dirlookup_loop ::
  "nat \<Rightarrow> u8 list \<Rightarrow> nat list \<Rightarrow> 'a cons_st_scheme \<Rightarrow> ('a cons_st_scheme, (nat \<times> nat) option \<times> 'a cons_st_scheme) kres" where
  "dirlookup_loop dp name [] s = Inr (None, s)"
| "dirlookup_loop dp name (off # offs) s =
     kbind (read_dirent dp off s) (\<lambda>(de, s).
     if de_inum de = 0 then dirlookup_loop dp name offs s
     else if namecmp name (de_name de) = 0
     then kbind (iget (i_dev (inodes s ! dp)) (ucast (de_inum de)) s) (\<lambda>(ip, s). Inr (Some (ip, off), s))
     else dirlookup_loop dp name offs s)"

definition dirlookup ::
  "nat \<Rightarrow> u8 list \<Rightarrow> 'a cons_st_scheme \<Rightarrow> ('a cons_st_scheme, (nat \<times> nat) option \<times> 'a cons_st_scheme) kres" where
  "dirlookup dp name s =
     (if i_type (inodes s ! dp) \<noteq> T_DIR then kpanic ''dirlookup not DIR''
      else dirlookup_loop dp name (dirent_offs (i_size (inodes s ! dp))) s)"

text \<open>The search of \<^verbatim>\<open>dirlink\<close> for an empty entry; \<open>stop\<close> is the offset at which the loop ends.\<close>

fun empty_dirent ::
  "nat \<Rightarrow> nat \<Rightarrow> nat list \<Rightarrow> 'a cons_st_scheme \<Rightarrow> ('a cons_st_scheme, nat \<times> 'a cons_st_scheme) kres" where
  "empty_dirent stop dp [] s = Inr (stop, s)"
| "empty_dirent stop dp (off # offs) s =
     kbind (read_dirent dp off s) (\<lambda>(de, s).
     if de_inum de = 0 then Inr (off, s) else empty_dirent stop dp offs s)"

definition dirlink ::
  "nat \<Rightarrow> u8 list \<Rightarrow> u32 \<Rightarrow> 'a cons_st_scheme \<Rightarrow> ('a cons_st_scheme, int \<times> 'a cons_st_scheme) kres" where
  "dirlink dp name inum s =
     kbind (dirlookup dp name s) (\<lambda>(r, s). case r of
       Some (ip, _) \<Rightarrow> kbind (iput ip s) (\<lambda>s. Inr (-1, s))
     | None \<Rightarrow>
       let offs = dirent_offs (i_size (inodes s ! dp))
       in kbind (empty_dirent (length offs * sizeof_dirent) dp offs s) (\<lambda>(off, s).
          let de = \<lparr>de_inum = ucast inum, de_name = strncpy (cstr name) DIRSIZ\<rparr>
          in kbind (writei dp (dirent_bytes de) (of_nat off) s) (\<lambda>(r, s).
             if r \<noteq> int sizeof_dirent then kpanic ''dirlink'' else Inr (0, s))))"

section \<open>Paths\<close>

text \<open>\<^verbatim>\<open>skipelem\<close>: the element copied into \<^verbatim>\<open>name\<close> and the rest of the path.\<close>

definition skipelem :: "u8 list \<Rightarrow> (u8 list \<times> u8 list) option" where
  "skipelem path =
     (let path = dropWhile (\<lambda>c. c = 47) path
      in if path = [] then None
         else let elem = takeWhile (\<lambda>c. c \<noteq> 47) path; path = dropWhile (\<lambda>c. c \<noteq> 47) path
              in Some (if length elem \<ge> DIRSIZ then take DIRSIZ elem else elem, dropWhile (\<lambda>c. c = 47) path))"

lemma skipelem_shorter:
  assumes "skipelem path = Some (name, rest)"
  shows "length rest < length path"
proof -
  define p where "p = dropWhile (\<lambda>c. c = 47) path"
  have "p \<noteq> []" and rest: "rest = dropWhile (\<lambda>c. c = 47) (dropWhile (\<lambda>c. c \<noteq> 47) p)"
    using assms by (auto simp: skipelem_def p_def Let_def split: if_splits)
  then have "\<not> hd p = 47" using hd_dropWhile [of "\<lambda>c. c = 47" path] by (simp add: p_def)
  with \<open>p \<noteq> []\<close> obtain c q where "p = c # q" "c \<noteq> 47" by (cases p) auto
  then have "rest = dropWhile (\<lambda>c. c = 47) (dropWhile (\<lambda>c. c \<noteq> 47) q)" using rest by simp
  then have "length rest \<le> length q" by (simp add: length_dropWhile_le le_trans [OF length_dropWhile_le])
  moreover have "length p \<le> length path" unfolding p_def by (rule length_dropWhile_le)
  ultimately show ?thesis using \<open>p = c # q\<close> by simp
qed

text \<open>The loop of \<^verbatim>\<open>namex\<close>; the result is the inode, if any, and \<^verbatim>\<open>name\<close>.\<close>

function namex_loop ::
  "bool \<Rightarrow> nat \<Rightarrow> u8 list \<Rightarrow> u8 list \<Rightarrow> 'a cons_st_scheme
     \<Rightarrow> ('a cons_st_scheme, nat option \<times> u8 list \<times> 'a cons_st_scheme) kres" where
  "namex_loop parent ip path name s =
     (case skipelem path of
        None \<Rightarrow> if parent then kbind (iput ip s) (\<lambda>s. Inr (None, name, s)) else Inr (Some ip, name, s)
      | Some (name, path) \<Rightarrow>
        kbind (ilock ip s) (\<lambda>s.
        if i_type (inodes s ! ip) \<noteq> T_DIR then kbind (iunlockput ip s) (\<lambda>s. Inr (None, name, s))
        else if parent \<and> path = [] then kbind (iunlock ip s) (\<lambda>s. Inr (Some ip, name, s))
        else kbind (dirlookup ip name s) (\<lambda>(r, s). case r of
               None \<Rightarrow> kbind (iunlockput ip s) (\<lambda>s. Inr (None, name, s))
             | Some (nxt, _) \<Rightarrow> kbind (iunlockput ip s) (namex_loop parent nxt path name))))"
  by pat_completeness auto
termination
  by (relation "measure (\<lambda>(parent, ip, path, name, s). length path)") (auto dest: skipelem_shorter)

declare namex_loop.simps [simp del]

definition namex ::
  "u8 list \<Rightarrow> bool \<Rightarrow> 'a cons_st_scheme \<Rightarrow> ('a cons_st_scheme, nat option \<times> u8 list \<times> 'a cons_st_scheme) kres" where
  "namex path parent s =
     kbind (if path \<noteq> [] \<and> hd path = 47 then iget ROOTDEV ROOTINO s
            else case Option.bind (curproc s) (\<lambda>c. p_cwd (procs s ! c)) of
                   None \<Rightarrow> Inl (Fault ''namex: no current directory'') | Some cwd \<Rightarrow> idup cwd s) (\<lambda>(ip, s).
     namex_loop parent ip path [] s)"

definition namei :: "u8 list \<Rightarrow> 'a cons_st_scheme \<Rightarrow> ('a cons_st_scheme, nat option \<times> 'a cons_st_scheme) kres" where
  "namei path s = kbind (namex path False s) (\<lambda>(ip, name, s). Inr (ip, s))"

definition nameiparent ::
  "u8 list \<Rightarrow> 'a cons_st_scheme \<Rightarrow> ('a cons_st_scheme, nat option \<times> u8 list \<times> 'a cons_st_scheme) kres" where
  "nameiparent path s = namex path True s"

end
