(* ===== verification/File.thy ===== *)
theory File
  imports Fs
begin

text \<open>
  Open files and pipes (\<^verbatim>\<open>file.c\<close>, \<^verbatim>\<open>pipe.c\<close>). A pointer to a \<^verbatim>\<open>struct file\<close> is its index in the
  table; a pipe is known by the address of the page it lies in. Reading operations return the
  bytes the code stores at \<^verbatim>\<open>addr\<close>, writing operations take the bytes at \<^verbatim>\<open>addr\<close>.
\<close>

section \<open>State\<close>

definition NFILE :: nat where "NFILE = 100"
definition PIPESIZE :: nat where "PIPESIZE = 512"

datatype fdtype = FD_NONE | FD_PIPE | FD_INODE

record kfile =
  f_type :: fdtype
  f_ref :: int
  f_readable :: bool
  f_writable :: bool
  f_pipe :: u32
  f_ip :: nat
  f_off :: u32

record pipe =
  pi_data :: "u8 list"
  pi_nread :: u32
  pi_nwrite :: u32
  pi_readopen :: bool
  pi_writeopen :: bool

record file_st = cons_st +
  files :: "kfile list"
  pipes :: "u32 \<Rightarrow> pipe"

definition upd_file :: "nat \<Rightarrow> (kfile \<Rightarrow> kfile) \<Rightarrow> 'a file_st_scheme \<Rightarrow> 'a file_st_scheme" where
  "upd_file f g s = s\<lparr>files := (files s)[f := g (files s ! f)]\<rparr>"

definition upd_pipe :: "u32 \<Rightarrow> (pipe \<Rightarrow> pipe) \<Rightarrow> 'a file_st_scheme \<Rightarrow> 'a file_st_scheme" where
  "upd_pipe p g s = s\<lparr>pipes := (pipes s)(p := g (pipes s p))\<rparr>"

definition cur_killed :: "'a proc_st_scheme \<Rightarrow> ('a proc_st_scheme, bool) kres" where
  "cur_killed s = (case curproc s of None \<Rightarrow> Inl (Fault ''proc->killed: no current process'')
     | Some c \<Rightarrow> Inr (p_killed (procs s ! c)))"

section \<open>Pipes\<close>

definition pipeclose ::
  "u32 \<Rightarrow> u32 \<Rightarrow> bool \<Rightarrow> 'a file_st_scheme \<Rightarrow> ('a file_st_scheme, 'a file_st_scheme) kres" where
  "pipeclose kend p writable s =
     kbind (acquire (LPipe p) s) (\<lambda>s.
     kbind (if writable then wakeup (ChPipeRead p) (upd_pipe p (pi_writeopen_update (\<lambda>_. False)) s)
            else wakeup (ChPipeWrite p) (upd_pipe p (pi_readopen_update (\<lambda>_. False)) s)) (\<lambda>s.
     if \<not> pi_readopen (pipes s p) \<and> \<not> pi_writeopen (pipes s p)
     then kbind (release (LPipe p) s) (kfree kend p)
     else release (LPipe p) s))"

definition pipe_put :: "u8 \<Rightarrow> pipe \<Rightarrow> pipe" where
  "pipe_put c q = q\<lparr>pi_data := (pi_data q)[unat (pi_nwrite q) mod PIPESIZE := c], pi_nwrite := pi_nwrite q + 1\<rparr>"

text \<open>The loop of \<^verbatim>\<open>pipewrite\<close> over the bytes that are left: whether it wrote them all.\<close>

fun pipewrite_loop ::
  "u32 \<Rightarrow> u8 list \<Rightarrow> 'a file_st_scheme \<Rightarrow> ('a file_st_scheme, bool \<times> 'a file_st_scheme) kres" where
  "pipewrite_loop p [] s = Inr (True, s)"
| "pipewrite_loop p (c # cs) s =
     (if pi_nwrite (pipes s p) = pi_nread (pipes s p) + of_nat PIPESIZE
      then kbind (if \<not> pi_readopen (pipes s p) then Inr True else cur_killed s) (\<lambda>stop.
           if stop then Inr (False, s)
           else kbind (wakeup (ChPipeRead p) s) (sleep (ChPipeWrite p) (LPipe p)))
      else pipewrite_loop p cs (upd_pipe p (pipe_put c) s))"

definition pipewrite_rest ::
  "u32 \<Rightarrow> int \<Rightarrow> u8 list \<Rightarrow> 'a file_st_scheme \<Rightarrow> ('a file_st_scheme, int \<times> 'a file_st_scheme) kres" where
  "pipewrite_rest p n cs s =
     kbind (pipewrite_loop p cs s) (\<lambda>(done, s).
     if done then kbind (wakeup (ChPipeRead p) s) (\<lambda>s. kbind (release (LPipe p) s) (\<lambda>s. Inr (n, s)))
     else kbind (release (LPipe p) s) (\<lambda>s. Inr (-1, s)))"

definition pipewrite ::
  "u32 \<Rightarrow> int \<Rightarrow> u8 list \<Rightarrow> 'a file_st_scheme \<Rightarrow> ('a file_st_scheme, int \<times> 'a file_st_scheme) kres" where
  "pipewrite p n cs s = kbind (acquire (LPipe p) s) (pipewrite_rest p n cs)"

definition pipewrite_resume ::
  "bool \<Rightarrow> u32 \<Rightarrow> int \<Rightarrow> u8 list \<Rightarrow> 'a file_st_scheme \<Rightarrow> ('a file_st_scheme, int \<times> 'a file_st_scheme) kres" where
  "pipewrite_resume saved p n cs s = kbind (sleep_resume saved (LPipe p) s) (pipewrite_rest p n cs)"

text \<open>The copying loop of \<^verbatim>\<open>piperead\<close>.\<close>

fun piperead_loop :: "nat \<Rightarrow> pipe \<Rightarrow> u8 list \<times> pipe" where
  "piperead_loop 0 q = ([], q)"
| "piperead_loop (Suc n) q =
     (if pi_nread q = pi_nwrite q then ([], q)
      else let c = pi_data q ! (unat (pi_nread q) mod PIPESIZE);
               (cs, q) = piperead_loop n (q\<lparr>pi_nread := pi_nread q + 1\<rparr>)
           in (c # cs, q))"

definition piperead_round ::
  "u32 \<Rightarrow> int \<Rightarrow> 'a file_st_scheme \<Rightarrow> ('a file_st_scheme, int \<times> u8 list \<times> 'a file_st_scheme) kres" where
  "piperead_round p n s =
     (if pi_nread (pipes s p) = pi_nwrite (pipes s p) \<and> pi_writeopen (pipes s p)
      then kbind (cur_killed s) (\<lambda>killed.
           if killed then kbind (release (LPipe p) s) (\<lambda>s. Inr (-1, [], s))
           else sleep (ChPipeRead p) (LPipe p) s)
      else let (cs, q) = piperead_loop (nat n) (pipes s p)
           in kbind (wakeup (ChPipeWrite p) (upd_pipe p (\<lambda>_. q) s)) (\<lambda>s.
              kbind (release (LPipe p) s) (\<lambda>s. Inr (int (length cs), cs, s))))"

definition piperead ::
  "u32 \<Rightarrow> int \<Rightarrow> 'a file_st_scheme \<Rightarrow> ('a file_st_scheme, int \<times> u8 list \<times> 'a file_st_scheme) kres" where
  "piperead p n s = kbind (acquire (LPipe p) s) (piperead_round p n)"

definition piperead_resume ::
  "bool \<Rightarrow> u32 \<Rightarrow> int \<Rightarrow> 'a file_st_scheme \<Rightarrow> ('a file_st_scheme, int \<times> u8 list \<times> 'a file_st_scheme) kres" where
  "piperead_resume saved p n s = kbind (sleep_resume saved (LPipe p) s) (piperead_round p n)"

section \<open>Files\<close>

definition fileinit :: "'a file_st_scheme \<Rightarrow> 'a file_st_scheme" where
  "fileinit s = initlock LFtable s"

definition filealloc :: "'a file_st_scheme \<Rightarrow> ('a file_st_scheme, nat option \<times> 'a file_st_scheme) kres" where
  "filealloc s =
     kbind (acquire LFtable s) (\<lambda>s.
     case List.find (\<lambda>f. f_ref (files s ! f) = 0) [0..<length (files s)] of
       Some f \<Rightarrow> kbind (release LFtable (upd_file f (f_ref_update (\<lambda>_. 1)) s)) (\<lambda>s. Inr (Some f, s))
     | None \<Rightarrow> kbind (release LFtable s) (\<lambda>s. Inr (None, s)))"

definition filedup :: "nat \<Rightarrow> 'a file_st_scheme \<Rightarrow> ('a file_st_scheme, nat \<times> 'a file_st_scheme) kres" where
  "filedup f s =
     kbind (acquire LFtable s) (\<lambda>s.
     if f_ref (files s ! f) < 1 then kpanic ''filedup''
     else kbind (release LFtable (upd_file f (\<lambda>q. q\<lparr>f_ref := f_ref q + 1\<rparr>) s)) (\<lambda>s. Inr (f, s)))"

definition fileclose :: "u32 \<Rightarrow> nat \<Rightarrow> 'a file_st_scheme \<Rightarrow> ('a file_st_scheme, 'a file_st_scheme) kres" where
  "fileclose kend f s =
     kbind (acquire LFtable s) (\<lambda>s.
     if f_ref (files s ! f) < 1 then kpanic ''fileclose''
     else let s = upd_file f (\<lambda>q. q\<lparr>f_ref := f_ref q - 1\<rparr>) s
          in if f_ref (files s ! f) > 0 then release LFtable s
             else let ff = files s ! f
                  in kbind (release LFtable (upd_file f (\<lambda>q. q\<lparr>f_ref := 0, f_type := FD_NONE\<rparr>) s)) (\<lambda>s.
                     case f_type ff of
                       FD_PIPE \<Rightarrow> pipeclose kend (f_pipe ff) (f_writable ff) s
                     | FD_INODE \<Rightarrow> kbind (begin_trans s) (\<lambda>s. kbind (iput (f_ip ff) s) commit_trans)
                     | FD_NONE \<Rightarrow> Inr s))"

definition filestat :: "nat \<Rightarrow> 'a file_st_scheme \<Rightarrow> ('a file_st_scheme, stat option \<times> 'a file_st_scheme) kres" where
  "filestat f s =
     (if f_type (files s ! f) = FD_INODE
      then let ip = f_ip (files s ! f)
           in kbind (ilock ip s) (\<lambda>s. let st = stati ip s in kbind (iunlock ip s) (\<lambda>s. Inr (Some st, s)))
      else Inr (None, s))"

definition fileread ::
  "nat \<Rightarrow> int \<Rightarrow> 'a file_st_scheme \<Rightarrow> ('a file_st_scheme, int \<times> u8 list \<times> 'a file_st_scheme) kres" where
  "fileread f n s =
     (if \<not> f_readable (files s ! f) then Inr (-1, [], s)
      else case f_type (files s ! f) of
        FD_PIPE \<Rightarrow> piperead (f_pipe (files s ! f)) n s
      | FD_INODE \<Rightarrow>
        let ip = f_ip (files s ! f)
        in kbind (ilock ip s) (\<lambda>s.
           kbind (readi ip (f_off (files s ! f)) (of_int n) s) (\<lambda>(r, out, s).
           let s = (if r > 0 then upd_file f (\<lambda>q. q\<lparr>f_off := f_off q + of_int r\<rparr>) s else s)
           in kbind (iunlock ip s) (\<lambda>s. Inr (r, out, s))))
      | FD_NONE \<Rightarrow> kpanic ''fileread'')"

text \<open>The loop of \<^verbatim>\<open>filewrite\<close> over the bytes that are left: whether it wrote them all.\<close>

definition max_write :: nat where "max_write = ((LOGSIZE - 1 - 1 - 2) div 2) * 512"

function filewrite_loop ::
  "nat \<Rightarrow> u8 list \<Rightarrow> 'a file_st_scheme \<Rightarrow> ('a file_st_scheme, bool \<times> 'a file_st_scheme) kres" where
  "filewrite_loop f cs s =
     (if cs = [] then Inr (True, s)
      else let n1 = min (length cs) max_write; ip = f_ip (files s ! f)
           in kbind (begin_trans s) (\<lambda>s.
              kbind (ilock ip s) (\<lambda>s.
              kbind (writei ip (take n1 cs) (f_off (files s ! f)) s) (\<lambda>(r, s).
              let s = (if r > 0 then upd_file f (\<lambda>q. q\<lparr>f_off := f_off q + of_int r\<rparr>) s else s)
              in kbind (iunlock ip s) (\<lambda>s.
                 kbind (commit_trans s) (\<lambda>s.
                 if r < 0 then Inr (False, s)
                 else if r \<noteq> int n1 then kpanic ''short filewrite''
                 else filewrite_loop f (drop n1 cs) s))))))"
  by pat_completeness auto
termination
  by (relation "measure (\<lambda>(f, cs, s). length cs)") (simp_all add: max_write_def LOGSIZE_def)

declare filewrite_loop.simps [simp del]

text \<open>\<open>cs\<close> are the \<open>n\<close> bytes at \<^verbatim>\<open>addr\<close>, none for a negative \<open>n\<close>.\<close>

definition filewrite ::
  "nat \<Rightarrow> int \<Rightarrow> u8 list \<Rightarrow> 'a file_st_scheme \<Rightarrow> ('a file_st_scheme, int \<times> 'a file_st_scheme) kres" where
  "filewrite f n cs s =
     (if \<not> f_writable (files s ! f) then Inr (-1, s)
      else case f_type (files s ! f) of
        FD_PIPE \<Rightarrow> pipewrite (f_pipe (files s ! f)) n cs s
      | FD_INODE \<Rightarrow>
        kbind (filewrite_loop f cs s) (\<lambda>(done, s). Inr (if done \<and> 0 \<le> n then n else -1, s))
      | FD_NONE \<Rightarrow> kpanic ''filewrite'')"

section \<open>Making a pipe\<close>

text \<open>The label \<^verbatim>\<open>bad\<close> is reached with no pipe, and closes the files that were allocated.\<close>

definition pipealloc_bad ::
  "u32 \<Rightarrow> nat list \<Rightarrow> 'a file_st_scheme \<Rightarrow> ('a file_st_scheme, (nat \<times> nat) option \<times> 'a file_st_scheme) kres" where
  "pipealloc_bad kend fs s =
     kbind (fold (\<lambda>f m. kbind m (fileclose kend f)) fs (Inr s)) (\<lambda>s. Inr (None, s))"

definition pipealloc ::
  "u32 \<Rightarrow> 'a file_st_scheme \<Rightarrow> ('a file_st_scheme, (nat \<times> nat) option \<times> 'a file_st_scheme) kres" where
  "pipealloc kend s =
     kbind (filealloc s) (\<lambda>(r0, s). case r0 of None \<Rightarrow> pipealloc_bad kend [] s
     | Some f0 \<Rightarrow>
       kbind (filealloc s) (\<lambda>(r1, s). case r1 of None \<Rightarrow> pipealloc_bad kend [f0] s
       | Some f1 \<Rightarrow>
         kbind (kalloc s) (\<lambda>(p, s).
         if p = 0 then pipealloc_bad kend [f0, f1] s
         else let s = upd_pipe p (\<lambda>q. q\<lparr>pi_readopen := True, pi_writeopen := True, pi_nwrite := 0, pi_nread := 0\<rparr>) s;
                  s = initlock (LPipe p) s;
                  s = upd_file f0 (\<lambda>q. q\<lparr>f_type := FD_PIPE, f_readable := True, f_writable := False, f_pipe := p\<rparr>) s;
                  s = upd_file f1 (\<lambda>q. q\<lparr>f_type := FD_PIPE, f_readable := False, f_writable := True, f_pipe := p\<rparr>) s
              in Inr (Some (f0, f1), s))))"

end
