(* ===== verification/Proc.thy ===== *)
theory Proc
  imports File
begin

text \<open>
  The rest of \<^verbatim>\<open>proc.c\<close>: the operations on processes that also work on files and directories
  (\<^verbatim>\<open>userinit\<close>, \<^verbatim>\<open>fork\<close>, \<^verbatim>\<open>exit\<close>, \<^verbatim>\<open>forkret\<close>), and \<^verbatim>\<open>exec.c\<close> with \<^verbatim>\<open>loaduvm\<close> of \<^verbatim>\<open>vm.c\<close>.

  The record \<open>ksyms\<close> holds what the linked image fixes: the addresses of the symbols \<^verbatim>\<open>end\<close>,
  \<^verbatim>\<open>data\<close>, \<^verbatim>\<open>forkret\<close> and \<^verbatim>\<open>trapret\<close>, and the machine code of \<^verbatim>\<open>initcode.S\<close>. A trap frame is
  76 bytes of memory at \<^verbatim>\<open>p->tf\<close>.
\<close>

section \<open>State\<close>

record ksyms =
  k_end :: u32
  k_data :: u32
  k_forkret :: u32
  k_trapret :: u32
  k_initcode :: "u8 list"

record sys_st = file_st +
  ticks :: u32
  first :: bool

definition tf_eax :: u32 where "tf_eax = 28"
definition tf_es :: u32 where "tf_es = 40"
definition tf_ds :: u32 where "tf_ds = 44"
definition tf_trapno :: u32 where "tf_trapno = 48"
definition tf_err :: u32 where "tf_err = 52"
definition tf_eip :: u32 where "tf_eip = 56"
definition tf_cs :: u32 where "tf_cs = 60"
definition tf_eflags :: u32 where "tf_eflags = 64"
definition tf_esp :: u32 where "tf_esp = 68"
definition tf_ss :: u32 where "tf_ss = 72"

definition set16 :: "u32 \<Rightarrow> u16 \<Rightarrow> 'a kmem_st_scheme \<Rightarrow> 'a kmem_st_scheme" where
  "set16 a v s = s\<lparr>mem := store_bytes a (le16 v) (mem s)\<rparr>"

definition set32 :: "u32 \<Rightarrow> u32 \<Rightarrow> 'a kmem_st_scheme \<Rightarrow> 'a kmem_st_scheme" where
  "set32 a v s = s\<lparr>mem := store32 a v (mem s)\<rparr>"

section \<open>Processes\<close>

definition userinit :: "ksyms \<Rightarrow> 'a sys_st_scheme \<Rightarrow> ('a sys_st_scheme, 'a sys_st_scheme) kres" where
  "userinit k s =
     kbind (allocproc (k_forkret k) (k_trapret k) s) (\<lambda>(r, s). case r of
       None \<Rightarrow> Inl (Fault ''userinit: null process'')
     | Some p \<Rightarrow>
       let s = s\<lparr>initproc := Some p\<rparr>
       in kbind (setupkvm (k_data k) s) (\<lambda>(pgdir, s).
          let s = upd_proc p (p_pgdir_update (\<lambda>_. pgdir)) s
          in if pgdir = 0 then kpanic ''userinit: out of memory?''
             else kbind (inituvm pgdir (k_initcode k) s) (\<lambda>s.
               let s = upd_proc p (p_sz_update (\<lambda>_. PGSIZE)) s;
                   tf = p_tf (procs s ! p);
                   s = s\<lparr>mem := memset tf 0 sizeof_tf (mem s)\<rparr>;
                   s = set16 (tf + tf_cs) 0x23 s;
                   s = set16 (tf + tf_ds) 0x2B s;
                   s = set16 (tf + tf_es) 0x2B s;
                   s = set16 (tf + tf_ss) 0x2B s;
                   s = set32 (tf + tf_eflags) 0x200 s;
                   s = set32 (tf + tf_esp) PGSIZE s;
                   s = set32 (tf + tf_eip) 0 s;
                   s = upd_proc p (\<lambda>q. q\<lparr>p_name := overwrite 0 (safestrcpy (cstr (bytes ''initcode'')) 16) (p_name q)\<rparr>) s
               in kbind (namei [47] s) (\<lambda>(cwd, s).
                  Inr (upd_proc p (\<lambda>q. q\<lparr>p_cwd := cwd, p_state := RUNNABLE\<rparr>) s)))))"

text \<open>The loop of \<^verbatim>\<open>fork\<close> over the file descriptors.\<close>

fun dup_files :: "nat \<Rightarrow> nat \<Rightarrow> nat list \<Rightarrow> 'a file_st_scheme \<Rightarrow> ('a file_st_scheme, 'a file_st_scheme) kres" where
  "dup_files c np [] s = Inr s"
| "dup_files c np (i # is) s =
     (case p_ofile (procs s ! c) ! i of
        None \<Rightarrow> dup_files c np is s
      | Some f \<Rightarrow>
        kbind (filedup f s) (\<lambda>(f, s).
        dup_files c np is (upd_proc np (\<lambda>q. q\<lparr>p_ofile := (p_ofile q)[i := Some f]\<rparr>) s)))"

definition fork :: "ksyms \<Rightarrow> 'a file_st_scheme \<Rightarrow> ('a file_st_scheme, int \<times> 'a file_st_scheme) kres" where
  "fork k s =
     (case curproc s of None \<Rightarrow> Inl (Fault ''fork: no current process'')
      | Some c \<Rightarrow>
        kbind (allocproc (k_forkret k) (k_trapret k) s) (\<lambda>(r, s). case r of
          None \<Rightarrow> Inr (-1, s)
        | Some np \<Rightarrow>
          kbind (copyuvm (k_end k) (k_data k) (p_pgdir (procs s ! c)) (p_sz (procs s ! c)) s) (\<lambda>(d, s).
          let s = upd_proc np (p_pgdir_update (\<lambda>_. d)) s
          in if d = 0
             then kbind (kfree (k_end k) (p_kstack (procs s ! np)) s) (\<lambda>s.
                  Inr (-1, upd_proc np (\<lambda>q. q\<lparr>p_kstack := 0, p_state := UNUSED\<rparr>) s))
             else let s = upd_proc np (\<lambda>q. q\<lparr>p_sz := p_sz (procs s ! c), p_parent := Some c\<rparr>) s;
                      tf = p_tf (procs s ! np);
                      s = s\<lparr>mem := memmove tf (p_tf (procs s ! c)) sizeof_tf (mem s)\<rparr>;
                      s = set32 (tf + tf_eax) 0 s
                  in kbind (dup_files c np [0..<NOFILE] s) (\<lambda>s.
                     case p_cwd (procs s ! c) of None \<Rightarrow> Inl (Fault ''fork: no current directory'')
                     | Some cwd \<Rightarrow>
                       kbind (idup cwd s) (\<lambda>(cwd, s).
                       let s = upd_proc np (p_cwd_update (\<lambda>_. Some cwd)) s;
                           pid = p_pid (procs s ! np);
                           s = upd_proc np (p_state_update (\<lambda>_. RUNNABLE)) s;
                           s = upd_proc np (\<lambda>q. q\<lparr>p_name :=
                                 overwrite 0 (safestrcpy (cstr (p_name (procs s ! c))) 16) (p_name q)\<rparr>) s
                       in Inr (pid, s))))))"

text \<open>The loop of \<^verbatim>\<open>exit\<close> over the file descriptors, and \<^verbatim>\<open>exit\<close>.\<close>

fun close_files :: "u32 \<Rightarrow> nat \<Rightarrow> nat list \<Rightarrow> 'a file_st_scheme \<Rightarrow> ('a file_st_scheme, 'a file_st_scheme) kres" where
  "close_files kend c [] s = Inr s"
| "close_files kend c (fd # fds) s =
     (case p_ofile (procs s ! c) ! fd of
        None \<Rightarrow> close_files kend c fds s
      | Some f \<Rightarrow>
        kbind (fileclose kend f s) (\<lambda>s.
        close_files kend c fds (upd_proc c (\<lambda>q. q\<lparr>p_ofile := (p_ofile q)[fd := None]\<rparr>) s)))"

definition exit :: "u32 \<Rightarrow> int \<Rightarrow> 'a file_st_scheme \<Rightarrow> ('a file_st_scheme, unit) kres" where
  "exit kend st s =
     (case curproc s of None \<Rightarrow> Inl (Fault ''exit: no current process'')
      | Some c \<Rightarrow>
        if initproc s = Some c then kpanic ''init exiting''
        else kbind (close_files kend c [0..<NOFILE] s) (\<lambda>s.
             case p_cwd (procs s ! c) of None \<Rightarrow> Inl (Fault ''exit: no current directory'')
             | Some cwd \<Rightarrow>
               kbind (iput cwd s) (\<lambda>s.
               exit_locked c st (upd_proc c (p_cwd_update (\<lambda>_. None)) s))))"

text \<open>The first process to run here reads the log.\<close>

definition forkret :: "'a sys_st_scheme \<Rightarrow> ('a sys_st_scheme, 'a sys_st_scheme) kres" where
  "forkret s =
     kbind (release LPtable s) (\<lambda>s. if first s then initlog (s\<lparr>first := False\<rparr>) else Inr s)"

section \<open>Programs\<close>

definition MAXARG :: nat where "MAXARG = 32"
definition ELF_MAGIC :: u32 where "ELF_MAGIC = 0x464C457F"
definition ELF_PROG_LOAD :: u32 where "ELF_PROG_LOAD = 1"

record elfhdr =
  e_magic :: u32
  e_entry :: u32
  e_phoff :: u32
  e_phnum :: u16

definition elfhdr_of :: "u8 list \<Rightarrow> elfhdr" where
  "elfhdr_of bs = \<lparr>e_magic = get32 bs 0, e_entry = get32 bs 6, e_phoff = get32 bs 7,
     e_phnum = of_le16 (take 2 (drop 44 bs))\<rparr>"

record proghdr =
  ph_type :: u32
  ph_off :: u32
  ph_vaddr :: u32
  ph_filesz :: u32
  ph_memsz :: u32

definition proghdr_of :: "u8 list \<Rightarrow> proghdr" where
  "proghdr_of bs = \<lparr>ph_type = get32 bs 0, ph_off = get32 bs 1, ph_vaddr = get32 bs 2,
     ph_filesz = get32 bs 4, ph_memsz = get32 bs 5\<rparr>"

text \<open>\<^verbatim>\<open>loaduvm\<close>: \<open>i\<close> is the loop's counter, which is unsigned and can wrap.\<close>

fun loaduvm_loop ::
  "nat \<Rightarrow> u32 \<Rightarrow> u32 \<Rightarrow> nat \<Rightarrow> u32 \<Rightarrow> u32 \<Rightarrow> u32 \<Rightarrow> 'a cons_st_scheme \<Rightarrow> ('a cons_st_scheme, int \<times> 'a cons_st_scheme) kres" where
  "loaduvm_loop 0 pgdir addr ip offset sz i s = Inl Diverge"
| "loaduvm_loop (Suc fuel) pgdir addr ip offset sz i s =
     (if i < sz
      then kbind (walkpgdir pgdir (addr + i) False s) (\<lambda>(pte, s).
           if pte = 0 then kpanic ''loaduvm: address should exist''
           else let pa = PTE_ADDR (load32 (mem s) pte);
                    n = (if sz - i < PGSIZE then sz - i else PGSIZE)
                in kbind (readi ip (offset + i) n s) (\<lambda>(r, bs, s).
                   let s = s\<lparr>mem := store_bytes (p2v pa) bs (mem s)\<rparr>
                   in if of_int r \<noteq> n then Inr (-1, s)
                      else loaduvm_loop fuel pgdir addr ip offset sz (i + PGSIZE) s))
      else Inr (0, s))"

definition loaduvm ::
  "u32 \<Rightarrow> u32 \<Rightarrow> nat \<Rightarrow> u32 \<Rightarrow> u32 \<Rightarrow> 'a cons_st_scheme \<Rightarrow> ('a cons_st_scheme, int \<times> 'a cons_st_scheme) kres" where
  "loaduvm pgdir addr ip offset sz s =
     (if addr mod PGSIZE \<noteq> 0 then kpanic ''loaduvm: addr must be page aligned''
      else loaduvm_loop (2 ^ 20 + 1) pgdir addr ip offset sz 0 s)"

text \<open>The loop over the program headers; \<open>None\<close> is \<^verbatim>\<open>goto bad\<close>.\<close>

fun load_segments ::
  "u32 \<Rightarrow> u32 \<Rightarrow> nat \<Rightarrow> nat \<Rightarrow> u32 \<Rightarrow> u32 \<Rightarrow> 'a cons_st_scheme \<Rightarrow> ('a cons_st_scheme, u32 option \<times> 'a cons_st_scheme) kres" where
  "load_segments kend pgdir ip 0 off sz s = Inr (Some sz, s)"
| "load_segments kend pgdir ip (Suc n) off sz s =
     kbind (readi ip off 32 s) (\<lambda>(r, bs, s).
     if r \<noteq> 32 then Inr (None, s)
     else let ph = proghdr_of bs
          in if ph_type ph \<noteq> ELF_PROG_LOAD then load_segments kend pgdir ip n (off + 32) sz s
             else if ph_memsz ph < ph_filesz ph then Inr (None, s)
             else kbind (allocuvm kend pgdir sz (ph_vaddr ph + ph_memsz ph) s) (\<lambda>(sz, s).
                  if sz = 0 then Inr (None, s)
                  else kbind (loaduvm pgdir (ph_vaddr ph) ip (ph_off ph) (ph_filesz ph) s) (\<lambda>(r, s).
                       if r < 0 then Inr (None, s)
                       else load_segments kend pgdir ip n (off + 32) sz s)))"

text \<open>The loop that pushes the argument strings: the stack pointer and the strings' addresses.\<close>

fun push_args ::
  "u32 \<Rightarrow> u32 \<Rightarrow> u32 list \<Rightarrow> u8 list list \<Rightarrow> 'a vm_st_scheme \<Rightarrow> ('a vm_st_scheme, (u32 \<times> u32 list) option \<times> 'a vm_st_scheme) kres" where
  "push_args pgdir sp addrs [] s = Inr (Some (sp, addrs), s)"
| "push_args pgdir sp addrs (arg # args) s =
     (if length addrs \<ge> MAXARG then Inr (None, s)
      else let sp = (sp - (of_nat (length arg) + 1)) AND NOT 3
           in kbind (copyout pgdir sp (arg @ [0]) s) (\<lambda>(r, s).
              if r < 0 then Inr (None, s) else push_args pgdir sp (addrs @ [sp]) args s))"

definition ustack :: "u32 \<Rightarrow> u32 list \<Rightarrow> u32 list" where
  "ustack sp addrs =
     (let argc = of_nat (length addrs) in [0xFFFFFFFF, argc, sp - (argc + 1) * 4] @ addrs @ [0])"

definition exec_bad ::
  "u32 \<Rightarrow> u32 \<Rightarrow> nat option \<Rightarrow> 'a cons_st_scheme \<Rightarrow> ('a cons_st_scheme, int \<times> 'a cons_st_scheme) kres" where
  "exec_bad kend pgdir ip s =
     kbind (if pgdir \<noteq> 0 then freevm kend pgdir s else Inr s) (\<lambda>s.
     kbind (case ip of Some ip \<Rightarrow> iunlockput ip s | None \<Rightarrow> Inr s) (\<lambda>s. Inr (-1, s)))"

definition last_elem :: "u8 list \<Rightarrow> u8 list" where
  "last_elem path = rev (takeWhile (\<lambda>c. c \<noteq> 47) (rev path))"

text \<open>\<^verbatim>\<open>exec\<close> from the loaded segments on.\<close>

definition exec_stack ::
  "ksyms \<Rightarrow> u8 list \<Rightarrow> u8 list list \<Rightarrow> u32 \<Rightarrow> u32 \<Rightarrow> u32 \<Rightarrow> 'a cons_st_scheme \<Rightarrow> ('a cons_st_scheme, int \<times> 'a cons_st_scheme) kres" where
  "exec_stack k path argv pgdir entry sz s =
     (let sz = PGROUNDUP sz
      in kbind (allocuvm (k_end k) pgdir sz (sz + 2 * PGSIZE) s) (\<lambda>(sz, s).
         if sz = 0 then exec_bad (k_end k) pgdir None s
         else kbind (clearpteu pgdir (sz - 2 * PGSIZE) s) (\<lambda>s.
              kbind (push_args pgdir sz [] argv s) (\<lambda>(r, s). case r of
                None \<Rightarrow> exec_bad (k_end k) pgdir None s
              | Some (sp, addrs) \<Rightarrow>
                let us = ustack sp addrs; sp = sp - of_nat (length us) * 4
                in kbind (copyout pgdir sp (concat (map le32 us)) s) (\<lambda>(r, s).
                   if r < 0 then exec_bad (k_end k) pgdir None s
                   else case curproc s of None \<Rightarrow> Inl (Fault ''exec: no current process'')
                   | Some c \<Rightarrow>
                     let s = upd_proc c (\<lambda>q. q\<lparr>p_name := overwrite 0 (safestrcpy (cstr (last_elem path)) 16) (p_name q)\<rparr>) s;
                         oldpgdir = p_pgdir (procs s ! c);
                         s = upd_proc c (\<lambda>q. q\<lparr>p_sz := sz, p_pgdir := pgdir\<rparr>) s;
                         s = set32 (p_tf (procs s ! c) + tf_eip) entry s;
                         s = set32 (p_tf (procs s ! c) + tf_esp) sp s
                     in kbind (switchuvm c s) (\<lambda>s.
                        kbind (freevm (k_end k) oldpgdir s) (\<lambda>s. Inr (0, s))))))))"

text \<open>
  The test \<^verbatim>\<open>readi(...) < sizeof(elf)\<close> compares as unsigned: a result of -1 passes it, and the
  header that is then examined is an uninitialised variable.
\<close>

definition exec ::
  "ksyms \<Rightarrow> u8 list \<Rightarrow> u8 list list \<Rightarrow> 'a cons_st_scheme \<Rightarrow> ('a cons_st_scheme, int \<times> 'a cons_st_scheme) kres" where
  "exec k path argv s =
     kbind (namei path s) (\<lambda>(r, s). case r of None \<Rightarrow> Inr (-1, s)
     | Some ip \<Rightarrow>
       kbind (ilock ip s) (\<lambda>s.
       kbind (readi ip 0 52 s) (\<lambda>(r, bs, s).
       if (of_int r :: u32) < 52 then exec_bad (k_end k) 0 (Some ip) s
       else if r < 0 then Inl (Fault ''exec: header not read'')
       else let elf = elfhdr_of bs
            in if e_magic elf \<noteq> ELF_MAGIC then exec_bad (k_end k) 0 (Some ip) s
               else kbind (setupkvm (k_data k) s) (\<lambda>(pgdir, s).
                    if pgdir = 0 then exec_bad (k_end k) 0 (Some ip) s
                    else kbind (load_segments (k_end k) pgdir ip (unat (e_phnum elf)) (e_phoff elf) 0 s) (\<lambda>(r, s).
                         case r of None \<Rightarrow> exec_bad (k_end k) pgdir (Some ip) s
                         | Some sz \<Rightarrow>
                           kbind (iunlockput ip s) (exec_stack k path argv pgdir (e_entry elf) sz))))))"

end
