(* ===== verification/Syscall.thy ===== *)
theory Syscall
  imports Proc
begin

text \<open>
  Arguments of system calls (\<^verbatim>\<open>syscall.c\<close>) and the system calls on processes (\<^verbatim>\<open>sysproc.c\<close>).
  Arguments lie on the user stack and are read through the page table in force. The functions
  that fill a variable through a pointer return it as an option; where the source ignores the
  failure and uses the variable, the argument \<open>junk\<close> is what the uninitialised variable holds.
\<close>

definition cur :: "'a proc_st_scheme \<Rightarrow> ('a proc_st_scheme, nat) kres" where
  "cur s = (case curproc s of None \<Rightarrow> Inl (Fault ''no current process'') | Some c \<Rightarrow> Inr c)"

definition load_user :: "u32 \<Rightarrow> nat \<Rightarrow> 'a vm_st_scheme \<Rightarrow> ('a vm_st_scheme, u8 list) kres" where
  "load_user va n s = (case load_va va n s of None \<Rightarrow> Inl (Fault ''page fault'') | Some bs \<Rightarrow> Inr bs)"

section \<open>Arguments\<close>

definition fetchint :: "u32 \<Rightarrow> 'a proc_st_scheme \<Rightarrow> ('a proc_st_scheme, u32 option) kres" where
  "fetchint addr s =
     kbind (cur s) (\<lambda>c.
     let sz = p_sz (procs s ! c)
     in if addr \<ge> sz \<or> addr + 4 > sz then Inr None
        else kbind (load_user addr 4 s) (\<lambda>bs. Inr (Some (of_le32 bs))))"

text \<open>\<open>n\<close> is the distance to the end of the address space.\<close>

fun fetchstr_loop :: "nat \<Rightarrow> u32 \<Rightarrow> 'a proc_st_scheme \<Rightarrow> ('a proc_st_scheme, u8 list option) kres" where
  "fetchstr_loop 0 a s = Inr None"
| "fetchstr_loop (Suc n) a s =
     kbind (load_user a 1 s) (\<lambda>bs.
     if hd bs = 0 then Inr (Some [])
     else kbind (fetchstr_loop n (a + 1) s) (\<lambda>r. Inr (map_option (\<lambda>cs. hd bs # cs) r)))"

definition fetchstr :: "u32 \<Rightarrow> 'a proc_st_scheme \<Rightarrow> ('a proc_st_scheme, u8 list option) kres" where
  "fetchstr addr s =
     kbind (cur s) (\<lambda>c.
     let sz = p_sz (procs s ! c)
     in if addr \<ge> sz then Inr None else fetchstr_loop (unat (sz - addr)) addr s)"

definition argint :: "u32 \<Rightarrow> 'a proc_st_scheme \<Rightarrow> ('a proc_st_scheme, u32 option) kres" where
  "argint n s =
     kbind (cur s) (\<lambda>c. fetchint (load32 (mem s) (p_tf (procs s ! c) + tf_esp) + 4 + 4 * n) s)"

definition argptr :: "u32 \<Rightarrow> u32 \<Rightarrow> 'a proc_st_scheme \<Rightarrow> ('a proc_st_scheme, u32 option) kres" where
  "argptr n len s =
     kbind (cur s) (\<lambda>c.
     kbind (argint n s) (\<lambda>r. case r of None \<Rightarrow> Inr None
     | Some i \<Rightarrow>
       let sz = p_sz (procs s ! c)
       in if i \<ge> sz \<or> i + len > sz then Inr None else Inr (Some i)))"

definition argstr :: "u32 \<Rightarrow> 'a proc_st_scheme \<Rightarrow> ('a proc_st_scheme, u8 list option) kres" where
  "argstr n s =
     kbind (argint n s) (\<lambda>r. case r of None \<Rightarrow> Inr None | Some addr \<Rightarrow> fetchstr addr s)"

section \<open>System calls on processes\<close>

definition sys_fork :: "ksyms \<Rightarrow> 'a sys_st_scheme \<Rightarrow> ('a sys_st_scheme, int \<times> 'a sys_st_scheme) kres" where
  "sys_fork k s = fork k s"

definition or_junk :: "u32 \<Rightarrow> u32 option \<Rightarrow> u32" where
  "or_junk junk r = (case r of Some v \<Rightarrow> v | None \<Rightarrow> junk)"

definition sys_exit :: "ksyms \<Rightarrow> u32 \<Rightarrow> 'a sys_st_scheme \<Rightarrow> ('a sys_st_scheme, int \<times> 'a sys_st_scheme) kres" where
  "sys_exit k junk s =
     kbind (argint 0 s) (\<lambda>st.
     kbind (exit (k_end k) (sint (or_junk junk st)) s) (\<lambda>_. Inr (0, s)))"

definition sys_wait :: "ksyms \<Rightarrow> u32 \<Rightarrow> 'a sys_st_scheme \<Rightarrow> ('a sys_st_scheme, int \<times> 'a sys_st_scheme) kres" where
  "sys_wait k junk s = kbind (argptr 0 8 s) (\<lambda>st. wait (k_end k) (or_junk junk st) s)"

text \<open>\<^verbatim>\<open>sys_waitpid\<close> reads its three arguments from the first.\<close>

definition sys_waitpid :: "ksyms \<Rightarrow> u32 \<Rightarrow> 'a sys_st_scheme \<Rightarrow> ('a sys_st_scheme, int \<times> 'a sys_st_scheme) kres" where
  "sys_waitpid k junk s =
     kbind (argint 0 s) (\<lambda>pid.
     kbind (argptr 0 8 s) (\<lambda>st.
     kbind (argint 0 s) (\<lambda>op.
     kbind (waitpid (k_end k) (sint (or_junk junk pid)) (or_junk junk st) (sint (or_junk junk op)) s) (\<lambda>(r, s).
     case r of Some v \<Rightarrow> Inr (v, s) | None \<Rightarrow> Inl Diverge))))"

definition sys_setprio :: "u32 \<Rightarrow> 'a sys_st_scheme \<Rightarrow> ('a sys_st_scheme, int \<times> 'a sys_st_scheme) kres" where
  "sys_setprio junk s =
     kbind (argint 0 s) (\<lambda>prio. kbind (setprio (sint (or_junk junk prio)) s) (\<lambda>s. Inr (0, s)))"

definition sys_kill :: "'a sys_st_scheme \<Rightarrow> ('a sys_st_scheme, int \<times> 'a sys_st_scheme) kres" where
  "sys_kill s =
     kbind (argint 0 s) (\<lambda>r. case r of None \<Rightarrow> Inr (-1, s) | Some pid \<Rightarrow> kill (sint pid) s)"

definition sys_getpid :: "'a sys_st_scheme \<Rightarrow> ('a sys_st_scheme, int \<times> 'a sys_st_scheme) kres" where
  "sys_getpid s = kbind (cur s) (\<lambda>c. Inr (p_pid (procs s ! c), s))"

definition sys_sbrk :: "ksyms \<Rightarrow> 'a sys_st_scheme \<Rightarrow> ('a sys_st_scheme, int \<times> 'a sys_st_scheme) kres" where
  "sys_sbrk k s =
     kbind (argint 0 s) (\<lambda>r. case r of None \<Rightarrow> Inr (-1, s)
     | Some n \<Rightarrow>
       kbind (cur s) (\<lambda>c.
       let addr = sint (p_sz (procs s ! c))
       in kbind (growproc (k_end k) (sint n) s) (\<lambda>(r, s). Inr (if r < 0 then -1 else addr, s))))"

text \<open>One round of the loop of \<^verbatim>\<open>sys_sleep\<close>, whose comparison is unsigned.\<close>

definition sys_sleep_round ::
  "u32 \<Rightarrow> u32 \<Rightarrow> 'a sys_st_scheme \<Rightarrow> ('a sys_st_scheme, int \<times> 'a sys_st_scheme) kres" where
  "sys_sleep_round n ticks0 s =
     (if ticks s - ticks0 < n
      then kbind (cur_killed s) (\<lambda>killed.
           if killed then kbind (release LTicks s) (\<lambda>s. Inr (-1, s)) else sleep ChTicks LTicks s)
      else kbind (release LTicks s) (\<lambda>s. Inr (0, s)))"

definition sys_sleep :: "'a sys_st_scheme \<Rightarrow> ('a sys_st_scheme, int \<times> 'a sys_st_scheme) kres" where
  "sys_sleep s =
     kbind (argint 0 s) (\<lambda>r. case r of None \<Rightarrow> Inr (-1, s)
     | Some n \<Rightarrow> kbind (acquire LTicks s) (\<lambda>s. sys_sleep_round n (ticks s) s))"

definition sys_sleep_resume ::
  "bool \<Rightarrow> u32 \<Rightarrow> u32 \<Rightarrow> 'a sys_st_scheme \<Rightarrow> ('a sys_st_scheme, int \<times> 'a sys_st_scheme) kres" where
  "sys_sleep_resume saved n ticks0 s = kbind (sleep_resume saved LTicks s) (sys_sleep_round n ticks0)"

definition sys_uptime :: "'a sys_st_scheme \<Rightarrow> ('a sys_st_scheme, int \<times> 'a sys_st_scheme) kres" where
  "sys_uptime s =
     kbind (acquire LTicks s) (\<lambda>s.
     let xticks = ticks s in kbind (release LTicks s) (\<lambda>s. Inr (sint xticks, s)))"

end
