(* ===== verification/Sysfile.thy ===== *)
theory Sysfile
  imports Syscall
begin

text \<open>
  The system calls on files (\<^verbatim>\<open>sysfile.c\<close>) and the table of system calls (\<^verbatim>\<open>syscall\<close> of
  \<^verbatim>\<open>syscall.c\<close>).
\<close>

section \<open>Descriptors\<close>

text \<open>\<^verbatim>\<open>argfd\<close>: the descriptor and the file.\<close>

definition argfd :: "u32 \<Rightarrow> 'a sys_st_scheme \<Rightarrow> ('a sys_st_scheme, (nat \<times> nat) option) kres" where
  "argfd n s =
     kbind (cur s) (\<lambda>c.
     kbind (argint n s) (\<lambda>r. case r of None \<Rightarrow> Inr None
     | Some fd \<Rightarrow>
       if sint fd < 0 \<or> sint fd \<ge> int NOFILE then Inr None
       else Inr (map_option (\<lambda>f. (unat fd, f)) (p_ofile (procs s ! c) ! unat fd))))"

definition fdalloc :: "nat \<Rightarrow> 'a sys_st_scheme \<Rightarrow> ('a sys_st_scheme, nat option \<times> 'a sys_st_scheme) kres" where
  "fdalloc f s =
     kbind (cur s) (\<lambda>c.
     case List.find (\<lambda>fd. p_ofile (procs s ! c) ! fd = None) [0..<NOFILE] of
       None \<Rightarrow> Inr (None, s)
     | Some fd \<Rightarrow> Inr (Some fd, upd_proc c (\<lambda>q. q\<lparr>p_ofile := (p_ofile q)[fd := Some f]\<rparr>) s))"

definition clear_fd :: "nat \<Rightarrow> 'a sys_st_scheme \<Rightarrow> ('a sys_st_scheme, 'a sys_st_scheme) kres" where
  "clear_fd fd s =
     kbind (cur s) (\<lambda>c. Inr (upd_proc c (\<lambda>q. q\<lparr>p_ofile := (p_ofile q)[fd := None]\<rparr>) s))"

definition sys_dup :: "'a sys_st_scheme \<Rightarrow> ('a sys_st_scheme, int \<times> 'a sys_st_scheme) kres" where
  "sys_dup s =
     kbind (argfd 0 s) (\<lambda>r. case r of None \<Rightarrow> Inr (-1, s)
     | Some (_, f) \<Rightarrow>
       kbind (fdalloc f s) (\<lambda>(r, s). case r of None \<Rightarrow> Inr (-1, s)
       | Some fd \<Rightarrow> kbind (filedup f s) (\<lambda>(_, s). Inr (int fd, s))))"

text \<open>The arguments of \<^verbatim>\<open>sys_read\<close> and \<^verbatim>\<open>sys_write\<close>: the file, the address, the count.\<close>

definition rw_args :: "'a sys_st_scheme \<Rightarrow> ('a sys_st_scheme, (nat \<times> u32 \<times> int) option) kres" where
  "rw_args s =
     kbind (argfd 0 s) (\<lambda>r. case r of None \<Rightarrow> Inr None
     | Some (_, f) \<Rightarrow>
       kbind (argint 2 s) (\<lambda>r. case r of None \<Rightarrow> Inr None
       | Some n \<Rightarrow>
         kbind (argptr 1 n s) (\<lambda>r. case r of None \<Rightarrow> Inr None | Some p \<Rightarrow> Inr (Some (f, p, sint n)))))"

definition sys_read :: "'a sys_st_scheme \<Rightarrow> ('a sys_st_scheme, int \<times> 'a sys_st_scheme) kres" where
  "sys_read s =
     kbind (rw_args s) (\<lambda>r. case r of None \<Rightarrow> Inr (-1, s)
     | Some (f, p, n) \<Rightarrow>
       kbind (fileread f n s) (\<lambda>(r, out, s). kbind (store_va p out s) (\<lambda>s. Inr (r, s))))"

text \<open>The bytes to write are read from the user's memory when the file is writable.\<close>

definition sys_write :: "'a sys_st_scheme \<Rightarrow> ('a sys_st_scheme, int \<times> 'a sys_st_scheme) kres" where
  "sys_write s =
     kbind (rw_args s) (\<lambda>r. case r of None \<Rightarrow> Inr (-1, s)
     | Some (f, p, n) \<Rightarrow>
       kbind (if f_writable (files s ! f) then load_user p (nat n) s else Inr []) (\<lambda>cs. filewrite f n cs s))"

definition sys_close :: "ksyms \<Rightarrow> 'a sys_st_scheme \<Rightarrow> ('a sys_st_scheme, int \<times> 'a sys_st_scheme) kres" where
  "sys_close k s =
     kbind (argfd 0 s) (\<lambda>r. case r of None \<Rightarrow> Inr (-1, s)
     | Some (fd, f) \<Rightarrow>
       kbind (clear_fd fd s) (\<lambda>s. kbind (fileclose (k_end k) f s) (\<lambda>s. Inr (0, s))))"

text \<open>\<^verbatim>\<open>struct stat\<close> in memory; the two gaps between fields are not written.\<close>

definition store_stat :: "u32 \<Rightarrow> stat \<Rightarrow> 'a vm_st_scheme \<Rightarrow> ('a vm_st_scheme, 'a vm_st_scheme) kres" where
  "store_stat a st s =
     kbind (store_va (a + 4) (le32 (st_dev st)) s) (\<lambda>s.
     kbind (store_va (a + 8) (le32 (st_ino st)) s) (\<lambda>s.
     kbind (store_va a (le16 (st_type st)) s) (\<lambda>s.
     kbind (store_va (a + 12) (le16 (st_nlink st)) s) (\<lambda>s.
     store_va (a + 16) (le32 (st_size st)) s))))"

definition sys_fstat :: "'a sys_st_scheme \<Rightarrow> ('a sys_st_scheme, int \<times> 'a sys_st_scheme) kres" where
  "sys_fstat s =
     kbind (argfd 0 s) (\<lambda>r. case r of None \<Rightarrow> Inr (-1, s)
     | Some (_, f) \<Rightarrow>
       kbind (argptr 1 20 s) (\<lambda>r. case r of None \<Rightarrow> Inr (-1, s)
       | Some a \<Rightarrow>
         kbind (filestat f s) (\<lambda>(r, s). case r of None \<Rightarrow> Inr (-1, s)
         | Some st \<Rightarrow> kbind (store_stat a st s) (\<lambda>s. Inr (0, s)))))"

section \<open>Links\<close>

definition sys_link_bad :: "nat \<Rightarrow> 'a cons_st_scheme \<Rightarrow> ('a cons_st_scheme, int \<times> 'a cons_st_scheme) kres" where
  "sys_link_bad ip s =
     kbind (ilock ip s) (\<lambda>s.
     kbind (iupdate ip (upd_inode ip (\<lambda>q. q\<lparr>i_nlink := i_nlink q - 1\<rparr>) s)) (\<lambda>s.
     kbind (iunlockput ip s) (\<lambda>s.
     kbind (commit_trans s) (\<lambda>s. Inr (-1, s)))))"

text \<open>\<^verbatim>\<open>sys_link\<close> on the two paths.\<close>

definition link_paths ::
  "u8 list \<Rightarrow> u8 list \<Rightarrow> 'a cons_st_scheme \<Rightarrow> ('a cons_st_scheme, int \<times> 'a cons_st_scheme) kres" where
  "link_paths old new s =
     kbind (namei old s) (\<lambda>(r, s). case r of None \<Rightarrow> Inr (-1, s)
     | Some ip \<Rightarrow>
       kbind (begin_trans s) (\<lambda>s.
       kbind (ilock ip s) (\<lambda>s.
       if i_type (inodes s ! ip) = T_DIR
       then kbind (iunlockput ip s) (\<lambda>s. kbind (commit_trans s) (\<lambda>s. Inr (-1, s)))
       else kbind (iupdate ip (upd_inode ip (\<lambda>q. q\<lparr>i_nlink := i_nlink q + 1\<rparr>) s)) (\<lambda>s.
            kbind (iunlock ip s) (\<lambda>s.
            kbind (nameiparent new s) (\<lambda>(r, name, s). case r of None \<Rightarrow> sys_link_bad ip s
            | Some dp \<Rightarrow>
              kbind (ilock dp s) (\<lambda>s.
              kbind (if i_dev (inodes s ! dp) \<noteq> i_dev (inodes s ! ip) then Inr (-1, s)
                     else dirlink dp name (i_inum (inodes s ! ip)) s) (\<lambda>(r, s).
              kbind (iunlockput dp s) (\<lambda>s.
              if r < 0 then sys_link_bad ip s
              else kbind (iput ip s) (\<lambda>s. kbind (commit_trans s) (\<lambda>s. Inr (0, s))))))))))))"

definition sys_link :: "'a sys_st_scheme \<Rightarrow> ('a sys_st_scheme, int \<times> 'a sys_st_scheme) kres" where
  "sys_link s =
     kbind (argstr 0 s) (\<lambda>r. case r of None \<Rightarrow> Inr (-1, s)
     | Some old \<Rightarrow> kbind (argstr 1 s) (\<lambda>r. case r of None \<Rightarrow> Inr (-1, s) | Some new \<Rightarrow> link_paths old new s))"

fun isdirempty_loop ::
  "nat \<Rightarrow> nat list \<Rightarrow> 'a cons_st_scheme \<Rightarrow> ('a cons_st_scheme, bool \<times> 'a cons_st_scheme) kres" where
  "isdirempty_loop dp [] s = Inr (True, s)"
| "isdirempty_loop dp (off # offs) s =
     kbind (readi dp (of_nat off) (of_nat sizeof_dirent) s) (\<lambda>(r, bs, s).
     if r \<noteq> int sizeof_dirent then kpanic ''isdirempty: readi''
     else if de_inum (dirent_of bs) \<noteq> 0 then Inr (False, s) else isdirempty_loop dp offs s)"

definition isdirempty :: "nat \<Rightarrow> 'a cons_st_scheme \<Rightarrow> ('a cons_st_scheme, bool \<times> 'a cons_st_scheme) kres" where
  "isdirempty dp s = isdirempty_loop dp (drop 2 (dirent_offs (i_size (inodes s ! dp)))) s"

definition sys_unlink_bad :: "nat \<Rightarrow> 'a cons_st_scheme \<Rightarrow> ('a cons_st_scheme, int \<times> 'a cons_st_scheme) kres" where
  "sys_unlink_bad dp s =
     kbind (iunlockput dp s) (\<lambda>s. kbind (commit_trans s) (\<lambda>s. Inr (-1, s)))"

text \<open>The part of \<^verbatim>\<open>sys_unlink\<close> that removes the entry at \<open>off\<close>, both inodes locked.\<close>

definition unlink_entry ::
  "nat \<Rightarrow> nat \<Rightarrow> nat \<Rightarrow> 'a cons_st_scheme \<Rightarrow> ('a cons_st_scheme, int \<times> 'a cons_st_scheme) kres" where
  "unlink_entry dp ip off s =
     kbind (writei dp (replicate sizeof_dirent 0) (of_nat off) s) (\<lambda>(r, s).
     if r \<noteq> int sizeof_dirent then kpanic ''unlink: writei''
     else kbind (if i_type (inodes s ! ip) = T_DIR
                 then iupdate dp (upd_inode dp (\<lambda>q. q\<lparr>i_nlink := i_nlink q - 1\<rparr>) s) else Inr s) (\<lambda>s.
          kbind (iunlockput dp s) (\<lambda>s.
          kbind (iupdate ip (upd_inode ip (\<lambda>q. q\<lparr>i_nlink := i_nlink q - 1\<rparr>) s)) (\<lambda>s.
          kbind (iunlockput ip s) (\<lambda>s.
          kbind (commit_trans s) (\<lambda>s. Inr (0, s)))))))"

definition unlink_path ::
  "u8 list \<Rightarrow> 'a cons_st_scheme \<Rightarrow> ('a cons_st_scheme, int \<times> 'a cons_st_scheme) kres" where
  "unlink_path path s =
     kbind (nameiparent path s) (\<lambda>(r, name, s). case r of None \<Rightarrow> Inr (-1, s)
     | Some dp \<Rightarrow>
       kbind (begin_trans s) (\<lambda>s.
       kbind (ilock dp s) (\<lambda>s.
       if namecmp name (bytes ''.'') = 0 \<or> namecmp name (bytes ''..'') = 0 then sys_unlink_bad dp s
       else kbind (dirlookup dp name s) (\<lambda>(r, s). case r of None \<Rightarrow> sys_unlink_bad dp s
            | Some (ip, off) \<Rightarrow>
              kbind (ilock ip s) (\<lambda>s.
              if sint (i_nlink (inodes s ! ip)) < 1 then kpanic ''unlink: nlink < 1''
              else kbind (if i_type (inodes s ! ip) = T_DIR then isdirempty ip s else Inr (True, s)) (\<lambda>(empty, s).
                   if \<not> empty then kbind (iunlockput ip s) (sys_unlink_bad dp)
                   else unlink_entry dp ip off s))))))"

definition sys_unlink :: "'a sys_st_scheme \<Rightarrow> ('a sys_st_scheme, int \<times> 'a sys_st_scheme) kres" where
  "sys_unlink s =
     kbind (argstr 0 s) (\<lambda>r. case r of None \<Rightarrow> Inr (-1, s) | Some path \<Rightarrow> unlink_path path s)"

section \<open>Creation\<close>

text \<open>The part of \<^verbatim>\<open>create\<close> that makes a new inode in the locked directory \<open>dp\<close>.\<close>

definition create_new ::
  "nat \<Rightarrow> u8 list \<Rightarrow> u16 \<Rightarrow> u16 \<Rightarrow> u16 \<Rightarrow> 'a cons_st_scheme \<Rightarrow> ('a cons_st_scheme, nat option \<times> 'a cons_st_scheme) kres" where
  "create_new dp name ty major minor s =
     kbind (ialloc (i_dev (inodes s ! dp)) ty s) (\<lambda>(ip, s).
     kbind (ilock ip s) (\<lambda>s.
     kbind (iupdate ip (upd_inode ip (\<lambda>q. q\<lparr>i_major := major, i_minor := minor, i_nlink := 1\<rparr>) s)) (\<lambda>s.
     kbind (if ty = T_DIR
            then kbind (iupdate dp (upd_inode dp (\<lambda>q. q\<lparr>i_nlink := i_nlink q + 1\<rparr>) s)) (\<lambda>s.
                 kbind (dirlink ip (bytes ''.'') (i_inum (inodes s ! ip)) s) (\<lambda>(r, s).
                 if r < 0 then kpanic ''create dots''
                 else kbind (dirlink ip (bytes ''..'') (i_inum (inodes s ! dp)) s) (\<lambda>(r, s).
                      if r < 0 then kpanic ''create dots'' else Inr s)))
            else Inr s) (\<lambda>s.
     kbind (dirlink dp name (i_inum (inodes s ! ip)) s) (\<lambda>(r, s).
     if r < 0 then kpanic ''create: dirlink''
     else kbind (iunlockput dp s) (\<lambda>s. Inr (Some ip, s)))))))"

definition create ::
  "u8 list \<Rightarrow> u16 \<Rightarrow> u16 \<Rightarrow> u16 \<Rightarrow> 'a cons_st_scheme \<Rightarrow> ('a cons_st_scheme, nat option \<times> 'a cons_st_scheme) kres" where
  "create path ty major minor s =
     kbind (nameiparent path s) (\<lambda>(r, name, s). case r of None \<Rightarrow> Inr (None, s)
     | Some dp \<Rightarrow>
       kbind (ilock dp s) (\<lambda>s.
       kbind (dirlookup dp name s) (\<lambda>(r, s). case r of
         Some (ip, _) \<Rightarrow>
           kbind (iunlockput dp s) (\<lambda>s.
           kbind (ilock ip s) (\<lambda>s.
           if ty = T_FILE \<and> i_type (inodes s ! ip) = T_FILE then Inr (Some ip, s)
           else kbind (iunlockput ip s) (\<lambda>s. Inr (None, s))))
       | None \<Rightarrow> create_new dp name ty major minor s)))"

definition O_RDONLY :: u32 where "O_RDONLY = 0"
definition O_WRONLY :: u32 where "O_WRONLY = 1"
definition O_RDWR :: u32 where "O_RDWR = 2"
definition O_CREATE :: u32 where "O_CREATE = 0x200"

text \<open>The inode \<^verbatim>\<open>sys_open\<close> opens, locked.\<close>

definition open_inode ::
  "u8 list \<Rightarrow> u32 \<Rightarrow> 'a cons_st_scheme \<Rightarrow> ('a cons_st_scheme, nat option \<times> 'a cons_st_scheme) kres" where
  "open_inode path omode s =
     (if omode AND O_CREATE \<noteq> 0
      then kbind (begin_trans s) (\<lambda>s.
           kbind (create path T_FILE 0 0 s) (\<lambda>(ip, s).
           kbind (commit_trans s) (\<lambda>s. Inr (ip, s))))
      else kbind (namei path s) (\<lambda>(r, s). case r of None \<Rightarrow> Inr (None, s)
           | Some ip \<Rightarrow>
             kbind (ilock ip s) (\<lambda>s.
             if i_type (inodes s ! ip) = T_DIR \<and> omode \<noteq> O_RDONLY
             then kbind (iunlockput ip s) (\<lambda>s. Inr (None, s)) else Inr (Some ip, s))))"

definition open_path ::
  "ksyms \<Rightarrow> u8 list \<Rightarrow> u32 \<Rightarrow> 'a sys_st_scheme \<Rightarrow> ('a sys_st_scheme, int \<times> 'a sys_st_scheme) kres" where
  "open_path k path omode s =
     kbind (open_inode path omode s) (\<lambda>(r, s). case r of None \<Rightarrow> Inr (-1, s)
     | Some ip \<Rightarrow>
       kbind (filealloc s) (\<lambda>(r, s). case r of None \<Rightarrow> kbind (iunlockput ip s) (\<lambda>s. Inr (-1, s))
       | Some f \<Rightarrow>
         kbind (fdalloc f s) (\<lambda>(r, s). case r of
           None \<Rightarrow> kbind (fileclose (k_end k) f s) (\<lambda>s. kbind (iunlockput ip s) (\<lambda>s. Inr (-1, s)))
         | Some fd \<Rightarrow>
           kbind (iunlock ip s) (\<lambda>s.
           Inr (int fd, upd_file f (\<lambda>q. q\<lparr>f_type := FD_INODE, f_readable := (omode AND O_WRONLY = 0),
             f_writable := (omode AND O_WRONLY \<noteq> 0 \<or> omode AND O_RDWR \<noteq> 0), f_ip := ip, f_off := 0\<rparr>) s)))))"

definition sys_open :: "ksyms \<Rightarrow> 'a sys_st_scheme \<Rightarrow> ('a sys_st_scheme, int \<times> 'a sys_st_scheme) kres" where
  "sys_open k s =
     kbind (argstr 0 s) (\<lambda>r. case r of None \<Rightarrow> Inr (-1, s)
     | Some path \<Rightarrow>
       kbind (argint 1 s) (\<lambda>r. case r of None \<Rightarrow> Inr (-1, s) | Some omode \<Rightarrow> open_path k path omode s))"

text \<open>The common end of \<^verbatim>\<open>sys_mkdir\<close> and \<^verbatim>\<open>sys_mknod\<close>.\<close>

definition finish_create ::
  "nat option \<Rightarrow> 'a cons_st_scheme \<Rightarrow> ('a cons_st_scheme, int \<times> 'a cons_st_scheme) kres" where
  "finish_create r s = (case r of
       None \<Rightarrow> kbind (commit_trans s) (\<lambda>s. Inr (-1, s))
     | Some ip \<Rightarrow> kbind (iunlockput ip s) (\<lambda>s. kbind (commit_trans s) (\<lambda>s. Inr (0, s))))"

definition sys_mkdir :: "'a sys_st_scheme \<Rightarrow> ('a sys_st_scheme, int \<times> 'a sys_st_scheme) kres" where
  "sys_mkdir s =
     kbind (begin_trans s) (\<lambda>s.
     kbind (argstr 0 s) (\<lambda>r. case r of None \<Rightarrow> finish_create None s
     | Some path \<Rightarrow> kbind (create path T_DIR 0 0 s) (\<lambda>(ip, s). finish_create ip s)))"

definition sys_mknod :: "'a sys_st_scheme \<Rightarrow> ('a sys_st_scheme, int \<times> 'a sys_st_scheme) kres" where
  "sys_mknod s =
     kbind (begin_trans s) (\<lambda>s.
     kbind (argstr 0 s) (\<lambda>r. case r of None \<Rightarrow> finish_create None s
     | Some path \<Rightarrow>
       kbind (argint 1 s) (\<lambda>r. case r of None \<Rightarrow> finish_create None s
       | Some major \<Rightarrow>
         kbind (argint 2 s) (\<lambda>r. case r of None \<Rightarrow> finish_create None s
         | Some minor \<Rightarrow>
           kbind (create path T_DEV (ucast major) (ucast minor) s) (\<lambda>(ip, s). finish_create ip s)))))"

definition sys_chdir :: "'a sys_st_scheme \<Rightarrow> ('a sys_st_scheme, int \<times> 'a sys_st_scheme) kres" where
  "sys_chdir s =
     kbind (argstr 0 s) (\<lambda>r. case r of None \<Rightarrow> Inr (-1, s)
     | Some path \<Rightarrow>
       kbind (namei path s) (\<lambda>(r, s). case r of None \<Rightarrow> Inr (-1, s)
       | Some ip \<Rightarrow>
         kbind (ilock ip s) (\<lambda>s.
         if i_type (inodes s ! ip) \<noteq> T_DIR then kbind (iunlockput ip s) (\<lambda>s. Inr (-1, s))
         else kbind (iunlock ip s) (\<lambda>s.
              kbind (cur s) (\<lambda>c. case p_cwd (procs s ! c) of None \<Rightarrow> Inl (Fault ''chdir: no current directory'')
              | Some cwd \<Rightarrow>
                kbind (iput cwd s) (\<lambda>s. Inr (0, upd_proc c (p_cwd_update (\<lambda>_. Some ip)) s)))))))"

text \<open>The loop of \<^verbatim>\<open>sys_exec\<close> that collects the arguments; \<open>n\<close> is the room left in \<^verbatim>\<open>argv\<close>.\<close>

fun exec_args :: "nat \<Rightarrow> u32 \<Rightarrow> 'a proc_st_scheme \<Rightarrow> ('a proc_st_scheme, u8 list list option) kres" where
  "exec_args 0 uargv s = Inr None"
| "exec_args (Suc n) uargv s =
     kbind (fetchint uargv s) (\<lambda>r. case r of None \<Rightarrow> Inr None
     | Some uarg \<Rightarrow>
       if uarg = 0 then Inr (Some [])
       else kbind (fetchstr uarg s) (\<lambda>r. case r of None \<Rightarrow> Inr None
            | Some arg \<Rightarrow>
              kbind (exec_args n (uargv + 4) s) (\<lambda>r. Inr (map_option (\<lambda>args. arg # args) r))))"

definition sys_exec :: "ksyms \<Rightarrow> 'a sys_st_scheme \<Rightarrow> ('a sys_st_scheme, int \<times> 'a sys_st_scheme) kres" where
  "sys_exec k s =
     kbind (argstr 0 s) (\<lambda>r. case r of None \<Rightarrow> Inr (-1, s)
     | Some path \<Rightarrow>
       kbind (argint 1 s) (\<lambda>r. case r of None \<Rightarrow> Inr (-1, s)
       | Some uargv \<Rightarrow>
         kbind (exec_args MAXARG uargv s) (\<lambda>r. case r of None \<Rightarrow> Inr (-1, s)
         | Some argv \<Rightarrow> exec k path argv s)))"

definition sys_pipe :: "ksyms \<Rightarrow> 'a sys_st_scheme \<Rightarrow> ('a sys_st_scheme, int \<times> 'a sys_st_scheme) kres" where
  "sys_pipe k s =
     kbind (argptr 0 8 s) (\<lambda>r. case r of None \<Rightarrow> Inr (-1, s)
     | Some fd \<Rightarrow>
       kbind (pipealloc (k_end k) s) (\<lambda>(r, s). case r of None \<Rightarrow> Inr (-1, s)
       | Some (rfile, wfile) \<Rightarrow>
         let close_both = (\<lambda>s. kbind (fileclose (k_end k) rfile s) (\<lambda>s.
                               kbind (fileclose (k_end k) wfile s) (\<lambda>s. Inr (-1, s))))
         in kbind (fdalloc rfile s) (\<lambda>(r, s). case r of None \<Rightarrow> close_both s
            | Some fd0 \<Rightarrow>
              kbind (fdalloc wfile s) (\<lambda>(r, s). case r of None \<Rightarrow> kbind (clear_fd fd0 s) close_both
              | Some fd1 \<Rightarrow>
                kbind (store_va fd (le32 (of_nat fd0)) s) (\<lambda>s.
                kbind (store_va (fd + 4) (le32 (of_nat fd1)) s) (\<lambda>s. Inr (0, s)))))))"

section \<open>The table of system calls\<close>

definition syscalls ::
  "ksyms \<Rightarrow> u32 \<Rightarrow> (nat \<times> ('a sys_st_scheme \<Rightarrow> ('a sys_st_scheme, int \<times> 'a sys_st_scheme) kres)) list" where
  "syscalls k junk =
     [(1, sys_fork k), (2, sys_exit k junk), (3, sys_wait k junk), (4, sys_pipe k), (5, sys_read),
      (6, sys_kill), (7, sys_exec k), (8, sys_fstat), (9, sys_chdir), (10, sys_dup), (11, sys_getpid),
      (12, sys_sbrk k), (13, sys_sleep), (14, sys_uptime), (15, sys_open k), (16, sys_write),
      (17, sys_mknod), (18, sys_unlink), (19, sys_link), (20, sys_mkdir), (21, sys_close k),
      (22, sys_waitpid k junk), (23, sys_setprio junk)]"

definition syscall :: "ksyms \<Rightarrow> u32 \<Rightarrow> 'a sys_st_scheme \<Rightarrow> ('a sys_st_scheme, 'a sys_st_scheme) kres" where
  "syscall k junk s =
     kbind (cur s) (\<lambda>c.
     let num = load32 (mem s) (p_tf (procs s ! c) + tf_eax)
     in kbind (case map_of (syscalls k junk) (unat num) of
                 Some f \<Rightarrow> f s
               | None \<Rightarrow>
                 kbind (cprintf (bytes ''%d %s: unknown sys call %d'' @ [10])
                          [AInt (of_int (p_pid (procs s ! c))),
                           AStr (Some (takeWhile (\<lambda>ch. ch \<noteq> 0) (p_name (procs s ! c)))), AInt num] s) (\<lambda>s.
                 Inr (-1, s))) (\<lambda>(r, s).
        Inr (set32 (p_tf (procs s ! c) + tf_eax) (of_int r) s)))"

end
