(* ===== verification/Trap.thy ===== *)
theory Trap
  imports Sysfile
begin

text \<open>
  Traps and interrupts (\<^verbatim>\<open>trap.c\<close>). The devices are the arguments: the successive readings of the
  keyboard's and of the serial port's registers, the fault address register, and what an
  uninitialised variable holds in the system calls that use one. The disk is the memory disk,
  whose interrupt handler does nothing.
\<close>

record devices =
  dv_kbd :: "(u8 \<times> u8) list"
  dv_uart :: "(u8 \<times> u8) list"
  dv_cr2 :: u32
  dv_junk :: u32

definition T_SYSCALL :: u32 where "T_SYSCALL = 64"
definition T_IRQ0 :: u32 where "T_IRQ0 = 32"
definition IRQ_TIMER :: u32 where "IRQ_TIMER = 0"
definition IRQ_KBD :: u32 where "IRQ_KBD = 1"
definition IRQ_COM1 :: u32 where "IRQ_COM1 = 4"
definition IRQ_IDE :: u32 where "IRQ_IDE = 14"
definition IRQ_SPURIOUS :: u32 where "IRQ_SPURIOUS = 31"

text \<open>A gate descriptor with its bit fields as words, and \<^verbatim>\<open>SETGATE\<close> (\<^verbatim>\<open>mmu.h\<close>). The array
  \<^verbatim>\<open>vectors\<close> of entry points is generated code.\<close>

record gatedesc =
  off_15_0 :: u32
  g_cs :: u32
  g_args :: u32
  g_rsv1 :: u32
  g_type :: u32
  g_s :: u32
  g_dpl :: u32
  g_p :: u32
  off_31_16 :: u32

definition STS_IG32 :: u32 where "STS_IG32 = 0xE"
definition STS_TG32 :: u32 where "STS_TG32 = 0xF"

definition SETGATE :: "bool \<Rightarrow> u32 \<Rightarrow> u32 \<Rightarrow> u32 \<Rightarrow> gatedesc" where
  "SETGATE istrap sel off d =
     \<lparr>off_15_0 = off AND 0xFFFF, g_cs = sel, g_args = 0, g_rsv1 = 0,
      g_type = (if istrap then STS_TG32 else STS_IG32), g_s = 0, g_dpl = d, g_p = 1, off_31_16 = drop_bit 16 off\<rparr>"

definition tvinit_idt :: "(nat \<Rightarrow> u32) \<Rightarrow> gatedesc list" where
  "tvinit_idt vectors = (map (\<lambda>i. SETGATE False 8 (vectors i) 0) [0..<256])[64 := SETGATE True 8 (vectors 64) 3]"

definition tvinit :: "'a sys_st_scheme \<Rightarrow> 'a sys_st_scheme" where
  "tvinit s = initlock LTicks s"

definition timer_tick :: "'a sys_st_scheme \<Rightarrow> ('a sys_st_scheme, 'a sys_st_scheme) kres" where
  "timer_tick s =
     (if cpu_id (cpu s) = 0
      then kbind (acquire LTicks s) (\<lambda>s.
           kbind (wakeup ChTicks (s\<lparr>ticks := ticks s + 1\<rparr>)) (release LTicks))
      else Inr s)"

text \<open>The \<^verbatim>\<open>default\<close> case.\<close>

definition unexpected_trap ::
  "devices \<Rightarrow> u32 \<Rightarrow> 'a sys_st_scheme \<Rightarrow> ('a sys_st_scheme, 'a sys_st_scheme) kres" where
  "unexpected_trap d tf s =
     (let trapno = load32 (mem s) (tf + tf_trapno); cs = load32 (mem s) (tf + tf_cs);
          eip = load32 (mem s) (tf + tf_eip); err = load32 (mem s) (tf + tf_err);
          id = of_nat (cpu_id (cpu s))
      in case curproc s of
           Some c \<Rightarrow>
             if cs AND 3 = 0
             then kbind (cprintf (bytes ''unexpected trap %d from cpu %d eip %x (cr2=0x%x)'' @ [10])
                           [AInt trapno, AInt id, AInt eip, AInt (dv_cr2 d)] s) (\<lambda>_. kpanic ''trap'')
             else kbind (cprintf (bytes ''pid %d %s: trap %d err %d on cpu %d eip 0x%x addr 0x%x--kill proc'' @ [10])
                           [AInt (of_int (p_pid (procs s ! c))),
                            AStr (Some (takeWhile (\<lambda>ch. ch \<noteq> 0) (p_name (procs s ! c)))),
                            AInt trapno, AInt err, AInt id, AInt eip, AInt (dv_cr2 d)] s) (\<lambda>s.
                  Inr (upd_proc c (p_killed_update (\<lambda>_. True)) s))
         | None \<Rightarrow>
             kbind (cprintf (bytes ''unexpected trap %d from cpu %d eip %x (cr2=0x%x)'' @ [10])
                      [AInt trapno, AInt id, AInt eip, AInt (dv_cr2 d)] s) (\<lambda>_. kpanic ''trap''))"

definition interrupt ::
  "devices \<Rightarrow> u32 \<Rightarrow> 'a sys_st_scheme \<Rightarrow> ('a sys_st_scheme, 'a sys_st_scheme) kres" where
  "interrupt d tf s =
     (let trapno = load32 (mem s) (tf + tf_trapno)
      in if trapno = T_IRQ0 + IRQ_TIMER then timer_tick s
         else if trapno = T_IRQ0 + IRQ_IDE then Inr s
         else if trapno = T_IRQ0 + IRQ_IDE + 1 then Inr s
         else if trapno = T_IRQ0 + IRQ_KBD then kbdintr (dv_kbd d) s
         else if trapno = T_IRQ0 + IRQ_COM1 then uartintr (dv_uart d) s
         else if trapno = T_IRQ0 + 7 \<or> trapno = T_IRQ0 + IRQ_SPURIOUS
         then cprintf (bytes ''cpu%d: spurious interrupt at %x:%x'' @ [10])
                [AInt (of_nat (cpu_id (cpu s))), AInt (load32 (mem s) (tf + tf_cs) AND 0xFFFF),
                 AInt (load32 (mem s) (tf + tf_eip))] s
         else unexpected_trap d tf s)"

text \<open>The test \<^verbatim>\<open>proc && proc->killed && (tf->cs&3) == DPL_USER\<close>.\<close>

definition killed_in_user :: "u32 \<Rightarrow> 'a sys_st_scheme \<Rightarrow> bool" where
  "killed_in_user tf s = (case curproc s of None \<Rightarrow> False
     | Some c \<Rightarrow> p_killed (procs s ! c) \<and> load32 (mem s) (tf + tf_cs) AND 3 = 3)"

definition exit_if :: "ksyms \<Rightarrow> bool \<Rightarrow> int \<Rightarrow> 'a sys_st_scheme \<Rightarrow> ('a sys_st_scheme, 'a sys_st_scheme) kres" where
  "exit_if k b st s = (if b then kbind (exit (k_end k) st s) (\<lambda>_. Inr s) else Inr s)"

definition trap ::
  "ksyms \<Rightarrow> devices \<Rightarrow> u32 \<Rightarrow> 'a sys_st_scheme \<Rightarrow> ('a sys_st_scheme, 'a sys_st_scheme) kres" where
  "trap k d tf s =
     (if load32 (mem s) (tf + tf_trapno) = T_SYSCALL
      then kbind (cur s) (\<lambda>c.
           kbind (exit_if k (p_killed (procs s ! c)) 1 s) (\<lambda>s.
           kbind (syscall k (dv_junk d) (upd_proc c (p_tf_update (\<lambda>_. tf)) s)) (\<lambda>s.
           exit_if k (p_killed (procs s ! c)) 0 s)))
      else kbind (interrupt d tf s) (\<lambda>s.
           kbind (exit_if k (killed_in_user tf s) 0 s) (\<lambda>s.
           kbind (case curproc s of None \<Rightarrow> Inr s
                  | Some c \<Rightarrow> if p_state (procs s ! c) = RUNNING \<and>
                               load32 (mem s) (tf + tf_trapno) = T_IRQ0 + IRQ_TIMER
                             then yield s else Inr s) (\<lambda>s.
           exit_if k (killed_in_user tf s) 0 s))))"

text \<open>The process runs again after the \<^verbatim>\<open>yield\<close>.\<close>

definition trap_resume ::
  "ksyms \<Rightarrow> bool \<Rightarrow> u32 \<Rightarrow> 'a sys_st_scheme \<Rightarrow> ('a sys_st_scheme, 'a sys_st_scheme) kres" where
  "trap_resume k saved tf s =
     kbind (yield_resume saved s) (\<lambda>s. exit_if k (killed_in_user tf s) 0 s)"

end
