(* ===== verification/Sys_Lemmas.thy ===== *)
theory Sys_Lemmas
  imports Trap Ptable_Lemmas
begin

text \<open>
  Properties of the system-call layer: what the checks of pointer arguments guarantee and what
  they let through, and that a killed process does not get back to user mode.
\<close>

lemma cur_Some: "curproc s = Some c \<Longrightarrow> cur s = Inr c"
  by (simp add: cur_def)

lemma sched_not_Inr: "sched s \<noteq> Inr t"
  by (simp add: sched_def split: option.splits)

lemma exit_locked_not_Inr: "exit_locked c st s \<noteq> Inr t"
  by (simp add: exit_locked_def kbind_Inr sched_not_Inr Let_def split: option.splits)

lemma exit_not_Inr: "exit kend st s \<noteq> Inr t"
  by (simp add: exit_def kbind_Inr exit_locked_not_Inr split: option.splits)

lemma exit_if_Inr: "exit_if k b st s = Inr t \<longleftrightarrow> \<not> b \<and> t = s"
  by (auto simp: exit_if_def kbind_Inr exit_not_Inr)

section \<open>A concrete state\<close>

text \<open>Every byte of memory is 7, so that every word is \<open>0x07070707\<close>, an entry of a present and
  writable page.\<close>

definition st7 :: "proc list \<Rightarrow> sys_st" where
  "st7 ps = \<lparr>locks = \<lambda>_. \<lparr>locked = 0, holder = None\<rparr>, cpu = \<lparr>cpu_id = 0, ncli = 0, intena = False\<rparr>,
     IF = True, mem = \<lambda>_. 7, use_lock = True, freelist = 0, kpgdir = 0, cr3 = 0x400000, procs = ps,
     curproc = Some 0, initproc = None, nextpid = 1, ts_ss0 = 0, ts_esp0 = 0, bufs = [], disksize = 0,
     image = \<lambda>_. [], writes = [], idequeue = None, havedisk1 = False, ide_port = None, ide_disk = \<lambda>_ _. [],
     lg_start = 0, lg_size = 0, lg_busy = False, lg_dev = 0, lh_n = 0, lh_sector = [], inodes = [],
     cons_locking = True, panicked = False, in_buf = [], in_r = 0, in_w = 0, in_e = 0, uart = False,
     uart_out = [], crt = replicate 2000 0, crt_pos = 0, kbd_shift = 0, dev_console = True, files = [],
     pipes = \<lambda>_. \<lparr>pi_data = [], pi_nread = 0, pi_nwrite = 0, pi_readopen = False, pi_writeopen = False\<rparr>,
     ticks = 0, first = False\<rparr>"

definition user7 :: proc where "user7 = proc0\<lparr>p_sz := 0x8000000, p_state := RUNNING, p_pid := 5\<rparr>"

definition ksyms0 :: ksyms where
  "ksyms0 = \<lparr>k_end = 0x80110000, k_data = 0x80108000, k_forkret = 0x80103000, k_trapret = 0x80105000, k_initcode = []\<rparr>"

definition dev0 :: devices where
  "dev0 = \<lparr>dv_kbd = [], dv_uart = [], dv_cr2 = 0, dv_junk = 0\<rparr>"

definition inode0 :: inode where
  "inode0 = \<lparr>i_dev = 1, i_inum = 1, i_ref = 1, i_busy = False, i_valid = True, i_type = T_FILE, i_major = 0,
     i_minor = 0, i_nlink = 1, i_size = 0, i_addrs = replicate 13 0\<rparr>"

lemma load7 [simp]: "load32 (\<lambda>_. 7) a = 0x07070707"
  by (simp add: load32_def of_le32_def)

lemma st7_simps [simp]:
  "curproc (st7 ps) = Some 0" "procs (st7 ps) = ps" "mem (st7 ps) = (\<lambda>_. 7)" "p_sz user7 = 0x8000000"
  by (simp_all add: st7_def user7_def)

lemma load_va7 [simp]: "mem s = (\<lambda>_. 7) \<Longrightarrow> load_va a n s = Some (replicate n 7)"
  by (induction n arbitrary: a) (simp_all add: va_ka_def PTE_P_def Let_def)

lemma replicate4: "replicate 4 x = [x, x, x, x]"
  by (simp add: numeral_eq_Suc)

lemma argint7 [simp]: "argint 0 (st7 [user7]) = Inr (Some 0x07070707)" "argint 1 (st7 [user7]) = Inr (Some 0x07070707)"
   "argint 2 (st7 [user7]) = Inr (Some 0x07070707)" 
  by (simp_all add: argint_def cur_def fetchint_def load_user_def replicate4 of_le32_def)

section \<open>Properties\<close>

text \<open>C36: a pointer argument that \<^verbatim>\<open>argptr\<close> accepts for a block of non-negative size lies, with the
  whole block, below the end of the process's memory. The size of the memory is at most the
  kernel's base, so that the addition in the check does not wrap.\<close>

theorem argptr_checks_range:
  assumes "curproc s = Some c" "p_sz (procs s ! c) \<le> KERNBASE" "0 \<le> sint len" "argptr n len s = Inr (Some p)"
  shows "unat p < unat (p_sz (procs s ! c)) \<and> unat p + unat len \<le> unat (p_sz (procs s ! c))"
proof -
  obtain i where i: "argint n s = Inr (Some i)"
    using assms(1,4) by (auto simp: argptr_def cur_Some kbind_Inr split: option.splits)
  then have p: "p < p_sz (procs s ! c)" "p + len \<le> p_sz (procs s ! c)"
    using assms(1,4) by (auto simp: argptr_def cur_Some Let_def not_le split: if_splits)
  moreover have "unat len < 2 ^ 31" using assms(3) by (simp only: sint_nonneg)
  moreover have "unat (p_sz (procs s ! c)) \<le> 2 ^ 31" using assms(2) by (simp add: word_le_nat_alt KERNBASE_def)
  ultimately have "unat p + unat len < 2 ^ 32" by (simp add: word_less_nat_alt)
  then have "unat (p + len) = unat p + unat len" by (subst unat_add_lem [symmetric]) simp
  then show ?thesis using p by (simp add: word_le_nat_alt word_less_nat_alt)
qed

theorem argptr_checks_range_witness:
  "argptr 1 20 (st7 [user7]) = Inr (Some 0x07070707) \<and> (0x07070707 :: nat) + 20 \<le> 0x8000000"
proof -
  have a: "argptr 1 20 (st7 [user7]) = Inr (Some 0x07070707)"
    by (simp add: argptr_def cur_def)
  moreover have "0 \<le> sint (20 :: u32)" by (simp add: sint_nonneg)
  ultimately show ?thesis using argptr_checks_range [where s = "st7 [user7]" and c = 0 and len = 20 and n = 1]
    by (simp add: KERNBASE_def)
qed

text \<open>C37: the check does not hold for a negative size. With a count of -1 \<^verbatim>\<open>argptr\<close> accepts every
  non-null pointer below the end of memory, and \<^verbatim>\<open>readi\<close> at the start of a file then reads the
  whole file, however little room there is behind the pointer: \<^verbatim>\<open>read(fd, p, -1)\<close> makes the
  kernel store past the end of the process's memory.\<close>

theorem read_negative_count_escapes:
  assumes "curproc s = Some c" "argint 1 s = Inr (Some p)" "p < p_sz (procs s ! c)" "p \<noteq> 0"
    and "i_type (inodes s ! ip) \<noteq> T_DEV" 
  shows "argptr 1 (- 1) s = Inr (Some p) \<and> readi ip 0 (- 1) s = readi ip 0 (i_size (inodes s ! ip)) s"
proof -
  have "unat (p - 1) < unat p" using assms(4) by (simp add: unat_minus_one unat_gt_0)
  then have "p + - 1 \<le> p_sz (procs s ! c)" using assms(3) by (simp add: word_le_nat_alt word_less_nat_alt)
  then have "argptr 1 (- 1) s = Inr (Some p)"
    using assms(1-3) by (simp add: argptr_def cur_Some Let_def not_le not_less)
  moreover have "readi ip 0 (- 1) s = readi ip 0 (i_size (inodes s ! ip)) s"
    using assms(5) word_n1_ge [of "i_size (inodes s ! ip)"]
    by (cases "i_size (inodes s ! ip) = - 1") (auto simp: readi_def Let_def order_less_le)
  ultimately show ?thesis by simp
qed

theorem read_negative_count_escapes_witness:
  "\<exists>s :: sys_st. argptr 1 (- 1) s = Inr (Some 0x07070707) \<and> readi 0 0 (- 1) s = readi 0 0 300 s"
proof -
  let ?s = "(st7 [user7])\<lparr>inodes := [inode0\<lparr>i_size := 300\<rparr>]\<rparr>"
  have "argint 1 ?s = Inr (Some 0x07070707)"
    by (simp add: argint_def cur_def fetchint_def load_user_def replicate4 of_le32_def)
  then show ?thesis using read_negative_count_escapes [of ?s 0 "0x07070707" 0]
    by (intro exI [of _ ?s]) (simp add: inode0_def T_FILE_def T_DEV_def)
qed





end
