(* ===== verification/Log_Lemmas.thy ===== *)
theory Log_Lemmas
  imports Log
begin

text \<open>
  The routines of the log (\<^verbatim>\<open>log.c\<close>) over the abstraction of the buffer cache: what \<open>write_head\<close>, \<open>read_head\<close>,
  \<open>install_trans\<close>, \<open>recover_from_log\<close>, \<open>commit_trans\<close> and \<open>log_write\<close> do to the blocks the kernel sees, to the disk and to
  the sequence of disk writes. \<open>trans_inv\<close> is the invariant of a transaction in progress.
\<close>

section \<open>Framing and the header block\<close>

lemma log_rest:
  assumes "disk_rest s t"
  shows "lg_start t = lg_start s" "lg_size t = lg_size s" "lg_busy t = lg_busy s" "lg_dev t = lg_dev s"
    "lh_n t = lh_n s" "lh_sector t = lh_sector s" "disksize t = disksize s" "image t = image s"
proof -
  have "mach.more (t\<lparr>procs := [], bufs := [], writes := []\<rparr>) = mach.more (s\<lparr>procs := [], bufs := [], writes := []\<rparr>)"
    using assms by (simp add: disk_rest_def)
  then show "lg_start t = lg_start s" "lg_size t = lg_size s" "lg_busy t = lg_busy s" "lg_dev t = lg_dev s"
    "lh_n t = lh_n s" "lh_sector t = lh_sector s" "disksize t = disksize s" "image t = image s"
    by (cases s; cases t; simp)+
qed

lemma head_block_get:
  assumes "length d = BSIZE" "n \<le> int LOGSIZE"
  shows "get32 (head_block n secs d) 0 = of_int n" "i < nat n \<Longrightarrow> get32 (head_block n secs d) (i + 1) = secs ! i"
    "length (head_block n secs d) = BSIZE"
proof -
  define h where "h k = fold (\<lambda>i d. put32 d (i + 1) (secs ! i)) [0..<k] (put32 d 0 (of_int n))" for k
  have l: "length (h k) = BSIZE" if "k \<le> LOGSIZE" for k
    using that assms(1) by (induction k) (auto simp: h_def BSIZE_def LOGSIZE_def)
  have g0: "get32 (h k) 0 = of_int n" if "k \<le> LOGSIZE" for k
    using that
  proof (induction k)
    case (Suc k)
    then show ?case using l [of k] by (simp add: h_def BSIZE_def LOGSIZE_def)
  qed (use assms(1) in \<open>simp add: h_def BSIZE_def\<close>)
  have gi: "get32 (h k) (i + 1) = secs ! i" if "k \<le> LOGSIZE" "i < k" for k
    using that
  proof (induction k)
    case (Suc k)
    then show ?case using l [of k] by (cases "i = k") (simp_all add: h_def BSIZE_def LOGSIZE_def)
  qed simp
  have "head_block n secs d = h (nat n)" "nat n \<le> LOGSIZE" using assms(2) by (simp_all add: head_block_def h_def)
  then show "get32 (head_block n secs d) 0 = of_int n" "i < nat n \<Longrightarrow> get32 (head_block n secs d) (i + 1) = secs ! i"
    "length (head_block n secs d) = BSIZE"
    using l g0 gi by simp_all
qed

lemma upd_buf_data: "upd_buf b (\<lambda>q. q\<lparr>b_data := f (b_data q)\<rparr>) s = upd_buf b (b_data_update (\<lambda>_. f (b_data (bufs s ! b)))) s"
  by (simp add: upd_buf_def)

lemma held_busy: "held s b a \<Longrightarrow> a \<in> v_busy (view s)"
  by (auto simp: held_def view_def sectors_def)

text \<open>Reading a block, changing it and writing it through; then letting go of it.\<close>

lemma rw_blockI:
  assumes c: "cache_inv s" and l: "lockset L s" "LBcache \<notin> set L"
    and a: "a < disksize s" "a \<notin> v_busy (view s)" "room a (view s)"
    and x: "\<And>b t. cache_inv t \<Longrightarrow> disk_rest s t \<Longrightarrow> keeps_held s t \<Longrightarrow> v_blk (view t) = v_blk (view s) \<Longrightarrow>
       b_data (bufs t ! b) = v_blk (view s) a \<Longrightarrow> F b t = x"
    and K: "\<And>b u. cache_inv u \<Longrightarrow> held u b a \<Longrightarrow> lockset L u \<Longrightarrow> disk_rest s u \<Longrightarrow> writes u = writes s @ [(a, x)] \<Longrightarrow>
       view u = (view s)\<lparr>v_busy := insert a (v_busy (view s)), v_blk := (v_blk (view s))(a := x),
          v_disk := (v_disk (view s))(a := x), v_dirty := v_dirty (view s) - {a}\<rparr> \<Longrightarrow> keeps_held s u \<Longrightarrow> returns (K b u) Q"
  shows "returns (kbind (bread 1 a s) (\<lambda>(b, t). kbind (bwrite b (upd_buf b (b_data_update (\<lambda>_. F b t)) t)) (K b))) Q"
proof (rule returns_bindI [OF bread_spec [OF c l a]], clarify)
  fix b t
  assume t: "cache_inv t" "held t b a" "b_data (bufs t ! b) = v_blk (view s) a"
     "view t = (view s)\<lparr>v_busy := insert a (v_busy (view s))\<rparr>" "disk_rest s t" "writes t = writes s" "lockset L t" "keeps_held s t"
  let ?t = "upd_buf b (b_data_update (\<lambda>_. F b t)) t"
  have F: "F b t = x" using x [OF t(1,5,8) _ t(3)] t(4) by simp
  have t': "cache_inv ?t" "held ?t b a" "view ?t = (view t)\<lparr>v_blk := (v_blk (view t))(a := x)\<rparr>"
    using view_set_data [OF t(1,2), of "F b t"] by (simp_all add: F)
  have k: "keeps_held t ?t"
    using held_fields [OF t(1,2)] by (auto simp: keeps_held_def held_def bufs_upd_buf nth_list_update holds_sector_def)
  have d: "a < disksize ?t" using a(1) t(5) by (simp add: disk_rest_fields)
  show "returns (kbind (bwrite b ?t) (K b)) Q"
  proof (rule returns_bindI [OF bwrite_spec [OF t'(1,2) d]], elim conjE)
    fix u
    assume u: "cache_inv u" "held u b a" "\<forall>L. lockset L u = lockset L ?t" "keeps_held ?t u" "disk_rest ?t u"
      "view u = (view ?t)\<lparr>v_disk := (v_disk (view ?t))(a := v_blk (view ?t) a), v_dirty := v_dirty (view ?t) - {a}\<rparr>"
      "writes u = writes ?t @ [(a, v_blk (view ?t) a)]"
    have "disk_rest s u" using disk_rest_trans [OF t(5) disk_rest_trans [OF _ u(5)]] by simp
    then show "returns (K b u) Q"
      using K [OF u(1,2)] u t t' k by (simp add: keeps_held_def)
  qed
qed

lemma write_block_spec:
  assumes c: "cache_inv s" and l: "lockset L s" "LBcache \<notin> set L" "LPtable \<notin> set L"
    and a: "a < disksize s" "a \<notin> v_busy (view s)" "room a (view s)"
    and x: "\<And>b t. cache_inv t \<Longrightarrow> disk_rest s t \<Longrightarrow> keeps_held s t \<Longrightarrow> v_blk (view t) = v_blk (view s) \<Longrightarrow>
       b_data (bufs t ! b) = v_blk (view s) a \<Longrightarrow> F b t = x"
  shows "returns (kbind (bread 1 a s) (\<lambda>(b, t). kbind (bwrite b (upd_buf b (b_data_update (\<lambda>_. F b t)) t)) (brelse b)))
    (\<lambda>u. cache_inv u \<and> lockset L u \<and> disk_rest s u \<and> writes u = writes s @ [(a, x)] \<and>
      view u = (view s)\<lparr>v_blk := (v_blk (view s))(a := x), v_disk := (v_disk (view s))(a := x), v_dirty := v_dirty (view s) - {a}\<rparr> \<and>
      keeps_held s u)"
proof (rule rw_blockI [OF c l(1,2) a x])
  fix b u
  assume u: "cache_inv u" "held u b a" "lockset L u" "disk_rest s u" "writes u = writes s @ [(a, x)]"
       "view u = (view s)\<lparr>v_busy := insert a (v_busy (view s)), v_blk := (v_blk (view s))(a := x),
          v_disk := (v_disk (view s))(a := x), v_dirty := v_dirty (view s) - {a}\<rparr>" "keeps_held s u"
  have "keeps_held s y" if "\<forall>b' a'. held u b' a' \<and> a' \<noteq> a \<longrightarrow> held y b' a'" for y
    using that u(7) held_busy a(2) unfolding keeps_held_def by metis
  moreover have "a \<in> v_dirty (view u) \<or> v_blk (view u) a = v_disk (view u) a" using u(6) by simp
  ultimately show "returns (brelse b u) (\<lambda>u. cache_inv u \<and> lockset L u \<and> disk_rest s u \<and> writes u = writes s @ [(a, x)] \<and>
      view u = (view s)\<lparr>v_blk := (v_blk (view s))(a := x), v_disk := (v_disk (view s))(a := x), v_dirty := v_dirty (view s) - {a}\<rparr> \<and>
      keeps_held s u)"
    using u a(2) by (intro returns_mono [OF brelse_spec [OF u(1,2,3) l(2,3)]]) (auto intro: disk_rest_trans)
qed

definition quiet :: "'a log_st_scheme \<Rightarrow> bool" where
  "quiet s \<longleftrightarrow> cache_inv s \<and> lockset [] s \<and> lg_dev s = 1 \<and> v_busy (view s) = {} \<and>
     (\<forall>a. a \<notin> v_dirty (view s) \<longrightarrow> v_blk (view s) a = v_disk (view s) a)"

lemma write_head_spec:
  assumes q: "quiet s" and a: "lg_start s < disksize s" "lg_start s \<notin> v_dirty (view s)" "card (v_dirty (view s)) < NBUF"
  defines "H \<equiv> head_block (lh_n s) (lh_sector s) (v_disk (view s) (lg_start s))"
  shows "returns (write_head s) (\<lambda>t. quiet t \<and> disk_rest s t \<and> writes t = writes s @ [(lg_start s, H)] \<and>
     view t = (view s)\<lparr>v_blk := (v_blk (view s))(lg_start s := H), v_disk := (v_disk (view s))(lg_start s := H)\<rparr>)"
proof -
  have q': "cache_inv s" "lockset [] s" "lg_dev s = 1" "v_busy (view s) = {}" "v_blk (view s) (lg_start s) = v_disk (view s) (lg_start s)"
    using q a(2) by (auto simp: quiet_def)
  have w: "write_head s = kbind (bread 1 (lg_start s) s) (\<lambda>(b, t). kbind (bwrite b
      (upd_buf b (b_data_update (\<lambda>_. head_block (lh_n t) (lh_sector t) (b_data (bufs t ! b)))) t)) (brelse b))"
    by (simp add: write_head_def q'(3) upd_buf_data)
  show ?thesis unfolding w
  proof (rule returns_mono [OF write_block_spec [OF q'(1,2), where x = H]])
    show "head_block (lh_n t) (lh_sector t) (b_data (bufs t ! b)) = H"
      if "disk_rest s t" "b_data (bufs t ! b) = v_blk (view s) (lg_start s)" for b t
      using that log_rest [OF that(1)] q'(5) by (simp add: H_def)
  next
    fix t
    assume t: "cache_inv t \<and> lockset [] t \<and> disk_rest s t \<and> writes t = writes s @ [(lg_start s, H)] \<and>
      view t = (view s)\<lparr>v_blk := (v_blk (view s))(lg_start s := H), v_disk := (v_disk (view s))(lg_start s := H),
        v_dirty := v_dirty (view s) - {lg_start s}\<rparr> \<and> keeps_held s t"
    then have "lg_dev t = 1" "v_dirty (view s) - {lg_start s} = v_dirty (view s)" using q'(3) a(2) log_rest(4) [of s t] by auto
    then show "quiet t \<and> disk_rest s t \<and> writes t = writes s @ [(lg_start s, H)] \<and>
     view t = (view s)\<lparr>v_blk := (v_blk (view s))(lg_start s := H), v_disk := (v_disk (view s))(lg_start s := H)\<rparr>"
      using t q by (auto simp: quiet_def)
  qed (use q' a in \<open>simp_all add: room_def\<close>)
qed

lemma view_not_busy:
  "v_busy v = {} \<Longrightarrow> v\<lparr>v_blk := x, v_disk := y, v_dirty := z, v_busy := {}\<rparr> = v\<lparr>v_blk := x, v_disk := y, v_dirty := z\<rparr>"
  by (cases v) simp

lemma install_step_spec:
  fixes s :: "'a log_st_scheme"
  assumes q: "quiet s" and l: "l < disksize s" "l \<notin> v_dirty (view s)" and d: "d < disksize s" "d \<noteq> l"
    and c: "card (v_dirty (view s)) < NBUF" "d \<in> v_dirty (view s) \<or> card (v_dirty (view s)) < NBUF - 1"
    and sec: "lg_start s + of_nat tail + 1 = l" "lh_sector s ! tail = d"
  shows "returns (install_loop [tail] s) (\<lambda>t. quiet t \<and> disk_rest s t \<and> writes t = writes s @ [(d, v_disk (view s) l)] \<and>
     view t = (view s)\<lparr>v_blk := (v_blk (view s))(d := v_disk (view s) l), v_disk := (v_disk (view s))(d := v_disk (view s) l),
        v_dirty := v_dirty (view s) - {d}\<rparr>)"
proof -
  let ?x = "v_disk (view s) l"
  have q': "cache_inv s" "lockset [] s" "lg_dev s = 1" "v_busy (view s) = {}" "v_blk (view s) l = ?x"
    using q l by (auto simp: quiet_def)
  have r: "room l (view s)" using c q' by (simp add: room_def)
  have nb: "l \<notin> v_busy (view s)" using q' by simp
  show ?thesis unfolding install_loop.simps sec q'(3)
  proof (rule returns_bindI [OF bread_spec [OF q'(1,2) _ l(1) nb r]], simp, clarify)
    fix lb t
    assume t: "cache_inv t" "held t lb l" "b_data (bufs t ! lb) = v_blk (view s) l"
      "view t = (view s)\<lparr>v_busy := insert l (v_busy (view s))\<rparr>" "disk_rest s t" "writes t = writes s" "lockset [] t" "keeps_held s t"
    have rt: "d < disksize t" "d \<notin> v_busy (view t)" "room d (view t)" 
      using c q'(4) t(4) l d log_rest(7) [OF t(5)] by (auto simp: room_def card_insert_if)
    have td: "lg_dev t = 1" "lh_sector t ! tail = d" using q'(3) sec(2) log_rest [OF t(5)] by simp_all
    let ?Q = "\<lambda>t. quiet t \<and> disk_rest s t \<and> writes t = writes s @ [(d, ?x)] \<and>
     view t = (view s)\<lparr>v_blk := (v_blk (view s))(d := ?x), v_disk := (v_disk (view s))(d := ?x), v_dirty := v_dirty (view s) - {d}\<rparr>"
    show "returns (kbind (bread (lg_dev t) (lh_sector t ! tail) t) (\<lambda>(dbuf, s).
       let s = upd_buf dbuf (b_data_update (\<lambda>_. b_data (bufs s ! lb))) s
       in kbind (bwrite dbuf s) (\<lambda>s. kbind (brelse lb s) (\<lambda>s. kbind (brelse dbuf s) Inr)))) ?Q" 
      unfolding td Let_def
    proof (rule rw_blockI [OF t(1,7) _ rt, where x = ?x])
      show "b_data (bufs u ! lb) = ?x" if "cache_inv u" "keeps_held t u" "v_blk (view u) = v_blk (view t)" for u
        using that held_blk [of u lb l] t(2,4) q'(5) by (simp add: keeps_held_def)
      fix db u
      assume u: "cache_inv u" "held u db d" "lockset [] u" "disk_rest t u" "writes u = writes t @ [(d, ?x)]"
       "view u = (view t)\<lparr>v_busy := insert d (v_busy (view t)), v_blk := (v_blk (view t))(d := ?x),
          v_disk := (v_disk (view t))(d := ?x), v_dirty := v_dirty (view t) - {d}\<rparr>" "keeps_held t u"
      have hl: "held u lb l" using u(7) t(2) by (simp add: keeps_held_def)
      have "a \<in> v_dirty (view u) \<or> v_blk (view u) a = v_disk (view u) a" for a
        using q u(6) t(4) by (auto simp: quiet_def)
      note ok = this
      show "returns (kbind (brelse lb u) (\<lambda>s. kbind (brelse db s) Inr)) ?Q"
      proof (rule returns_bindI [OF brelse_spec [OF u(1) hl u(3)]]; (elim conjE)?)
        fix v
        assume v: "cache_inv v" "view v = (view u)\<lparr>v_busy := v_busy (view u) - {l}\<rparr>" "writes v = writes u" "disk_rest u v" "lockset [] v"
          "\<forall>b' a'. held u b' a' \<and> a' \<noteq> l \<longrightarrow> held v b' a'"
        have hd: "held v db d" using v(6) u(2) d(2) by blast
        have "disk_rest s v" using t(5) u(4) v(4) by (blast intro: disk_rest_trans)
        then have rv: "disk_rest s w \<and> lg_dev w = 1" if "disk_rest v w" for w
          using that q'(3) disk_rest_trans [OF _ that] log_rest(4) [of s w] by metis
        have e: "{d, l} - {l} - {d} = {}" by auto
        have "quiet w" if "cache_inv w" "lockset [] w" "view w = (view v)\<lparr>v_busy := v_busy (view v) - {d}\<rparr>" "lg_dev w = 1" for w
          using that v(2) u(6) t(4) q by (auto simp: quiet_def)
        then show "returns (kbind (brelse db v) Inr) ?Q"
          using v(2,3) u(5,6) t(4,6) ok q'(4) d(2) rv
          by (intro returns_bindI [OF brelse_spec [OF v(1) hd v(5)]]) (auto simp: e view_not_busy simp del: fun_upd_apply)
      qed (use ok in simp_all)
    qed simp
  qed
qed

lemma install_loop_Cons: "install_loop (x # ts) s = kbind (install_loop [x] s) (install_loop ts)"
  by (simp add: kbind_assoc Let_def case_prod_beta')

text \<open>The contents after installing the entries \<open>ts\<close>.\<close>

definition installed :: "u32 \<Rightarrow> u32 list \<Rightarrow> nat list \<Rightarrow> (u32 \<Rightarrow> u8 list) \<Rightarrow> u32 \<Rightarrow> u8 list" where
  "installed start secs ts d = fold (\<lambda>i d. d(secs ! i := d (start + of_nat i + 1))) ts d"

definition log_area :: "u32 \<Rightarrow> int \<Rightarrow> u32 set" where
  "log_area start n = (\<lambda>i. start + of_nat i) ` {0..<nat n}"

lemma finite_sectors: "finite (sectors P bs)"
  by (rule finite_subset [of _ "(\<lambda>j. b_sector (bs ! j)) ` {0..<NBUF}"]) (auto simp: sectors_def holds_sector_def)

lemma install_loop_spec:
  fixes s :: "'a log_st_scheme"
  assumes "quiet s" "card (v_dirty (view s)) < NBUF"
    and "\<forall>i\<in>set ts. lg_start s + of_nat i + 1 \<in> A \<and> lh_sector s ! i \<notin> A \<and> lh_sector s ! i < disksize s"
    and "\<forall>a\<in>A. a < disksize s \<and> a \<notin> v_dirty (view s)"
    and "ts = [] \<or> lh_sector s ! hd ts \<in> v_dirty (view s) \<or> card (v_dirty (view s)) < NBUF - 1"
  shows "returns (install_loop ts s) (\<lambda>t. quiet t \<and> disk_rest s t \<and>
     writes t = writes s @ map (\<lambda>i. (lh_sector s ! i, v_disk (view s) (lg_start s + of_nat i + 1))) ts \<and>
     v_disk (view t) = installed (lg_start s) (lh_sector s) ts (v_disk (view s)) \<and>
     v_blk (view t) = installed (lg_start s) (lh_sector s) ts (v_blk (view s)) \<and>
     v_dirty (view t) = v_dirty (view s) - (\<lambda>i. lh_sector s ! i) ` set ts)"
  using assms
proof (induction ts arbitrary: s)
  case Nil
  then show ?case by (simp add: installed_def)
next
  case (Cons i ts)
  let ?l = "lg_start s + of_nat i + 1" and ?d = "lh_sector s ! i"
  have p: "?l < disksize s" "?l \<notin> v_dirty (view s)" "?d < disksize s" "?d \<noteq> ?l"
     "?d \<in> v_dirty (view s) \<or> card (v_dirty (view s)) < NBUF - 1"
    using Cons.prems(3-5) by auto
  note st = install_step_spec [OF Cons.prems(1) p(1-4) Cons.prems(2) p(5) refl refl]
  show ?case unfolding install_loop_Cons [of i ts s]
  proof (rule returns_bindI [OF st], elim conjE)
    fix t
    assume t: "quiet t" "disk_rest s t" "writes t = writes s @ [(?d, v_disk (view s) ?l)]"
     "view t = (view s)\<lparr>v_blk := (v_blk (view s))(?d := v_disk (view s) ?l), v_disk := (v_disk (view s))(?d := v_disk (view s) ?l),
        v_dirty := v_dirty (view s) - {?d}\<rparr>"
    note f = log_rest(1,6,7) [OF t(2)]
    have "finite (v_dirty (view s))" by (simp add: view_def finite_sectors)
    then have c: "card (v_dirty (view t)) < NBUF - 1" "card (v_dirty (view t)) < NBUF"
      using p(5) Cons.prems(2) t(4) by (auto simp: card_Diff_singleton_if NBUF_def)
    have l: "v_blk (view s) ?l = v_disk (view s) ?l" using Cons.prems(1) p(2) by (simp add: quiet_def)
    have d: "v_disk (view t) (lg_start s + of_nat j + 1) = v_disk (view s) (lg_start s + of_nat j + 1)" if "j \<in> set ts" for j
      using that Cons.prems(3) t(4) by auto
    have h1: "\<forall>j\<in>set ts. lg_start s + of_nat j + 1 \<in> A \<and> lh_sector s ! j \<notin> A \<and> lh_sector s ! j < disksize s"
      using Cons.prems(3) by simp
    have h2: "\<forall>a\<in>A. a < disksize s \<and> a \<notin> v_dirty (view t)" using Cons.prems(4) t(4) by simp
    have "returns (install_loop ts t) (\<lambda>u. quiet u \<and> disk_rest t u \<and>
     writes u = writes t @ map (\<lambda>i. (lh_sector s ! i, v_disk (view t) (lg_start s + of_nat i + 1))) ts \<and>
     v_disk (view u) = installed (lg_start s) (lh_sector s) ts (v_disk (view t)) \<and>
     v_blk (view u) = installed (lg_start s) (lh_sector s) ts (v_blk (view t)) \<and>
     v_dirty (view u) = v_dirty (view t) - (\<lambda>i. lh_sector s ! i) ` set ts)"
      by (rule Cons.IH [OF t(1) c(2), unfolded f, OF h1 h2 disjI2 [OF disjI2 [OF c(1)]]])
    then show "returns (install_loop ts t) (\<lambda>u. quiet u \<and> disk_rest s u \<and>
     writes u = writes s @ map (\<lambda>i. (lh_sector s ! i, v_disk (view s) (lg_start s + of_nat i + 1))) (i # ts) \<and>
     v_disk (view u) = installed (lg_start s) (lh_sector s) (i # ts) (v_disk (view s)) \<and>
     v_blk (view u) = installed (lg_start s) (lh_sector s) (i # ts) (v_blk (view s)) \<and>
     v_dirty (view u) = v_dirty (view s) - (\<lambda>i. lh_sector s ! i) ` set (i # ts))"
    proof (rule returns_mono, elim conjE, intro conjI)
      fix u
      assume u: "quiet u" "disk_rest t u" "writes u = writes t @ map (\<lambda>i. (lh_sector s ! i, v_disk (view t) (lg_start s + of_nat i + 1))) ts"
        "v_disk (view u) = installed (lg_start s) (lh_sector s) ts (v_disk (view t))"
        "v_blk (view u) = installed (lg_start s) (lh_sector s) ts (v_blk (view t))"
        "v_dirty (view u) = v_dirty (view t) - (\<lambda>i. lh_sector s ! i) ` set ts"
      show "quiet u" by (rule u(1))
      show "disk_rest s u" by (rule disk_rest_trans [OF t(2) u(2)])
      show "writes u = writes s @ map (\<lambda>i. (lh_sector s ! i, v_disk (view s) (lg_start s + of_nat i + 1))) (i # ts)"
        using u(3) t(3) d by simp
      show "v_disk (view u) = installed (lg_start s) (lh_sector s) (i # ts) (v_disk (view s))"
        "v_blk (view u) = installed (lg_start s) (lh_sector s) (i # ts) (v_blk (view s))"
        using u(4,5) t(4) l by (simp_all add: installed_def)
      show "v_dirty (view u) = v_dirty (view s) - (\<lambda>i. lh_sector s ! i) ` set (i # ts)" using u(6) t(4) by auto
    qed
  qed
qed

lemma installed_eq:
  assumes "\<forall>i\<in>set ts. start + of_nat i + 1 \<in> A \<and> secs ! i \<notin> A \<and> D (start + of_nat i + 1) = N (secs ! i)"
  shows "installed start secs ts D a = (if a \<in> (\<lambda>i. secs ! i) ` set ts then N a else D a)"
  using assms
proof (induction ts arbitrary: D)
  case (Cons i ts)
  obtain E where E: "E = D(secs ! i := D (start + of_nat i + 1))" by simp
  then have e: "E x = (if x = secs ! i then N (secs ! i) else D x)" for x using Cons.prems by simp
  have "\<forall>j\<in>set ts. start + of_nat j + 1 \<in> A \<and> secs ! j \<notin> A \<and> E (start + of_nat j + 1) = N (secs ! j)"
    using Cons.prems by (auto simp: e)
  note ih = Cons.IH [OF this]
  have "installed start secs (i # ts) D = installed start secs ts E" by (simp add: installed_def E)
  then have "installed start secs (i # ts) D a = (if a \<in> (!) secs ` set ts then N a else E a)" by (simp only: ih)
  then show ?case using e [of a] by auto
qed (simp add: installed_def)

lemma log_upd_frame [simp]:
  "view (s\<lparr>lh_n := n\<rparr>) = view s" "cache_inv (s\<lparr>lh_n := n\<rparr>) = cache_inv s" "lockset L (s\<lparr>lh_n := n\<rparr>) = lockset L s"
  "view (s\<lparr>lh_n := n, lh_sector := x\<rparr>) = view s" "cache_inv (s\<lparr>lh_n := n, lh_sector := x\<rparr>) = cache_inv s"
  "lockset L (s\<lparr>lh_n := n, lh_sector := x\<rparr>) = lockset L s"
  "view (s\<lparr>lg_busy := y\<rparr>) = view s" "cache_inv (s\<lparr>lg_busy := y\<rparr>) = cache_inv s" "lockset L (s\<lparr>lg_busy := y\<rparr>) = lockset L s"
  "view (s\<lparr>lh_sector := x\<rparr>) = view s" "cache_inv (s\<lparr>lh_sector := x\<rparr>) = cache_inv s" "lockset L (s\<lparr>lh_sector := x\<rparr>) = lockset L s"
  "view (s\<lparr>lg_start := b, lg_size := c, lg_dev := d\<rparr>) = view s" "cache_inv (s\<lparr>lg_start := b, lg_size := c, lg_dev := d\<rparr>) = cache_inv s"
  "lockset L (s\<lparr>lg_start := b, lg_size := c, lg_dev := d\<rparr>) = lockset L s"
  by (simp_all add: view_def cache_inv_def disk_def lockset_def)

lemma quiet_upd [simp]:
  "quiet (s\<lparr>lh_n := n\<rparr>) = quiet s" "quiet (s\<lparr>lh_n := n, lh_sector := x\<rparr>) = quiet s" "quiet (s\<lparr>lg_busy := y\<rparr>) = quiet s"
  by (simp_all add: quiet_def)

text \<open>The log's place on the disk: at most as many blocks as there are buffers.\<close>

definition log_ok :: "'a log_st_scheme \<Rightarrow> bool" where
  "log_ok s \<longleftrightarrow> 0 < lg_size s \<and> lg_size s \<le> int NBUF \<and> unat (lg_start s) + nat (lg_size s) \<le> unat (disksize s) \<and>
     length (lh_sector s) = LOGSIZE"

lemma log_area_ok:
  assumes "log_ok s"
  shows "a \<in> log_area (lg_start s) (lg_size s) \<Longrightarrow> a < disksize s" "lg_start s \<in> log_area (lg_start s) (lg_size s)"
    "int i + 1 < lg_size s \<Longrightarrow> lg_start s + of_nat i + 1 \<in> log_area (lg_start s) (lg_size s)"
    "lg_start s + of_nat i + 1 \<noteq> lg_start s \<or> lg_size s \<le> int i + 1"
proof -
  show "a < disksize s" if "a \<in> log_area (lg_start s) (lg_size s)"
  proof -
    obtain i where i: "a = lg_start s + of_nat i" "i < nat (lg_size s)" using \<open>a \<in> _\<close> by (auto simp: log_area_def)
    then have "unat (lg_start s) + i < unat (disksize s)" using assms by (simp add: log_ok_def)
    then show ?thesis using i unat_u32_less [of "disksize s"]
      by (simp add: word_less_nat_alt unat_word_ariths(1) unat_of_nat32)
  qed
  show "lg_start s \<in> log_area (lg_start s) (lg_size s)"
    using assms by (auto simp: log_area_def log_ok_def intro: image_eqI [of _ _ 0])
  show "lg_start s + of_nat i + 1 \<in> log_area (lg_start s) (lg_size s)" if "int i + 1 < lg_size s"
    using that by (auto simp: log_area_def algebra_simps intro!: image_eqI [of _ _ "Suc i"])
  show "lg_start s + of_nat i + 1 \<noteq> lg_start s \<or> lg_size s \<le> int i + 1"
  proof (rule ccontr)
    assume "\<not> ?thesis"
    then have "of_nat (Suc i) = (0 :: u32)" "int i + 1 < 11" using assms by (auto simp: log_ok_def NBUF_def algebra_simps)
    then have "unat (of_nat (Suc i) :: u32) = 0" "Suc i < 2 ^ 32" by auto
    then show False by (simp only: unat_of_nat32)
  qed
qed

lemma disk_rest_head:
  assumes "disk_rest s t"
  shows "disk_rest (s\<lparr>lh_n := n, lh_sector := x\<rparr>) (t\<lparr>lh_n := n, lh_sector := x\<rparr>)" 
  using assms by (cases s; cases t) (simp add: disk_rest_def)

lemma read_head_spec:
  fixes s :: "'a log_st_scheme"
  assumes q: "quiet s" "lg_start s < disksize s" "v_dirty (view s) = {}"
  defines "D \<equiv> v_disk (view s) (lg_start s)"
  assumes n: "sint (get32 D 0) \<le> int LOGSIZE"
  shows "returns (read_head s) (\<lambda>t. quiet t \<and> writes t = writes s \<and> view t = view s \<and>
     disk_rest (s\<lparr>lh_n := sint (get32 D 0), lh_sector := map (\<lambda>i. get32 D (i + 1)) [0..<nat (sint (get32 D 0))] @ drop (nat (sint (get32 D 0))) (lh_sector s)\<rparr>) t)"
proof -
  have q': "cache_inv s" "lockset [] s" "lg_dev s = 1" "lg_start s \<notin> v_busy (view s)" "room (lg_start s) (view s)"
     "v_blk (view s) (lg_start s) = D"
    using q by (auto simp: quiet_def room_def NBUF_def D_def)
  note br = bread_spec [OF q'(1,2) _ q(2) q'(4,5), simplified]
  show ?thesis unfolding read_head_def q'(3)
  proof (rule returns_bindI [OF br], clarify)
    fix b t
    assume t: "cache_inv t" "held t b (lg_start s)" "b_data (bufs t ! b) = v_blk (view s) (lg_start s)"
      "view t = (view s)\<lparr>v_busy := insert (lg_start s) (v_busy (view s))\<rparr>" "disk_rest s t" "writes t = writes s" "lockset [] t" "keeps_held s t"
    have bd: "b_data (bufs t ! b) = D" using t(3) q'(6) by simp
    let ?u = "\<lambda>t :: 'a log_st_scheme. t\<lparr>lh_n := sint (get32 D 0), lh_sector := map (\<lambda>i. get32 D (i + 1)) [0..<nat (sint (get32 D 0))] @ drop (nat (sint (get32 D 0))) (lh_sector t)\<rparr>"
    have hu: "cache_inv (?u t)" "held (?u t) b (lg_start s)" "lockset [] (?u t)" using t by (simp_all add: held_def)
    have ru: "disk_rest (?u s) (?u t)" using disk_rest_head [OF t(5)] log_rest(6) [OF t(5)] by simp
    have vb: "v_busy (view s) = {}" using q by (simp add: quiet_def)
    then have v: "(view t)\<lparr>v_busy := v_busy (view t) - {lg_start s}\<rparr> = view s" using t(4) by (cases "view s") simp
    have "quiet w" if "cache_inv w" "lockset [] w" "view w = view s" "disk_rest (?u s) w" for w
      using that q q'(3) log_rest(4) [OF that(4)] by (simp add: quiet_def)
    then have "returns (brelse b (?u t)) (\<lambda>v. quiet v \<and> writes v = writes s \<and> view v = view s \<and> disk_rest (?u s) v)"
      using t(4,6) q'(6) v ru
      by (intro returns_mono [OF brelse_spec [OF hu]]) (auto simp: D_def intro: disk_rest_trans)
    then show "returns (let d = b_data (bufs t ! b); n = sint (get32 d 0)
        in if int LOGSIZE < n then Inl (Fault ''read_head: sector array'')
           else let s = t\<lparr>lh_n := n, lh_sector := map (\<lambda>i. get32 d (i + 1)) [0..<nat n] @ drop (nat n) (lh_sector t)\<rparr> in brelse b s)
     (\<lambda>v. quiet v \<and> writes v = writes s \<and> view v = view s \<and> disk_rest (?u s) v)"
      using n by (simp add: bd Let_def)
  qed
qed

lemma disk_view: "disk s = v_disk (view s)"
  by (simp add: view_def)

text \<open>The part a commit and a recovery share: copy the logged blocks home, then empty the header.\<close>

lemma disk_rest_lh_n: "disk_rest s t \<Longrightarrow> disk_rest (s\<lparr>lh_n := n\<rparr>) (t\<lparr>lh_n := n\<rparr>)"
  by (cases s; cases t) (simp add: disk_rest_def)

lemma disk_rest_lh_sector: "disk_rest s t \<Longrightarrow> disk_rest (s\<lparr>lh_sector := n\<rparr>) (t\<lparr>lh_sector := n\<rparr>)"
  by (cases s; cases t) (simp add: disk_rest_def)

lemma disk_rest_lg_busy: "disk_rest s t \<Longrightarrow> disk_rest (s\<lparr>lg_busy := n\<rparr>) (t\<lparr>lg_busy := n\<rparr>)"
  by (cases s; cases t) (simp add: disk_rest_def)

lemma install_clear_spec:
  fixes s :: "'a log_st_scheme"
  assumes q: "quiet s" "log_ok s" "lh_n s < lg_size s"
  defines "A \<equiv> log_area (lg_start s) (lg_size s)" and "S \<equiv> (\<lambda>i. lh_sector s ! i) ` {0..<nat (lh_n s)}"
  assumes secs: "\<And>i. i < nat (lh_n s) \<Longrightarrow> lh_sector s ! i \<notin> A \<and> lh_sector s ! i < disksize s \<and>
        disk s (lg_start s + of_nat i + 1) = N (lh_sector s ! i)"
    and dirty: "v_dirty (view s) = {} \<or> v_dirty (view s) = S"
  shows "returns (kbind (install_trans s) (\<lambda>s. write_head (s\<lparr>lh_n := 0\<rparr>))) (\<lambda>t. quiet t \<and> disk_rest (s\<lparr>lh_n := 0\<rparr>) t \<and>
     v_dirty (view t) = {} \<and> (\<forall>a. a \<notin> A \<longrightarrow> disk t a = (if a \<in> S then N a else disk s a)) \<and>
     writes t = writes s @ map (\<lambda>i. (lh_sector s ! i, N (lh_sector s ! i))) [0..<nat (lh_n s)] @
        [(lg_start s, head_block 0 (lh_sector s) (disk s (lg_start s)))])"
proof -
  let ?n = "nat (lh_n s)"
  define I where "I = installed (lg_start s) (lh_sector s) [0..<?n] (disk s)"
  have st: "lg_start s < disksize s" "lg_start s \<in> A" using log_area_ok [OF q(2)] by (auto simp: A_def)
  have SA: "S \<inter> A = {}" using secs by (auto simp: S_def)
  have "card S \<le> ?n" unfolding S_def using card_image_le [of "{0..<?n}"] by simp
  then have "card S < NBUF" using q(2,3) unfolding log_ok_def by linarith
  then have c: "card (v_dirty (view s)) < NBUF" using dirty by (auto simp: NBUF_def)
  have h: "\<forall>i\<in>set [0..<?n]. lg_start s + of_nat i + 1 \<in> A \<and> lh_sector s ! i \<notin> A \<and> lh_sector s ! i < disksize s"
    using secs q(3) log_area_ok(3) [OF q(2)] by (auto simp: A_def)
  have h2: "\<forall>a\<in>A. a < disksize s \<and> a \<notin> v_dirty (view s)" using SA dirty log_area_ok(1) [OF q(2)] by (auto simp: A_def)
  have h3: "[0..<?n] = [] \<or> lh_sector s ! hd [0..<?n] \<in> v_dirty (view s) \<or> card (v_dirty (view s)) < NBUF - 1"
    using dirty by (auto simp: S_def NBUF_def)
  note il = install_loop_spec [OF q(1) c h h2 h3, folded disk_view, folded I_def]
  have I: "I a = (if a \<in> S then N a else disk s a)" for a
    unfolding I_def S_def using installed_eq [of "[0..<?n]" "lg_start s" A "lh_sector s" "disk s" N a] h secs by simp
  show ?thesis unfolding install_trans_def
  proof (rule returns_bindI [OF il], elim conjE)
    fix u :: "'a log_st_scheme"
    assume u: "quiet u" "disk_rest s u" "disk u = I" "v_dirty (view u) = v_dirty (view s) - (\<lambda>i. lh_sector s ! i) ` set [0..<?n]"
      "writes u = writes s @ map (\<lambda>i. (lh_sector s ! i, disk s (lg_start s + of_nat i + 1))) [0..<?n]"
    let ?u = "u\<lparr>lh_n := 0\<rparr>"
    have fu: "lg_start ?u = lg_start s" "disksize ?u = disksize s" "lh_sector ?u = lh_sector s" "v_dirty (view ?u) = {}"
      using log_rest [OF u(2)] u(4) dirty by (auto simp: S_def)
    have "quiet ?u" "lg_start ?u < disksize ?u" "lg_start ?u \<notin> v_dirty (view ?u)" "card (v_dirty (view ?u)) < NBUF"
      using u(1) fu st(1) by (simp_all add: NBUF_def)
    note wh = write_head_spec [OF this, folded disk_view]
    have "disk ?u = I" using u(3) by (simp add: disk_def)
    moreover have "I (lg_start s) = disk s (lg_start s)" using I SA st(2) by auto
    moreover have "disk_rest (s\<lparr>lh_n := 0\<rparr>) ?u" by (rule disk_rest_lh_n [OF u(2)])
    ultimately show "returns (write_head ?u) (\<lambda>t. quiet t \<and> disk_rest (s\<lparr>lh_n := 0\<rparr>) t \<and>
     v_dirty (view t) = {} \<and> (\<forall>a. a \<notin> A \<longrightarrow> disk t a = (if a \<in> S then N a else disk s a)) \<and>
     writes t = writes s @ map (\<lambda>i. (lh_sector s ! i, N (lh_sector s ! i))) [0..<?n] @
        [(lg_start s, head_block 0 (lh_sector s) (disk s (lg_start s)))])"
      using fu st(2) u(5) secs I by (intro returns_mono [OF wh]) (auto simp: disk_view intro: disk_rest_trans)
  qed
qed

lemma recover_spec:
  fixes s :: "'a log_st_scheme"
  assumes q: "quiet s" "log_ok s" "v_dirty (view s) = {}"
  defines "A \<equiv> log_area (lg_start s) (lg_size s)" and "H \<equiv> disk s (lg_start s)"
  defines "n \<equiv> sint (get32 H 0)"
  assumes n: "n < lg_size s"
    and secs: "\<And>i. i < nat n \<Longrightarrow> get32 H (i + 1) \<notin> A \<and> get32 H (i + 1) < disksize s \<and>
       disk s (lg_start s + of_nat i + 1) = N (get32 H (i + 1))"
  shows "returns (recover_from_log s) (\<lambda>t. quiet t \<and> v_dirty (view t) = {} \<and> lh_n t = 0 \<and>
     (\<forall>a. a \<notin> A \<longrightarrow> disk t a = (if \<exists>i<nat n. get32 H (i + 1) = a then N a else disk s a)))"
proof -
  define hs where "hs = map (\<lambda>i. get32 H (i + 1)) [0..<nat n] @ drop (nat n) (lh_sector s)"
  have hs: "hs ! i = get32 H (i + 1)" if "i < nat n" for i using that by (simp add: hs_def nth_append)
  have st: "lg_start s < disksize s" "lg_start s \<in> A" using log_area_ok [OF q(2)] by (auto simp: A_def)
  have n10: "n \<le> int LOGSIZE" using n q(2) by (simp add: log_ok_def NBUF_def LOGSIZE_def)
  then have hl: "length hs = LOGSIZE" using q(2) by (simp add: hs_def log_ok_def)
  note rh = read_head_spec [OF q(1) st(1) q(3), folded disk_view, folded H_def, folded n_def, folded hs_def, OF n10]
  show ?thesis unfolding recover_from_log_def
  proof (rule returns_bindI [OF rh], elim conjE)
    fix t :: "'a log_st_scheme"
    assume t: "quiet t" "writes t = writes s" "view t = view s" "disk_rest (s\<lparr>lh_n := n, lh_sector := hs\<rparr>) t"
    have f: "lh_n t = n" "lh_sector t = hs" "lg_start t = lg_start s" "disksize t = disksize s" "lg_size t = lg_size s" "disk t = disk s"
      using log_rest [OF t(4)] t(3) by (simp_all add: disk_view)
    have ok: "log_ok t" using q(2) hl f by (simp add: log_ok_def)
    have S: "a \<in> (!) hs ` {0..<nat n} \<longleftrightarrow> (\<exists>i<nat n. get32 H (i + 1) = a)" for a using hs by (auto simp: image_iff)
    have tn: "lh_n t < lg_size t" "v_dirty (view t) = {}" using f n q(3) t(3) by simp_all
    note ic = install_clear_spec [OF t(1) ok tn(1), unfolded f S, folded A_def, of N, OF _ disjI1 [OF tn(2)]]
    have "lh_n w = 0" if "disk_rest (t\<lparr>lh_n := 0\<rparr>) w" for w :: "'a log_st_scheme" using log_rest(5) [OF that] by simp
    then show "returns (kbind (install_trans t) (\<lambda>s. write_head (s\<lparr>lh_n := 0\<rparr>))) (\<lambda>t. quiet t \<and> v_dirty (view t) = {} \<and> lh_n t = 0 \<and>
     (\<forall>a. a \<notin> A \<longrightarrow> disk t a = (if \<exists>i<nat n. get32 H (i + 1) = a then N a else disk s a)))"
      using secs hs by (intro returns_mono [OF ic]) simp_all
  qed
qed

lemma log_unlock:
  fixes u :: "'a log_st_scheme"
  assumes "quiet u"
  shows "returns (kbind (acquire LLog u) (\<lambda>s. kbind (wakeup ChLog (s\<lparr>lg_busy := False\<rparr>)) (release LLog)))
    (\<lambda>t. quiet t \<and> view t = view u \<and> writes t = writes u \<and> disk_rest (u\<lparr>lg_busy := False\<rparr>) t)"
proof -
  have "lockset [] u" using assms by (simp add: quiet_def)
  then have a: "acquire LLog u = Inr (acq LLog u)" "lockset [LLog] (acq LLog u)" using acquire_acq [of "[]" u LLog] by auto
  define v where "v = (acq LLog u)\<lparr>lg_busy := False\<rparr>"
  have lv: "lockset [LLog] v" using a(2) by (simp add: v_def)
  define w where "w = rel LPtable (wakeup1 (Some ChLog) (acq LPtable v))"
  have w: "wakeup ChLog v = Inr w" "lockset [LLog] w" using wakeup_ok [OF lv, of ChLog] by (simp_all add: w_def)
  have r: "release LLog w = Inr (rel LLog w)" "lockset [] (rel LLog w)" using release_rel [OF w(2)] by auto
  have e: "v = acq LLog (u\<lparr>lg_busy := False\<rparr>)" by (simp add: v_def acq_def pushcli_def Let_def)
  have d: "disk_rest (u\<lparr>lg_busy := False\<rparr>) (rel LLog w)"
    unfolding w_def e by (rule disk_rest_trans [OF disk_rest_trans [OF disk_rest_trans [OF disk_rest_trans]]]) (rule disk_rest_upd)+
  have "bufs (rel LLog w) = bufs u" "disk (rel LLog w) = disk u" "writes (rel LLog w) = writes u"
    using log_rest(8) [OF d] by (simp_all add: w_def v_def disk_def)
  then have "quiet (rel LLog w) \<and> view (rel LLog w) = view u \<and> writes (rel LLog w) = writes u"
    using assms r(2) view_cong [of "rel LLog w" u] log_rest(4) [OF d] by (simp add: quiet_def)
  with d show ?thesis by (simp add: a(1) v_def [symmetric] w(1) r(1))
qed

text \<open>A transaction in progress: the sectors listed in the in-memory header are the dirty blocks, the log
  holds their contents, and the header on the disk is still empty.\<close>

definition trans_inv :: "'a log_st_scheme \<Rightarrow> bool" where
  "trans_inv s \<longleftrightarrow> quiet s \<and> log_ok s \<and> 0 \<le> lh_n s \<and> lh_n s < lg_size s \<and> distinct (take (nat (lh_n s)) (lh_sector s)) \<and>
     v_dirty (view s) = (\<lambda>i. lh_sector s ! i) ` {0..<nat (lh_n s)} \<and>
     (\<forall>i<nat (lh_n s). lh_sector s ! i \<notin> log_area (lg_start s) (lg_size s) \<and> lh_sector s ! i < disksize s \<and>
        disk s (lg_start s + of_nat i + 1) = v_blk (view s) (lh_sector s ! i)) \<and>
     length (disk s (lg_start s)) = BSIZE \<and> get32 (disk s (lg_start s)) 0 = 0"

definition trans_ready :: "'a log_st_scheme \<Rightarrow> bool" where
  "trans_ready s \<longleftrightarrow> trans_inv s \<and> 0 < lh_n s"

definition commit_writes :: "'a log_st_scheme \<Rightarrow> sector_writes" where
  "commit_writes s = (let H = head_block (lh_n s) (lh_sector s) (disk s (lg_start s))
     in (lg_start s, H) # map (\<lambda>i. (lh_sector s ! i, v_blk (view s) (lh_sector s ! i))) [0..<nat (lh_n s)] @
        [(lg_start s, head_block 0 (lh_sector s) H)])"

lemma commit_spec:
  fixes s :: "'a log_st_scheme"
  assumes r: "trans_ready s"
  shows "returns (commit_trans s) (\<lambda>t. writes t = writes s @ commit_writes s \<and> quiet t \<and> v_dirty (view t) = {} \<and>
     disk_rest (s\<lparr>lh_n := 0, lg_busy := False\<rparr>) t \<and> (\<forall>a. a \<notin> log_area (lg_start s) (lg_size s) \<longrightarrow> disk t a = v_blk (view s) a))"
proof -
  define A where "A = log_area (lg_start s) (lg_size s)"
  define H where "H = head_block (lh_n s) (lh_sector s) (disk s (lg_start s))"
  let ?n = "nat (lh_n s)"
  let ?S = "(\<lambda>i. lh_sector s ! i) ` {0..<?n}"
  have q: "quiet s" "log_ok s" "0 < lh_n s" and dirty: "v_dirty (view s) = ?S"
    and secs: "\<And>i. i < ?n \<Longrightarrow> lh_sector s ! i \<notin> A \<and> lh_sector s ! i < disksize s \<and>
        disk s (lg_start s + of_nat i + 1) = v_blk (view s) (lh_sector s ! i)" and n: "lh_n s < lg_size s"
    using r by (auto simp: trans_ready_def trans_inv_def A_def)
  have st: "lg_start s < disksize s" "lg_start s \<in> A" using log_area_ok [OF q(2)] by (auto simp: A_def)
  have nd: "lg_start s \<notin> v_dirty (view s)" using st(2) secs by (auto simp: dirty)
  have "card (v_dirty (view s)) \<le> ?n" unfolding dirty using card_image_le [of "{0..<?n}"] by simp
  then have c: "card (v_dirty (view s)) < NBUF" using n q(2) unfolding log_ok_def by linarith
  note wh = write_head_spec [OF q(1) st(1) nd c, folded disk_view, folded H_def]
  show ?thesis unfolding commit_trans_def if_P [OF q(3)] kbind_assoc [of "write_head s"] A_def [symmetric]
  proof (rule returns_bindI [OF wh], elim conjE)
    fix t :: "'a log_st_scheme"
    assume t: "quiet t" "disk_rest s t" "writes t = writes s @ [(lg_start s, H)]"
     "view t = (view s)\<lparr>v_blk := (v_blk (view s))(lg_start s := H), v_disk := (disk s)(lg_start s := H)\<rparr>"
    note f = log_rest(1,2,5,6,7) [OF t(2)]
    have ne: "lg_start s + of_nat i + 1 \<noteq> lg_start s" if "i < ?n" for i
      using that n log_area_ok(4) [OF q(2), of i] by auto
    have dt: "disk t = (disk s)(lg_start s := H)" using t(4) by (simp add: disk_view)
    have "log_ok t" "lh_n t < lg_size t" "v_dirty (view t) = ?S" using q(2) n f dirty t(4) by (simp_all add: log_ok_def)
    note ic = install_clear_spec [OF t(1) this(1,2), unfolded f, folded A_def, of "v_blk (view s)", OF _ disjI2 [OF this(3)]]
    have sec': "lh_sector s ! i \<notin> A \<and> lh_sector s ! i < disksize s \<and> disk t (lg_start s + of_nat i + 1) = v_blk (view s) (lh_sector s ! i)"
      if "i < ?n" for i using secs that ne dt by simp
    have na: "(if a \<in> ?S then v_blk (view s) a else disk t a) = v_blk (view s) a" if "a \<notin> A" for a
      using that dt st(2) q(1) by (auto simp: quiet_def dirty disk_view)
    show "returns (kbind (kbind (install_trans t) (\<lambda>s. write_head (s\<lparr>lh_n := 0\<rparr>))) (\<lambda>s.
         kbind (acquire LLog s) (\<lambda>s. kbind (wakeup ChLog (s\<lparr>lg_busy := False\<rparr>)) (release LLog))))
       (\<lambda>t. writes t = writes s @ commit_writes s \<and> quiet t \<and> v_dirty (view t) = {} \<and>
         disk_rest (s\<lparr>lh_n := 0, lg_busy := False\<rparr>) t \<and> (\<forall>a. a \<notin> A \<longrightarrow> disk t a = v_blk (view s) a))"
    proof (rule returns_bindI [OF ic [OF sec']], assumption, elim conjE)
      fix w :: "'a log_st_scheme"
      assume w: "quiet w" "disk_rest (t\<lparr>lh_n := 0\<rparr>) w" "v_dirty (view w) = {}"
        "\<forall>a. a \<notin> A \<longrightarrow> disk w a = (if a \<in> ?S then v_blk (view s) a else disk t a)"
        "writes w = writes t @ map (\<lambda>i. (lh_sector s ! i, v_blk (view s) (lh_sector s ! i))) [0..<?n] @
          [(lg_start s, head_block 0 (lh_sector s) (disk t (lg_start s)))]"
      have ww: "writes w = writes s @ commit_writes s" "\<forall>a. a \<notin> A \<longrightarrow> v_disk (view w) a = v_blk (view s) a"
        using w(4,5) na t(3) dt by (simp_all add: commit_writes_def H_def Let_def disk_view)
      have "disk_rest (s\<lparr>lh_n := 0, lg_busy := False\<rparr>) (w\<lparr>lg_busy := False\<rparr>)"
        by (rule disk_rest_lg_busy [OF disk_rest_trans [OF disk_rest_lh_n [OF t(2)] w(2)]])
      then show "returns (kbind (acquire LLog w) (\<lambda>s. kbind (wakeup ChLog (s\<lparr>lg_busy := False\<rparr>)) (release LLog)))
        (\<lambda>t. writes t = writes s @ commit_writes s \<and> quiet t \<and> v_dirty (view t) = {} \<and>
          disk_rest (s\<lparr>lh_n := 0, lg_busy := False\<rparr>) t \<and> (\<forall>a. a \<notin> A \<longrightarrow> disk t a = v_blk (view s) a))"
        using ww w(3) by (intro returns_mono [OF log_unlock [OF w(1)]]) (auto simp: disk_view intro: disk_rest_trans)
    qed
  qed
qed

section \<open>Logging a block\<close>

lemma log_slot_cases:
  obtains (found) i where "log_slot a s = i" "i < nat (lh_n s)" "lh_sector s ! i = a"
  | (new) "log_slot a s = nat (lh_n s)" "\<And>j. j < nat (lh_n s) \<Longrightarrow> lh_sector s ! j \<noteq> a"
proof (cases "List.find (\<lambda>i. lh_sector s ! i = a) [0..<nat (lh_n s)]")
  case None
  then have "log_slot a s = nat (lh_n s)" by (simp add: log_slot_def)
  with None show thesis by (intro new) (auto simp: find_None_iff)
next
  case (Some i)
  then have "log_slot a s = i" by (simp add: log_slot_def)
  with Some show thesis by (intro found [of i]) (auto simp: find_Some_iff)
qed

lemma log_block_inj:
  assumes "i < 2 ^ 31" "j < 2 ^ 31" "lg + of_nat i + 1 = lg + of_nat j + (1 :: u32)"
  shows "i = j"
proof -
  have "(of_nat i :: u32) = of_nat j" using assms(3) by simp
  then have "unat (of_nat i :: u32) = unat (of_nat j :: u32)" by simp
  then show ?thesis using assms(1,2) by (simp add: unat_of_nat32)
qed

text \<open>A client's update of one block inside a transaction: read it, change it, log it, release it.\<close>

definition log_update :: "u32 \<Rightarrow> (u8 list \<Rightarrow> u8 list) \<Rightarrow> 'a log_st_scheme \<Rightarrow> ('a log_st_scheme, 'a log_st_scheme) kres" where
  "log_update a f s = kbind (bread 1 a s) (\<lambda>(b, s). kbind (log_write b (upd_buf b (\<lambda>q. q\<lparr>b_data := f (b_data q)\<rparr>) s)) (brelse b))"

lemma log_write_held:
  fixes s :: "'a log_st_scheme"
  assumes c: "cache_inv s" "lockset [] s" "held s b a" and g: "lg_busy s" "0 \<le> lh_n s" "lh_n s < int LOGSIZE" "lh_n s < lg_size s - 1"
  defines "i \<equiv> log_slot a s"
  defines "l \<equiv> lg_start s + of_nat i + 1" and "x \<equiv> v_blk (view s) a"
  assumes l: "l < disksize s" "l \<notin> v_busy (view s)" "room l (view s)"
  shows "returns (log_write b s) (\<lambda>t. cache_inv t \<and> lockset [] t \<and> held t b a \<and> writes t = writes s @ [(l, x)] \<and>
     disk_rest (s\<lparr>lh_sector := (lh_sector s)[i := a], lh_n := (if int i = lh_n s then lh_n s + 1 else lh_n s)\<rparr>) t \<and>
     view t = (view s)\<lparr>v_blk := (v_blk (view s))(l := x), v_disk := (v_disk (view s))(l := x), v_dirty := insert a (v_dirty (view s) - {l})\<rparr>)"
proof -
  note hf = held_fields [OF c(1,3)]
  let ?s = "s\<lparr>lh_sector := (lh_sector s)[i := a]\<rparr>"
  let ?K = "\<lambda>s :: 'a log_st_scheme. upd_buf b (b_dirty_update (\<lambda>_. True)) (if int i = lh_n s then s\<lparr>lh_n := lh_n s + 1\<rparr> else s)"
  have w: "log_write b s = kbind (kbind (bread 1 l ?s) (\<lambda>(lb, t). kbind (bwrite lb
       (upd_buf lb (b_data_update (\<lambda>_. b_data (bufs t ! b))) t)) (brelse lb))) (\<lambda>s. Inr (?K s))"
    using hf(3) g by (simp add: log_write_def kbind_assoc case_prod_beta' Let_def holds_sector_def i_def l_def)
  have p: "cache_inv ?s" "lockset [] ?s" "l < disksize ?s" "l \<notin> v_busy (view ?s)" "room l (view ?s)" using c l by simp_all
  have hs: "held ?s b a" using c(3) by (simp add: held_def)
  have x: "b_data (bufs t ! b) = x" if "cache_inv t" "keeps_held ?s t" "v_blk (view t) = v_blk (view ?s)" for t
    using that hs held_blk [of t b a] by (simp add: keeps_held_def x_def)
  have wb: "returns (kbind (bread 1 l ?s) (\<lambda>(lb, t). kbind (bwrite lb
       (upd_buf lb (b_data_update (\<lambda>_. b_data (bufs t ! b))) t)) (brelse lb)))
    (\<lambda>t. cache_inv t \<and> lockset [] t \<and> disk_rest ?s t \<and> writes t = writes ?s @ [(l, x)] \<and>
      view t = (view ?s)\<lparr>v_blk := (v_blk (view ?s))(l := x), v_disk := (v_disk (view ?s))(l := x), v_dirty := v_dirty (view ?s) - {l}\<rparr> \<and>
      keeps_held ?s t)"
    by (rule write_block_spec [OF p(1,2) _ _ p(3-5)]) (use x in simp_all)
  show ?thesis unfolding w
  proof (rule returns_bindI [OF wb], simp only: log_upd_frame, elim conjE)
    fix t :: "'a log_st_scheme"
    assume t: "cache_inv t" "lockset [] t" "disk_rest ?s t" "writes t = writes ?s @ [(l, x)]"
      "view t = (view s)\<lparr>v_blk := (v_blk (view s))(l := x), v_disk := (v_disk (view s))(l := x), v_dirty := v_dirty (view s) - {l}\<rparr>"
      "keeps_held ?s t"
    let ?m = "if int i = lh_n s then lh_n s + 1 else lh_n s"
    define u where "u = t\<lparr>lh_n := ?m\<rparr>"
    have "held t b a" using t(6) hs unfolding keeps_held_def by blast
    then have h: "held u b a" "cache_inv u" "lockset [] u" "view u = view t" using t by (simp_all add: u_def held_def)
    have n: "lh_n t = lh_n s" using log_rest(5) [OF t(3)] by simp
    have e: "t\<lparr>lh_n := lh_n s\<rparr> = t" unfolding n [symmetric] by simp
    have K: "?K t = upd_buf b (b_dirty_update (\<lambda>_. True)) u"
      unfolding u_def n by (cases "int i = lh_n s") (simp_all only: e if_True if_False simp_thms)
    have "disk_rest (?s\<lparr>lh_n := ?m\<rparr>) u" unfolding u_def by (rule disk_rest_lh_n [OF t(3)])
    then have "disk_rest (?s\<lparr>lh_n := ?m\<rparr>) (upd_buf b (b_dirty_update (\<lambda>_. True)) u)" by (rule disk_rest_trans) simp
    then show "returns (Inr (?K t)) (\<lambda>t. cache_inv t \<and> lockset [] t \<and> held t b a \<and> writes t = writes s @ [(l, x)] \<and>
     disk_rest (s\<lparr>lh_sector := (lh_sector s)[i := a], lh_n := ?m\<rparr>) t \<and>
     view t = (view s)\<lparr>v_blk := (v_blk (view s))(l := x), v_disk := (v_disk (view s))(l := x), v_dirty := insert a (v_dirty (view s) - {l})\<rparr>)"
      unfolding K using view_set_dirty [OF h(2,1)] h(3,4) t(4,5) by (simp add: u_def returns_def)
  qed
qed

text \<open>Logging the contents \<open>x\<close> of block \<open>a\<close> keeps the invariant of the transaction.\<close>

lemma trans_inv_log:
  fixes s z :: "'a log_st_scheme"
  assumes inv: "trans_inv s" and g: "lh_n s < lg_size s - 1" and a: "a \<notin> log_area (lg_start s) (lg_size s)" "a < disksize s"
  defines "i \<equiv> log_slot a s"
  defines "l \<equiv> lg_start s + of_nat i + 1"
  assumes z: "cache_inv z" "lockset [] z"
    "disk_rest (s\<lparr>lh_sector := (lh_sector s)[i := a], lh_n := (if int i = lh_n s then lh_n s + 1 else lh_n s)\<rparr>) z"
    "view z = (view s)\<lparr>v_blk := (v_blk (view s))(a := x, l := x), v_disk := (v_disk (view s))(l := x), v_dirty := insert a (v_dirty (view s))\<rparr>"
  shows "trans_inv z" "l \<in> log_area (lg_start s) (lg_size s)" "l \<noteq> lg_start s"
proof -
  define A where "A = log_area (lg_start s) (lg_size s)"
  let ?n = "nat (lh_n s)"
  have q: "quiet s" "log_ok s" "0 \<le> lh_n s" "distinct (take ?n (lh_sector s))" "length (disk s (lg_start s)) = BSIZE" "get32 (disk s (lg_start s)) 0 = 0"
    and dirty: "v_dirty (view s) = (\<lambda>i. lh_sector s ! i) ` {0..<?n}"
    and secs: "\<And>j. j < ?n \<Longrightarrow> lh_sector s ! j \<notin> A \<and> lh_sector s ! j < disksize s \<and>
        disk s (lg_start s + of_nat j + 1) = v_blk (view s) (lh_sector s ! j)"
    using inv by (auto simp: trans_inv_def A_def)
  have ll: "length (lh_sector s) = LOGSIZE" "lg_size s \<le> 10" using q(2) by (simp_all add: log_ok_def NBUF_def)
  then have n9: "?n < 9" "?n < LOGSIZE" using g by (simp_all add: LOGSIZE_def)
  have i: "i \<le> ?n" unfolding i_def by (cases rule: log_slot_cases [of a s]) auto
  have iother: "lh_sector s ! j \<noteq> a" if "j < ?n" "j \<noteq> i" for j
    using log_slot_cases [of a s]
  proof cases
    case (found k)
    then show ?thesis using that nth_eq_iff_index_eq [OF q(4), of j k] ll(1) n9(2) by (auto simp: i_def)
  qed (use that in \<open>auto simp: i_def\<close>)
  have ii: "i < ?n \<Longrightarrow> lh_sector s ! i = a" unfolding i_def by (cases rule: log_slot_cases [of a s]) auto
  show la: "l \<in> log_area (lg_start s) (lg_size s)" "l \<noteq> lg_start s"
    using i g q(3) log_area_ok(3,4) [OF q(2), of i] by (auto simp: l_def)
  let ?xs = "(lh_sector s)[i := a]" and ?m = "if int i = lh_n s then lh_n s + 1 else lh_n s"
  have m: "nat ?m = (if i = ?n then Suc i else ?n)" using q(3) by (auto simp: nat_add_distrib)
  have nth: "?xs ! j = (if j = i then a else lh_sector s ! j)" if "j < nat ?m" for j
    using that i n9(2) ll(1) m by (auto simp: nth_list_update split: if_splits)
  note f = log_rest [OF z(3), simplified]
  have dz: "disk z = (disk s)(l := x)" using z(4) by (simp add: disk_view)
  have "distinct (take (nat ?m) ?xs)" 
    using q(4) iother i ll(1) n9(2) unfolding distinct_conv_nth m by (auto simp: nth_list_update less_Suc_eq split: if_splits)
  moreover have "insert a (v_dirty (view s)) = (\<lambda>j. ?xs ! j) ` {0..<nat ?m}"
  proof -
    have "(\<lambda>j. ?xs ! j) ` {0..<nat ?m} = (\<lambda>j. if j = i then a else lh_sector s ! j) ` {0..<nat ?m}" using nth by (intro image_cong) auto
    then show ?thesis using i ii unfolding m dirty by (cases "i = ?n") (auto simp: atLeast0_lessThan_Suc image_iff)
  qed
  moreover have "?xs ! j \<notin> A \<and> ?xs ! j < disksize s \<and> disk z (lg_start s + of_nat j + 1) = v_blk (view z) (?xs ! j)" if "j < nat ?m" for j
  proof -
    have "j < 2 ^ 31" "i < 2 ^ 31" using that m i n9(1) by (simp_all split: if_splits)
    then have "lg_start s + of_nat j + 1 = l \<longleftrightarrow> j = i" using log_block_inj [of j i "lg_start s"] by (auto simp: l_def)
    moreover have "lh_sector s ! j \<noteq> l" "lh_sector s ! j \<noteq> a" if "j \<noteq> i" "j < ?n" using that secs la(1) iother by (auto simp: A_def)
    ultimately show ?thesis using that secs [of j] a la(1) nth [OF that] m z(4) dz by (auto simp: A_def split: if_splits)
  qed
  moreover have "quiet z" using q(1) z f(4) la(1) by (auto simp: quiet_def)
  ultimately show "trans_inv z" using q(2,3,5,6) g la(2) dz f z(4) m by (simp add: trans_inv_def log_ok_def A_def)
qed


lemma log_update_spec:
  fixes s :: "'a log_st_scheme" and f :: "u8 list \<Rightarrow> u8 list"
  assumes inv: "trans_inv s" and g: "lg_busy s" "lh_n s < lg_size s - 1"
    and a: "a \<notin> log_area (lg_start s) (lg_size s)" "a < disksize s"
  defines "x \<equiv> f (v_blk (view s) a)"
  shows "returns (log_update a f s) (\<lambda>t. trans_inv t \<and> lg_busy t \<and> lh_n t \<le> lh_n s + 1 \<and> 0 < lh_n t \<and>
     lg_start t = lg_start s \<and> lg_size t = lg_size s \<and> disksize t = disksize s \<and> image t = image s \<and> v_dirty (view t) = insert a (v_dirty (view s)) \<and>
     (\<forall>a'. a' \<notin> log_area (lg_start s) (lg_size s) \<longrightarrow> v_blk (view t) a' = (if a' = a then x else v_blk (view s) a')) \<and>
     (\<exists>l\<in>log_area (lg_start s) (lg_size s) - {lg_start s}. writes t = writes s @ [(l, x)]))"
proof -
  let ?A = "log_area (lg_start s) (lg_size s)"
  let ?n = "nat (lh_n s)"
  have q: "quiet s" "log_ok s" "0 \<le> lh_n s" and dirty: "v_dirty (view s) = (\<lambda>i. lh_sector s ! i) ` {0..<?n}"
    and dA: "\<And>d. d \<in> v_dirty (view s) \<Longrightarrow> d \<notin> ?A"
    using inv by (auto simp: trans_inv_def)
  have q': "cache_inv s" "lockset [] s" "v_busy (view s) = {}" using q(1) by (auto simp: quiet_def)
  have "card (v_dirty (view s)) \<le> ?n" unfolding dirty using card_image_le [of "{0..<?n}"] by simp
  then have c: "card (v_dirty (view s)) < NBUF - 1" using g(2) q(2,3) unfolding log_ok_def NBUF_def by linarith
  have fin: "finite (v_dirty (view s))" by (simp add: dirty)
  have "a \<notin> v_busy (view s)" "room a (view s)" using q'(3) c by (simp_all add: room_def NBUF_def)
  note br = bread_spec [OF q'(1,2) _ a(2) this, simplified]
  show ?thesis unfolding log_update_def
  proof (rule returns_bindI [OF br], clarify)
    fix b and t :: "'a log_st_scheme"
    assume t: "cache_inv t" "held t b a" "view t = (view s)\<lparr>v_busy := insert a (v_busy (view s))\<rparr>" "disk_rest s t"
      "writes t = writes s" "lockset [] t" "b_data (bufs t ! b) = v_blk (view s) a"
    define u where "u = upd_buf b (b_data_update (\<lambda>_. x)) t"
    have eu: "upd_buf b (\<lambda>q. q\<lparr>b_data := f (b_data q)\<rparr>) t = u" by (simp add: u_def upd_buf_data t(7) x_def)
    have ru: "disk_rest s u" unfolding u_def by (rule disk_rest_trans [OF t(4)]) simp
    note sd = view_set_data [OF t(1,2), of x, folded u_def] and fs = log_rest [OF ru]
    have lu: "lockset [] u" "writes u = writes s" using t(5,6) by (simp_all add: u_def)
    define i where "i = log_slot a s"
    define l where "l = lg_start s + of_nat i + 1"
    have "log_slot a u = i" unfolding i_def log_slot_def fs(5,6) by simp
    moreover have "i \<le> ?n" unfolding i_def by (cases rule: log_slot_cases [of a s]) auto
    ultimately have i: "log_slot a u = i" "i \<le> ?n" .
    have l: "l \<in> ?A" using log_area_ok(3) [OF q(2), of i] i(2) g(2) q(3) by (simp add: l_def)
    have vu: "view u = (view s)\<lparr>v_busy := {a}, v_blk := (v_blk (view s))(a := x)\<rparr>" using sd(4) t(3) q'(3) by simp
    have rl: "room l (view u)" "l \<noteq> a" using l a(1) c fin by (auto simp: room_def vu card_insert_if)
    have pre: "lg_busy u" "0 \<le> lh_n u" "lh_n u < int LOGSIZE" "lh_n u < lg_size u - 1" "l < disksize u" "l \<notin> v_busy (view u)"
      using fs g q(2,3) rl(2) vu log_area_ok(1) [OF q(2) l] by (auto simp: log_ok_def NBUF_def LOGSIZE_def)
    note lw = log_write_held [OF sd(1) lu(1) sd(2) pre(1-4), unfolded i(1) fs, folded l_def, OF pre(5,6) [unfolded fs] rl(1)]
    show "returns (kbind (log_write b (upd_buf b (\<lambda>q. q\<lparr>b_data := f (b_data q)\<rparr>) t)) (brelse b)) (\<lambda>t. trans_inv t \<and> lg_busy t \<and> lh_n t \<le> lh_n s + 1 \<and> 0 < lh_n t \<and>
     lg_start t = lg_start s \<and> lg_size t = lg_size s \<and> disksize t = disksize s \<and> image t = image s \<and> v_dirty (view t) = insert a (v_dirty (view s)) \<and>
     (\<forall>a'. a' \<notin> ?A \<longrightarrow> v_blk (view t) a' = (if a' = a then x else v_blk (view s) a')) \<and>
     (\<exists>l\<in>?A - {lg_start s}. writes t = writes s @ [(l, x)]))"
      unfolding eu
    proof (rule returns_bindI [OF lw], elim conjE)
      fix w :: "'a log_st_scheme"
      let ?m = "if int i = lh_n s then lh_n s + 1 else lh_n s"
      assume w: "cache_inv w" "lockset [] w" "held w b a" "writes w = writes u @ [(l, v_blk (view u) a)]"
        "disk_rest (u\<lparr>lh_sector := (lh_sector s)[i := a], lh_n := ?m\<rparr>) w"
        "view w = (view u)\<lparr>v_blk := (v_blk (view u))(l := v_blk (view u) a), v_disk := (v_disk (view u))(l := v_blk (view u) a),
           v_dirty := insert a (v_dirty (view u) - {l})\<rparr>"
      have "v_dirty (view s) - {l} = v_dirty (view s)" using dA l by auto
      then have vw: "(view w)\<lparr>v_busy := v_busy (view w) - {a}\<rparr> = (view s)\<lparr>v_blk := (v_blk (view s))(a := x, l := x),
          v_disk := (v_disk (view s))(l := x), v_dirty := insert a (v_dirty (view s))\<rparr>"
        using w(6) vu q'(3) by (cases "view s") simp
      have rw: "disk_rest (s\<lparr>lh_sector := (lh_sector s)[i := a], lh_n := ?m\<rparr>) w"
        by (rule disk_rest_trans [OF disk_rest_lh_n [OF disk_rest_lh_sector [OF ru]] w(5)])
      have "a \<in> v_dirty (view w) \<or> v_blk (view w) a = v_disk (view w) a" using w(6) by simp
      note bl = brelse_spec [OF w(1,3,2) _ _ this, simplified, unfolded vw]
      have post: "trans_inv z \<and> lg_busy z \<and> lh_n z \<le> lh_n s + 1 \<and> 0 < lh_n z \<and> lg_start z = lg_start s \<and> lg_size z = lg_size s \<and>
          disksize z = disksize s \<and> image z = image s \<and> l \<noteq> lg_start s"
        if z: "cache_inv z" "lockset [] z" "disk_rest w z" "view z = (view s)\<lparr>v_blk := (v_blk (view s))(a := x, l := x),
          v_disk := (v_disk (view s))(l := x), v_dirty := insert a (v_dirty (view s))\<rparr>" for z :: "'a log_st_scheme"
        using trans_inv_log [OF inv g(2) a z(1,2), folded i_def, folded l_def, OF disk_rest_trans [OF rw z(3)] z(4)]
          log_rest [OF disk_rest_trans [OF rw z(3)]] g(1) q(3) i(2) by auto
      show "returns (brelse b w) (\<lambda>t. trans_inv t \<and> lg_busy t \<and> lh_n t \<le> lh_n s + 1 \<and> 0 < lh_n t \<and>
     lg_start t = lg_start s \<and> lg_size t = lg_size s \<and> disksize t = disksize s \<and> image t = image s \<and> v_dirty (view t) = insert a (v_dirty (view s)) \<and>
     (\<forall>a'. a' \<notin> ?A \<longrightarrow> v_blk (view t) a' = (if a' = a then x else v_blk (view s) a')) \<and>
     (\<exists>l\<in>?A - {lg_start s}. writes t = writes s @ [(l, x)]))" 
        using l rl(2) w(4) lu(2) vu a(1) post by (intro returns_mono [OF bl]) auto
    qed
  qed
qed

end
