(* ===== verification/Log_Crash.thy ===== *)
theory Log_Crash
  imports Log_Lemmas
begin

text \<open>
  Crashes. The disk is an initial image and the sequence of writes made since, so the disk after a
  crash is the image under a prefix of them; the kernel then boots with \<open>binit\<close> and \<open>initlog\<close>.
  \<open>run_trans\<close> is a transaction as a client of the log makes it: \<open>begin_trans\<close>, for each block \<open>bread\<close>,
  a change of its data, \<open>log_write\<close> and \<open>brelse\<close>, and at the end \<open>commit_trans\<close>.
\<close>

section \<open>Crash and recovery\<close>

lemma lockset_initlock [simp]: "lockset [] s \<Longrightarrow> lockset [] (initlock lk s)"
  by (auto simp: lockset_def initlock_def)

lemma initlock_log [simp]:
  "bufs (initlock lk s) = bufs s" "disk (initlock lk s) = disk s" "disksize (initlock lk s) = disksize s"
  "lh_sector (initlock lk s) = lh_sector s" "view (initlock lk s) = view s" "cache_inv (initlock lk s) = cache_inv s"
  by (simp_all add: initlock_def disk_def view_def cache_inv_def)

text \<open>What the super block says of the log.\<close>

definition sb_start :: "u8 list \<Rightarrow> u32" where "sb_start d = get32 d 0 - get32 d 3"

lemma readsb_spec:
  assumes "cache_inv s" "lockset [] s" "1 < disksize s" "v_busy (view s) = {}" "card (v_dirty (view s)) < NBUF" "v_blk (view s) 1 = disk s 1"
  shows "returns (readsb 1 s) (\<lambda>(sb, t). sb_size sb - sb_nlog sb = sb_start (disk s 1) \<and> sb_nlog sb = get32 (disk s 1) 3 \<and>
     cache_inv t \<and> lockset [] t \<and> disk_rest s t \<and> writes t = writes s \<and> view t = view s)"
proof -
  have a: "1 \<notin> v_busy (view s)" "room 1 (view s)" using assms(4,5) by (simp_all add: room_def)
  note br = bread_spec [OF assms(1,2) _ assms(3) a, simplified]
  show ?thesis unfolding readsb_def
  proof (rule returns_bindI [OF br], clarify)
    fix b t
    assume t: "cache_inv t" "held t b 1" "b_data (bufs t ! b) = v_blk (view s) 1" "view t = (view s)\<lparr>v_busy := insert 1 (v_busy (view s))\<rparr>"
      "disk_rest s t" "writes t = writes s" "lockset [] t" "keeps_held s t"
    have ok: "1 \<in> v_dirty (view t) \<or> v_blk (view t) 1 = v_disk (view t) 1" using t(4) assms(6) by (simp add: disk_view)
    have v: "(view t)\<lparr>v_busy := v_busy (view t) - {1}\<rparr> = view s" using t(4) assms(4) by (cases "view s") simp
    note bl = brelse_spec [OF t(1,2,7) _ _ ok, simplified, unfolded v]
    show "returns (let d = b_data (bufs t ! b); sb = \<lparr>sb_size = get32 d 0, sb_nblocks = get32 d 1, sb_ninodes = get32 d 2, sb_nlog = get32 d 3\<rparr>
           in kbind (brelse b t) (\<lambda>s. Inr (sb, s)))
     (\<lambda>(sb, t). sb_size sb - sb_nlog sb = sb_start (disk s 1) \<and> sb_nlog sb = get32 (disk s 1) 3 \<and>
     cache_inv t \<and> lockset [] t \<and> disk_rest s t \<and> writes t = writes s \<and> view t = view s)"
      unfolding Let_def
      by (rule returns_bindI [OF bl]) (use t(3,5,6) assms(6) in \<open>auto simp: sb_start_def returns_def intro: disk_rest_trans\<close>)
  qed
qed

text \<open>A machine that has just started: nothing is locked, the buffers of the kernel image are clear.\<close>

definition fresh :: "'a log_st_scheme \<Rightarrow> bool" where
  "fresh u \<longleftrightarrow> lockset [] u \<and> length (bufs u) = NBUF + 1 \<and> list_all clear_buf (take NBUF (bufs u)) \<and> length (lh_sector u) = LOGSIZE"

lemma binit_fresh:
  assumes "fresh u"
  shows "cache_inv (binit u)" "view (binit u) = \<lparr>v_blk = disk u, v_disk = disk u, v_busy = {}, v_dirty = {}\<rparr>"
    "lockset [] (binit u)" "disksize (binit u) = disksize u" "lh_sector (binit u) = lh_sector u" "disk (binit u) = disk u"
proof -
  have u: "lockset [] u" "length (bufs u) = NBUF + 1" "\<forall>i<NBUF. clear_buf (bufs u ! i)"
    using assms by (auto simp: fresh_def list_all_length)
  show "cache_inv (binit u)" "view (binit u) = \<lparr>v_blk = disk u, v_disk = disk u, v_busy = {}, v_dirty = {}\<rparr>"
    using binit_cache_inv [OF u(2,3)] by simp_all
  show "lockset [] (binit u)" using lockset_initlock [OF u(1), of LBcache] by (simp add: binit_def lockset_def Let_def upd_buf_def)
  show "disksize (binit u) = disksize u" "lh_sector (binit u) = lh_sector u" "disk (binit u) = disk u"
    by (simp_all add: binit_def initlock_def upd_buf_def disk_def)
qed

lemma initlog_spec:
  fixes u :: "'a log_st_scheme"
  assumes f: "fresh u" "1 < disksize u"
  defines "start \<equiv> sb_start (disk u 1)" and "len \<equiv> sint (get32 (disk u 1) 3)"
  defines "A \<equiv> log_area start len" and "H \<equiv> disk u start"
  defines "n \<equiv> sint (get32 H 0)"
  assumes g: "0 < len" "len \<le> int NBUF" "unat start + nat len \<le> unat (disksize u)" and n: "n < len"
    and secs: "\<And>i. i < nat n \<Longrightarrow> get32 H (i + 1) \<notin> A \<and> get32 H (i + 1) < disksize u \<and>
       disk u (start + of_nat i + 1) = N (get32 H (i + 1))"
  shows "returns (initlog (binit u)) (\<lambda>t. quiet t \<and> v_dirty (view t) = {} \<and> lh_n t = 0 \<and>
     (\<forall>a. a \<notin> A \<longrightarrow> disk t a = (if \<exists>i<nat n. get32 H (i + 1) = a then N a else disk u a)))"
proof -
  note b = binit_fresh [OF f(1)]
  let ?u = "initlock LLog (binit u)"
  have "cache_inv ?u" "lockset [] ?u" "1 < disksize ?u" "v_busy (view ?u) = {}" "card (v_dirty (view ?u)) < NBUF" "v_blk (view ?u) 1 = disk ?u 1"
    using b f(2) by (simp_all add: NBUF_def)
  note rs = readsb_spec [OF this, unfolded initlock_log b(6)]
  show ?thesis unfolding initlog_def ROOTDEV_def
  proof (rule returns_bindI [OF rs], clarify)
    fix sb and t :: "'a log_st_scheme"
    assume t: "sb_size sb - sb_nlog sb = sb_start (disk u 1)" "sb_nlog sb = get32 (disk u 1) 3" "cache_inv t" "lockset [] t"
      "disk_rest ?u t" "view t = view (binit u)"
    let ?t = "t\<lparr>lg_start := start, lg_size := len, lg_dev := 1\<rparr>"
    have d: "disk ?t = disk u" using t(6) b(2) by (simp add: disk_view)
    have q: "quiet ?t" "v_dirty (view ?t) = {}" using t(3,4,6) b(2) by (simp_all add: quiet_def)
    have ok: "log_ok ?t" "disksize t = disksize u"
      using g f(1) log_rest(6,7) [OF t(5)] b(4,5) by (simp_all add: log_ok_def fresh_def)
    show "returns (recover_from_log (t\<lparr>lg_start := sb_size sb - sb_nlog sb, lg_size := sint (sb_nlog sb), lg_dev := 1\<rparr>))
     (\<lambda>t. quiet t \<and> v_dirty (view t) = {} \<and> lh_n t = 0 \<and>
     (\<forall>a. a \<notin> A \<longrightarrow> disk t a = (if \<exists>i<nat n. get32 H (i + 1) = a then N a else disk u a)))"
      unfolding t(1) unfolding t(2) start_def [symmetric] len_def [symmetric]
      using recover_spec [OF q(1) ok(1) q(2), of N, unfolded d] d n secs ok(2) by (simp add: A_def H_def n_def)
  qed
qed


lemma apply_writes_simps:
  "apply_writes [] d = d" "apply_writes ((a, x) # ws) d = apply_writes ws (d(a := x))"
  "apply_writes (ws @ ws') d = apply_writes ws' (apply_writes ws d)"
  by (simp_all add: apply_writes_def)

lemma apply_writes_same:
  "apply_writes (map (\<lambda>i. (f i, N (f i))) xs) d a = (if a \<in> f ` set xs then N a else d a)"
  by (induction xs arbitrary: d) (auto simp: apply_writes_simps)

text \<open>The disk after a prefix of the writes of a commit: the header says whether the transaction counts.\<close>

lemma commit_prefix:
  fixes s :: "'a log_st_scheme" and k :: nat
  assumes r: "trans_ready s"
  defines "D \<equiv> apply_writes (take k (commit_writes s)) (disk s)" and "A \<equiv> log_area (lg_start s) (lg_size s)"
    and "n \<equiv> nat (lh_n s)"
  obtains
    (old) "k = 0" "D = disk s"
  | (logged) "0 < k" "get32 (D (lg_start s)) 0 = of_int (lh_n s)"
      "\<And>i. i < n \<Longrightarrow> get32 (D (lg_start s)) (i + 1) = lh_sector s ! i \<and> D (lg_start s + of_nat i + 1) = v_blk (view s) (lh_sector s ! i)"
      "\<And>a. a \<notin> A \<Longrightarrow> (\<forall>i<n. lh_sector s ! i \<noteq> a) \<Longrightarrow> D a = v_blk (view s) a"
  | (emptied) "0 < k" "get32 (D (lg_start s)) 0 = 0" "\<And>a. a \<notin> A \<Longrightarrow> D a = v_blk (view s) a"
proof -
  define H where "H = head_block (lh_n s) (lh_sector s) (disk s (lg_start s))"
  define ws where "ws = map (\<lambda>i. (lh_sector s ! i, v_blk (view s) (lh_sector s ! i))) [0..<n]"
  have q: "quiet s" "log_ok s" "lh_n s < lg_size s" and dirty: "v_dirty (view s) = (\<lambda>i. lh_sector s ! i) ` {0..<n}"
    and len: "length (disk s (lg_start s)) = BSIZE"
    and secs: "\<And>i. i < n \<Longrightarrow> lh_sector s ! i \<notin> A \<and> disk s (lg_start s + of_nat i + 1) = v_blk (view s) (lh_sector s ! i)"
    using r by (auto simp: trans_ready_def trans_inv_def A_def n_def)
  have st: "lg_start s \<in> A" using log_area_ok [OF q(2)] by (auto simp: A_def)
  have n10: "lh_n s \<le> int LOGSIZE" using q(2,3) by (simp add: log_ok_def NBUF_def LOGSIZE_def)
  note hb = head_block_get [OF len n10, where secs = "lh_sector s", folded H_def n_def]
  have cw: "commit_writes s = (lg_start s, H) # ws @ [(lg_start s, head_block 0 (lh_sector s) H)]"
    by (simp add: commit_writes_def H_def ws_def n_def Let_def)
  have W: "apply_writes (take j ws) ((disk s)(lg_start s := H)) a =
      (if a \<in> (\<lambda>i. lh_sector s ! i) ` set (take j [0..<n]) then v_blk (view s) a else ((disk s)(lg_start s := H)) a)" for j a
    unfolding ws_def take_map by (rule apply_writes_same)
  have nt: "disk s a = v_blk (view s) a" if "a \<notin> (\<lambda>i. lh_sector s ! i) ` {0..<n}" for a
    using that q(1) by (simp add: quiet_def disk_view dirty)
  then have nt': "disk s a = v_blk (view s) a" if "\<forall>i<n. lh_sector s ! i \<noteq> a" for a using that by force
  consider "k = 0" | j where "k = Suc j" "j \<le> n" | "k \<ge> n + 2" by (cases k) force+
  then show thesis
  proof cases
    case 1
    then show thesis by (intro old) (simp_all add: D_def apply_writes_simps)
  next
    case (2 j)
    have D: "D a = (if a \<in> (\<lambda>i. lh_sector s ! i) ` set (take j [0..<n]) then v_blk (view s) a else ((disk s)(lg_start s := H)) a)" for a
      using 2 W by (simp add: D_def cw apply_writes_simps ws_def)
    have DA: "D a = ((disk s)(lg_start s := H)) a" if "a \<in> A" for a using that secs D by (auto dest!: in_set_takeD)
    have "lg_start s + of_nat i + 1 \<in> A \<and> lg_start s + of_nat i + 1 \<noteq> lg_start s" if "i < n" for i
      using that q(3) log_area_ok(3,4) [OF q(2), of i] by (auto simp: A_def n_def)
    then show thesis using 2 DA D hb secs st nt' by (intro logged) auto
  next
    case 3
    have "take k (commit_writes s) = commit_writes s" using 3 by (simp add: cw ws_def)
    then have D: "D = (apply_writes ws ((disk s)(lg_start s := H)))(lg_start s := head_block 0 (lh_sector s) H)"
      by (simp add: D_def cw apply_writes_simps)
    have "get32 (D (lg_start s)) 0 = 0" using head_block_get(1) [OF hb(3), of 0 "lh_sector s"] D by simp
    moreover have "D a = v_blk (view s) a" if "a \<notin> A" for a
      using that W [of n a] D st nt [of a] by (auto simp: ws_def)
    ultimately show thesis using 3 by (intro emptied) auto
  qed
qed

text \<open>Booting on the disk a crash in the middle of a commit leaves.\<close>

lemma commit_crash_atomic:
  fixes s :: "'a log_st_scheme" and u :: "'b log_st_scheme"
  assumes "trans_ready s" and "1 \<notin> v_dirty (view s)" "1 \<notin> log_area (lg_start s) (lg_size s)"
    and "sb_start (disk s 1) = lg_start s" "sint (get32 (disk s 1) 3) = lg_size s"
    and "fresh u" "1 < disksize u" "disksize u = disksize s" "disk u = apply_writes (take k (commit_writes s)) (disk s)"
  shows "\<exists>t. initlog (binit u) = Inr t \<and> quiet t \<and> lh_n t = 0 \<and>
     (\<forall>a. a \<notin> log_area (lg_start s) (lg_size s) \<longrightarrow> disk t a = (if k = 0 then disk s a else v_blk (view s) a))"
proof -
  let ?A = "log_area (lg_start s) (lg_size s)"
  have q: "quiet s" "log_ok s" "lh_n s < lg_size s" "0 < lh_n s" "get32 (disk s (lg_start s)) 0 = 0"
    and secs: "\<And>i. i < nat (lh_n s) \<Longrightarrow> lh_sector s ! i \<notin> ?A \<and> lh_sector s ! i < disksize s"
    using assms(1) by (auto simp: trans_ready_def trans_inv_def)
  have d1: "v_blk (view s) 1 = disk s 1" using q(1) assms(2) by (simp add: quiet_def disk_view)
  have "lh_n s < 2 ^ 31" using q(2,3) by (simp add: log_ok_def NBUF_def)
  then have sn: "sint (of_int (lh_n s) :: u32) = lh_n s" using q(4) by (simp add: sint_u32 uint_word_of_int)
  have g: "0 < lg_size s" "lg_size s \<le> int NBUF" "unat (lg_start s) + nat (lg_size s) \<le> unat (disksize u)"
    using q(2) assms(8) by (simp_all add: log_ok_def)
  have i1: "\<forall>i<nat (lh_n s). lh_sector s ! i \<noteq> 1" using assms(1,2) by (auto simp: trans_ready_def trans_inv_def)
  have "returns (initlog (binit u)) (\<lambda>t. quiet t \<and> v_dirty (view t) = {} \<and> lh_n t = 0 \<and>
     (\<forall>a. a \<notin> ?A \<longrightarrow> disk t a = (if k = 0 then disk s a else v_blk (view s) a)))"
  proof (cases rule: commit_prefix [OF assms(1), of k, case_names old logged emptied])
    case old
    then have d: "disk u = disk s" using assms(9) by simp
    show ?thesis using old initlog_spec [OF assms(6,7), of "\<lambda>_. []"] d assms(4,5) g q(5) by simp
  next
    case logged
    have d: "disk u 1 = disk s 1" using logged(4) [OF assms(3) i1] d1 assms(9) by simp
    show ?thesis 
      using logged(1-3) logged(4) [folded assms(9)] initlog_spec [OF assms(6,7), of "v_blk (view s)", unfolded d assms(4,5)] g q(3) secs sn
      by (auto simp: assms(8,9)[symmetric] elim!: returns_mono)
  next
    case emptied
    have d: "disk u 1 = disk s 1" using emptied(3) [OF assms(3)] d1 assms(9) by simp
    show ?thesis
      using emptied [folded assms(9)] initlog_spec [OF assms(6,7), of "\<lambda>_. []", unfolded d assms(4,5)] g
      by (auto elim!: returns_mono)
  qed
  then show ?thesis by (auto simp: returns_def)
qed

section \<open>Whole transactions\<close>

lemma begin_spec:
  fixes s :: "'a log_st_scheme"
  assumes q: "quiet s" "\<not> lg_busy s"
  shows "returns (begin_trans s) (\<lambda>t. quiet t \<and> view t = view s \<and> writes t = writes s \<and> disk_rest (s\<lparr>lg_busy := True\<rparr>) t)"
proof -
  have "lockset [] s" using q by (simp add: quiet_def)
  then have a: "acquire LLog s = Inr (acq LLog s)" "lockset [LLog] (acq LLog s)" using acquire_acq [of "[]" s LLog] by auto
  define v where "v = (acq LLog s)\<lparr>lg_busy := True\<rparr>"
  have lv: "lockset [LLog] v" using a(2) by (simp add: v_def)
  then have r: "release LLog v = Inr (rel LLog v)" "lockset [] (rel LLog v)" using release_rel [OF lv] by auto
  have e: "v = acq LLog (s\<lparr>lg_busy := True\<rparr>)" by (simp add: v_def acq_def pushcli_def Let_def)
  have d: "disk_rest (s\<lparr>lg_busy := True\<rparr>) (rel LLog v)" unfolding e by (rule disk_rest_trans) (rule disk_rest_upd)+
  have "bufs (rel LLog v) = bufs s" "disk (rel LLog v) = disk s" "writes (rel LLog v) = writes s"
    using log_rest(8) [OF d] by (simp_all add: v_def disk_def)
  then have "quiet (rel LLog v) \<and> view (rel LLog v) = view s \<and> writes (rel LLog v) = writes s"
    using q r(2) view_cong [of "rel LLog v" s] log_rest(4) [OF d] by (simp add: quiet_def)
  moreover have "begin_trans s = Inr (rel LLog v)" 
    using q(2) a(1) r(1) log_rest(3) [OF disk_rest_upd(3), of LLog s] by (simp add: begin_trans_def begin_round_def v_def)
  ultimately show ?thesis using d by (simp add: returns_def)
qed

lemma trans_inv_cong:
  assumes "trans_inv s" "quiet t" "view t = view s" "lg_start t = lg_start s" "lg_size t = lg_size s" "lh_n t = lh_n s"
    "lh_sector t = lh_sector s" "disksize t = disksize s"
  shows "trans_inv t"
  using assms by (simp add: trans_inv_def log_ok_def disk_view)

fun log_updates :: "sector_writes \<Rightarrow> 'a log_st_scheme \<Rightarrow> ('a log_st_scheme, 'a log_st_scheme) kres" where
  "log_updates [] s = Inr s"
| "log_updates ((a, x) # us) s = kbind (log_update a (\<lambda>_. x) s) (log_updates us)"

text \<open>A whole transaction: begin, update some blocks, commit.\<close>

definition run_trans :: "sector_writes \<Rightarrow> 'a log_st_scheme \<Rightarrow> ('a log_st_scheme, 'a log_st_scheme) kres" where
  "run_trans us s = kbind (begin_trans s) (\<lambda>s. kbind (log_updates us s) commit_trans)"

lemma apply_writes_cong:
  assumes "\<And>a. a \<notin> A \<Longrightarrow> d a = d' a" "a \<notin> A"
  shows "apply_writes us d a = apply_writes us d' a"
  using assms
proof (induction us arbitrary: d d')
  case (Cons u us)
  obtain b x where u: "u = (b, x)" by force
  show ?case unfolding u apply_writes_simps by (rule Cons.IH) (use Cons.prems in auto)
qed (simp add: apply_writes_simps)

lemma apply_writes_other: "a \<notin> fst ` set us \<Longrightarrow> apply_writes us d a = d a"
  by (induction us arbitrary: d) (auto simp: apply_writes_simps)

lemma log_updates_spec:
  fixes s :: "'a log_st_scheme"
  assumes "trans_inv s" "lg_busy s" "lh_n s + int (length us) < lg_size s"
    and "\<forall>(a, x)\<in>set us. a \<notin> log_area (lg_start s) (lg_size s) \<and> a < disksize s"
  shows "returns (log_updates us s) (\<lambda>t. trans_inv t \<and> (us \<noteq> [] \<longrightarrow> 0 < lh_n t) \<and> (us = [] \<longrightarrow> t = s) \<and>
     lg_start t = lg_start s \<and> lg_size t = lg_size s \<and> disksize t = disksize s \<and> image t = image s \<and>
     v_dirty (view t) = v_dirty (view s) \<union> fst ` set us \<and>
     (\<forall>a. a \<notin> log_area (lg_start s) (lg_size s) \<longrightarrow> v_blk (view t) a = apply_writes us (v_blk (view s)) a) \<and>
     (\<exists>W. length W = length us \<and> fst ` set W \<subseteq> log_area (lg_start s) (lg_size s) - {lg_start s} \<and> writes t = writes s @ W))"
  using assms
proof (induction us arbitrary: s)
  case (Cons u us)
  obtain a x where u: "u = (a, x)" by force
  let ?A = "log_area (lg_start s) (lg_size s)"
  have a: "a \<notin> ?A" "a < disksize s" "lh_n s < lg_size s - 1" using Cons.prems(3,4) by (auto simp: u)
  note lu = log_update_spec [OF Cons.prems(1,2) a(3) a(1,2), of "\<lambda>_. x"]
  show ?case unfolding u log_updates.simps
  proof (rule returns_bindI [OF lu], elim conjE bexE)
    fix t :: "'a log_st_scheme" and l
    assume t: "trans_inv t" "lg_busy t" "lh_n t \<le> lh_n s + 1" "0 < lh_n t" "lg_start t = lg_start s" "lg_size t = lg_size s"
      "disksize t = disksize s" "image t = image s" "v_dirty (view t) = insert a (v_dirty (view s))"
      "\<forall>a'. a' \<notin> ?A \<longrightarrow> v_blk (view t) a' = (if a' = a then x else v_blk (view s) a')" "l \<in> ?A - {lg_start s}" "writes t = writes s @ [(l, x)]"
    have aw: "apply_writes us (v_blk (view t)) a' = apply_writes ((a, x) # us) (v_blk (view s)) a'" if "a' \<notin> ?A" for a'
      unfolding apply_writes_simps by (rule apply_writes_cong [OF _ that]) (use t(10) in simp)
    have "lh_n t + int (length us) < lg_size t" "\<forall>(a, x)\<in>set us. a \<notin> log_area (lg_start t) (lg_size t) \<and> a < disksize t"
      using Cons.prems(3,4) t(3,5-7) by auto
    note ih = Cons.IH [OF t(1,2) this, unfolded t(5-9)]
    show "returns (log_updates us t) (\<lambda>t. trans_inv t \<and> ((a, x) # us \<noteq> [] \<longrightarrow> 0 < lh_n t) \<and> ((a, x) # us = [] \<longrightarrow> t = s) \<and>
     lg_start t = lg_start s \<and> lg_size t = lg_size s \<and> disksize t = disksize s \<and> image t = image s \<and>
     v_dirty (view t) = v_dirty (view s) \<union> fst ` set ((a, x) # us) \<and>
     (\<forall>a'. a' \<notin> ?A \<longrightarrow> v_blk (view t) a' = apply_writes ((a, x) # us) (v_blk (view s)) a') \<and>
     (\<exists>W. length W = length ((a, x) # us) \<and> fst ` set W \<subseteq> ?A - {lg_start s} \<and> writes t = writes s @ W))"
    proof (rule returns_mono [OF ih], elim conjE exE, intro conjI)
      fix z :: "'a log_st_scheme" and W
      assume z: "us \<noteq> [] \<longrightarrow> 0 < lh_n z" "us = [] \<longrightarrow> z = t" and W: "length W = length us" "fst ` set W \<subseteq> ?A - {lg_start s}" "writes z = writes t @ W"
      show "(a, x) # us \<noteq> [] \<longrightarrow> 0 < lh_n z" using z t(4) by (cases "us = []") auto
      show "\<exists>W. length W = length ((a, x) # us) \<and> fst ` set W \<subseteq> ?A - {lg_start s} \<and> writes z = writes s @ W"
        using W t(11,12) by (intro exI [of _ "(l, x) # W"]) auto
    qed (use aw in auto)
  qed
qed (auto simp: apply_writes_simps)


definition log_idle :: "'a log_st_scheme \<Rightarrow> bool" where
  "log_idle s \<longleftrightarrow> trans_inv s \<and> lh_n s = 0 \<and> \<not> lg_busy s"

definition sb_ok :: "'a log_st_scheme \<Rightarrow> bool" where
  "sb_ok s \<longleftrightarrow> sb_start (disk s 1) = lg_start s \<and> sint (get32 (disk s 1) 3) = lg_size s \<and>
     1 \<notin> log_area (lg_start s) (lg_size s) \<and> 1 < disksize s"

lemma commit_idle:
  fixes s :: "'a log_st_scheme"
  assumes "trans_inv s"
  obtains t W where "commit_trans s = Inr t" "log_idle t" "writes t = writes s @ W" "W = (if lh_n s = 0 then [] else commit_writes s)"
    "\<And>a. a \<notin> log_area (lg_start s) (lg_size s) \<Longrightarrow> disk t a = v_blk (view s) a"
proof (cases "lh_n s = 0")
  case True
  have q: "quiet s" "v_dirty (view s) = {}" using assms True by (auto simp: trans_inv_def)
  obtain t where t: "commit_trans s = Inr t" "quiet t" "view t = view s" "writes t = writes s" "disk_rest (s\<lparr>lg_busy := False\<rparr>) t"
    using log_unlock [OF q(1)] True by (auto simp: commit_trans_def returns_def)
  have "trans_inv t" by (rule trans_inv_cong [OF assms t(2,3)]) (use log_rest [OF t(5)] in simp_all)
  then have "log_idle t" using log_rest [OF t(5)] True by (simp add: log_idle_def)
  moreover have "disk t a = v_blk (view s) a" for a using q t(3) by (simp add: quiet_def disk_view)
  ultimately show thesis using t(1,4) True by (intro that [of t "[]"]) auto
next
  case False
  then have r: "trans_ready s" and n: "0 < lh_n s" using assms by (auto simp: trans_ready_def trans_inv_def)
  obtain t where t: "commit_trans s = Inr t" "writes t = writes s @ commit_writes s" "quiet t" "v_dirty (view t) = {}"
    "disk_rest (s\<lparr>lh_n := 0, lg_busy := False\<rparr>) t" "\<forall>a. a \<notin> log_area (lg_start s) (lg_size s) \<longrightarrow> disk t a = v_blk (view s) a"
    using commit_spec [OF r] by (auto simp: returns_def)
  note f = log_rest [OF t(5), simplified]
  have q: "log_ok s" "length (disk s (lg_start s)) = BSIZE" using assms by (auto simp: trans_inv_def)
  have "lh_n s \<le> int LOGSIZE" using assms by (simp add: trans_inv_def log_ok_def NBUF_def LOGSIZE_def)
  note hb = head_block_get(3) [OF q(2) this, of "lh_sector s"]
  have "disk t (lg_start s) = head_block 0 (lh_sector s) (head_block (lh_n s) (lh_sector s) (disk s (lg_start s)))"
    using t(2) f(8) by (simp add: disk_def [of t] apply_writes_simps commit_writes_def Let_def)
  then have "length (disk t (lg_start s)) = BSIZE" "get32 (disk t (lg_start s)) 0 = 0"
    using head_block_get(1,3) [OF hb, of 0 "lh_sector s"] by simp_all
  then have "log_idle t" using t(3,4) f q(1) by (simp add: log_idle_def trans_inv_def log_ok_def)
  then show thesis using t(1,2,6) False by (intro that [of t "commit_writes s"]) auto
qed

lemma recover_nothing:
  fixes s :: "'a log_st_scheme" and u :: "'b log_st_scheme"
  assumes "log_ok s" "sb_ok s" "fresh u" "disksize u = disksize s" "disk u 1 = disk s 1" "get32 (disk u (lg_start s)) 0 = 0"
  shows "\<exists>v. initlog (binit u) = Inr v \<and> quiet v \<and> lh_n v = 0 \<and> (\<forall>a. a \<notin> log_area (lg_start s) (lg_size s) \<longrightarrow> disk v a = disk u a)"
proof -
  have b: "1 < disksize u" "sb_start (disk u 1) = lg_start s" "sint (get32 (disk u 1) 3) = lg_size s" using assms by (simp_all add: sb_ok_def)
  show ?thesis using initlog_spec [OF assms(3) b(1), unfolded b(2,3), of "\<lambda>_. []"] assms(1,4,6) by (auto simp: log_ok_def returns_def)
qed

lemma run_trans_steps:
  fixes s :: "'a log_st_scheme"
  assumes idle: "log_idle s" and len: "int (length us) < lg_size s"
    and us: "\<forall>(a, x)\<in>set us. a \<notin> log_area (lg_start s) (lg_size s) \<and> a < disksize s"
  obtains t W where "run_trans us s = commit_trans t" "trans_inv t" "us = [] \<longleftrightarrow> lh_n t = 0"
    "lg_start t = lg_start s" "lg_size t = lg_size s" "disksize t = disksize s" "v_dirty (view t) = fst ` set us"
    "\<And>a. a \<notin> log_area (lg_start s) (lg_size s) \<Longrightarrow> v_blk (view t) a = apply_writes us (disk s) a"
    "writes t = writes s @ W" "length W = length us" "fst ` set W \<subseteq> log_area (lg_start s) (lg_size s) - {lg_start s}"
    "disk t = apply_writes W (disk s)"
proof -
  have i: "trans_inv s" "quiet s" "lh_n s = 0" "\<not> lg_busy s" "v_dirty (view s) = {}" using idle by (auto simp: log_idle_def trans_inv_def)
  have bd: "v_blk (view s) = disk s" using i(2,5) by (auto simp: quiet_def disk_view)
  obtain b where b: "begin_trans s = Inr b" "quiet b" "view b = view s" "writes b = writes s" "disk_rest (s\<lparr>lg_busy := True\<rparr>) b"
    using begin_spec [OF i(2,4)] by (auto simp: returns_def)
  note f = log_rest [OF b(5), simplified]
  have "trans_inv b" by (rule trans_inv_cong [OF i(1) b(2,3)]) (simp_all add: f)
  then have "trans_inv b" "lg_busy b" "lh_n b + int (length us) < lg_size b"
    "\<forall>(a, x)\<in>set us. a \<notin> log_area (lg_start b) (lg_size b) \<and> a < disksize b" using f i(3) len us by simp_all
  note lu = log_updates_spec [OF this, unfolded f b(3,4) bd i(5)]
  from lu obtain t W where t: "log_updates us b = Inr t" "trans_inv t" "us \<noteq> [] \<longrightarrow> 0 < lh_n t" "us = [] \<longrightarrow> t = b"
     "lg_start t = lg_start s" "lg_size t = lg_size s" "disksize t = disksize s" "image t = image s" "v_dirty (view t) = fst ` set us"
     "\<forall>a. a \<notin> log_area (lg_start s) (lg_size s) \<longrightarrow> v_blk (view t) a = apply_writes us (disk s) a"
     "length W = length us" "fst ` set W \<subseteq> log_area (lg_start s) (lg_size s) - {lg_start s}" "writes t = writes s @ W"
    by (auto simp: returns_def)
  have "disk t = apply_writes W (disk s)" using t(8,13) by (simp add: disk_def apply_writes_simps)
  moreover have "us = [] \<longleftrightarrow> lh_n t = 0" using t(3,4) f(5) i(3) by auto
  moreover have "run_trans us s = commit_trans t" by (simp add: run_trans_def b(1) t(1))
  ultimately show thesis using t by (intro that [of t W]) auto
qed

text \<open>C1: A transaction that updates fewer blocks than the log holds always commits, and it is atomic
  across a crash: after any prefix of the disk writes it makes, booting the kernel on the disk
  (\<^verbatim>\<open>binit\<close>, then \<^verbatim>\<open>initlog\<close>) gives either the blocks as they were before the transaction or all of
  its updates, the new contents exactly when the header was written.\<close>

theorem transaction_atomic:
  fixes s :: "'a log_st_scheme"
  assumes "log_idle s" "sb_ok s" "int (length us) < lg_size s"
    and "\<forall>(a, x)\<in>set us. a \<notin> log_area (lg_start s) (lg_size s) \<and> a < disksize s \<and> a \<noteq> 1"
  shows "\<exists>t W. run_trans us s = Inr t \<and> log_idle t \<and> writes t = writes s @ W \<and>
     (\<forall>a. a \<notin> log_area (lg_start s) (lg_size s) \<longrightarrow> disk t a = apply_writes us (disk s) a) \<and>
     (\<forall>k (u :: 'b log_st_scheme). fresh u \<and> disksize u = disksize s \<and> disk u = apply_writes (take k W) (disk s) \<longrightarrow>
        (\<exists>v. initlog (binit u) = Inr v \<and> quiet v \<and> lh_n v = 0 \<and>
           (\<forall>a. a \<notin> log_area (lg_start s) (lg_size s) \<longrightarrow>
              disk v a = (if k \<le> length us then disk s a else apply_writes us (disk s) a))))"
proof -
  let ?A = "log_area (lg_start s) (lg_size s)"
  have us: "\<forall>(a, x)\<in>set us. a \<notin> ?A \<and> a < disksize s" "1 \<notin> fst ` set us" using assms(4) by auto
  obtain r W where r: "run_trans us s = commit_trans r" "trans_inv r" "us = [] \<longleftrightarrow> lh_n r = 0"
    "lg_start r = lg_start s" "lg_size r = lg_size s" "disksize r = disksize s" "v_dirty (view r) = fst ` set us"
    "\<And>a. a \<notin> ?A \<Longrightarrow> v_blk (view r) a = apply_writes us (disk s) a"
    and W: "writes r = writes s @ W" "length W = length us" "fst ` set W \<subseteq> ?A - {lg_start s}" "disk r = apply_writes W (disk s)"
    using run_trans_steps [OF assms(1,3) us(1)] by metis
  obtain t V where t: "commit_trans r = Inr t" "log_idle t" "writes t = writes r @ V" "V = (if lh_n r = 0 then [] else commit_writes r)"
    "\<And>a. a \<notin> log_area (lg_start r) (lg_size r) \<Longrightarrow> disk t a = v_blk (view r) a"
    using commit_idle [OF r(2)] by metis
  have s: "log_ok s" "get32 (disk s (lg_start s)) 0 = 0" "lg_start s \<in> ?A" "1 \<notin> ?A"
    using assms(1,2) log_area_ok(2) by (auto simp: log_idle_def trans_inv_def sb_ok_def)
  have same: "apply_writes (take k W) (disk s) a = disk s a" if "a \<notin> ?A \<or> a = lg_start s" for a k
    using that W(3) by (intro apply_writes_other) (auto dest: in_set_takeD)
  have crash: "\<exists>v. initlog (binit u) = Inr v \<and> quiet v \<and> lh_n v = 0 \<and>
           (\<forall>a. a \<notin> ?A \<longrightarrow> disk v a = (if k \<le> length us then disk s a else apply_writes us (disk s) a))"
    if u: "fresh u" "disksize u = disksize s" "disk u = apply_writes (take k (W @ V)) (disk s)" for k and u :: "'b log_st_scheme"
  proof (cases "k \<le> length us \<or> us = []")
    case True
    have e: "take k (W @ V) = take k W" using True W(2) r(3) t(4) by auto
    have d: "disk u a = disk s a" if "a \<notin> ?A \<or> a = lg_start s" for a unfolding u(3) e by (rule same [OF that])
    then show ?thesis using recover_nothing [OF s(1) assms(2) u(1,2)] s True by (auto simp: apply_writes_simps)
  next
    case False
    define j where "j = k - length us"
    have "disk u = apply_writes (take j (commit_writes r)) (disk r)" "j \<noteq> 0" 
      using False W(2,4) r(3) t(4) u(3) by (auto simp: j_def apply_writes_simps)
    moreover have "trans_ready r" using r(2,3) False by (auto simp: trans_ready_def trans_inv_def)
    moreover have "disk r 1 = disk s 1" using same [of 1 "length us"] s(4) W(2,4) by simp
    ultimately show ?thesis
      using commit_crash_atomic [of r u j] us(2) r(4-8) s(4) assms(2) u(1,2) False by (auto simp: sb_ok_def)
  qed
  show ?thesis using r t W(1) crash by (intro exI [of _ t] exI [of _ "W @ V"]) auto
qed

text \<open>A machine just started with a disk of 1024 blocks whose super block gives a log of ten.\<close>

definition boot0 :: log_st where
  "boot0 = \<lparr>locks = \<lambda>_. \<lparr>locked = 0, holder = None\<rparr>, cpu = \<lparr>cpu_id = 0, ncli = 0, intena = False\<rparr>, IF = True,
     mem = \<lambda>_. 0, use_lock = True, freelist = 0, kpgdir = 0, cr3 = 0, procs = [], curproc = None, initproc = None, nextpid = 1,
     ts_ss0 = 0, ts_esp0 = 0, bufs = replicate (NBUF + 1) \<lparr>b_busy = False, b_valid = False, b_dirty = False, b_dev = 0, b_sector = 0,
       b_prev = 0, b_next = 0, b_qnext = None, b_data = replicate BSIZE 0\<rparr>, disksize = 1024,
     image = \<lambda>a. if a = 1 then put32 (put32 (replicate BSIZE 0) 0 1024) 3 10 else replicate BSIZE 0, writes = [],
     idequeue = None, havedisk1 = False, ide_port = None, ide_disk = \<lambda>_ _. [],
     lg_start = 0, lg_size = 0, lg_busy = False, lg_dev = 0, lh_n = 0, lh_sector = replicate LOGSIZE 0\<rparr>"

definition log0 :: log_st where
  "log0 = (binit boot0)\<lparr>lg_start := 1014, lg_size := 10, lg_dev := 1\<rparr>"

lemma fresh_boot0: "fresh boot0"
  by (simp add: fresh_def boot0_def lockset_def clear_buf_def list_all_length NBUF_def)

lemma log0_disk: "disk boot0 a = (if a = 1 then put32 (put32 (replicate BSIZE 0) 0 1024) 3 10 else replicate BSIZE 0)"
  by (simp add: boot0_def disk_def apply_writes_def)

lemma log0_fields: "lg_start log0 = 1014" "lg_size log0 = 10" "lh_n log0 = 0" "\<not> lg_busy log0" "disksize log0 = 1024"
    "lh_sector log0 = replicate LOGSIZE 0" "disk log0 = disk boot0"
  using binit_fresh(4-6) [OF fresh_boot0]
  by (simp_all add: log0_def boot0_def disk_def binit_def initlock_def upd_buf_def)

lemma get32_zeros: "get32 (replicate BSIZE 0) 0 = 0"
  by (simp add: get32_def of_le32_def BSIZE_def)

lemma log0_idle: "log_idle log0" "sb_ok log0" "log_area (lg_start log0) (lg_size log0) = {1014, 1015, 1016, 1017, 1018, 1019, 1020, 1021, 1022, 1023}"
proof -
  note b = binit_fresh [OF fresh_boot0]
  have q: "quiet log0" "v_dirty (view log0) = {}" using b(1-3) by (simp_all add: quiet_def log0_def)
  show "log_idle log0" using q log0_fields by (simp add: log_idle_def trans_inv_def log_ok_def NBUF_def log0_disk get32_zeros)
  show la: "log_area (lg_start log0) (lg_size log0) = {1014, 1015, 1016, 1017, 1018, 1019, 1020, 1021, 1022, 1023}"
  proof -
    have "{0..<nat 10} = {0, 1, 2, 3, 4, 5, 6, 7, 8, 9 :: nat}" by auto
    then show ?thesis by (simp add: log_area_def log0_fields)
  qed
  show "sb_ok log0"
    using log0_fields unfolding sb_ok_def la by (simp add: log0_disk sb_start_def BSIZE_def)
qed


theorem transaction_atomic_witness:
  "\<exists>t W. run_trans [(2, replicate BSIZE 7), (40, replicate BSIZE 9)] log0 = Inr t \<and> log_idle t \<and> writes t = writes log0 @ W \<and>
     (\<forall>a. a \<notin> {1014, 1015, 1016, 1017, 1018, 1019, 1020, 1021, 1022, 1023} \<longrightarrow> disk t a = apply_writes [(2, replicate BSIZE 7), (40, replicate BSIZE 9)] (disk log0) a) \<and>
     (\<forall>k (u :: log_st). fresh u \<and> disksize u = disksize log0 \<and> disk u = apply_writes (take k W) (disk log0) \<longrightarrow>
        (\<exists>v. initlog (binit u) = Inr v \<and> quiet v \<and> lh_n v = 0 \<and>
           (\<forall>a. a \<notin> {1014, 1015, 1016, 1017, 1018, 1019, 1020, 1021, 1022, 1023} \<longrightarrow>
              disk v a = (if k \<le> 2 then disk log0 a else apply_writes [(2, replicate BSIZE 7), (40, replicate BSIZE 9)] (disk log0) a))))"
proof -
  let ?us = "[(2, replicate BSIZE 7), (40, replicate BSIZE 9)] :: sector_writes"
  have l: "int (length ?us) < lg_size log0" "length ?us = 2" by (simp_all add: log0_fields)
  have us: "\<forall>(a, x)\<in>set ?us. a \<notin> log_area (lg_start log0) (lg_size log0) \<and> a < disksize log0 \<and> a \<noteq> 1"
    unfolding log0_idle(3) by (simp add: log0_fields)
  show ?thesis by (rule transaction_atomic [OF log0_idle(1,2) l(1) us, where ?'b = unit, unfolded log0_idle(3) l(2)])
qed

end
