(* ===== verification/Fs_Lemmas.thy ===== *)
theory Fs_Lemmas
  imports Fs Log_Lemmas
begin

text \<open>
  Lemmas about the on-disk structures of the file system and about paths: the encodings of
  inodes and directory entries, the bitmap of free blocks, and the elements of a path.
\<close>

section \<open>Inodes on disk\<close>

lemma length_concat_le32 [simp]: "length (concat (map le32 xs)) = 4 * length xs"
  by (induction xs) auto

lemma get32_concat_le32: "i < length xs \<Longrightarrow> get32 (concat (map le32 xs)) i = xs ! i"
proof (induction xs arbitrary: i)
  case (Cons x xs)
  then show ?case by (cases i) (simp_all add: get32_def)
qed simp

lemma get32_append: "4 * k = length bs \<Longrightarrow> get32 (bs @ cs) (i + k) = get32 cs i"
  by (simp add: get32_def algebra_simps)

lemma length_dinode_bytes [simp]: "length (d_addrs d) = 13 \<Longrightarrow> length (dinode_bytes d) = 64"
  by (simp add: dinode_bytes_def)

lemma dinode_roundtrip:
  assumes "length (d_addrs d) = 13"
  shows "dinode_of (dinode_bytes d) = d"
proof -
  have "get32 (dinode_bytes d) (i + 3) = d_addrs d ! i" if "i < 13" for i
    using that assms get32_append [of 3 "le16 (d_type d) @ le16 (d_major d) @ le16 (d_minor d) @ le16 (d_nlink d) @ le32 (d_size d)"
      "concat (map le32 (d_addrs d))" i] by (simp add: dinode_bytes_def get32_concat_le32)
  then have "map (\<lambda>i. get32 (dinode_bytes d) (i + 3)) [0..<NDIRECT + 1] = d_addrs d"
    using assms by (intro nth_equalityI) (auto simp: NDIRECT_def simp del: upt_Suc)
  then show ?thesis by (simp add: dinode_of_def) (simp add: dinode_bytes_def)
qed

lemma dinode_at_put:
  assumes "length (d_addrs d) = 13" "length blk = BSIZE"
  shows "dinode_at i (put_dinode i d blk) = d"
    and "i mod IPB \<noteq> j mod IPB \<Longrightarrow> dinode_at j (put_dinode i d blk) = dinode_at j blk"
proof -
  have i: "unat (k mod IPB) < 8" for k by (simp add: IPB_def unat_mod)
  have r: "64 * unat (k mod IPB) + 64 \<le> BSIZE" for k using i [of k] by (simp add: BSIZE_def)
  show "dinode_at i (put_dinode i d blk) = d"
    using take_drop_overwrite [of "64 * unat (i mod IPB)" "dinode_bytes d" blk] r [of i] assms
    by (simp add: dinode_at_def put_dinode_def dinode_roundtrip)
  assume "i mod IPB \<noteq> j mod IPB"
  then have "unat (i mod IPB) \<noteq> unat (j mod IPB)" using word_unat_eq_iff by blast
  then have "64 * unat (j mod IPB) + 64 \<le> 64 * unat (i mod IPB) \<or> 64 * unat (i mod IPB) + 64 \<le> 64 * unat (j mod IPB)"
    by linarith
  then show "dinode_at j (put_dinode i d blk) = dinode_at j blk"
    using slice_overwrite_disjoint [of "64 * unat (i mod IPB)" "dinode_bytes d" blk "64 * unat (j mod IPB)" 64] r [of i] r [of j] assms
    by (simp add: dinode_at_def put_dinode_def)
qed

section \<open>The bitmap\<close>

definition used_bit :: "u8 list \<Rightarrow> nat \<Rightarrow> bool" where
  "used_bit d bi = bit (d ! (bi div 8)) (bi mod 8)"

lemma put_bit_used:
  assumes "bi div 8 < length d"
  shows "used_bit (put_bit v bi d) bj = (if bj = bi then v else used_bit d bj)" "length (put_bit v bi d) = length d"
proof -
  have e: "bj = bi" if "bj div 8 = bi div 8" "bj mod 8 = bi mod 8" using that by (metis div_mult_mod_eq)
  show "used_bit (put_bit v bi d) bj = (if bj = bi then v else used_bit d bj)"
    using assms e by (cases "bj div 8 = bi div 8")
      (auto simp: used_bit_def put_bit_def nth_list_update bit_set_bit_iff bit_unset_bit_iff)
  show "length (put_bit v bi d) = length d" by (simp add: put_bit_def)
qed

lemma free_bit_Some:
  "free_bit d n = Some bi \<Longrightarrow> bi < n \<and> \<not> used_bit d bi \<and> (\<forall>k<bi. used_bit d k)"
  by (auto simp: free_bit_def find_upt_Some used_bit_def)

lemma free_bit_None: "free_bit d n = None \<longleftrightarrow> (\<forall>k<n. used_bit d k)"
  by (auto simp: free_bit_def find_None_iff used_bit_def)

section \<open>Paths\<close>

text \<open>The elements of a path: the pieces between slashes that are not empty, cut to \<^verbatim>\<open>DIRSIZ\<close> bytes.\<close>

fun split_slash :: "u8 list \<Rightarrow> u8 list list" where
  "split_slash [] = [[]]"
| "split_slash (c # cs) = (if c = 47 then [] # split_slash cs else (c # hd (split_slash cs)) # tl (split_slash cs))"

definition components :: "u8 list \<Rightarrow> u8 list list" where
  "components path = map (take DIRSIZ) (filter (\<lambda>e. e \<noteq> []) (split_slash path))"

lemma split_slash_ne [simp]: "split_slash p \<noteq> []"
  by (induction p) auto

lemma components_slash [simp]: "components (47 # p) = components p" "components [] = []"
  by (simp_all add: components_def)

lemma components_skip: "components (dropWhile (\<lambda>c. c = 47) p) = components p"
  by (induction p) auto

lemma split_slash_elem:
  "split_slash p = takeWhile (\<lambda>c. c \<noteq> 47) p #
     (case dropWhile (\<lambda>c. c \<noteq> 47) p of [] \<Rightarrow> [] | c # q \<Rightarrow> split_slash q)"
  by (induction p) auto

lemma components_elem:
  assumes "p \<noteq> []" "hd p \<noteq> 47"
  shows "components p = take DIRSIZ (takeWhile (\<lambda>c. c \<noteq> 47) p) # components (dropWhile (\<lambda>c. c \<noteq> 47) p)"
proof -
  have ne: "takeWhile (\<lambda>c. c \<noteq> 47) p \<noteq> []" using assms by (cases p) auto
  define d where "d = dropWhile (\<lambda>c. c \<noteq> 47) p"
  have "c = 47" if "d = c # q" for c q
    using that dropWhile_eq_Cons_conv [of "\<lambda>c. c \<noteq> 47" p c q] by (simp add: d_def)
  then have "components d = (case d of [] \<Rightarrow> [] | c # q \<Rightarrow> components q)" by (cases d) auto
  moreover have "components p = map (take DIRSIZ) (filter (\<lambda>e. e \<noteq> [])
      (takeWhile (\<lambda>c. c \<noteq> 47) p # (case d of [] \<Rightarrow> [] | c # q \<Rightarrow> split_slash q)))"
    unfolding components_def d_def by (subst split_slash_elem) simp
  ultimately show ?thesis
    using ne unfolding d_def [symmetric] by (cases d) (simp_all add: components_def)
qed

text \<open>C30: \<^verbatim>\<open>skipelem\<close> splits off the first element of a path: iterating it yields exactly the non-empty
  pieces between slashes, each cut to \<^verbatim>\<open>DIRSIZ\<close> bytes, and the remaining path is empty exactly at the
  last element.\<close>

theorem skipelem_components:
  "case skipelem path of None \<Rightarrow> components path = []
   | Some (name, rest) \<Rightarrow> components path = name # components rest \<and> (rest = [] \<longleftrightarrow> components rest = [])"
proof -
  define p where "p = dropWhile (\<lambda>c. c = 47) path"
  define q where "q = dropWhile (\<lambda>c. c \<noteq> 47) p"
  define r where "r = dropWhile (\<lambda>c. c = 47) q"
  have cp: "components path = components p" by (simp add: p_def components_skip)
  show ?thesis
  proof (cases "p = []")
    case True
    then show ?thesis using cp by (simp add: skipelem_def p_def [symmetric])
  next
    case False
    then have "hd p \<noteq> 47" using hd_dropWhile [of "\<lambda>c. c = 47" path] by (simp add: p_def)
    then have "components path = take DIRSIZ (takeWhile (\<lambda>c. c \<noteq> 47) p) # components r"
      using components_elem [OF False] cp by (simp add: q_def r_def components_skip)
    moreover have "r = [] \<longleftrightarrow> components r = []"
      using components_elem [of r] hd_dropWhile [of "\<lambda>c. c = 47" q] unfolding r_def [symmetric] by (cases "r = []") simp_all
    moreover have "skipelem path = Some (take DIRSIZ (takeWhile (\<lambda>c. c \<noteq> 47) p), r)"
      using False by (simp add: skipelem_def Let_def p_def [symmetric] q_def [symmetric] r_def [symmetric])
    ultimately show ?thesis by simp
  qed
qed

section \<open>Directory entries\<close>

lemma cstr_simps [simp]: "cstr (c # cs) 0 = c" "cstr [] i = 0"
  by (simp_all add: cstr_def)

lemma cstrn_cstr: "cstrn (cstr xs) n = takeWhile (\<lambda>c. c \<noteq> 0) (take n xs)"
proof (induction n arbitrary: xs)
  case (Suc n)
  then show ?case by (cases xs) (auto simp: cstr_Suc)
qed simp

lemma namecmp_eq_0: "namecmp s t = 0 \<longleftrightarrow> takeWhile (\<lambda>c. c \<noteq> 0) (take DIRSIZ s) = takeWhile (\<lambda>c. c \<noteq> 0) (take DIRSIZ t)"
  by (simp add: namecmp_def strncmp_0_iff cstrn_cstr)

lemma dirent_roundtrip: "length (de_name de) = DIRSIZ \<Longrightarrow> dirent_of (dirent_bytes de) = de"
  by (simp add: dirent_of_def dirent_bytes_def)



end
