(* ===== verification/Grep.thy ===== *)
theory Grep
  imports Printf
begin

text \<open>
  The program \<^verbatim>\<open>grep\<close>. Patterns and lines are the bytes of C strings before their NUL, so the
  character \<^verbatim>\<open>'\0'\<close> the matcher looks for is the end of the list. The input is the list of what
  the successive calls of \<^verbatim>\<open>read\<close> return, the output the list of what is passed to \<^verbatim>\<open>write(1, ...)\<close>.
\<close>

section \<open>The matcher\<close>

text \<open>\<^verbatim>\<open>matchstar\<close> and \<^verbatim>\<open>matchhere\<close> call each other; \<open>42\<close>, \<open>46\<close>, \<open>36\<close> and \<open>94\<close> are
  \<^verbatim>\<open>*\<close>, \<^verbatim>\<open>.\<close>, \<^verbatim>\<open>$\<close> and \<^verbatim>\<open>^\<close>.\<close>

function (sequential) matchhere :: "u8 list \<Rightarrow> u8 list \<Rightarrow> bool"
  and matchstar :: "u8 \<Rightarrow> u8 list \<Rightarrow> u8 list \<Rightarrow> bool" where
  "matchhere [] text = True"
| "matchhere (c # re) text =
     (if re \<noteq> [] \<and> hd re = 42 then matchstar c (tl re) text
      else if c = 36 \<and> re = [] then text = []
      else if text \<noteq> [] \<and> (c = 46 \<or> c = hd text) then matchhere re (tl text)
      else False)"
| "matchstar c re text =
     (if matchhere re text then True
      else case text of [] \<Rightarrow> False | t # ts \<Rightarrow> if t = c \<or> c = 46 then matchstar c re ts else False)"
  by pat_completeness auto
termination
  by (relation "measures [\<lambda>x. case x of Inl (re, text) \<Rightarrow> length re | Inr (c, re, text) \<Rightarrow> length re + 1,
       \<lambda>x. case x of Inl (re, text) \<Rightarrow> length text | Inr (c, re, text) \<Rightarrow> length text]") auto

declare matchhere.simps(2) [simp del] matchstar.simps [simp del]

fun match_loop :: "u8 list \<Rightarrow> u8 list \<Rightarrow> bool" where
  "match_loop re text =
     (if matchhere re text then True else case text of [] \<Rightarrow> False | t # ts \<Rightarrow> match_loop re ts)"

declare match_loop.simps [simp del]

definition match :: "u8 list \<Rightarrow> u8 list \<Rightarrow> bool" where
  "match re text = (case re of c # re' \<Rightarrow> if c = 94 then matchhere re' text else match_loop re text | [] \<Rightarrow> match_loop re text)"

section \<open>The loop over the input\<close>

definition GREP_BUF :: nat where "GREP_BUF = 1024"

text \<open>The inner loop: \<open>strchr\<close> looks for a newline from \<^verbatim>\<open>p\<close> on until the next NUL, wherever that is;
  with neither in the buffer it leaves the buffer. The newline becomes a NUL for the matcher and is put
  back only if the line matches. The result is \<^verbatim>\<open>p\<close> after the loop, the buffer and what was written.\<close>

function grep_lines :: "u8 list \<Rightarrow> u8 list \<Rightarrow> nat \<Rightarrow> (nat \<times> u8 list \<times> u8 list list) option" where
  "grep_lines pattern buf p =
     (let rest = drop p buf; line = takeWhile (\<lambda>c. c \<noteq> 10 \<and> c \<noteq> 0) rest; q = p + length line
      in if q \<ge> length buf then None
         else if buf ! q = 0 then Some (p, buf, [])
         else if match pattern line
         then map_option (\<lambda>(p, buf, out). (p, buf, (line @ [10]) # out)) (grep_lines pattern buf (q + 1))
         else grep_lines pattern (buf[q := 0]) (q + 1))"
  by pat_completeness auto
termination
  by (relation "measure (\<lambda>(pattern, buf, p). length buf - p)") auto

declare grep_lines.simps [simp del]

text \<open>The outer loop, with the buffer and \<^verbatim>\<open>m\<close>; a result of \<^verbatim>\<open>read\<close> is at most as long as the call asked
  for. Without a newline in the buffer \<^verbatim>\<open>m\<close> is reset. \<^verbatim>\<open>m\<close> can become negative, and storing input
  there is outside the buffer.\<close>

fun grep_loop :: "u8 list \<Rightarrow> u8 list list \<Rightarrow> u8 list \<Rightarrow> int \<Rightarrow> (u8 list list \<times> u8 list) option" where
  "grep_loop pattern [] buf m = Some ([], buf)"
| "grep_loop pattern (inp # inps) buf m =
     (let inp = take (nat (int GREP_BUF - m)) inp
      in if inp = [] then Some ([], buf)
         else if m < 0 then None
         else case grep_lines pattern (overwrite (nat m) inp buf) 0 of
                None \<Rightarrow> None
              | Some (p, buf, out) \<Rightarrow>
                  let m = (if p = 0 then 0 else m + int (length inp))
                  in map_option (\<lambda>(more, buf). (out @ more, buf))
                       (if m > 0
                        then let m = m - int p in grep_loop pattern inps (overwrite 0 (take (nat m) (drop p buf)) buf) m
                        else grep_loop pattern inps buf m))"

text \<open>\<^verbatim>\<open>grep\<close> on the static buffer as the previous call left it; the result is what it wrote and the
  buffer.\<close>

definition grep :: "u8 list \<Rightarrow> u8 list list \<Rightarrow> u8 list \<Rightarrow> (u8 list list \<times> u8 list) option" where
  "grep pattern inps buf = grep_loop pattern inps buf 0"

text \<open>\<^verbatim>\<open>main\<close>: \<open>opn\<close> gives for a name what the calls of \<^verbatim>\<open>read\<close> on the open file return, or nothing if
  it cannot be opened. The result is what is written to descriptors 1 and 2, the characters of a
  \<^verbatim>\<open>printf\<close> in one piece; every path ends in
  \<^verbatim>\<open>exit(1)\<close>.\<close>

fun grep_files :: "(u8 list \<Rightarrow> u8 list list option) \<Rightarrow> u8 list \<Rightarrow> u8 list list \<Rightarrow> u8 list \<Rightarrow> (int \<times> u8 list) list option" where
  "grep_files opn pattern [] buf = Some []"
| "grep_files opn pattern (f # fs) buf =
     (case opn f of
        None \<Rightarrow> Some [(1, bytes ''grep: cannot open '' @ f @ [10])]
      | Some inps \<Rightarrow>
          (case grep pattern inps buf of
             None \<Rightarrow> None
           | Some (out, buf) \<Rightarrow> map_option ((@) (map (\<lambda>w. (1, w)) out)) (grep_files opn pattern fs buf)))"

definition grep_main ::
  "(u8 list \<Rightarrow> u8 list list option) \<Rightarrow> u8 list list \<Rightarrow> u8 list list \<Rightarrow> (int \<times> u8 list) list option" where
  "grep_main opn stdin argv =
     (let buf = replicate GREP_BUF 0
      in case argv of
           _ # pattern # files \<Rightarrow>
             if files = [] then map_option (\<lambda>(out, _). map (\<lambda>w. (1, w)) out) (grep pattern stdin buf)
             else grep_files opn pattern files buf
         | _ \<Rightarrow> Some [(2, bytes ''usage: grep pattern [file ...]'' @ [10])])"

section \<open>What the matcher accepts\<close>

text \<open>A pattern is a sequence of items, each a character or any character, once or repeated, and may
  be tied to the end of the line; \<open>$\<close> is an ordinary character elsewhere.\<close>

fun items :: "u8 list \<Rightarrow> (u8 \<times> bool) list \<times> bool" where
  "items [] = ([], False)"
| "items [c] = (if c = 36 then ([], True) else ([(c, False)], False))"
| "items (c # d # re) =
     (if d = 42 then let (its, e) = items re in ((c, True) # its, e)
      else let (its, e) = items (d # re) in ((c, False) # its, e))"

definition accepts :: "u8 \<Rightarrow> u8 \<Rightarrow> bool" where
  "accepts c t \<longleftrightarrow> c = 46 \<or> c = t"

text \<open>The language of a sequence of items.\<close>

fun lang :: "(u8 \<times> bool) list \<Rightarrow> u8 list set" where
  "lang [] = {[]}"
| "lang ((c, star) # its) =
     {u @ v | u v. (if star then list_all (accepts c) u else \<exists>t. u = [t] \<and> accepts c t) \<and> v \<in> lang its}"

text \<open>A prefix of the text is in the language, the whole text if the pattern ends in \<open>$\<close>.\<close>

definition matches_prefix :: "u8 list \<Rightarrow> u8 list \<Rightarrow> bool" where
  "matches_prefix re text \<longleftrightarrow>
     (case items re of (its, e) \<Rightarrow> \<exists>u v. text = u @ v \<and> u \<in> lang its \<and> (e \<longrightarrow> v = []))"

lemma lang_one: "u \<in> lang ((c, False) # its) \<longleftrightarrow> (\<exists>t w. u = t # w \<and> accepts c t \<and> w \<in> lang its)"
  by (auto, metis append_Cons append_Nil)

lemma matches_prefix_simps:
  "matches_prefix [] text"
  "matches_prefix [36] text \<longleftrightarrow> text = []"
  "c \<noteq> 36 \<or> re \<noteq> [] \<Longrightarrow> re = [] \<or> hd re \<noteq> 42 \<Longrightarrow>
     matches_prefix (c # re) text \<longleftrightarrow> (\<exists>t ts. text = t # ts \<and> accepts c t \<and> matches_prefix re ts)"
  "matches_prefix (c # 42 # re) text \<longleftrightarrow> (\<exists>u v. text = u @ v \<and> list_all (accepts c) u \<and> matches_prefix re v)"
proof -
  show "matches_prefix [] text" "matches_prefix [36] text \<longleftrightarrow> text = []" by (auto simp: matches_prefix_def)
  have one: "(\<exists>u v. text = u @ v \<and> u \<in> lang ((c, False) # its) \<and> (e \<longrightarrow> v = [])) \<longleftrightarrow>
      (\<exists>t ts. text = t # ts \<and> accepts c t \<and> (\<exists>u v. ts = u @ v \<and> u \<in> lang its \<and> (e \<longrightarrow> v = [])))" (is "?l = ?r") for its e
  proof
    assume ?l
    then obtain u v w t where "text = u @ v" "u = t # w" "accepts c t" "w \<in> lang its" "e \<longrightarrow> v = []"
      unfolding lang_one by blast
    then show ?r by auto
  next
    assume ?r
    then obtain t u v where t: "text = (t # u) @ v" "accepts c t" "u \<in> lang its" "e \<longrightarrow> v = []" by auto
    then have "t # u \<in> lang ((c, False) # its)" unfolding lang_one by blast
    then show ?l using t by blast
  qed
  assume a: "c \<noteq> 36 \<or> re \<noteq> []" "re = [] \<or> hd re \<noteq> 42"
  obtain its e where "items re = (its, e)" by force
  moreover from this have "items (c # re) = ((c, False) # its, e)" using a by (cases re) auto
  ultimately show "matches_prefix (c # re) text \<longleftrightarrow> (\<exists>t ts. text = t # ts \<and> accepts c t \<and> matches_prefix re ts)"
    unfolding matches_prefix_def by (simp only: prod.case one)
next
  show "matches_prefix (c # 42 # re) text \<longleftrightarrow> (\<exists>u v. text = u @ v \<and> list_all (accepts c) u \<and> matches_prefix re v)"
  proof -
    obtain its e where "items re = (its, e)" by force
    moreover from this have "items (c # 42 # re) = ((c, True) # its, e)" by simp
    moreover have "(\<exists>u v. text = u @ v \<and> u \<in> lang ((c, True) # its) \<and> (e \<longrightarrow> v = [])) \<longleftrightarrow>
        (\<exists>u v. text = u @ v \<and> list_all (accepts c) u \<and> (\<exists>x y. v = x @ y \<and> x \<in> lang its \<and> (e \<longrightarrow> y = [])))" (is "?l = ?r")
    proof
      assume ?l
      then obtain u v where u: "text = u @ v" "u \<in> lang ((c, True) # its)" "e \<longrightarrow> v = []" by blast
      then obtain x y where "u = x @ y" "list_all (accepts c) x" "y \<in> lang its" by auto
      then show ?r using u by (intro exI [of _ x] exI [of _ "y @ v"]) auto
    next
      assume ?r
      then obtain x y v where t: "text = (x @ y) @ v" "list_all (accepts c) x" "y \<in> lang its" "e \<longrightarrow> v = []" by auto
      then have "x @ y \<in> lang ((c, True) # its)" by auto
      then show ?l using t by blast
    qed
    ultimately show ?thesis unfolding matches_prefix_def by (simp only: prod.case)
  qed
qed


lemma matchhere_prefix:
  "matchhere re s \<longleftrightarrow> matches_prefix re s"
  "matchstar c re s \<longleftrightarrow> (\<exists>u v. s = u @ v \<and> list_all (accepts c) u \<and> matches_prefix re v)"
proof (induction re s and c re s rule: matchhere_matchstar.induct)
  case (2 c re s)
  consider re' where "re = 42 # re'" | "c = 36" "re = []" | "c \<noteq> 36 \<or> re \<noteq> []" "re = [] \<or> hd re \<noteq> 42" by (cases re) auto
  then show ?case
  proof cases
    case 1
    then show ?thesis using 2(1) by (simp add: matchhere.simps(2) matches_prefix_simps)
  next
    case 2
    then show ?thesis by (simp add: matchhere.simps(2) matches_prefix_simps)
  next
    case 3
    then show ?thesis using 2(2) by (cases s) (auto simp: matchhere.simps(2) matches_prefix_simps accepts_def)
  qed
next
  case (3 c re s)
  define P where "P s \<longleftrightarrow> (\<exists>u v. s = u @ v \<and> list_all (accepts c) u \<and> matches_prefix re v)" for s
  have "P s \<longleftrightarrow> matches_prefix re s \<or> (\<exists>t ts. s = t # ts \<and> accepts c t \<and> P ts)"
  proof
    assume "P s"
    then obtain u v where "s = u @ v" "list_all (accepts c) u" "matches_prefix re v" unfolding P_def by blast
    then show "matches_prefix re s \<or> (\<exists>t ts. s = t # ts \<and> accepts c t \<and> P ts)" unfolding P_def by (cases u) auto
  next
    assume "matches_prefix re s \<or> (\<exists>t ts. s = t # ts \<and> accepts c t \<and> P ts)"
    then show "P s" unfolding P_def by (metis append_Cons append_Nil list.pred_inject(1,2))
  qed
  then show ?case using 3 unfolding P_def [symmetric] by (subst matchstar.simps) (auto simp: accepts_def split: list.split)
qed (simp add: matches_prefix_simps)

lemma match_loop_suffix: "match_loop re s \<longleftrightarrow> (\<exists>u v. s = u @ v \<and> matchhere re v)"
proof (induction s)
  case (Cons t ts)
  then show ?case by (subst match_loop.simps) (auto simp: Cons_eq_append_conv)
qed (simp add: match_loop.simps)

text \<open>C25: the matcher of \<^verbatim>\<open>grep\<close> implements its regular expressions: a line matches exactly when some part
  of it is in the language of the pattern, a part at the beginning after \<^verbatim>\<open>^\<close> and at the end before
  a final \<^verbatim>\<open>$\<close>; in particular trying ever longer runs for a starred character finds a match if
  there is one.\<close>

theorem match_correct:
  "match re text \<longleftrightarrow>
     (if re \<noteq> [] \<and> hd re = 94 then matches_prefix (tl re) text else \<exists>u v. text = u @ v \<and> matches_prefix re v)"
  by (cases re) (auto simp: match_def match_loop_suffix matchhere_prefix)

section \<open>Lines\<close>

text \<open>The lines of a text that end in a newline.\<close>

function lines_of :: "u8 list \<Rightarrow> u8 list list" where
  "lines_of xs = (let l = takeWhile (\<lambda>c. c \<noteq> 10) xs
                  in if length l = length xs then [] else l # lines_of (drop (Suc (length l)) xs))"
  by pat_completeness auto
termination
proof (relation "measure length", simp)
  fix xs l :: "u8 list"
  assume "l = takeWhile (\<lambda>c. c \<noteq> 10) xs" "length l \<noteq> length xs"
  then have "xs \<noteq> []" by auto
  then show "(drop (Suc (length l)) xs, xs) \<in> measure length" by simp
qed

declare lines_of.simps [simp del]

lemma grep_lines_complete:
  assumes "drop p buf = rest @ 0 # zs" "0 \<notin> set rest"
  shows "\<exists>q buf'. grep_lines pattern buf p = Some (q, buf', map (\<lambda>l. l @ [10]) (filter (match pattern) (lines_of rest)))"
  using assms
proof (induction rest arbitrary: p buf rule: lines_of.induct)
  case (1 rest)
  define l where "l = takeWhile (\<lambda>c. c \<noteq> 10) rest"
  have nz: "takeWhile (\<lambda>c. c \<noteq> 10 \<and> c \<noteq> 0) (rest @ 0 # zs) = l"
  proof -
    have "takeWhile (\<lambda>c. c \<noteq> 10 \<and> c \<noteq> 0) (rest @ 0 # zs) = takeWhile (\<lambda>c. c \<noteq> 10 \<and> c \<noteq> 0) rest"
      by (induction rest) auto
    also have "\<dots> = l" using "1.prems"(2) unfolding l_def by (induction rest) auto
    finally show ?thesis .
  qed
  have lb: "length buf = p + length rest + 1 + length zs" using arg_cong [OF "1.prems"(1), of length] by simp
  have le: "length l \<le> length rest" by (simp add: l_def length_takeWhile_le)
  have bq: "buf ! (p + i) = (rest @ 0 # zs) ! i" for i using "1.prems"(1) nth_drop [of p buf i] lb by simp
  show ?case
  proof (cases "length l = length rest")
    case True
    then show ?thesis using bq [of "length rest"] lb by (subst grep_lines.simps, subst lines_of.simps) (simp add: "1.prems"(1) nz l_def [symmetric])
  next
    case False
    then have r: "rest = l @ 10 # drop (Suc (length l)) rest" 
      using le nth_length_takeWhile [of "\<lambda>c. c \<noteq> 10" rest] takeWhile_eq_take [of "\<lambda>c. c \<noteq> 10" rest]
      by (metis (no_types, lifting) Cons_nth_drop_Suc append_take_drop_id l_def le_neq_implies_less)
    have d: "drop (p + length l + 1) (buf[p + length l := x]) = drop (Suc (length l)) rest @ 0 # zs"
      "drop (p + length l + 1) buf = drop (Suc (length l)) rest @ 0 # zs" for x
    proof -
      have "drop (p + length l + 1) buf = drop (Suc (length l)) (drop p buf)" by (simp add: add.commute)
      also have "\<dots> = drop (Suc (length l)) rest @ 0 # zs" unfolding "1.prems"(1) using False le by simp
      finally show "drop (p + length l + 1) buf = drop (Suc (length l)) rest @ 0 # zs" .
      then show "drop (p + length l + 1) (buf[p + length l := x]) = drop (Suc (length l)) rest @ 0 # zs" by simp
    qed
    have n0: "0 \<notin> set (drop (Suc (length l)) rest)" using "1.prems"(2) by (auto dest: in_set_dropD)
    have b10: "buf ! (p + length l) = 10" using bq [of "length l"] r by (metis append.assoc append_Cons nth_append_length)
    note ih = "1.IH" [OF l_def False _ n0]
    show ?thesis using ih [OF d(1)] ih [OF d(2)] False le lb b10
      by (subst grep_lines.simps, subst lines_of.simps) (auto simp: "1.prems"(1) nz l_def [symmetric] Let_def)
  qed
qed


text \<open>An input that one \<^verbatim>\<open>read\<close> returns and that is smaller than the buffer is searched correctly: the
  lines that match are printed, in order, each with its newline, and nothing else.\<close>

theorem grep_one_read:
  assumes "inp \<noteq> []" "0 \<notin> set inp" "length inp < GREP_BUF"
  shows "map_option fst (grep pattern [inp] (replicate GREP_BUF 0)) = Some (map (\<lambda>l. l @ [10]) (filter (match pattern) (lines_of inp)))"
proof -
  define k where "k = GREP_BUF - length inp - 1"
  have "GREP_BUF - length inp = Suc k" using assms(3) by (simp add: k_def)
  then have "overwrite 0 inp (replicate GREP_BUF 0) = inp @ 0 # replicate k 0" by (simp add: overwrite_def)
  then obtain q buf' where "grep_lines pattern (overwrite 0 inp (replicate GREP_BUF 0)) 0 =
      Some (q, buf', map (\<lambda>l. l @ [10]) (filter (match pattern) (lines_of inp)))"
    using grep_lines_complete [of 0 "inp @ 0 # replicate k 0" inp "replicate k 0" pattern] assms(2) by auto
  then show ?thesis using assms(1,3) by (simp add: grep_def Let_def)
qed

theorem grep_one_read_witness:
  "map_option fst (grep [94, 97] [[97, 98, 10, 98, 97, 10]] (replicate GREP_BUF 0)) = Some [[97, 98, 10]]"
  using grep_one_read [of "[97, 98, 10, 98, 97, 10]" "[94, 97]"]
  by (simp add: GREP_BUF_def lines_of.simps match_def matchhere.simps)


end
