(* ===== verification/Ring.thy ===== *)
theory Ring
  imports Kernel_Base
begin

text \<open>
  Ring buffers with free-running 32-bit counters, as pipes and the console's input line use them:
  the byte of count \<open>i\<close> lies at \<open>i mod N\<close>, and the difference of the counters, taken with the
  wrap-around, is the number of bytes. The interface \<open>bounded_fifo\<close> is that of a queue, which pipes implement.
\<close>

definition ring_list :: "nat \<Rightarrow> 'a list \<Rightarrow> u32 \<Rightarrow> u32 \<Rightarrow> 'a list" where
  "ring_list N d r w = map (\<lambda>i. d ! (unat (r + of_nat i) mod N)) [0..<unat (w - r)]"

definition ring_ok :: "nat \<Rightarrow> 'a list \<Rightarrow> u32 \<Rightarrow> u32 \<Rightarrow> bool" where
  "ring_ok N d r w \<longleftrightarrow> N dvd 2 ^ 32 \<and> N < 2 ^ 32 \<and> length d = N \<and> unat (w - r) \<le> N"

lemma length_ring_list [simp]: "length (ring_list N d r w) = unat (w - r)"
  by (simp add: ring_list_def)

lemma ring_list_same [simp]: "ring_list N d r r = []"
  by (simp add: ring_list_def)

lemma unat_diff_Suc:
  assumes "unat (w - r) < 2 ^ 32 - 1"
  shows "unat (w + 1 - r) = Suc (unat (w - r :: u32))"
proof -
  have "unat (w + 1 - r) = unat ((w - r) + 1)" by (simp add: algebra_simps)
  also have "\<dots> = (unat (w - r) + 1) mod 2 ^ 32" by (simp add: unat_word_ariths(1))
  finally show ?thesis using assms by simp
qed

lemma unat_diff_pred:
  assumes "w \<noteq> r"
  shows "unat (w - r) = Suc (unat (w - (r + 1) :: u32))" "unat (w - 1 - r) = unat (w - (r + 1))"
proof -
  have e: "w - (r + 1) = w - r - 1" by simp
  show "unat (w - r) = Suc (unat (w - (r + 1)))" unfolding e using assms unat_minus_one [of "w - r"] unat_gt_0 [of "w - r"] by simp
  show "unat (w - 1 - r) = unat (w - (r + 1))" unfolding e by (simp add: algebra_simps)
qed

text \<open>Two positions of the buffer that are less than its size apart are different.\<close>

lemma mod_add_word:
  assumes "N dvd 2 ^ 32"
  shows "unat (r + of_nat i :: u32) mod N = (unat r + i) mod N"
proof -
  have "unat (r + of_nat i :: u32) = (unat r + i) mod 2 ^ 32"
    by (simp add: unat_word_ariths(1) unat_of_nat mod_add_right_eq)
  then show ?thesis using assms by (simp add: mod_mod_cancel)
qed

lemma ring_pos_neq:
  assumes "N dvd 2 ^ 32" "i < unat (w - r)" "unat (w - r :: u32) < N"
  shows "unat (r + of_nat i) mod N \<noteq> unat w mod N"
proof
  let ?k = "unat (w - r)"
  have w: "w = r + of_nat ?k" by simp
  assume "unat (r + of_nat i) mod N = unat w mod N"
  then have "(unat r + i) mod N = (unat r + ?k) mod N" using mod_add_word [OF assms(1), of r] w by metis
  then have "(unat r + ?k - (unat r + i)) mod N = 0" using assms(2) by (metis mod_eq_dvd_iff_nat add_left_mono less_imp_le dvd_imp_mod_0)
  then have "(?k - i) mod N = 0" by simp
  then show False using assms(2,3) by simp
qed

lemma ring_append:
  assumes "ring_ok N d r w" "unat (w - r) < N"
  shows "ring_list N (d[unat w mod N := c]) r (w + 1) = ring_list N d r w @ [c]" "ring_ok N (d[unat w mod N := c]) r (w + 1)"
proof -
  have a: "N dvd 2 ^ 32" "length d = N" "N < 2 ^ 32" using assms(1) by (simp_all add: ring_ok_def)
  then have s: "unat (w + 1 - r) = Suc (unat (w - r))" using assms(2) by (intro unat_diff_Suc) simp
  have w: "r + of_nat (unat (w - r)) = w" by simp
  have "unat w mod N < length d" using a(2) assms(2) by simp
  then show "ring_list N (d[unat w mod N := c]) r (w + 1) = ring_list N d r w @ [c]"
    using ring_pos_neq [OF a(1) _ assms(2)] unfolding ring_list_def s by (simp add: w nth_list_update)
  show "ring_ok N (d[unat w mod N := c]) r (w + 1)" using assms a s by (simp add: ring_ok_def)
qed

lemma ring_head:
  assumes "r \<noteq> w"
  shows "ring_list N d r w = d ! (unat r mod N) # ring_list N d (r + 1) w"
proof -
  have "ring_list N d r w = map (\<lambda>i. d ! (unat (r + of_nat i) mod N)) [0..<Suc (unat (w - (r + 1)))]"
    using assms unat_diff_pred(1) [of w r] by (simp add: ring_list_def del: upt_Suc)
  then show ?thesis by (simp add: ring_list_def map_upt_Suc add.assoc del: upt_Suc)
qed

lemma ring_ok_head: "ring_ok N d r w \<Longrightarrow> r \<noteq> w \<Longrightarrow> ring_ok N d (r + 1) w"
  using unat_diff_pred(1) [of w r] by (simp add: ring_ok_def)

lemma ring_butlast:
  assumes "r \<noteq> w"
  shows "ring_list N d r (w - 1) = butlast (ring_list N d r w)"
proof -
  have "unat (w - 1 - r) = unat (w - r) - 1" using assms unat_diff_pred [of w r] by simp
  then show ?thesis by (simp add: ring_list_def map_butlast [symmetric] butlast_conv_take take_map)
qed

section \<open>The interface\<close>

locale bounded_fifo =
  fixes cap :: nat and contents :: "'q \<Rightarrow> 'a list" and ok :: "'q \<Rightarrow> bool"
    and full :: "'q \<Rightarrow> bool" and empty :: "'q \<Rightarrow> bool" and put :: "'a \<Rightarrow> 'q \<Rightarrow> 'q" and get :: "'q \<Rightarrow> 'a \<times> 'q"
  assumes bound: "ok q \<Longrightarrow> length (contents q) \<le> cap"
    and full: "ok q \<Longrightarrow> full q \<longleftrightarrow> length (contents q) = cap"
    and empty: "ok q \<Longrightarrow> empty q \<longleftrightarrow> contents q = []"
    and put: "ok q \<Longrightarrow> \<not> full q \<Longrightarrow> ok (put x q) \<and> contents (put x q) = contents q @ [x]"
    and get: "ok q \<Longrightarrow> \<not> empty q \<Longrightarrow> ok (snd (get q)) \<and> contents q = fst (get q) # contents (snd (get q))"
begin

text \<open>Adding and removing several elements, as far as the buffer goes.\<close>

fun put_all :: "'a list \<Rightarrow> 'q \<Rightarrow> 'a list \<times> 'q" where
  "put_all [] q = ([], q)"
| "put_all (x # xs) q = (if full q then (x # xs, q) else put_all xs (put x q))"

fun get_upto :: "nat \<Rightarrow> 'q \<Rightarrow> 'a list \<times> 'q" where
  "get_upto 0 q = ([], q)"
| "get_upto (Suc n) q = (if empty q then ([], q) else let (x, q) = get q; (xs, q) = get_upto n q in (x # xs, q))"

lemma put_all_contents:
  assumes "ok q"
  shows "ok (snd (put_all xs q)) \<and> contents (snd (put_all xs q)) @ fst (put_all xs q) = contents q @ xs \<and>
     (fst (put_all xs q) \<noteq> [] \<longrightarrow> length (contents (snd (put_all xs q))) = cap)"
  using assms
proof (induction xs arbitrary: q)
  case (Cons x xs)
  show ?case
  proof (cases "full q")
    case False
    then show ?thesis using Cons.IH [of "put x q"] put [OF Cons.prems False, of x] by simp
  qed (use Cons.prems full in simp)
qed simp

lemma get_upto_contents:
  assumes "ok q"
  shows "ok (snd (get_upto n q)) \<and> fst (get_upto n q) = take n (contents q) \<and> contents (snd (get_upto n q)) = drop n (contents q)"
  using assms
proof (induction n arbitrary: q)
  case (Suc n)
  then show ?case using get [OF Suc.prems] empty [OF Suc.prems] by (cases "empty q") (auto simp: case_prod_beta Let_def)
qed simp

end

end
