(* ===== verification/Pipe_Lemmas.thy ===== *)
theory Pipe_Lemmas
  imports File Ring
begin

text \<open>
  A pipe as a queue of bytes: the ring buffer with its 32-bit counters implements the bounded
  queue of \<open>Ring\<close>, and \<open>pipewrite\<close> and \<open>piperead\<close> implement appending to it and taking from it.
\<close>

definition pipe_bytes :: "pipe \<Rightarrow> u8 list" where
  "pipe_bytes q = ring_list PIPESIZE (pi_data q) (pi_nread q) (pi_nwrite q)"

definition pipe_ok :: "pipe \<Rightarrow> bool" where
  "pipe_ok q \<longleftrightarrow> ring_ok PIPESIZE (pi_data q) (pi_nread q) (pi_nwrite q)"

definition pipe_full :: "pipe \<Rightarrow> bool" where
  "pipe_full q \<longleftrightarrow> pi_nwrite q = pi_nread q + of_nat PIPESIZE"

definition pipe_empty :: "pipe \<Rightarrow> bool" where
  "pipe_empty q \<longleftrightarrow> pi_nread q = pi_nwrite q"

definition pipe_get :: "pipe \<Rightarrow> u8 \<times> pipe" where
  "pipe_get q = (pi_data q ! (unat (pi_nread q) mod PIPESIZE), q\<lparr>pi_nread := pi_nread q + 1\<rparr>)"

lemma pipe_full_iff: "pipe_full q \<longleftrightarrow> length (pipe_bytes q) = PIPESIZE"
proof -
  have "pi_nwrite q = pi_nread q + of_nat PIPESIZE \<longleftrightarrow> pi_nwrite q - pi_nread q = of_nat PIPESIZE"
    by (auto simp: algebra_simps)
  also have "\<dots> \<longleftrightarrow> unat (pi_nwrite q - pi_nread q) = unat (of_nat PIPESIZE :: u32)" by (simp add: word_unat_eq_iff)
  finally show ?thesis by (simp add: pipe_full_def pipe_bytes_def PIPESIZE_def)
qed

interpretation pq: bounded_fifo PIPESIZE pipe_bytes pipe_ok pipe_full pipe_empty pipe_put pipe_get
proof
  fix q :: pipe and x :: u8
  assume ok: "pipe_ok q"
  show "length (pipe_bytes q) \<le> PIPESIZE" using ok by (simp add: pipe_ok_def ring_ok_def pipe_bytes_def)
  show "pipe_full q \<longleftrightarrow> length (pipe_bytes q) = PIPESIZE" by (rule pipe_full_iff)
  have "pipe_bytes q = [] \<longleftrightarrow> unat (pi_nwrite q - pi_nread q) = 0" by (simp add: pipe_bytes_def flip: length_0_conv)
  then show "pipe_empty q \<longleftrightarrow> pipe_bytes q = []" by (auto simp: pipe_empty_def unat_eq_0)
  show "pipe_ok (pipe_put x q) \<and> pipe_bytes (pipe_put x q) = pipe_bytes q @ [x]" if "\<not> pipe_full q"
  proof -
    have "unat (pi_nwrite q - pi_nread q) < PIPESIZE"
      using that ok unfolding pipe_full_iff by (simp add: pipe_ok_def ring_ok_def pipe_bytes_def)
    then show ?thesis using ok ring_append [of PIPESIZE "pi_data q" "pi_nread q" "pi_nwrite q" x]
      by (simp add: pipe_ok_def pipe_bytes_def pipe_put_def)
  qed
  show "pipe_ok (snd (pipe_get q)) \<and> pipe_bytes q = fst (pipe_get q) # pipe_bytes (snd (pipe_get q))" if "\<not> pipe_empty q"
    using that ok ring_head [of "pi_nread q" "pi_nwrite q" PIPESIZE "pi_data q"] ring_ok_head [of PIPESIZE "pi_data q" "pi_nread q" "pi_nwrite q"]
    by (simp add: pipe_empty_def pipe_get_def pipe_ok_def pipe_bytes_def)
qed

lemma piperead_loop_get: "piperead_loop n q = pq.get_upto n q"
  by (induction n arbitrary: q) (simp_all add: pipe_empty_def pipe_get_def)

text \<open>The loop of \<open>pipewrite\<close> fills the pipe as far as it goes; then it is done, stops or sleeps.\<close>

definition set_pipe :: "u32 \<Rightarrow> pipe \<Rightarrow> 'a file_st_scheme \<Rightarrow> 'a file_st_scheme" where
  "set_pipe p q s = s\<lparr>pipes := (pipes s)(p := q)\<rparr>"

lemma set_pipe_simps [simp]:
  "pipes (set_pipe p q s) p = q" "lockset L (set_pipe p q s) = lockset L s" "curproc (set_pipe p q s) = curproc s"
  "procs (set_pipe p q s) = procs s" "set_pipe p q (set_pipe p r s) = set_pipe p q s" "set_pipe p (pipes s p) s = s"
  "upd_pipe p f s = set_pipe p (f (pipes s p)) s"
  by (simp_all add: set_pipe_def lockset_def upd_pipe_def)

lemma pipewrite_loop_put:
  "pipewrite_loop p cs s = (let (rest, q) = pq.put_all cs (pipes s p); t = set_pipe p q s
     in if rest = [] then Inr (True, t)
        else kbind (if \<not> pi_readopen q then Inr True else cur_killed t) (\<lambda>stop.
             if stop then Inr (False, t) else kbind (wakeup (ChPipeRead p) t) (sleep (ChPipeWrite p) (LPipe p))))"
proof (induction cs arbitrary: s)
  case (Cons c cs)
  show ?case
  proof (cases "pipe_full (pipes s p)")
    case True
    then show ?thesis by (simp add: pipe_full_def [symmetric])
  next
    case False
    then show ?thesis using Cons [of "set_pipe p (pipe_put c (pipes s p)) s"] by (simp add: pipe_full_def [symmetric])
  qed
qed simp

lemma pipe_put_open: "pi_readopen (snd (pq.put_all cs q)) = pi_readopen q" "pi_writeopen (snd (pq.put_all cs q)) = pi_writeopen q"
  by (induction cs arbitrary: q) (simp_all add: pipe_put_def)


lemma pipes_more: "proc_st.more t = proc_st.more s \<Longrightarrow> pipes t = pipes s"
  by (cases s; cases t) simp

lemma wakeup_more:
  assumes "lockset L s" "LPtable \<notin> set L"
  shows "\<exists>t. wakeup ch s = Inr t \<and> lockset L t \<and> proc_st.more t = proc_st.more s \<and> curproc t = curproc s \<and>
     procs t = map (awaken (Some ch)) (procs s)"
  using wakeup_ok [OF assms, of ch] by simp

text \<open>C11: \<^verbatim>\<open>pipewrite\<close> appends to the queue of unread bytes. What fits is appended in order; if that is
  everything it returns the count. If the pipe is full before that, it returns -1 when no reader is
  left or the process is killed, and otherwise the process sleeps until a reader makes room.\<close>

theorem pipewrite_appends:
  fixes s :: "'a file_st_scheme"
  assumes l: "lockset [] s" and q: "pipe_ok (pipes s p)" and c: "curproc s = Some c" "c < length (procs s)"
  defines "fit \<equiv> PIPESIZE - length (pipe_bytes (pipes s p))"
  shows "\<exists>t. pipe_ok (pipes t p) \<and> pipe_bytes (pipes t p) = pipe_bytes (pipes s p) @ take fit cs \<and>
     (if length cs \<le> fit then pipewrite p n cs s = Inr (n, t) \<and> lockset [] t
      else if \<not> pi_readopen (pipes s p) \<or> p_killed (procs s ! c) then pipewrite p n cs s = Inr (-1, t) \<and> lockset [] t
      else pipewrite p n cs s = Inl (Switch t) \<and> p_state (procs t ! c) = SLEEPING \<and> p_chan (procs t ! c) = Some (ChPipeWrite p))"
proof -
  let ?a = "acq (LPipe p) s"
  have a: "acquire (LPipe p) s = Inr ?a" "lockset [LPipe p] ?a" using acquire_acq [OF l, of "LPipe p"] by auto
  have pa: "pipes ?a = pipes s" by (rule pipes_more) simp
  define rest q' where "rest = fst (pq.put_all cs (pipes s p))" and "q' = snd (pq.put_all cs (pipes s p))"
  have pc: "pipe_ok q'" "pipe_bytes q' @ rest = pipe_bytes (pipes s p) @ cs" "rest \<noteq> [] \<longrightarrow> length (pipe_bytes q') = PIPESIZE"
    using pq.put_all_contents [OF q, of cs] by (auto simp: rest_def q'_def)
  have ro: "pi_readopen q' = pi_readopen (pipes s p)" by (simp add: q'_def pipe_put_open)
  have bound: "length (pipe_bytes (pipes s p)) \<le> PIPESIZE" "length (pipe_bytes q') \<le> PIPESIZE" using pq.bound q pc(1) by auto
  let ?t = "set_pipe p q' ?a"
  have lt: "lockset [LPipe p] ?t" using a(2) by simp
  have "pq.put_all cs (pipes s p) = (rest, q')" by (simp add: rest_def q'_def)
  then have w: "pipewrite_loop p cs ?a = (if rest = [] then Inr (True, ?t)
        else kbind (if \<not> pi_readopen q' then Inr True else cur_killed ?t) (\<lambda>stop.
             if stop then Inr (False, ?t) else kbind (wakeup (ChPipeRead p) ?t) (sleep (ChPipeWrite p) (LPipe p))))"
    by (simp add: pipewrite_loop_put pa Let_def)
  have len: "length (pipe_bytes q') + length rest = length (pipe_bytes (pipes s p)) + length cs" using arg_cong [OF pc(2), of length] by simp
  obtain v where v: "wakeup (ChPipeRead p) ?t = Inr v" "lockset [LPipe p] v" "proc_st.more v = proc_st.more ?t" "curproc v = curproc ?t"
    "procs v = map (awaken (Some (ChPipeRead p))) (procs ?t)" using wakeup_more [OF lt] by auto
  have pv: "pipes v p = q'" using pipes_more [OF v(3)] by simp
  have pw: "pipewrite p n cs s = pipewrite_rest p n cs ?a" by (simp add: pipewrite_def a(1))
  show ?thesis
  proof (cases "rest = []")
    case True
    then have b: "pipe_bytes q' = pipe_bytes (pipes s p) @ cs" "length cs \<le> fit" using pc(2) bound(2) len by (auto simp: fit_def)
    let ?r = "rel (LPipe p) v"
    have r: "release (LPipe p) v = Inr ?r" "lockset [] ?r" "pipes ?r p = q'"
      using release_rel [OF v(2)] pv pipes_more [of ?r v] by simp_all
    have "pipewrite p n cs s = Inr (n, ?r)" by (simp add: pw pipewrite_rest_def w True v(1) r(1))
    then show ?thesis using b r pc(1) by (intro exI [of _ ?r]) simp
  next
    case False
    then have f1: "length (pipe_bytes q') = PIPESIZE" "0 < length rest" using pc(3) by auto
    then have f: "length (pipe_bytes q') = PIPESIZE" "\<not> length cs \<le> fit" using len bound(1) unfolding fit_def by linarith+
    have "pipe_bytes q' = take PIPESIZE (pipe_bytes (pipes s p) @ cs)" using f(1) by (simp add: pc(2) [symmetric])
    then have b: "pipe_bytes q' = pipe_bytes (pipes s p) @ take fit cs" using bound(1) by (simp add: fit_def)
    have k: "cur_killed ?t = Inr (p_killed (procs s ! c))" using c by (simp add: cur_killed_def)
    show ?thesis
    proof (cases "\<not> pi_readopen (pipes s p) \<or> p_killed (procs s ! c)")
      case True
      let ?r = "rel (LPipe p) ?t"
      have r: "release (LPipe p) ?t = Inr ?r" "lockset [] ?r" "pipes ?r p = q'"
        using release_rel [OF lt] pipes_more [of ?r ?t] by simp_all
      have "pipewrite p n cs s = Inr (-1, ?r)" using True by (auto simp: pw pipewrite_rest_def w False k ro r(1))
      then show ?thesis using b r pc(1) f(2) True by (intro exI [of _ ?r]) simp
    next
      case notstop: False
      have cv: "curproc v = Some c" "c < length (procs v)" using v(4,5) c by simp_all
      obtain u where u: "sleep (ChPipeWrite p) (LPipe p) v = (Inl (Switch u) :: ('a file_st_scheme, bool \<times> 'a file_st_scheme) kres)" "proc_st.more u = proc_st.more v"
        "procs u = (procs v)[c := (procs v ! c)\<lparr>p_chan := Some (ChPipeWrite p), p_state := SLEEPING\<rparr>]"
        using sleep_switches [OF v(2) cv, of "ChPipeWrite p"] by (metis (full_types))
      have "pipewrite_loop p cs ?a = Inl (Switch u)" using notstop k ro u(1) by (simp add: w False v(1))
      then have "pipewrite p n cs s = Inl (Switch u)" by (simp add: pw pipewrite_rest_def)
      then show ?thesis using b pc(1) f(2) notstop u pv pipes_more [OF u(2)] cv(2) by (intro exI [of _ u]) simp
    qed
  qed
qed


text \<open>A pipe with two unread bytes whose counters are about to wrap, used by a running process.\<close>

definition pipe0 :: pipe where
  "pipe0 = \<lparr>pi_data = (replicate PIPESIZE 0)[510 := 1, 511 := 2], pi_nread = -2, pi_nwrite = 0, pi_readopen = True, pi_writeopen = True\<rparr>"

definition pipe_st0 :: file_st where
  "pipe_st0 = \<lparr>locks = \<lambda>_. \<lparr>locked = 0, holder = None\<rparr>, cpu = \<lparr>cpu_id = 0, ncli = 0, intena = False\<rparr>,
     IF = True, mem = \<lambda>_. 0, use_lock = True, freelist = 0, kpgdir = 0, cr3 = 0, procs = [proc0\<lparr>p_state := RUNNING\<rparr>],
     curproc = Some 0, initproc = None, nextpid = 1, ts_ss0 = 0, ts_esp0 = 0, bufs = [], disksize = 0,
     image = \<lambda>_. [], writes = [], idequeue = None, havedisk1 = False, ide_port = None, ide_disk = \<lambda>_ _. [],
     lg_start = 0, lg_size = 0, lg_busy = False, lg_dev = 0, lh_n = 0, lh_sector = [], inodes = [],
     cons_locking = True, panicked = False, in_buf = [], in_r = 0, in_w = 0, in_e = 0, uart = False,
     uart_out = [], crt = [], crt_pos = 0, kbd_shift = 0, dev_console = True, files = [], pipes = \<lambda>_. pipe0\<rparr>"

lemma pipe0_facts: "pipe_ok pipe0" "pipe_bytes pipe0 = [1, 2]"
proof -
  have "[0..<2] = [0, 1]" by (simp add: upt_rec)
  moreover have "unat (- 1 :: u32) = 4294967295" by (simp add: unsigned_minus_1_eq_mask mask_eq_exp_minus_1)
  ultimately show "pipe_ok pipe0" "pipe_bytes pipe0 = [1, 2]"
    by (simp_all add: pipe_ok_def pipe_bytes_def ring_ok_def ring_list_def pipe0_def PIPESIZE_def)
qed

lemma pipe_st0_facts: "lockset [] pipe_st0" "pipes pipe_st0 p = pipe0" "curproc pipe_st0 = Some 0" "procs pipe_st0 = [proc0\<lparr>p_state := RUNNING\<rparr>]"
  by (simp_all add: pipe_st0_def lockset_def)

theorem pipewrite_appends_witness:
  "\<exists>t. pipe_bytes (pipes t 0x1000) = [1, 2, 3] \<and> pipewrite 0x1000 1 [3] pipe_st0 = Inr (1, t)"
  using pipewrite_appends [where p = "0x1000" and c = 0 and cs = "[3]" and n = 1, OF pipe_st0_facts(1)] by (simp add: pipe_st0_facts pipe0_facts PIPESIZE_def) blast

text \<open>C12: \<^verbatim>\<open>piperead\<close> takes from the front of the queue. With bytes in the pipe, or no writer left, it returns
  the first ones, at most as many as asked for, and they are gone from the queue; an empty pipe
  whose writer is gone reads as end of file. With a writer, an empty pipe makes a killed process
  return -1 and any other sleep, the pipe unchanged.\<close>

theorem piperead_takes:
  fixes s :: "'a file_st_scheme"
  assumes l: "lockset [] s" and q: "pipe_ok (pipes s p)" and c: "curproc s = Some c" "c < length (procs s)"
  defines "bs \<equiv> pipe_bytes (pipes s p)"
  shows "\<exists>t. pipe_ok (pipes t p) \<and>
     (if bs \<noteq> [] \<or> \<not> pi_writeopen (pipes s p)
      then piperead p n s = Inr (int (length (take (nat n) bs)), take (nat n) bs, t) \<and> pipe_bytes (pipes t p) = drop (nat n) bs \<and> lockset [] t
      else pipe_bytes (pipes t p) = [] \<and>
        (if p_killed (procs s ! c) then piperead p n s = Inr (-1, [], t) \<and> lockset [] t
         else piperead p n s = Inl (Switch t) \<and> p_state (procs t ! c) = SLEEPING \<and> p_chan (procs t ! c) = Some (ChPipeRead p)))"
proof -
  let ?a = "acq (LPipe p) s"
  have a: "acquire (LPipe p) s = Inr ?a" "lockset [LPipe p] ?a" using acquire_acq [OF l, of "LPipe p"] by auto
  have pa: "pipes ?a = pipes s" by (rule pipes_more) simp
  have e: "pi_nread (pipes s p) = pi_nwrite (pipes s p) \<longleftrightarrow> bs = []" using pq.empty [OF q] by (simp add: pipe_empty_def bs_def)
  have pr: "piperead p n s = piperead_round p n ?a" by (simp add: piperead_def a(1))
  show ?thesis
  proof (cases "bs \<noteq> [] \<or> \<not> pi_writeopen (pipes s p)")
    case True
    define out q' where "out = fst (pq.get_upto (nat n) (pipes s p))" and "q' = snd (pq.get_upto (nat n) (pipes s p))"
    have g: "pipe_ok q'" "out = take (nat n) bs" "pipe_bytes q' = drop (nat n) bs"
      using pq.get_upto_contents [OF q, of "nat n"] by (auto simp: out_def q'_def bs_def)
    have gl: "piperead_loop (nat n) (pipes s p) = (out, q')" by (simp add: piperead_loop_get out_def q'_def)
    have lt: "lockset [LPipe p] (set_pipe p q' ?a)" using a(2) by simp
    obtain v where v: "wakeup (ChPipeWrite p) (set_pipe p q' ?a) = Inr v" "lockset [LPipe p] v"
      "proc_st.more v = proc_st.more (set_pipe p q' ?a)" using wakeup_more [OF lt] by auto
    let ?r = "rel (LPipe p) v"
    have r: "release (LPipe p) v = Inr ?r" "lockset [] ?r" "pipes ?r p = q'"
      using release_rel [OF v(2)] pipes_more [of ?r v] pipes_more [OF v(3)] by simp_all
    have "piperead p n s = Inr (int (length out), out, ?r)"
      using True e by (auto simp: pr piperead_round_def gl pa v(1) r(1))
    then show ?thesis using g r True by (intro exI [of _ ?r]) simp
  next
    case False
    show ?thesis
    proof (cases "p_killed (procs s ! c)")
      case True
      let ?r = "rel (LPipe p) ?a"
      have r: "release (LPipe p) ?a = Inr ?r" "lockset [] ?r" "pipes ?r = pipes s"
        using release_rel [OF a(2)] pipes_more [of ?r s] by simp_all
      have "piperead p n s = Inr (-1, [], ?r)" using False True e c by (simp add: pr piperead_round_def pa cur_killed_def r(1))
      then show ?thesis using False True r q by (intro exI [of _ ?r]) (simp add: bs_def)
    next
      case alive: False
      obtain u where u: "sleep (ChPipeRead p) (LPipe p) ?a = (Inl (Switch u) :: ('a file_st_scheme, int \<times> u8 list \<times> 'a file_st_scheme) kres)"
         "proc_st.more u = proc_st.more ?a" "procs u = (procs ?a)[c := (procs ?a ! c)\<lparr>p_chan := Some (ChPipeRead p), p_state := SLEEPING\<rparr>]"
        using sleep_switches [OF a(2), of c "ChPipeRead p"] c by (auto)
      have "piperead p n s = Inl (Switch u)" using False alive e c u(1) by (simp add: pr piperead_round_def pa cur_killed_def)
      then show ?thesis using False alive u pipes_more [OF u(2)] pa q c by (intro exI [of _ u]) (simp add: bs_def)
    qed
  qed
qed


theorem piperead_takes_witness:
  "\<exists>t. pipe_bytes (pipes t 0x1000) = [2] \<and> piperead 0x1000 1 pipe_st0 = Inr (1, [1], t)"
  using piperead_takes [where p = "0x1000" and c = 0 and n = 1, OF pipe_st0_facts(1)] by (simp add: pipe_st0_facts pipe0_facts) blast

end
