(* ===== verification/Console_Lemmas.thy ===== *)
theory Console_Lemmas
  imports Console Ring
begin

text \<open>
  The console: output never leaves the display memory, and the line editor keeps the three
  counters of the input buffer in order, so that the interrupt handler always returns. The input
  buffer is a ring buffer as in \<open>Ring\<close>.
\<close>

section \<open>Output\<close>

definition crt_ok :: "'a cons_st_scheme \<Rightarrow> bool" where
  "crt_ok s \<longleftrightarrow> length (crt s) = 2000 \<and> unat (crt_pos s) < 24 * 80"

text \<open>Everything but the screen, the serial port and the locks is the same.\<close>

definition screen_rest :: "'a cons_st_scheme \<Rightarrow> 'a cons_st_scheme \<Rightarrow> bool" where
  "screen_rest s t \<longleftrightarrow> mach.more (t\<lparr>crt := [], crt_pos := 0, uart_out := []\<rparr>) = mach.more (s\<lparr>crt := [], crt_pos := 0, uart_out := []\<rparr>)"

lemma screen_rest_refl [simp]: "screen_rest s s"
  by (simp add: screen_rest_def)

lemma screen_rest_trans [trans]: "screen_rest s t \<Longrightarrow> screen_rest t u \<Longrightarrow> screen_rest s u"
  by (simp add: screen_rest_def)

lemma screen_rest_fields:
  assumes "screen_rest s t"
  shows "in_buf t = in_buf s" "in_r t = in_r s" "in_w t = in_w s" "in_e t = in_e s" "panicked t = panicked s"
    "cons_locking t = cons_locking s" "procs t = procs s" "mem t = mem s" "curproc t = curproc s"
  using assms by (cases s; cases t; simp add: screen_rest_def)+

lemma screen_rest_upd [simp]:
  "screen_rest s (s\<lparr>crt := x, crt_pos := y\<rparr>)" "screen_rest s (s\<lparr>uart_out := z\<rparr>)" "screen_rest s (acq lk s)" "screen_rest s (rel lk s)"
  by (cases s; simp add: screen_rest_def acq_def rel_def pushcli_def Let_def)+

lemma cons_lockset [simp]:
  "lockset L (s\<lparr>crt := x, crt_pos := y\<rparr>) = lockset L s" "lockset L (s\<lparr>uart_out := z\<rparr>) = lockset L s"
  "lockset L (s\<lparr>in_e := e\<rparr>) = lockset L s" "lockset L (s\<lparr>in_buf := b\<rparr>) = lockset L s" "lockset L (s\<lparr>in_w := w\<rparr>) = lockset L s"
  by (simp_all add: lockset_def)

definition prints :: "lockid list \<Rightarrow> 'a cons_st_scheme \<Rightarrow> 'a cons_st_scheme \<Rightarrow> bool" where
  "prints L s t \<longleftrightarrow> lockset L t \<and> crt_ok t \<and> screen_rest s t"

lemma prints_trans: "prints L s t \<Longrightarrow> prints L t u \<Longrightarrow> prints L s u"
  by (auto simp: prints_def intro: screen_rest_trans)

lemma cgaputc_ok:
  assumes "crt_ok s"
  shows "\<exists>x y. cgaputc c s = Inr (s\<lparr>crt := x, crt_pos := y\<rparr>) \<and> length x = 2000 \<and> unat y < 24 * 80"
proof -
  define pos cells where "pos = unat (crt_pos s)" and "cells = crt s"
  have p: "pos < 1920" "length cells = 2000" using assms by (simp_all add: crt_ok_def pos_def cells_def)
  define pos' where "pos' = (if c = 10 then pos + (80 - pos mod 80) else if c = BACKSPACE then (if pos > 0 then pos - 1 else pos) else pos + 1)"
  define cells' where "cells' = (if c = 10 \<or> c = BACKSPACE then cells else cells[pos := (ucast c AND 0xFF) OR 0x0700])"
  have "pos mod 80 < 80" "pos div 80 < 24" "pos = 80 * (pos div 80) + pos mod 80" using p(1) by simp_all
  then have "pos + (80 - pos mod 80) \<le> 1920" by linarith
  then have p': "pos' \<le> 1920" "length cells' = 2000" using p by (auto simp: pos'_def cells'_def)
  have step: "(if c = 10 then Inr (pos + (80 - pos mod 80), cells) else if c = BACKSPACE then Inr (if pos > 0 then pos - 1 else pos, cells)
      else if pos < length cells then Inr (pos + 1, cells[pos := (ucast c AND 0xFF) OR 0x0700]) else Inl (Fault ''cgaputc: cell'')) = Inr (pos', cells')"
    using p by (simp add: pos'_def cells'_def)
  define scroll where "scroll = take (23 * 80) (drop 80 cells') @ drop (23 * 80) cells'"
  define pos2 cells2 where "pos2 = (if 24 \<le> pos' div 80 then pos' - 80 else pos')"
    and "cells2 = (if 24 \<le> pos' div 80 then overwrite (pos' - 80) (replicate (24 * 80 - (pos' - 80)) 0) scroll else cells')"
  have "length scroll = 2000" using p'(2) by (simp add: scroll_def)
  then have l2: "length cells2 = 2000" using p' by (simp add: cells2_def)
  have p2: "pos2 < 1920" using p'(1) by (auto simp: pos2_def)
  have "pos' - 80 \<le> 24 * 80" using p'(1) by simp
  then have step2: "(if 24 \<le> pos' div 80 then if 24 * 80 < pos' - 80 then Inl (Fault ''cgaputc: memset'')
        else Inr (pos' - 80, overwrite (pos' - 80) (replicate (24 * 80 - (pos' - 80)) 0) (take (23 * 80) (drop 80 cells') @ drop (23 * 80) cells'))
      else Inr (pos', cells')) = Inr (pos2, cells2)" by (simp only: pos2_def cells2_def scroll_def not_less if_False split: if_split) auto
  have "cgaputc c s = Inr (s\<lparr>crt := cells2[pos2 := 0x0720], crt_pos := of_nat pos2\<rparr>)"
    unfolding cgaputc_def Let_def pos_def [symmetric] cells_def [symmetric] step kbind_simps prod.case step2 using l2 p2 by simp
  moreover have "unat (of_nat pos2 :: u16) < 24 * 80" using p2 by (simp add: unat_of_nat)
  ultimately show ?thesis using l2 by (intro exI [of _ "cells2[pos2 := 0x0720]"] exI [of _ "of_nat pos2"]) simp
qed

lemma uartputc_ok: "\<exists>z. uartputc c s = s\<lparr>uart_out := z\<rparr>"
proof (cases "uart s")
  case False
  then have "uartputc c s = s\<lparr>uart_out := uart_out s\<rparr>" by (simp add: uartputc_def)
  then show ?thesis by blast
qed (auto simp: uartputc_def)

lemma consputc_ok:
  assumes "lockset L s" "crt_ok s" "\<not> panicked s"
  shows "returns (consputc c s) (prints L s)"
proof -
  obtain z where z: "(if c = BACKSPACE then uartputc 8 (uartputc 32 (uartputc 8 s)) else uartputc c s) = s\<lparr>uart_out := z\<rparr>"
  proof (cases "c = BACKSPACE")
    case True
    obtain z1 where 1: "uartputc 8 s = s\<lparr>uart_out := z1\<rparr>" using uartputc_ok by blast
    obtain z2 where 2: "uartputc 32 (s\<lparr>uart_out := z1\<rparr>) = s\<lparr>uart_out := z2\<rparr>" using uartputc_ok [of 32 "s\<lparr>uart_out := z1\<rparr>"] by auto
    obtain z3 where "uartputc 8 (s\<lparr>uart_out := z2\<rparr>) = s\<lparr>uart_out := z3\<rparr>" using uartputc_ok [of 8 "s\<lparr>uart_out := z2\<rparr>"] by auto
    then show ?thesis using that True 1 2 by simp
  qed (use uartputc_ok [of c s] that in auto)
  have "crt_ok (s\<lparr>uart_out := z\<rparr>)" using assms(2) by (simp add: crt_ok_def)
  then obtain x y where "cgaputc c (s\<lparr>uart_out := z\<rparr>) = Inr (s\<lparr>uart_out := z, crt := x, crt_pos := y\<rparr>)" "length x = 2000" "unat y < 1920"
    using cgaputc_ok [of "s\<lparr>uart_out := z\<rparr>" c] by auto
  moreover have "screen_rest s (s\<lparr>uart_out := z, crt := x, crt_pos := y\<rparr>)" by (rule screen_rest_trans [of _ "s\<lparr>uart_out := z\<rparr>"]) simp_all
  ultimately show ?thesis using assms z by (simp add: consputc_def prints_def crt_ok_def)
qed

lemma consputs_ok:
  assumes "lockset L s" "crt_ok s" "\<not> panicked s"
  shows "returns (consputs cs s) (prints L s)"
  using assms
proof (induction cs arbitrary: s)
  case (Cons c cs)
  show ?case unfolding consputs.simps
  proof (rule returns_bindI [OF consputc_ok [OF Cons.prems]])
    fix t assume t: "prints L s t"
    then have "returns (consputs cs t) (prints L t)" using Cons.prems screen_rest_fields(5) [of s t] by (intro Cons.IH) (auto simp: prints_def)
    then show "returns (consputs cs t) (prints L s)" by (rule returns_mono) (rule prints_trans [OF t])
  qed
qed (simp add: prints_def)

lemma cprintf_ok:
  assumes "lockset L s" "LCons \<notin> set L" "crt_ok s" "\<not> panicked s" "cprintf_chars fmt args \<noteq> None"
  shows "returns (cprintf fmt args s) (prints L s)"
proof -
  obtain out where out: "cprintf_chars fmt args = Some out" using assms(5) by auto
  show ?thesis
  proof (cases "cons_locking s")
    case True
    let ?a = "acq LCons s"
    have a: "acquire LCons s = Inr ?a" "lockset (LCons # L) ?a" using acquire_acq [OF assms(1,2)] by auto
    have f: "crt_ok ?a" "\<not> panicked ?a" using assms(3,4) screen_rest_fields(5) [OF screen_rest_upd(3), of LCons s]
      by (simp_all add: crt_ok_def acq_def pushcli_def Let_def)
    obtain t where t: "consputs out ?a = Inr t" "prints (LCons # L) ?a t" using consputs_ok [OF a(2) f] by (auto simp: returns_def)
    then have r: "release LCons t = Inr (rel LCons t)" "lockset L (rel LCons t)" using release_rel [of LCons L t] by (auto simp: prints_def)
    have "screen_rest s (rel LCons t)" using t(2) by (auto simp: prints_def intro: screen_rest_trans [OF screen_rest_trans [OF screen_rest_upd(3)]])
    moreover have "crt_ok (rel LCons t)" using t(2) by (simp add: prints_def crt_ok_def rel_def)
    ultimately show ?thesis using True out a(1) t(1) r by (simp add: cprintf_def prints_def)
  next
    case False
    then show ?thesis using consputs_ok [OF assms(1,3,4), of out] out by (simp add: cprintf_def)
  qed
qed

lemma print_pcs_ok:
  assumes "lockset L s" "LCons \<notin> set L" "crt_ok s" "\<not> panicked s"
  shows "returns (print_pcs xs s) (prints L s)"
  using assms
proof (induction xs arbitrary: s)
  case (Cons x xs)
  have "cprintf_chars (bytes '' %p'') [AInt x] \<noteq> None" by (simp add: bytes_def)
  note cp = cprintf_ok [OF Cons.prems this]
  show ?case unfolding print_pcs.simps
  proof (rule returns_bindI [OF cp])
    fix t assume t: "prints L s t"
    then have "returns (print_pcs xs t) (prints L t)" using Cons.prems screen_rest_fields(5) [of s t] by (intro Cons.IH) (auto simp: prints_def)
    then show "returns (print_pcs xs t) (prints L s)" by (rule returns_mono) (rule prints_trans [OF t])
  qed
qed (simp add: prints_def)


lemma procdump_loop_ok:
  assumes "lockset L s" "LCons \<notin> set L" "crt_ok s" "\<not> panicked s"
  shows "returns (procdump_loop ps s) (prints L s)"
  using assms
proof (induction ps arbitrary: s)
  case (Cons q ps)
  have next_ok: "lockset L t \<and> LCons \<notin> set L \<and> crt_ok t \<and> \<not> panicked t" if "prints L s t" for t
    using that Cons.prems screen_rest_fields(5) [of s t] by (auto simp: prints_def)
  have fmt: "cprintf_chars (bytes ''%d %s %s'') [AInt x, AStr y, AStr z] \<noteq> None" "cprintf_chars [10] [] \<noteq> None" for x y z
    by (simp_all add: bytes_def)
  show ?case
  proof (cases "p_state q = UNUSED")
    case False
    have "returns (kbind (if p_state q = SLEEPING then let ebp = load32 (mem t) (p_context q + 12)
                       in print_pcs (takeWhile (\<lambda>pc. pc \<noteq> 0) (getcallerpcs (ebp + 8) (mem t))) t else Inr t) (\<lambda>s.
           kbind (cprintf [10] [] s) (procdump_loop ps))) (prints L s)" if t: "prints L s t" for t
    proof (rule returns_bindI [where P = "prints L s"])
      have "returns (print_pcs xs t) (prints L s)" for xs
        using print_pcs_ok [of L t xs] next_ok [OF t] by (blast intro: returns_mono prints_trans [OF t])
      then show "returns (if p_state q = SLEEPING then let ebp = load32 (mem t) (p_context q + 12)
                       in print_pcs (takeWhile (\<lambda>pc. pc \<noteq> 0) (getcallerpcs (ebp + 8) (mem t))) t else Inr t) (prints L s)"
        using t by (simp add: Let_def)
      fix u assume u: "prints L s u"
      note n = next_ok [OF u]
      show "returns (kbind (cprintf [10] [] u) (procdump_loop ps)) (prints L s)"
      proof (rule returns_bindI [OF cprintf_ok [of L u]])
        fix v assume "prints L u v"
        then have v: "prints L s v" by (rule prints_trans [OF u])
        show "returns (procdump_loop ps v) (prints L s)"
          using Cons.IH [of v] next_ok [OF v] by (blast intro: returns_mono prints_trans [OF v])
      qed (use n fmt in auto)
    qed
    then show ?thesis using False by (auto intro!: returns_bindI [OF cprintf_ok [OF Cons.prems fmt(1)]])
  qed (use Cons in simp)
qed (simp add: prints_def)

section \<open>The input line\<close>

text \<open>The characters from \<^verbatim>\<open>input.r\<close> to \<^verbatim>\<open>input.e\<close>, of which those before \<^verbatim>\<open>input.w\<close> may be read.\<close>

definition line :: "'a cons_st_scheme \<Rightarrow> u8 list" where
  "line s = ring_list INPUT_BUF (in_buf s) (in_r s) (in_e s)"

definition input_ok :: "'a cons_st_scheme \<Rightarrow> bool" where
  "input_ok s \<longleftrightarrow> ring_ok INPUT_BUF (in_buf s) (in_r s) (in_e s) \<and> unat (in_w s - in_r s) \<le> unat (in_e s - in_r s)"

definition cons_ok :: "'a cons_st_scheme \<Rightarrow> bool" where
  "cons_ok s \<longleftrightarrow> crt_ok s \<and> input_ok s \<and> \<not> panicked s"

lemma cons_ok_prints: "cons_ok s \<Longrightarrow> prints L s t \<Longrightarrow> cons_ok t"
  using screen_rest_fields [of s t] by (simp add: cons_ok_def prints_def input_ok_def)

text \<open>Taking the last character back, which needs one that has not been passed on.\<close>

lemma input_ok_back:
  assumes "input_ok s" "in_e s \<noteq> in_w s"
  shows "input_ok (s\<lparr>in_e := in_e s - 1\<rparr>)" "unat (in_e s - 1 - in_w s) < unat (in_e s - in_w s)"
proof -
  have "in_e s \<noteq> in_r s" using assms by (auto simp: input_ok_def unat_eq_0)
  then have e: "unat (in_e s - in_r s) = Suc (unat (in_e s - 1 - in_r s))" using unat_diff_pred [of "in_e s" "in_r s"] by simp
  have "unat (in_w s - in_r s) \<noteq> unat (in_e s - in_r s)" using assms(2) by (simp add: word_unat_eq_iff [symmetric])
  then show "input_ok (s\<lparr>in_e := in_e s - 1\<rparr>)" using assms(1) e by (simp add: input_ok_def ring_ok_def)
  show "unat (in_e s - 1 - in_w s) < unat (in_e s - in_w s)" using unat_diff_pred [OF assms(2)] by simp
qed

lemma kill_line_ok:
  assumes "lockset L s" "cons_ok s" "unat (in_e s - in_w s) \<le> k"
  shows "returns (kill_line k s) (\<lambda>t. lockset L t \<and> cons_ok t)"
  using assms
proof (induction k arbitrary: s)
  case 0
  then have "in_e s = in_w s" by (simp add: unat_eq_0)
  then show ?case using 0 by (simp add: kill_char_def)
next
  case (Suc k)
  let ?s = "s\<lparr>in_e := in_e s - 1\<rparr>"
  show ?case
  proof (cases "kill_char s")
    case True
    then have b: "input_ok ?s" "unat (in_e s - 1 - in_w s) < unat (in_e s - in_w s)"
      using input_ok_back Suc.prems(2) by (auto simp: kill_char_def cons_ok_def)
    then have s: "cons_ok ?s" "crt_ok ?s" "\<not> panicked ?s" using Suc.prems(2) by (simp_all add: cons_ok_def crt_ok_def)
    have ls: "lockset L ?s" using Suc.prems(1) by simp
    have "returns (kbind (consputc BACKSPACE ?s) (kill_line k)) (\<lambda>t. lockset L t \<and> cons_ok t)"
    proof (rule returns_bindI [OF consputc_ok [OF ls s(2,3)]])
      fix t assume t: "prints L ?s t"
      show "returns (kill_line k t) (\<lambda>t. lockset L t \<and> cons_ok t)"
        using t cons_ok_prints [OF s(1) t] b(2) Suc.prems(3) screen_rest_fields [of ?s t] by (intro Suc.IH) (auto simp: prints_def)
    qed
    then show ?thesis using True by simp
  qed (use Suc.prems in simp)
qed


text \<open>What an ordinary character does: it goes to the end of the line; a carriage return counts as a
  newline, and a newline, an end-of-file character or a full buffer passes the line on.\<close>

definition ordinary :: "u32 \<Rightarrow> bool" where
  "ordinary c \<longleftrightarrow> c \<notin> {0, 8, 16, 21, 0x7F}"

lemma room_iff: "in_e s - in_r s < of_nat INPUT_BUF \<longleftrightarrow> length (line s) < INPUT_BUF"
  by (simp add: line_def word_less_nat_alt INPUT_BUF_def)

lemma full_iff: "in_e s = in_r s + of_nat INPUT_BUF \<longleftrightarrow> length (line s) = INPUT_BUF"
proof -
  have "in_e s = in_r s + of_nat INPUT_BUF \<longleftrightarrow> in_e s - in_r s = of_nat INPUT_BUF" by (auto simp: algebra_simps)
  then show ?thesis by (simp add: line_def word_unat_eq_iff INPUT_BUF_def)
qed

lemma put_char:
  fixes s :: "'a cons_st_scheme" and c :: u8
  assumes "input_ok s" "length (line s) < INPUT_BUF"
  defines "t \<equiv> s\<lparr>in_buf := (in_buf s)[unat (in_e s) mod INPUT_BUF := c], in_e := in_e s + 1\<rparr>"
  shows "line t = line s @ [c]" "input_ok t" "input_ok (t\<lparr>in_w := in_e t\<rparr>)"
proof -
  have r: "ring_ok INPUT_BUF (in_buf s) (in_r s) (in_e s)" "unat (in_e s - in_r s) < INPUT_BUF" using assms(1,2) by (simp_all add: input_ok_def line_def)
  note a = ring_append [OF r, of c]
  show "line t = line s @ [c]" using a(1) by (simp add: line_def t_def)
  have "unat (in_e s + 1 - in_r s) = Suc (unat (in_e s - in_r s))" using r(2) by (intro unat_diff_Suc) (simp add: INPUT_BUF_def)
  then show "input_ok t" "input_ok (t\<lparr>in_w := in_e t\<rparr>)" using a(2) assms(1) by (simp_all add: t_def input_ok_def)
qed

lemma wakeup_cons:
  assumes "lockset L s" "LPtable \<notin> set L"
  shows "\<exists>t. wakeup ch s = Inr t \<and> lockset L t \<and> proc_st.more t = proc_st.more s"
  using wakeup_ok [OF assms, of ch] by simp

lemma cons_more:
  assumes "proc_st.more t = proc_st.more s"
  shows "cons_ok t = cons_ok s" "line t = line s" "in_w t = in_w s" "in_e t = in_e s" "in_r t = in_r s"
  using assms by (cases s; cases t; simp add: cons_ok_def crt_ok_def input_ok_def line_def)+

lemma console_char_ordinary:
  fixes s :: "'a cons_st_scheme"
  assumes l: "lockset L s" "LPtable \<notin> set L" and ok: "cons_ok s" and c: "ordinary c" and room: "length (line s) < INPUT_BUF"
  defines "c' \<equiv> if c = 13 then 10 else c"
  shows "returns (console_char c s) (\<lambda>t. lockset L t \<and> cons_ok t \<and> line t = line s @ [ucast c'] \<and> in_r t = in_r s \<and>
     in_w t = (if c' = 10 \<or> c' = 4 \<or> Suc (length (line s)) = INPUT_BUF then in_e t else in_w s))"
proof -
  define t where "t = s\<lparr>in_buf := (in_buf s)[unat (in_e s) mod INPUT_BUF := ucast c'], in_e := in_e s + 1\<rparr>"
  have i: "input_ok s" using ok by (simp add: cons_ok_def)
  note p = put_char [OF i room, of "ucast c'", folded t_def]
  have t: "lockset L t" "crt_ok t" "\<not> panicked t" "cons_ok t" "cons_ok (t\<lparr>in_w := in_e t\<rparr>)" "in_w t = in_w s" "in_r t = in_r s"
    using l(1) ok p by (simp_all add: t_def cons_ok_def crt_ok_def)
  have cc: "console_char c s = kbind (consputc c' t) (\<lambda>s. if c' = 10 \<or> c' = 4 \<or> in_e s = in_r s + of_nat INPUT_BUF
      then wakeup ChInput (s\<lparr>in_w := in_e s\<rparr>) else Inr s)"
    using c room by (simp add: console_char_def ordinary_def room_iff Let_def c'_def t_def)
  show ?thesis unfolding cc
  proof (rule returns_bindI [OF consputc_ok [OF t(1-3)]])
    fix u assume u: "prints L t u"
    note f = screen_rest_fields(1-4) [of t u]
    have lu: "line u = line s @ [ucast c']" "lockset L u" "cons_ok u" "in_w u = in_w s" "in_r u = in_r s"
      using u f p(1) cons_ok_prints [OF t(4) u] t(6,7) by (simp_all add: prints_def line_def)
    let ?w = "u\<lparr>in_w := in_e u\<rparr>"
    have "cons_ok ?w" "lockset L ?w" "line ?w = line u" using lu by (simp_all add: cons_ok_def crt_ok_def input_ok_def line_def)
    moreover from this obtain w where w: "wakeup ChInput ?w = Inr w" "lockset L w" "proc_st.more w = proc_st.more ?w"
      using wakeup_cons [of L ?w] l(2) by blast
    ultimately have "cons_ok w" "line w = line u" "in_w w = in_e w" "in_r w = in_r u" using cons_more [OF w(3)] by simp_all
    moreover have fu: "in_e u = in_r u + of_nat INPUT_BUF \<longleftrightarrow> Suc (length (line s)) = INPUT_BUF" using full_iff [of u] lu(1) by simp
    ultimately show "returns (if c' = 10 \<or> c' = 4 \<or> in_e u = in_r u + of_nat INPUT_BUF then wakeup ChInput ?w else Inr u)
       (\<lambda>t. lockset L t \<and> cons_ok t \<and> line t = line s @ [ucast c'] \<and> in_r t = in_r s \<and>
         in_w t = (if c' = 10 \<or> c' = 4 \<or> Suc (length (line s)) = INPUT_BUF then in_e t else in_w s))"
      unfolding fu using lu w(1,2) by auto
  qed
qed

lemma console_char_ok:
  assumes l: "lockset L s" "LPtable \<notin> set L" "LCons \<notin> set L" and ok: "cons_ok s"
  shows "returns (console_char c s) (\<lambda>t. lockset L t \<and> cons_ok t)"
proof -
  have s: "crt_ok s" "\<not> panicked s" "input_ok s" using ok by (simp_all add: cons_ok_def)
  consider "c = 16" | "c = 21" | "c = 8 \<or> c = 0x7F" | "ordinary c" "length (line s) < INPUT_BUF" 
    | "c \<noteq> 16" "c \<noteq> 21" "c \<noteq> 8" "c \<noteq> 0x7F" "c = 0 \<or> \<not> length (line s) < INPUT_BUF" by (auto simp: ordinary_def)
  then show ?thesis
  proof cases
    case 1
    have "returns (procdump s) (\<lambda>t. lockset L t \<and> cons_ok t)"
      unfolding procdump_def by (rule returns_mono [OF procdump_loop_ok [OF l(1,3) s(1,2)]]) (use cons_ok_prints [OF ok] in \<open>auto simp: prints_def\<close>)
    then show ?thesis using 1 by (simp add: console_char_def)
  next
    case 2
    then show ?thesis using kill_line_ok [OF l(1) ok order_refl] by (simp add: console_char_def)
  next
    case 3
    let ?s = "s\<lparr>in_e := in_e s - 1\<rparr>"
    have b: "lockset L ?s" "crt_ok ?s" "\<not> panicked ?s" using l s by (simp_all add: crt_ok_def)
    have "cons_ok ?s" if "in_e s \<noteq> in_w s" using input_ok_back [OF s(3) that] b by (simp add: cons_ok_def)
    then have "returns (consputc BACKSPACE ?s) (\<lambda>t. lockset L t \<and> cons_ok t)" if "in_e s \<noteq> in_w s"
      using that by (intro returns_mono [OF consputc_ok [OF b]]) (use cons_ok_prints [of ?s L] in \<open>auto simp: prints_def\<close>)
    then show ?thesis using 3 l ok by (auto simp: console_char_def)
  next
    case 4
    then show ?thesis using console_char_ordinary [OF l(1,2) ok] by (blast intro: returns_mono)
  next
    case 5
    then have "\<not> (c \<noteq> 0 \<and> in_e s - in_r s < of_nat INPUT_BUF)" using room_iff by blast
    then show ?thesis using 5 l ok by (simp only: console_char_def if_False) simp
  qed
qed


text \<open>C20: the interrupt handler of the console always returns, whatever is typed and whatever the processes
  are: it never writes outside the display memory, the loop that erases a line ends, and the invariant
  of the input line is kept, by which its three counters are in order and at most \<^verbatim>\<open>INPUT_BUF\<close> apart.\<close>

theorem consoleintr_returns:
  assumes "lockset L s" "set L \<inter> {LInput, LCons, LPtable} = {}" "cons_ok s"
  shows "\<exists>t. consoleintr cs s = Inr t \<and> lockset L t \<and> cons_ok t"
proof -
  have chars: "returns (console_chars cs s) (\<lambda>t. lockset K t \<and> cons_ok t)"
    if "lockset K s" "LPtable \<notin> set K" "LCons \<notin> set K" "cons_ok s" for K s
    using that(1,4)
  proof (induction cs arbitrary: s)
    case (Cons c cs)
    show ?case unfolding console_chars.simps
      by (rule returns_bindI [OF console_char_ok [OF Cons.prems(1) that(2,3) Cons.prems(2)]]) (simp add: Cons.IH)
  qed simp
  let ?a = "acq LInput s"
  have a: "acquire LInput s = Inr ?a" "lockset (LInput # L) ?a" using acquire_acq [OF assms(1), of LInput] assms(2) by auto
  have "cons_ok ?a" using assms(3) cons_more(1) [of ?a s] by simp
  then obtain t where t: "console_chars cs ?a = Inr t" "lockset (LInput # L) t" "cons_ok t"
    using chars [OF a(2)] assms(2) by (auto simp: returns_def)
  have r: "release LInput t = Inr (rel LInput t)" "lockset L (rel LInput t)" using release_rel [OF t(2)] by auto
  have "cons_ok (rel LInput t)" using t(3) cons_more(1) [of "rel LInput t" t] by simp
  then show ?thesis using a(1) t(1) r by (simp add: consoleintr_def)
qed

lemma ucast_ucast8 [simp]: "(ucast (ucast (x :: u8) :: u32) :: u8) = x"
  by (auto intro!: bit_word_eqI simp: bit_simps)

lemma ucast_u8_eq: "(ucast (x :: u8) :: u32) = ucast y \<longleftrightarrow> x = y"
  by (metis ucast_ucast8)

lemma console_chars_line:
  assumes "lockset L s" "LPtable \<notin> set L" "cons_ok s" "length (line s) + length xs < INPUT_BUF" "\<forall>x\<in>set xs. ordinary (ucast x) \<and> x \<notin> {4, 10, 13}"
  shows "returns (console_chars (map ucast (xs :: u8 list) @ [13]) s) (\<lambda>t. lockset L t \<and> cons_ok t \<and> line t = line s @ xs @ [10] \<and> in_w t = in_e t)"
  using assms
proof (induction xs arbitrary: s)
  case Nil
  have "ordinary 13" by (simp add: ordinary_def)
  from console_char_ordinary [OF Nil(1-3) this] Nil(4) show ?case by (auto elim!: returns_mono simp: returns_kbind)
next
  case (Cons x xs)
  have x: "ordinary (ucast x)" "(ucast x :: u32) \<noteq> 13" "(ucast x :: u32) \<noteq> 10" "(ucast x :: u32) \<noteq> 4" "length (line s) < INPUT_BUF"
    using Cons.prems(4,5) ucast_u8_eq [of x 13] ucast_u8_eq [of x 10] ucast_u8_eq [of x 4] by simp_all
  note cc = console_char_ordinary [OF Cons.prems(1-3) x(1,5), simplified x if_False]
  show ?case unfolding list.map append_Cons console_chars.simps
    by (rule returns_bindI [OF cc], rule returns_mono [OF Cons.IH]) (use Cons.prems in auto)
qed


lemma consoleread_line:
  assumes "input_ok s" "in_w s = in_e s" "line s = xs @ 10 # rest" "4 \<notin> set xs" "10 \<notin> set xs" "length xs < n"
  shows "\<exists>t. consoleread_loop target n out s = Inr (False, n - Suc (length xs), out @ xs @ [10], t) \<and> line t = rest"
  using assms
proof (induction xs arbitrary: s n out)
  case (Cons x xs)
  then obtain m where m: "n = Suc m" by (cases n) auto
  have ne: "in_r s \<noteq> in_e s" using Cons.prems(3) by (auto simp: line_def)
  let ?s = "s\<lparr>in_r := in_r s + 1\<rparr>"
  have h: "in_buf s ! (unat (in_r s) mod INPUT_BUF) = x" "line ?s = xs @ 10 # rest"
    using ring_head [OF ne, of INPUT_BUF "in_buf s"] Cons.prems(3) by (simp_all add: line_def)
  have "input_ok ?s" using Cons.prems(1,2) ring_ok_head [OF _ ne] by (simp add: input_ok_def)
  then obtain t where "consoleread_loop target m (out @ [x]) ?s = Inr (False, m - Suc (length xs), (out @ [x]) @ xs @ [10], t)" "line t = rest"
    using Cons.IH [of ?s m "out @ [x]"] Cons.prems m h(2) by auto
  then show ?case using Cons.prems m h(1) ne by (auto simp: Let_def)
next
  case Nil
  then obtain m where m: "n = Suc m" by (cases n) auto
  have ne: "in_r s \<noteq> in_e s" using Nil.prems(3) by (auto simp: line_def)
  have "in_buf s ! (unat (in_r s) mod INPUT_BUF) = 10" "line (s\<lparr>in_r := in_r s + 1\<rparr>) = rest"
    using ring_head [OF ne, of INPUT_BUF "in_buf s"] Nil.prems(3) by (simp_all add: line_def)
  then show ?case using Nil.prems m ne by (simp add: Let_def)
qed

text \<open>C19: a line that is typed is read: when nothing is waiting, typing ordinary characters and the enter
  key, at most as many as the buffer holds, makes the next \<^verbatim>\<open>consoleread\<close> with enough room return
  exactly these characters and a newline.\<close>

theorem typed_line_is_read:
  assumes "lockset L s" "LPtable \<notin> set L" "cons_ok s" "line s = []"
    and "length xs < INPUT_BUF" "\<forall>x\<in>set xs. ordinary (ucast x) \<and> x \<notin> {4, 10, 13}" "length xs < n"
  shows "\<exists>t u. console_chars (map ucast xs @ [13]) s = Inr t \<and>
     consoleread_loop n n [] t = Inr (False, n - Suc (length xs), xs @ [10], u) \<and> line u = []"
proof -
  obtain t where t: "console_chars (map ucast xs @ [13]) s = Inr t" "cons_ok t" "line t = xs @ 10 # []" "in_w t = in_e t"
    using console_chars_line [OF assms(1-3), of xs] assms(4-6) by (auto simp: returns_def)
  have "4 \<notin> set xs" "10 \<notin> set xs" using assms(6) by auto
  then show ?thesis using consoleread_line [OF _ t(4,3), of n n "[]"] t(1,2) assms(7) by (auto simp: cons_ok_def)
qed

definition cons0 :: cons_st where
  "cons0 = \<lparr>locks = \<lambda>_. \<lparr>locked = 0, holder = None\<rparr>, cpu = \<lparr>cpu_id = 0, ncli = 0, intena = False\<rparr>,
     IF = True, mem = \<lambda>_. 0, use_lock = True, freelist = 0, kpgdir = 0, cr3 = 0, procs = [],
     curproc = None, initproc = None, nextpid = 1, ts_ss0 = 0, ts_esp0 = 0, bufs = [], disksize = 0,
     image = \<lambda>_. [], writes = [], idequeue = None, havedisk1 = False, ide_port = None, ide_disk = \<lambda>_ _. [],
     lg_start = 0, lg_size = 0, lg_busy = False, lg_dev = 0, lh_n = 0, lh_sector = [], inodes = [],
     cons_locking = True, panicked = False, in_buf = replicate INPUT_BUF 0, in_r = 0, in_w = 0, in_e = 0, uart = True,
     uart_out = [], crt = replicate 2000 0, crt_pos = 0, kbd_shift = 0, dev_console = True\<rparr>"

lemma cons0_facts: "lockset [] cons0" "cons_ok cons0" "line cons0 = []"
  by (simp_all add: cons0_def lockset_def cons_ok_def crt_ok_def input_ok_def ring_ok_def line_def INPUT_BUF_def)

theorem consoleintr_returns_witness: "\<exists>t. consoleintr [108, 115, 8, 21, 13, 16] cons0 = Inr t \<and> lockset [] t \<and> cons_ok t"
  using consoleintr_returns [OF cons0_facts(1) _ cons0_facts(2)] by simp

theorem typed_line_is_read_witness:
  "\<exists>t u. console_chars (map ucast [108, 115 :: u8] @ [13]) cons0 = Inr t \<and>
     consoleread_loop 100 100 [] t = Inr (False, 97, [108, 115, 10], u) \<and> line u = []"
  using typed_line_is_read [OF cons0_facts(1) _ cons0_facts(2,3), of "[108, 115]" 100] by (simp add: INPUT_BUF_def ordinary_def)

end
