(* ===== verification/Sh.thy ===== *)
theory Sh
  imports Printf Sysfile
begin

text \<open>
  The shell, \<^verbatim>\<open>sh.c\<close>. Pointers into the command line are offsets; \<open>cs\<close> are the characters before the
  terminating NUL, so that \<^verbatim>\<open>es\<close> is the length of \<open>cs\<close> and reading there gives the NUL. A command is a
  tree over the words it holds: for the parser a word is its two pointers, for \<^verbatim>\<open>runcmd\<close> it is the
  string found at the first one. The parser returns a tree, or stops with the message of
  \<^verbatim>\<open>panic\<close>; \<^verbatim>\<open>malloc\<close> is taken to succeed. What the shell does to the system is a tree of system calls
  with a branch for every answer.
\<close>

section \<open>Commands\<close>

definition MAXARGS :: nat where "MAXARGS = 10"

datatype 'w cmd = ExecCmd "'w list" | RedirCmd "'w cmd" 'w u32 int | PipeCmd "'w cmd" "'w cmd"
  | ListCmd "'w cmd" "'w cmd" | BackCmd "'w cmd"

type_synonym span = "nat \<times> nat"

datatype sh_stop = Sh_Panic string | Sh_Leftovers nat | Sh_Fuel

type_synonym 'a sh_res = "sh_stop + 'a"

definition sh_bind :: "'a sh_res \<Rightarrow> ('a \<Rightarrow> 'b sh_res) \<Rightarrow> 'b sh_res" where
  "sh_bind m f = (case m of Inl e \<Rightarrow> Inl e | Inr x \<Rightarrow> f x)"

lemma sh_bind_simps [simp]: "sh_bind (Inr x) f = f x" "sh_bind (Inl e) f = Inl e"
  by (simp_all add: sh_bind_def)

lemma sh_bind_cong [fundef_cong]:
  "m = m' \<Longrightarrow> (\<And>x. m' = Inr x \<Longrightarrow> f x = f' x) \<Longrightarrow> sh_bind m f = sh_bind m' f'"
  by (cases m') auto

section \<open>Tokens\<close>

definition whitespace :: "u8 list" where "whitespace = [32, 9, 13, 10, 11]"

definition symbols :: "u8 list" where "symbols = bytes ''<|>&;()''"

text \<open>The loops \<^verbatim>\<open>while(s < es && ...) s++\<close>. The test \<^verbatim>\<open>strchr(toks, c)\<close> is membership in \<open>toks\<close>.\<close>

function skip_while :: "(u8 \<Rightarrow> bool) \<Rightarrow> u8 list \<Rightarrow> nat \<Rightarrow> nat" where
  "skip_while P cs s = (if s < length cs \<and> P (cs ! s) then skip_while P cs (Suc s) else s)"
  by pat_completeness auto
termination by (relation "measure (\<lambda>(P, cs, s). length cs - s)") auto

declare skip_while.simps [simp del]

abbreviation skip_ws :: "u8 list \<Rightarrow> nat \<Rightarrow> nat" where
  "skip_ws \<equiv> skip_while (\<lambda>c. c \<in> set whitespace)"

definition gettoken :: "u8 list \<Rightarrow> nat \<Rightarrow> u8 \<times> nat \<times> nat \<times> nat" where
  "gettoken cs s =
     (let q = skip_ws cs s; c = cstr cs q;
          (ret, eq) = (if c = 0 then (c, q)
            else if c \<in> set (bytes ''|();&<'') then (c, q + 1)
            else if c = 62 then (if cstr cs (q + 1) = 62 then (43, q + 2) else (c, q + 1))
            else (97, skip_while (\<lambda>c. c \<notin> set whitespace \<and> c \<notin> set symbols) cs q))
      in (ret, q, eq, skip_ws cs eq))"

definition peek :: "u8 list \<Rightarrow> nat \<Rightarrow> u8 list \<Rightarrow> bool \<times> nat" where
  "peek cs s toks = (let s = skip_ws cs s; c = cstr cs s in (c \<noteq> 0 \<and> c \<in> set toks, s))"

text \<open>The pointer after a token that is thrown away.\<close>

definition skip_token :: "u8 list \<Rightarrow> nat \<Rightarrow> nat" where
  "skip_token cs s = (case gettoken cs s of (tok, q, eq, s) \<Rightarrow> s)"

lemma skip_while_eq: "skip_while P cs s = s + length (takeWhile P (drop s cs))"
proof (induction P cs s rule: skip_while.induct)
  case (1 P cs s)
  show ?case
  proof (cases "s < length cs")
    case True
    then show ?thesis using 1 by (simp add: skip_while.simps [of _ _ s] Cons_nth_drop_Suc [symmetric])
  qed (simp add: skip_while.simps [of _ _ s])
qed

lemma skip_while_ge [simp]: "s \<le> skip_while P cs s"
  by (simp add: skip_while_eq)

lemma skip_while_le: "s \<le> length cs \<Longrightarrow> skip_while P cs s \<le> length cs"
  using length_takeWhile_le [of P "drop s cs"] by (simp add: skip_while_eq)

lemma cstr_nonzero: "cstr cs s \<noteq> 0 \<Longrightarrow> s < length cs"
  by (auto simp: cstr_def split: if_splits)

lemma gettoken_bounds:
  assumes "gettoken cs s = (tok, q, eq, s')"
  shows "s \<le> q" "q \<le> eq" "eq \<le> s'" "s \<le> length cs \<Longrightarrow> s' \<le> length cs"
proof -
  show "s \<le> q" "q \<le> eq" "eq \<le> s'" using assms by (auto simp: gettoken_def Let_def split: if_splits)
  assume "s \<le> length cs"
  then have "skip_ws cs s \<le> length cs" by (rule skip_while_le)
  then have "eq \<le> length cs" using assms cstr_nonzero [of cs "skip_ws cs s"] cstr_nonzero [of cs "skip_ws cs s + 1"]
    by (auto simp: gettoken_def Let_def skip_while_le split: if_splits)
  then show "s' \<le> length cs" using assms by (auto simp: gettoken_def Let_def skip_while_le split: if_splits)
qed

lemma gettoken_advances:
  assumes "gettoken cs s = (tok, q, eq, s')" "tok \<noteq> 0"
  shows "q < eq"
proof -
  let ?w = "\<lambda>c. c \<notin> set whitespace \<and> c \<notin> set symbols"
  let ?q = "skip_ws cs s"
  have "?q < skip_while ?w cs ?q" if "cstr cs ?q \<noteq> 0" "cstr cs ?q \<notin> set (bytes ''|();&<'')" "cstr cs ?q \<noteq> 62"
  proof -
    have "?q < length cs" using that(1) by (rule cstr_nonzero)
    moreover from this have "cs ! ?q \<notin> set whitespace"
      using nth_length_takeWhile [of "\<lambda>c. c \<in> set whitespace" "drop s cs"] by (simp add: skip_while_eq)
    ultimately show ?thesis using that
      by (subst skip_while.simps) (auto simp: cstr_def symbols_def bytes_def less_le_trans [OF lessI skip_while_ge])
  qed
  then show ?thesis using assms by (auto simp: gettoken_def Let_def split: if_splits)
qed

lemma peek_bounds:
  assumes "peek cs s toks = (b, s')"
  shows "s \<le> s'" "b \<Longrightarrow> s' < length cs" "s \<le> length cs \<Longrightarrow> s' \<le> length cs"
  using assms skip_while_le cstr_nonzero [of cs s'] by (auto simp: peek_def Let_def)

text \<open>After a successful \<^verbatim>\<open>peek\<close> the next token is not the end of the line.\<close>

lemma peek_then_token:
  assumes "peek cs s toks = (True, s')" "gettoken cs s' = (tok, q, eq, s'')"
  shows "tok \<noteq> 0" "s < s''" "s'' \<le> length cs"
proof -
  have c: "cstr cs s' \<noteq> 0" and s': "s' = skip_ws cs s" using assms(1) by (auto simp: peek_def Let_def)
  have lt: "s' < length cs" using c by (rule cstr_nonzero)
  have "cs ! s' \<notin> set whitespace"
    using lt nth_length_takeWhile [of "\<lambda>c. c \<in> set whitespace" "drop s cs"] by (simp add: s' skip_while_eq)
  then have "skip_ws cs s' = s'" by (subst skip_while.simps) simp
  then show "tok \<noteq> 0" using assms(2) c by (auto simp: gettoken_def Let_def split: if_splits)
  then show "s < s''"
    using gettoken_advances [OF assms(2)] gettoken_bounds [OF assms(2)] peek_bounds(1) [OF assms(1)] by linarith
  show "s'' \<le> length cs" using gettoken_bounds(4) [OF assms(2)] lt by simp
qed

section \<open>The parser\<close>

text \<open>\<^verbatim>\<open>while(peek(ps, es, "&")) ...\<close> of \<^verbatim>\<open>parseline\<close>.\<close>

function parse_back :: "u8 list \<Rightarrow> span cmd \<Rightarrow> nat \<Rightarrow> span cmd \<times> nat" where
  "parse_back cs cmd s =
     (case peek cs s (bytes ''&'') of (b, s) \<Rightarrow>
        if b then parse_back cs (BackCmd cmd) (skip_token cs s) else (cmd, s))"
  by pat_completeness auto
termination
proof (relation "measure (\<lambda>(cs, cmd, s). length cs - s)", simp)
  fix cs :: "u8 list" and cmd :: "span cmd" and s b s'
  assume "(b, s') = peek cs s (bytes ''&'')" b
  then show "((cs, BackCmd cmd, skip_token cs s'), cs, cmd, s) \<in> measure (\<lambda>(cs, cmd, s). length cs - s)"
    using peek_then_token [of cs s "bytes ''&''" s'] by (cases "gettoken cs s'") (auto simp: skip_token_def)
qed

function parseredirs :: "u8 list \<Rightarrow> span cmd \<Rightarrow> nat \<Rightarrow> (span cmd \<times> nat) sh_res" where
  "parseredirs cs cmd s =
     (case peek cs s (bytes ''<>'') of (b, s) \<Rightarrow>
        if b then
          (case gettoken cs s of (tok, _, _, s) \<Rightarrow>
           case gettoken cs s of (t, q, eq, s) \<Rightarrow>
             if t \<noteq> 97 then Inl (Sh_Panic ''missing file for redirection'')
             else parseredirs cs
               (if tok = 60 then RedirCmd cmd (q, eq) O_RDONLY 0
                else if tok = 62 then RedirCmd cmd (q, eq) (O_WRONLY OR O_CREATE) 1
                else if tok = 43 then RedirCmd cmd (q, eq) (O_WRONLY OR O_CREATE) 1
                else cmd) s)
        else Inr (cmd, s))"
  by pat_completeness auto
termination
proof (relation "measure (\<lambda>(cs, cmd, s). length cs - s)", simp, clarsimp)
  fix cs :: "u8 list" and s s1 tok q1 eq1 s2 q2 eq2 s3
  assume a: "(True, s1) = peek cs s (bytes ''<>'')" "(tok, q1, eq1, s2) = gettoken cs s1" "(97, q2, eq2, s3) = gettoken cs s2"
  have "s < s2" "s2 \<le> length cs" using peek_then_token [OF a(1,2) [symmetric]] by simp_all
  moreover have "s2 < s3" "s3 \<le> length cs"
    using gettoken_advances [OF a(3) [symmetric]] gettoken_bounds [OF a(3) [symmetric]] calculation by auto
  ultimately show "length cs - s3 < length cs - s" by simp
qed

text \<open>The argument goes into the \<^verbatim>\<open>struct execcmd\<close> below the redirections found so far.\<close>

primrec add_arg :: "'w \<Rightarrow> 'w cmd \<Rightarrow> 'w cmd" where
  "add_arg w (ExecCmd ws) = ExecCmd (ws @ [w])"
| "add_arg w (RedirCmd c f m fd) = RedirCmd (add_arg w c) f m fd"
| "add_arg w (PipeCmd l r) = PipeCmd l r"
| "add_arg w (ListCmd l r) = ListCmd l r"
| "add_arg w (BackCmd c) = BackCmd c"

function parse_args :: "u8 list \<Rightarrow> nat \<Rightarrow> span cmd \<Rightarrow> nat \<Rightarrow> (span cmd \<times> nat) sh_res" where
  "parse_args cs argc ret s =
     (case peek cs s (bytes ''|)&;'') of (b, s) \<Rightarrow>
        if b then Inr (ret, s)
        else case gettoken cs s of (tok, q, eq, s) \<Rightarrow>
          if tok = 0 then Inr (ret, s)
          else if tok \<noteq> 97 then Inl (Sh_Panic ''syntax'')
          else let ret = add_arg (q, eq) ret; argc = argc + 1
               in if argc \<ge> MAXARGS then Inl (Sh_Panic ''too many args'')
                  else sh_bind (parseredirs cs ret s) (\<lambda>(ret, s). parse_args cs argc ret s))"
  by pat_completeness auto
termination by (relation "measure (\<lambda>(cs, argc, ret, s). MAXARGS - argc)") auto

text \<open>The parser proper descends through parentheses; \<open>n\<close> bounds the depth of the calls. A call of
  \<^verbatim>\<open>parseline\<close> needs four levels for each character that is left.\<close>

fun parseline :: "nat \<Rightarrow> u8 list \<Rightarrow> nat \<Rightarrow> (span cmd \<times> nat) sh_res"
  and parsepipe :: "nat \<Rightarrow> u8 list \<Rightarrow> nat \<Rightarrow> (span cmd \<times> nat) sh_res"
  and parseexec :: "nat \<Rightarrow> u8 list \<Rightarrow> nat \<Rightarrow> (span cmd \<times> nat) sh_res"
  and parseblock :: "nat \<Rightarrow> u8 list \<Rightarrow> nat \<Rightarrow> (span cmd \<times> nat) sh_res" where
  "parseline 0 cs s = Inl Sh_Fuel"
| "parseline (Suc n) cs s =
     sh_bind (parsepipe n cs s) (\<lambda>(cmd, s).
     case parse_back cs cmd s of (cmd, s) \<Rightarrow>
     case peek cs s (bytes '';'') of (b, s) \<Rightarrow>
       if b then sh_bind (parseline n cs (skip_token cs s)) (\<lambda>(r, s). Inr (ListCmd cmd r, s))
       else Inr (cmd, s))"
| "parsepipe 0 cs s = Inl Sh_Fuel"
| "parsepipe (Suc n) cs s =
     sh_bind (parseexec n cs s) (\<lambda>(cmd, s).
     case peek cs s (bytes ''|'') of (b, s) \<Rightarrow>
       if b then sh_bind (parsepipe n cs (skip_token cs s)) (\<lambda>(r, s). Inr (PipeCmd cmd r, s))
       else Inr (cmd, s))"
| "parseexec 0 cs s = Inl Sh_Fuel"
| "parseexec (Suc n) cs s =
     (case peek cs s (bytes ''('') of (b, s) \<Rightarrow>
        if b then parseblock n cs s
        else sh_bind (parseredirs cs (ExecCmd []) s) (\<lambda>(ret, s). parse_args cs 0 ret s))"
| "parseblock 0 cs s = Inl Sh_Fuel"
| "parseblock (Suc n) cs s =
     (case peek cs s (bytes ''('') of (b, s) \<Rightarrow>
        if \<not> b then Inl (Sh_Panic ''parseblock'')
        else sh_bind (parseline n cs (skip_token cs s)) (\<lambda>(cmd, s).
          case peek cs s (bytes '')'') of (b, s) \<Rightarrow>
            if \<not> b then Inl (Sh_Panic ''syntax - missing )'')
            else parseredirs cs cmd (skip_token cs s)))"

text \<open>\<^verbatim>\<open>nulterminate\<close> on the buffer.\<close>

primrec nulterminate :: "span cmd \<Rightarrow> u8 list \<Rightarrow> u8 list" where
  "nulterminate (ExecCmd ws) b = fold (\<lambda>(q, eq) b. b[eq := 0]) ws b"
| "nulterminate (RedirCmd c f m fd) b = (nulterminate c b)[snd f := 0]"
| "nulterminate (PipeCmd l r) b = nulterminate r (nulterminate l b)"
| "nulterminate (ListCmd l r) b = nulterminate r (nulterminate l b)"
| "nulterminate (BackCmd c) b = nulterminate c b"

text \<open>The string at an offset of a buffer.\<close>

definition str_at :: "u8 list \<Rightarrow> nat \<Rightarrow> u8 list" where
  "str_at b q = takeWhile (\<lambda>c. c \<noteq> 0) (drop q b)"

definition parsecmd :: "u8 list \<Rightarrow> (span cmd \<times> u8 list) sh_res" where
  "parsecmd b =
     (let cs = str_at b 0; es = length cs
      in sh_bind (parseline (4 * es + 4) cs 0) (\<lambda>(cmd, s).
         case peek cs s [] of (_, s) \<Rightarrow>
           if s \<noteq> es then Inl (Sh_Leftovers s) else Inr (cmd, nulterminate cmd b)))"

section \<open>Running commands\<close>

text \<open>A run of the shell is a tree: the process ends, or makes a system call and continues with its
  answer; \<^verbatim>\<open>pipe\<close> answers with the two descriptors besides its result. After \<^verbatim>\<open>fork\<close> the child continues
  with the answer 0 and the parent with another one. What \<^verbatim>\<open>printf\<close> writes is one \<^verbatim>\<open>write\<close> here.\<close>

datatype ucall = SysFork | SysWait | SysExec "u8 list" "u8 list list" | SysOpen "u8 list" u32 | SysClose int
  | SysDup int | SysChdir "u8 list" | SysWrite int "u8 list"

datatype prog = Exit int | Call ucall "int \<Rightarrow> prog" | PipeCall "int \<Rightarrow> int \<Rightarrow> int \<Rightarrow> prog"

definition sh_panic :: "string \<Rightarrow> prog" where
  "sh_panic msg = Call (SysWrite 2 (bytes msg @ [10])) (\<lambda>_. Exit 1)"

definition fork1 :: "(int \<Rightarrow> prog) \<Rightarrow> prog" where
  "fork1 k = Call SysFork (\<lambda>pid. if pid = -1 then sh_panic ''fork'' else k pid)"

primrec runcmd :: "u8 list cmd \<Rightarrow> prog" where
  "runcmd (ExecCmd argv) =
     (case argv of [] \<Rightarrow> Exit 1
      | a # _ \<Rightarrow> Call (SysExec a argv) (\<lambda>_.
                 Call (SysWrite 2 (bytes ''exec '' @ a @ bytes '' failed'' @ [10])) (\<lambda>_. Exit 1)))"
| "runcmd (RedirCmd c f m fd) =
     Call (SysClose fd) (\<lambda>_.
     Call (SysOpen f m) (\<lambda>r.
       if r < 0 then Call (SysWrite 2 (bytes ''open '' @ f @ bytes '' failed'' @ [10])) (\<lambda>_. Exit 1)
       else runcmd c))"
| "runcmd (ListCmd l r) =
     fork1 (\<lambda>pid. if pid = 0 then runcmd l else Call SysWait (\<lambda>_. runcmd r))"
| "runcmd (PipeCmd l r) =
     PipeCall (\<lambda>res p0 p1.
       if res < 0 then sh_panic ''pipe''
       else fork1 (\<lambda>pid.
         if pid = 0
         then Call (SysClose 1) (\<lambda>_. Call (SysDup p1) (\<lambda>_. Call (SysClose p0) (\<lambda>_. Call (SysClose p1) (\<lambda>_. runcmd l))))
         else fork1 (\<lambda>pid.
           if pid = 0
           then Call (SysClose 0) (\<lambda>_. Call (SysDup p0) (\<lambda>_. Call (SysClose p0) (\<lambda>_. Call (SysClose p1) (\<lambda>_. runcmd r))))
           else Call (SysClose p0) (\<lambda>_. Call (SysClose p1) (\<lambda>_. Call SysWait (\<lambda>_. Call SysWait (\<lambda>_. Exit 1)))))))"
| "runcmd (BackCmd c) = fork1 (\<lambda>pid. if pid = 0 then runcmd c else Exit 1)"

section \<open>The main loop\<close>

text \<open>\<open>inp\<close> are the answers of the calls \<^verbatim>\<open>read(0, &c, 1)\<close> in \<^verbatim>\<open>gets\<close>; the buffer has 100 bytes.\<close>

definition getcmd :: "u8 option list \<Rightarrow> u8 list \<times> u8 option list" where
  "getcmd inp = (case gets inp 100 of (line, inp) \<Rightarrow> (line @ replicate (100 - length line) 0, inp))"

lemma getcmd_reads:
  assumes "getcmd inp = (b, inp')" "b ! 0 \<noteq> 0"
  shows "length inp' < length inp"
proof -
  have le: "length (snd (gets_loop inp k)) \<le> length inp" for inp k
    by (induction inp k rule: gets_loop.induct) (auto split: prod.splits)
  have "inp \<noteq> []" using assms by (auto simp: getcmd_def gets_def eval_nat_numeral)
  then obtain c inp1 where i: "inp = c # inp1" by (cases inp) auto
  show ?thesis
  proof (cases c)
    case (Some x)
    then show ?thesis using assms(1) i le [of inp1 98]
      by (auto simp: getcmd_def gets_def eval_nat_numeral split: prod.splits if_splits)
  qed (use assms(1) i in \<open>auto simp: getcmd_def gets_def eval_nat_numeral\<close>)
qed

text \<open>The words of a parsed command as \<^verbatim>\<open>runcmd\<close> finds them in the buffer.\<close>

definition strings_of :: "span cmd \<Rightarrow> u8 list \<Rightarrow> u8 list cmd" where
  "strings_of cmd b = map_cmd (\<lambda>(q, eq). str_at b q) cmd"

definition run_line :: "u8 list \<Rightarrow> prog" where
  "run_line b = (case parsecmd b of
       Inr (cmd, b) \<Rightarrow> runcmd (strings_of cmd b)
     | Inl (Sh_Leftovers s) \<Rightarrow>
         Call (SysWrite 2 (bytes ''leftovers: '' @ str_at b s @ [10])) (\<lambda>_. sh_panic ''syntax'')
     | Inl (Sh_Panic msg) \<Rightarrow> sh_panic msg
     | Inl Sh_Fuel \<Rightarrow> Exit 1)"

text \<open>The first loop of \<^verbatim>\<open>main\<close>, the calls it makes for the descriptors it is given.\<close>

fun sh_console :: "int list \<Rightarrow> ucall list" where
  "sh_console [] = []"
| "sh_console (fd # fds) = SysOpen (bytes ''console'') O_RDWR #
     (if fd < 0 then [] else if fd \<ge> 3 then [SysClose fd] else sh_console fds)"

function sh_main :: "u8 option list \<Rightarrow> prog" where
  "sh_main inp =
     Call (SysWrite 2 (bytes ''$ '')) (\<lambda>_.
       case getcmd inp of (b, inp') \<Rightarrow>
         if b ! 0 = 0 then Exit 1
         else if b ! 0 = 99 \<and> b ! 1 = 100 \<and> b ! 2 = 32
         then let b = b[length (str_at b 0) - 1 := 0]
              in Call (SysChdir (str_at b 3)) (\<lambda>r.
                   if r < 0 then Call (SysWrite 2 (bytes ''cannot cd '' @ str_at b 3 @ [10])) (\<lambda>_. sh_main inp')
                   else sh_main inp')
         else fork1 (\<lambda>pid. if pid = 0 then run_line b else Call SysWait (\<lambda>_. sh_main inp')))"
  by pat_completeness auto
termination by (relation "measure length") (auto dest: getcmd_reads [OF sym])

declare parse_back.simps [simp del] parseredirs.simps [simp del] parse_args.simps [simp del] sh_main.simps [simp del]

end
