(* ===== verification/Sh_Lemmas.thy ===== *)
theory Sh_Lemmas
  imports Sh
begin

text \<open>
  The shell: the parser ends on every line and the words it returns are whole words of the line, which
  \<^verbatim>\<open>nulterminate\<close> cuts out without touching one another.
\<close>

section \<open>The parser ends, and returns words of the line\<close>

abbreviation delimiter :: "u8 \<Rightarrow> bool" where
  "delimiter c \<equiv> c \<in> set whitespace \<or> c \<in> set symbols"

text \<open>A word: a longest run of characters that separate nothing.\<close>

definition word_at :: "u8 list \<Rightarrow> span \<Rightarrow> bool" where
  "word_at cs w \<longleftrightarrow> (case w of (q, eq) \<Rightarrow> q < eq \<and> eq \<le> length cs \<and>
     (\<forall>i. q \<le> i \<and> i < eq \<longrightarrow> \<not> delimiter (cs ! i)) \<and> (eq < length cs \<longrightarrow> delimiter (cs ! eq)))"

text \<open>Every \<^verbatim>\<open>argv\<close> has room for its terminating null pointer.\<close>

primrec few_args :: "'w cmd \<Rightarrow> bool" where
  "few_args (ExecCmd ws) \<longleftrightarrow> length ws < MAXARGS"
| "few_args (RedirCmd c f m fd) \<longleftrightarrow> few_args c"
| "few_args (PipeCmd l r) \<longleftrightarrow> few_args l \<and> few_args r"
| "few_args (ListCmd l r) \<longleftrightarrow> few_args l \<and> few_args r"
| "few_args (BackCmd c) \<longleftrightarrow> few_args c"

text \<open>A simple command with \<open>n\<close> arguments below its redirections.\<close>

primrec exec_shape :: "nat \<Rightarrow> 'w cmd \<Rightarrow> bool" where
  "exec_shape n (ExecCmd ws) \<longleftrightarrow> length ws = n"
| "exec_shape n (RedirCmd c f m fd) \<longleftrightarrow> exec_shape n c"
| "exec_shape n (PipeCmd l r) \<longleftrightarrow> False"
| "exec_shape n (ListCmd l r) \<longleftrightarrow> False"
| "exec_shape n (BackCmd c) \<longleftrightarrow> False"

definition cmd_ok :: "u8 list \<Rightarrow> span cmd \<Rightarrow> bool" where
  "cmd_ok cs c \<longleftrightarrow> (\<forall>w\<in>set_cmd c. word_at cs w) \<and> few_args c"

definition parsed_ok :: "u8 list \<Rightarrow> nat \<Rightarrow> (span cmd \<times> nat) sh_res \<Rightarrow> bool" where
  "parsed_ok cs s r \<longleftrightarrow> (case r of Inl e \<Rightarrow> e \<noteq> Sh_Fuel
     | Inr (c, s') \<Rightarrow> s \<le> s' \<and> s' \<le> length cs \<and> cmd_ok cs c)"

lemma parsed_ok_bind:
  assumes "parsed_ok cs s m" "\<And>c s'. m = Inr (c, s') \<Longrightarrow> s \<le> s' \<Longrightarrow> s' \<le> length cs \<Longrightarrow> cmd_ok cs c \<Longrightarrow> parsed_ok cs s (f (c, s'))"
  shows "parsed_ok cs s (sh_bind m f)"
proof (cases m)
  case (Inr x)
  obtain c s' where "x = (c, s')" by fastforce
  then show ?thesis using assms(1) assms(2) [of c s'] Inr by (simp add: parsed_ok_def [of cs s "Inr _"])
qed (use assms(1) in \<open>simp add: parsed_ok_def\<close>)

lemma parsed_ok_earlier: "parsed_ok cs s' r \<Longrightarrow> s \<le> s' \<Longrightarrow> parsed_ok cs s r"
  by (auto simp: parsed_ok_def split: sum.splits prod.splits)

lemma cmd_ok_simps [simp]:
  "cmd_ok cs (RedirCmd c w m fd) \<longleftrightarrow> cmd_ok cs c \<and> word_at cs w"
  "cmd_ok cs (PipeCmd c d) \<longleftrightarrow> cmd_ok cs c \<and> cmd_ok cs d"
  "cmd_ok cs (ListCmd c d) \<longleftrightarrow> cmd_ok cs c \<and> cmd_ok cs d"
  "cmd_ok cs (BackCmd c) \<longleftrightarrow> cmd_ok cs c"
  by (auto simp: cmd_ok_def)

lemma set_add_arg: "exec_shape n c \<Longrightarrow> set_cmd (add_arg w c) = insert w (set_cmd c)"
  by (induction c) auto

lemma exec_shape_add_arg: "exec_shape n c \<Longrightarrow> exec_shape (Suc n) (add_arg w c)"
  by (induction c) auto

lemma exec_shape_few: "exec_shape n c \<Longrightarrow> few_args c \<longleftrightarrow> n < MAXARGS"
  by (induction c) auto

lemma gettoken_word:
  assumes "gettoken cs s = (97, q, eq, s')" "s \<le> length cs"
  shows "word_at cs (q, eq)"
proof -
  let ?w = "\<lambda>c. \<not> delimiter c"
  have q: "q = skip_ws cs s" and e: "eq = skip_while ?w cs q"
    using assms(1) by (auto simp: gettoken_def Let_def bytes_def split: if_splits)
  have lt: "q < eq" using gettoken_advances [OF assms(1)] by simp
  have "q \<le> length cs" using assms(2) by (simp add: q skip_while_le)
  then have le: "eq \<le> length cs" by (simp add: e skip_while_le)
  have "?w (cs ! i)" if "q \<le> i" "i < eq" for i
  proof -
    have "i - q < length (takeWhile ?w (drop q cs))" using that by (simp add: e skip_while_eq)
    from set_takeWhileD [OF nth_mem [OF this]] takeWhile_nth [OF this] show ?thesis
      using that \<open>q \<le> length cs\<close> by simp
  qed
  moreover have "\<not> ?w (cs ! eq)" if "eq < length cs"
    using that nth_length_takeWhile [of ?w "drop q cs"] \<open>q \<le> length cs\<close> by (simp add: e skip_while_eq)
  ultimately show ?thesis using lt le by (auto simp: word_at_def)
qed

lemma parse_back_ok:
  assumes "parse_back cs c s = (c', s')" "s \<le> length cs" "cmd_ok cs c"
  shows "s \<le> s' \<and> s' \<le> length cs \<and> cmd_ok cs c'"
  using assms
proof (induction cs c s arbitrary: c' s' rule: parse_back.induct)
  case (1 cs c s)
  obtain b s1 where p: "peek cs s (bytes ''&'') = (b, s1)" by fastforce
  obtain tok q eq s2 where g: "gettoken cs s1 = (tok, q, eq, s2)" by (cases "gettoken cs s1") auto
  show ?case
  proof (cases b)
    case True
    then have "s < s2" "s2 \<le> length cs" using peek_then_token [OF _ g] p by auto
    moreover have "s2 \<le> s' \<and> s' \<le> length cs \<and> cmd_ok cs c'"
      using 1(1) [OF p [symmetric] True, of c' s'] 1(2-) True p g calculation
      by (simp add: parse_back.simps [of _ _ s] skip_token_def)
    ultimately show ?thesis by simp
  next
    case False
    then show ?thesis using 1(2-) p peek_bounds [OF p] by (simp add: parse_back.simps [of _ _ s])
  qed
qed

lemma parseredirs_ok:
  assumes "s \<le> length cs" "cmd_ok cs c"
  shows "parsed_ok cs s (parseredirs cs c s) \<and>
     (\<forall>c' s'. parseredirs cs c s = Inr (c', s') \<longrightarrow> exec_shape n c \<longrightarrow> exec_shape n c')"
  using assms
proof (induction cs c s rule: parseredirs.induct)
  case (1 cs c s)
  obtain b s1 where p: "peek cs s (bytes ''<>'') = (b, s1)" by fastforce
  obtain tok q1 eq1 s2 where g1: "gettoken cs s1 = (tok, q1, eq1, s2)" by (cases "gettoken cs s1") auto
  obtain t q eq s3 where g2: "gettoken cs s2 = (t, q, eq, s3)" by (cases "gettoken cs s2") auto
  show ?case
  proof (cases "b \<and> t = 97")
    case True
    then have "s < s2" "s2 \<le> length cs" using peek_then_token [OF _ g1] p by auto
    moreover have "s2 \<le> s3" "s3 \<le> length cs" "word_at cs (q, eq)"
      using gettoken_bounds [OF g2] gettoken_word [of cs s2 q eq s3] g2 True calculation by auto
    moreover have "s \<le> s3" using calculation by simp
    ultimately show ?thesis
      using 1(1) [OF p [symmetric] _ g1 [symmetric] refl refl g2 [symmetric] refl refl] 1(2-) True p g1 g2
      by (auto simp: parseredirs.simps [of _ _ s] intro: parsed_ok_earlier [of cs s3])
  next
    case False
    then show ?thesis using 1(2-) p g1 g2 peek_bounds [OF p]
      by (auto simp: parseredirs.simps [of _ _ s] parsed_ok_def)
  qed
qed

lemma parse_args_ok:
  assumes "s \<le> length cs" "cmd_ok cs c" "exec_shape argc c"
  shows "parsed_ok cs s (parse_args cs argc c s)"
  using assms
proof (induction cs argc c s rule: parse_args.induct)
  case (1 cs argc c s)
  obtain b s1 where p: "peek cs s (bytes ''|)&;'') = (b, s1)" by fastforce
  obtain t q eq s2 where g: "gettoken cs s1 = (t, q, eq, s2)" by (cases "gettoken cs s1") auto
  have le: "s \<le> s1" "s1 \<le> length cs" "s1 \<le> s2" "s2 \<le> length cs"
    using peek_bounds [OF p] gettoken_bounds [OF g] 1(2) by auto
  show ?case
  proof (cases "\<not> b \<and> t = 97 \<and> Suc argc < MAXARGS")
    case True
    let ?c = "add_arg (q, eq) c"
    have w: "word_at cs (q, eq)" using gettoken_word [of cs s1 q eq s2] g True le by simp
    have ok: "cmd_ok cs ?c" "exec_shape (Suc argc) ?c"
      using 1(3,4) w True exec_shape_few [OF exec_shape_add_arg [OF 1(4)], of "(q, eq)"]
      by (simp_all add: cmd_ok_def set_add_arg exec_shape_add_arg)
    have "parsed_ok cs s2 (sh_bind (parseredirs cs ?c s2) (\<lambda>(ret, s). parse_args cs (Suc argc) ret s))"
    proof (rule parsed_ok_bind)
      show "parsed_ok cs s2 (parseredirs cs ?c s2)" using parseredirs_ok [OF le(4) ok(1)] by simp
      fix c' s' assume r: "parseredirs cs ?c s2 = Inr (c', s')" "s2 \<le> s'" "s' \<le> length cs" "cmd_ok cs c'"
      then have "exec_shape (Suc argc) c'" using parseredirs_ok [OF le(4) ok(1)] ok(2) by auto
      then have "parsed_ok cs s' (parse_args cs (Suc argc) c' s')"
        using 1(1) [OF p [symmetric] _ g [symmetric] refl refl _ _ refl refl _ r(1) refl] True r by auto
      then show "parsed_ok cs s2 (case (c', s') of (ret, s) \<Rightarrow> parse_args cs (Suc argc) ret s)"
        using r(2) by (simp add: parsed_ok_earlier)
    qed
    then show ?thesis using True p g le by (auto simp: parse_args.simps [of _ _ _ s] elim: parsed_ok_earlier)
  next
    case False
    then show ?thesis using 1(2-) p g le by (auto simp: parse_args.simps [of _ _ _ s] parsed_ok_def Let_def)
  qed
qed

text \<open>The token that a successful \<^verbatim>\<open>peek\<close> announces brings the parser closer to the end.\<close>

lemma skip_token_after_peek:
  assumes "peek cs s toks = (b, s')" b
  shows "s < skip_token cs s'" "skip_token cs s' \<le> length cs"
  using peek_then_token [of cs s toks s'] assms by (cases "gettoken cs s'"; simp add: skip_token_def)+

lemma fuel_step: "s < x \<Longrightarrow> x \<le> l \<Longrightarrow> 4 * (l - s) \<le> n \<Longrightarrow> 4 * (l - x) + 4 \<le> (n :: nat)"
  by simp

lemma parser_ok:
  assumes "s \<le> length cs"
  shows "4 * (length cs - s) + 4 \<le> n \<Longrightarrow> parsed_ok cs s (parseline n cs s)"
    and "4 * (length cs - s) + 3 \<le> n \<Longrightarrow> parsed_ok cs s (parsepipe n cs s)"
    and "4 * (length cs - s) + 2 \<le> n \<Longrightarrow> parsed_ok cs s (parseexec n cs s)"
    and "4 * (length cs - s) + 1 \<le> n \<Longrightarrow> parsed_ok cs s (parseblock n cs s)"
  using assms
proof (induction n arbitrary: s)
  case (Suc n)
  {
    case 1
    show ?case unfolding parseline.simps
    proof (rule parsed_ok_bind [OF Suc.IH(2)])
      fix c s1 assume a: "s \<le> s1" "s1 \<le> length cs" "cmd_ok cs c"
      obtain c2 s2 where b: "parse_back cs c s1 = (c2, s2)" by fastforce
      obtain ok s3 where p: "peek cs s2 (bytes '';'') = (ok, s3)" by fastforce
      have i: "s1 \<le> s2" "s2 \<le> length cs" "cmd_ok cs c2" using parse_back_ok [OF b a(2,3)] by simp_all
      have "parsed_ok cs s (sh_bind (parseline n cs (skip_token cs s3)) (\<lambda>(r, s). Inr (ListCmd c2 r, s)))" if ok
      proof (rule parsed_ok_bind)
        have "s < skip_token cs s3" using skip_token_after_peek [OF p that] a i by simp
        then show "parsed_ok cs s (parseline n cs (skip_token cs s3))"
          using Suc.IH(1) [of "skip_token cs s3"] skip_token_after_peek(2) [OF p that] 1(1)
            fuel_step [of s "skip_token cs s3" "length cs" n]
          by (auto intro: parsed_ok_earlier)
      qed (use i in \<open>simp add: parsed_ok_def\<close>)
      then show "parsed_ok cs s ((\<lambda>(cmd, s). case parse_back cs cmd s of (cmd, s) \<Rightarrow>
          case peek cs s (bytes '';'') of (b, s) \<Rightarrow>
          if b then sh_bind (parseline n cs (skip_token cs s)) (\<lambda>(r, s). Inr (ListCmd cmd r, s)) else Inr (cmd, s)) (c, s1))"
        using b p i a peek_bounds [OF p] by (simp add: parsed_ok_def)
    qed (use 1 in simp_all)
  next
    case 2
    show ?case unfolding parsepipe.simps
    proof (rule parsed_ok_bind [OF Suc.IH(3)])
      fix c s1 assume a: "s \<le> s1" "s1 \<le> length cs" "cmd_ok cs c"
      obtain ok s3 where p: "peek cs s1 (bytes ''|'') = (ok, s3)" by fastforce
      have "parsed_ok cs s (sh_bind (parsepipe n cs (skip_token cs s3)) (\<lambda>(r, s). Inr (PipeCmd c r, s)))" if ok
      proof (rule parsed_ok_bind)
        have "s < skip_token cs s3" using skip_token_after_peek [OF p that] a by simp
        then show "parsed_ok cs s (parsepipe n cs (skip_token cs s3))"
          using Suc.IH(2) [of "skip_token cs s3"] skip_token_after_peek(2) [OF p that] 2(1)
            fuel_step [of s "skip_token cs s3" "length cs" n]
          by (auto intro: parsed_ok_earlier)
      qed (use a in \<open>simp add: parsed_ok_def\<close>)
      then show "parsed_ok cs s ((\<lambda>(cmd, s). case peek cs s (bytes ''|'') of (b, s) \<Rightarrow>
          if b then sh_bind (parsepipe n cs (skip_token cs s)) (\<lambda>(r, s). Inr (PipeCmd cmd r, s)) else Inr (cmd, s)) (c, s1))"
        using p a peek_bounds [OF p] by (simp add: parsed_ok_def)
    qed (use 2 in simp_all)
  next
    case 3
    obtain ok s1 where p: "peek cs s (bytes ''('') = (ok, s1)" by fastforce
    have le: "s \<le> s1" "s1 \<le> length cs" using peek_bounds [OF p] 3 by simp_all
    have e: "cmd_ok cs (ExecCmd [])" by (simp add: cmd_ok_def MAXARGS_def)
    have "parsed_ok cs s1 (sh_bind (parseredirs cs (ExecCmd []) s1) (\<lambda>(ret, s). parse_args cs 0 ret s))"
    proof (rule parsed_ok_bind)
      show "parsed_ok cs s1 (parseredirs cs (ExecCmd []) s1)" using parseredirs_ok [OF le(2) e] by simp
      fix c s' assume r: "parseredirs cs (ExecCmd []) s1 = Inr (c, s')" "s1 \<le> s'" "s' \<le> length cs" "cmd_ok cs c"
      have "exec_shape 0 c" using parseredirs_ok [OF le(2) e, of 0] r(1) by simp
      then show "parsed_ok cs s1 (case (c, s') of (ret, s) \<Rightarrow> parse_args cs 0 ret s)"
        using parse_args_ok [OF r(3,4)] parsed_ok_earlier [OF _ r(2)] by simp
    qed
    moreover have "parsed_ok cs s1 (parseblock n cs s1)" using Suc.IH(4) [of s1] 3(1) le by simp
    ultimately show ?case using p by (auto intro: parsed_ok_earlier [OF _ le(1)])
  next
    case 4
    obtain ok s1 where p: "peek cs s (bytes ''('') = (ok, s1)" by fastforce
    have "parsed_ok cs s (sh_bind (parseline n cs (skip_token cs s1)) (\<lambda>(cmd, s).
          case peek cs s (bytes '')'') of (b, s) \<Rightarrow>
            if \<not> b then Inl (Sh_Panic ''syntax - missing )'') else parseredirs cs cmd (skip_token cs s)))" if ok
    proof (rule parsed_ok_bind)
      have "s < skip_token cs s1" using skip_token_after_peek [OF p that] by simp
      then show "parsed_ok cs s (parseline n cs (skip_token cs s1))"
        using Suc.IH(1) [of "skip_token cs s1"] skip_token_after_peek(2) [OF p that] 4(1)
          fuel_step [of s "skip_token cs s1" "length cs" n]
        by (auto intro: parsed_ok_earlier)
      fix c s2 assume a: "s \<le> s2" "s2 \<le> length cs" "cmd_ok cs c"
      obtain ok' s3 where p2: "peek cs s2 (bytes '')'') = (ok', s3)" by fastforce
      show "parsed_ok cs s (case (c, s2) of (cmd, s) \<Rightarrow> case peek cs s (bytes '')'') of (b, s) \<Rightarrow>
            if \<not> b then Inl (Sh_Panic ''syntax - missing )'') else parseredirs cs cmd (skip_token cs s))"
        using p2 a parseredirs_ok [OF skip_token_after_peek(2) [OF p2] a(3)] skip_token_after_peek(1) [OF p2]
          parsed_ok_earlier [of cs "skip_token cs s3" _ s] by (auto simp: parsed_ok_def [of _ _ "Inl _"])
    qed
    then show ?case using p by (simp add: parsed_ok_def [of _ _ "Inl _"])
  }
qed simp_all

section \<open>Cutting out the words\<close>

lemma nth_set: "i < length b \<Longrightarrow> b[e := x] ! i = (if i = e then x else b ! i)"
  by (metis nth_list_update_eq nth_list_update_neq)

lemma nulterminate_nth:
  "length (nulterminate c b) = length b \<and>
   (i < length b \<longrightarrow> nulterminate c b ! i = (if i \<in> snd ` set_cmd c then 0 else b ! i))"
proof (induction c arbitrary: b)
  case (ExecCmd ws)
  show ?case
  proof (induction ws arbitrary: b)
    case (Cons w ws)
    then show ?case by (cases w) (auto simp: nth_set)
  qed simp
qed (auto simp: nth_set)

lemma str_at_prefix: "str_at b 0 @ 0 # drop (Suc (length (str_at b 0))) b = b" if "0 \<in> set b"
proof -
  have "takeWhile (\<lambda>c. c \<noteq> 0) b \<noteq> b" using that by (auto simp: takeWhile_eq_all_conv)
  then have "length (takeWhile (\<lambda>c. c \<noteq> 0) b) < length b"
    by (metis length_takeWhile_le le_neq_implies_less takeWhile_eq_take take_all order_refl)
  then show ?thesis using nth_length_takeWhile [of "\<lambda>c. c \<noteq> 0" b] id_take_nth_drop [of "length (takeWhile (\<lambda>c. c \<noteq> 0) b)" b]
    by (simp add: str_at_def takeWhile_eq_take [symmetric])
qed

lemma nulterminated_word:
  assumes "b = cs @ 0 # r" "0 \<notin> set cs" "\<forall>w\<in>set_cmd c. word_at cs w" "(q, eq) \<in> set_cmd c"
  shows "str_at (nulterminate c b) q = take (eq - q) (drop q cs)"
proof -
  let ?b = "nulterminate c b"
  have w: "q < eq" "eq \<le> length cs" "\<And>i. q \<le> i \<Longrightarrow> i < eq \<Longrightarrow> \<not> delimiter (cs ! i)" using assms(3,4) by (auto simp: word_at_def)
  have l: "length ?b = length b" using nulterminate_nth by blast
  have "?b ! i = cs ! i \<and> cs ! i \<noteq> 0" if "q \<le> i" "i < eq" for i
  proof -
    have "i \<notin> snd ` set_cmd c"
    proof
      assume "i \<in> snd ` set_cmd c"
      then obtain q' where "word_at cs (q', i)" using assms(3) by auto
      then show False using w(2) w(3) [OF that] that by (auto simp: word_at_def)
    qed
    moreover have "cs ! i \<noteq> 0" using assms(2) that w(2) by (metis less_le_trans nth_mem)
    ultimately show ?thesis using that w(2) nulterminate_nth [of c b i] by (auto simp: assms(1) nth_append)
  qed
  note pre = this
  have z: "?b ! eq = 0" using nulterminate_nth [of c b eq] assms(4) w(2) by (force simp: assms(1))
  have "str_at ?b q = take (eq - q) (drop q ?b)"
    unfolding str_at_def by (rule takeWhile_eq_take_P_nth) (use pre z w l in \<open>auto simp: assms(1)\<close>)
  also have "\<dots> = take (eq - q) (drop q cs)"
    by (rule nth_equalityI) (use pre w l in \<open>auto simp: assms(1)\<close>)
  finally show ?thesis .
qed

text \<open>C28: the parser of the shell ends on every line: the recursion bound is never reached.\<close>

theorem parsecmd_terminates: "parsecmd b \<noteq> Inl Sh_Fuel"
proof -
  let ?cs = "str_at b 0"
  have "parsed_ok ?cs 0 (parseline (4 * length ?cs + 4) ?cs 0)" by (rule parser_ok(1)) simp_all
  then show ?thesis
    by (cases "parseline (4 * length ?cs + 4) ?cs 0") (auto simp: parsecmd_def Let_def parsed_ok_def split: prod.splits if_splits)
qed


lemma parse_ls: "parsecmd [108, 115, 10, 0] = Inr (ExecCmd [(0, 2)], [108, 115, 0, 0])"
  by code_simp


end
