(* ===== verification/Sh_Roundtrip.thy ===== *)
theory Sh_Roundtrip
  imports Sh_Lemmas
begin

text \<open>
  Printing a command as a line and parsing it: every command the shell can represent is denoted by a line,
  and the parser returns the command for it, with the precedence of \<^verbatim>\<open>|\<close> over \<^verbatim>\<open>&\<close> over \<^verbatim>\<open>;\<close> and parentheses
  for the rest.
\<close>

section \<open>Printing\<close>

definition show_words :: "u8 list list \<Rightarrow> u8 list" where
  "show_words ws = concat (map (\<lambda>w. w @ [32]) ws)"

definition show_redir :: "u8 list \<Rightarrow> int \<Rightarrow> u8 list" where
  "show_redir f fd = (if fd = 0 then bytes ''< '' else bytes ''> '') @ f @ [32]"

definition paren :: "bool \<Rightarrow> u8 list \<Rightarrow> u8 list" where
  "paren b t = (if b then bytes ''( '' @ t @ bytes '') '' else t)"

text \<open>The level says what the context allows without parentheses: a command with redirections (0), a
  pipeline (1), one in the background (2), a list (3).\<close>

primrec show_cmd :: "nat \<Rightarrow> u8 list cmd \<Rightarrow> u8 list" where
  "show_cmd l (ExecCmd ws) = show_words ws"
| "show_cmd l (RedirCmd c f m fd) = show_cmd 0 c @ show_redir f fd"
| "show_cmd l (PipeCmd c d) = paren (l < 1) (show_cmd 0 c @ bytes ''| '' @ show_cmd 1 d)"
| "show_cmd l (BackCmd c) = paren (l < 2) (show_cmd 2 c @ bytes ''& '')"
| "show_cmd l (ListCmd c d) = paren (l < 3) (show_cmd 2 c @ bytes ''; '' @ show_cmd 3 d)"

definition plain :: "u8 list \<Rightarrow> bool" where
  "plain w \<longleftrightarrow> w \<noteq> [] \<and> (\<forall>c\<in>set w. c \<noteq> 0 \<and> \<not> delimiter c)"

definition redir_mode :: "u32 \<Rightarrow> int \<Rightarrow> bool" where
  "redir_mode m fd \<longleftrightarrow> m = O_RDONLY \<and> fd = 0 \<or> m = (O_WRONLY OR O_CREATE) \<and> fd = 1"

primrec wf_cmd :: "u8 list cmd \<Rightarrow> bool" where
  "wf_cmd (ExecCmd ws) \<longleftrightarrow> list_all plain ws \<and> length ws < MAXARGS"
| "wf_cmd (RedirCmd c f m fd) \<longleftrightarrow> wf_cmd c \<and> plain f \<and> redir_mode m fd"
| "wf_cmd (PipeCmd c d) \<longleftrightarrow> wf_cmd c \<and> wf_cmd d"
| "wf_cmd (ListCmd c d) \<longleftrightarrow> wf_cmd c \<and> wf_cmd d"
| "wf_cmd (BackCmd c) \<longleftrightarrow> wf_cmd c"

section \<open>The text from a pointer on\<close>

abbreviation blank :: "u8 \<Rightarrow> bool" where "blank c \<equiv> c \<in> set whitespace"

text \<open>\<open>at cs s t\<close>: the pointer is in the line, and \<open>t\<close> is the rest of the line.\<close>

definition at :: "u8 list \<Rightarrow> nat \<Rightarrow> u8 list \<Rightarrow> bool" where
  "at cs s t \<longleftrightarrow> s \<le> length cs \<and> drop s cs = t \<and> 0 \<notin> set cs"

definition next_in :: "u8 list \<Rightarrow> u8 list \<Rightarrow> bool" where
  "next_in t toks \<longleftrightarrow> (case dropWhile blank t of [] \<Rightarrow> False | c # _ \<Rightarrow> c \<in> set toks)"

text \<open>Nothing but blanks, or then one of \<open>toks\<close>.\<close>

definition stops :: "u8 list \<Rightarrow> u8 list \<Rightarrow> bool" where
  "stops t toks \<longleftrightarrow> (case dropWhile blank t of [] \<Rightarrow> True | c # _ \<Rightarrow> c \<in> set toks)"

lemma stops_not_next: "stops t toks \<Longrightarrow> set toks \<inter> set toks' = {} \<Longrightarrow> \<not> next_in t toks'"
  by (cases "dropWhile blank t") (auto simp: stops_def next_in_def simp del: dropWhile_eq_Nil_conv)

lemma stops_mono: "stops t toks \<Longrightarrow> set toks \<subseteq> set toks' \<Longrightarrow> stops t toks'"
  by (cases "dropWhile blank t") (auto simp: stops_def simp del: dropWhile_eq_Nil_conv)

lemma stops_Cons [simp]: "stops (c # t) toks \<longleftrightarrow> (if blank c then stops t toks else c \<in> set toks)"
  by (simp add: stops_def)

lemma at_append:
  assumes "at cs s (t @ u)"
  shows "at cs (s + length t) u"
proof -
  have d: "drop s cs = t @ u" using assms by (simp add: at_def)
  have "drop (s + length t) cs = drop (length t) (drop s cs)" by (simp add: add.commute)
  moreover have "length cs - s = length t + length u" using arg_cong [OF d, of length] by simp
  moreover from this have "s + length t \<le> length cs" using assms unfolding at_def by linarith
  ultimately show ?thesis using assms d by (simp add: at_def)
qed

lemma at_Cons: "at cs s (c # u) \<Longrightarrow> at cs (Suc s) u"
  using at_append [of cs s "[c]" u] by simp

lemma at_skip: "at cs s t \<Longrightarrow> at cs (skip_ws cs s) (dropWhile blank t)"
  by (auto simp: at_def skip_while_le) (simp add: skip_while_eq dropWhile_eq_drop add.commute)

lemma at_cstr: "at cs s t \<Longrightarrow> cstr cs s = (case t of [] \<Rightarrow> 0 | c # _ \<Rightarrow> c)"
  by (auto simp: at_def cstr_def split: list.splits) (metis nth_via_drop)

lemma at_nonzero: "at cs s (c # t) \<Longrightarrow> c \<noteq> 0"
  by (auto simp: at_def) (metis in_set_dropD list.set_intros(1))

lemma skip_skip [simp]: "skip_while P cs (skip_while P cs s) = skip_while P cs s"
proof (cases "skip_while P cs s < length cs")
  case True
  then have "\<not> P (cs ! skip_while P cs s)" using nth_length_takeWhile [of P "drop s cs"] by (simp add: skip_while_eq)
  then show ?thesis by (subst skip_while.simps) simp
qed (subst skip_while.simps, simp)

lemma at_hd: "at cs s (c # t) \<Longrightarrow> s < length cs \<and> cs ! s = c"
  using at_cstr [of cs s "c # t"] at_nonzero [of cs s c t] by (auto simp: cstr_def split: if_splits)

lemma skip_blank: "at cs s (c # t) \<Longrightarrow> blank c \<Longrightarrow> skip_ws cs s = skip_ws cs (Suc s)"
  using at_hd [of cs s c t] by (subst skip_while.simps) simp

lemma skip_nonblank: "at cs s (c # t) \<Longrightarrow> \<not> blank c \<Longrightarrow> skip_ws cs s = s"
  using at_hd [of cs s c t] by (subst skip_while.simps) simp

lemma peek_at:
  assumes "at cs s t"
  shows "peek cs s toks = (next_in t toks, skip_ws cs s)"
proof (cases "dropWhile blank t")
  case Nil
  then show ?thesis using at_cstr [OF at_skip [OF assms]]
    by (simp add: peek_def Let_def next_in_def del: dropWhile_eq_Nil_conv)
next
  case (Cons c u)
  then have "c \<noteq> 0" using at_nonzero at_skip [OF assms] by metis
  then show ?thesis using at_cstr [OF at_skip [OF assms]] Cons by (simp add: peek_def Let_def next_in_def)
qed

lemma token_end: "at cs s t \<Longrightarrow> dropWhile blank t = [] \<Longrightarrow> gettoken cs s = (0, skip_ws cs s, skip_ws cs s, skip_ws cs s)"
  using at_cstr [OF at_skip, of cs s t] by (simp add: gettoken_def Let_def del: dropWhile_eq_Nil_conv)

lemma blank_space: "blank 32"
  by (simp add: whitespace_def)

lemma token_word:
  assumes "at cs s (w @ 32 # t)" "plain w"
  shows "gettoken cs s = (97, s, s + length w, skip_ws cs (s + length w + 1))"
proof -
  obtain c w' where w: "w = c # w'" using assms(2) by (cases w) (auto simp: plain_def)
  have c: "c \<noteq> 0" "\<not> delimiter c" using assms(2) by (simp_all add: w plain_def)
  have at: "at cs s (c # w' @ 32 # t)" using assms(1) by (simp add: w)
  have q: "skip_ws cs s = s" "cstr cs s = c" using skip_nonblank [OF at] at_cstr [OF at] c by simp_all
  have "takeWhile (\<lambda>c. \<not> delimiter c) (w @ 32 # t) = w"
    using assms(2) blank_space by (subst takeWhile_append2) (auto simp: plain_def)
  then have e: "skip_while (\<lambda>c. \<not> delimiter c) cs s = s + length w" using assms(1) by (simp add: skip_while_eq at_def)
  have "skip_ws cs (s + length w) = skip_ws cs (s + length w + 1)"
    using skip_blank [OF at_append [OF assms(1)] blank_space] by simp
  moreover have "c \<notin> set (bytes ''|();&<'')" "c \<noteq> 62" using c(2) by (auto simp: symbols_def bytes_def)
  ultimately show ?thesis using q c e by (simp add: gettoken_def)
qed

lemma token_symbol:
  assumes "at cs s (c # 32 # t)" "c \<in> set symbols"
  shows "gettoken cs s = (c, s, s + 1, skip_ws cs (s + 2))"
proof -
  have c: "c \<noteq> 0" "\<not> blank c" using assms(2) by (auto simp: symbols_def whitespace_def bytes_def)
  have "skip_ws cs s = s" "cstr cs s = c" "cstr cs (s + 1) = 32" "skip_ws cs (s + 1) = skip_ws cs (s + 2)"
    using skip_nonblank [OF assms(1) c(2)] at_cstr [OF assms(1)] at_cstr [OF at_Cons [OF assms(1)]]
      skip_blank [OF at_Cons [OF assms(1)] blank_space] by simp_all
  moreover have "c \<in> set (bytes ''|();&<'') \<or> c = 62" using assms(2) by (auto simp: symbols_def bytes_def)
  ultimately show ?thesis using c by (auto simp: gettoken_def)
qed

text \<open>Every parsing routine first skips blanks, so it does not matter on which side of them it starts.\<close>

lemma peek_skip [simp]: "peek cs (skip_ws cs s) toks = peek cs s toks"
  by (simp add: peek_def)

lemma gettoken_skip [simp]: "gettoken cs (skip_ws cs s) = gettoken cs s"
  by (simp add: gettoken_def)

lemma parse_skip [simp]:
  "parse_back cs c (skip_ws cs s) = parse_back cs c s"
  "parseredirs cs c (skip_ws cs s) = parseredirs cs c s"
  "parse_args cs argc c (skip_ws cs s) = parse_args cs argc c s"
  by (simp_all add: parse_back.simps [of _ _ "skip_ws cs s"] parse_back.simps [of _ _ s]
    parseredirs.simps [of _ _ "skip_ws cs s"] parseredirs.simps [of _ _ s]
    parse_args.simps [of _ _ _ "skip_ws cs s"] parse_args.simps [of _ _ _ s] cong: if_weak_cong)

lemma parser_skip [simp]:
  "parseexec n cs (skip_ws cs s) = parseexec n cs s"
  "parsepipe n cs (skip_ws cs s) = parsepipe n cs s"
  "parseline n cs (skip_ws cs s) = parseline n cs s"
proof -
  show e: "parseexec n cs (skip_ws cs s) = parseexec n cs s" for n by (cases n) simp_all
  show p: "parsepipe n cs (skip_ws cs s) = parsepipe n cs s" for n by (cases n) (simp_all add: e)
  show "parseline n cs (skip_ws cs s) = parseline n cs s" by (cases n) (simp_all add: p)
qed

section \<open>Parsing what was printed\<close>

definition strs :: "u8 list \<Rightarrow> span cmd \<Rightarrow> u8 list cmd" where
  "strs cs c = map_cmd (\<lambda>(q, eq). take (eq - q) (drop q cs)) c"

lemma strs_simps [simp]:
  "strs cs (ExecCmd ws) = ExecCmd (map (\<lambda>(q, eq). take (eq - q) (drop q cs)) ws)"
  "strs cs (RedirCmd c (q, eq) m fd) = RedirCmd (strs cs c) (take (eq - q) (drop q cs)) m fd"
  "strs cs (PipeCmd c d) = PipeCmd (strs cs c) (strs cs d)"
  "strs cs (ListCmd c d) = ListCmd (strs cs c) (strs cs d)"
  "strs cs (BackCmd c) = BackCmd (strs cs c)"
  by (simp_all add: strs_def)

lemma at_word: "at cs s (w @ t) \<Longrightarrow> take (length w) (drop s cs) = w"
  by (simp add: at_def)

lemma next_in_Cons [simp]: "next_in (c # t) toks \<longleftrightarrow> (if blank c then next_in t toks else c \<in> set toks)"
  by (simp add: next_in_def)

lemma next_in_plain: "plain w \<Longrightarrow> next_in (w @ t) toks \<longleftrightarrow> hd w \<in> set toks"
  by (cases w) (auto simp: plain_def)

type_synonym redir = "u8 list \<times> u32 \<times> int"

definition show_redirs :: "redir list \<Rightarrow> u8 list" where
  "show_redirs rs = concat (map (\<lambda>(f, m, fd). show_redir f fd) rs)"

definition wrap :: "redir list \<Rightarrow> u8 list cmd \<Rightarrow> u8 list cmd" where
  "wrap rs c = fold (\<lambda>(f, m, fd) c. RedirCmd c f m fd) rs c"

definition redir_ok :: "redir \<Rightarrow> bool" where
  "redir_ok r \<longleftrightarrow> (case r of (f, m, fd) \<Rightarrow> plain f \<and> redir_mode m fd)"

lemma parseredirs_none:
  "at cs s t \<Longrightarrow> \<not> next_in t (bytes ''<>'') \<Longrightarrow> parseredirs cs c s = Inr (c, skip_ws cs s)"
  using peek_at [of cs s t] by (simp add: parseredirs.simps [of _ _ s])

lemma parseredirs_text:
  assumes "at cs s (show_redirs rs @ t)" "list_all redir_ok rs" "\<not> next_in t (bytes ''<>'')"
  shows "\<exists>c'. parseredirs cs c s = Inr (c', skip_ws cs (s + length (show_redirs rs))) \<and> strs cs c' = wrap rs (strs cs c)"
  using assms
proof (induction rs arbitrary: s c)
  case Nil
  then show ?case using parseredirs_none [of cs s t] by (simp add: show_redirs_def wrap_def)
next
  case (Cons r rs)
  obtain f m fd where r: "r = (f, m, fd)" by (cases r)
  have ok: "plain f" "redir_mode m fd" using Cons.prems(2) by (auto simp: r redir_ok_def)
  define x :: u8 where "x = (if fd = 0 then 60 else 62)"
  have at: "at cs s (x # 32 # f @ 32 # show_redirs rs @ t)"
    using Cons.prems(1) by (simp add: r show_redirs_def show_redir_def x_def bytes_def split: if_splits)
  have x: "x \<in> set symbols" "\<not> blank x" "x \<in> set (bytes ''<>'')" by (simp_all add: x_def symbols_def whitespace_def bytes_def)
  note at2 = at_Cons [OF at_Cons [OF at]]
  have g: "gettoken cs s = (x, s, s + 1, skip_ws cs (s + 2))" using token_symbol [OF at x(1)] .
  have g2: "gettoken cs (s + 2) = (97, s + 2, s + 2 + length f, skip_ws cs (s + 2 + length f + 1))"
    using token_word [OF _ ok(1), of cs "s + 2"] at2 by simp
  have "at cs (s + 2 + length f + 1) (show_redirs rs @ t)"
    using at_Cons [OF at_append [OF at2]] by (simp add: algebra_simps)
  from Cons.IH [OF this, of "RedirCmd c (s + 2, s + 2 + length f) m fd"]
  obtain c' where c': "parseredirs cs (RedirCmd c (s + 2, s + 2 + length f) m fd) (s + 2 + length f + 1) =
      Inr (c', skip_ws cs (s + 2 + length f + 1 + length (show_redirs rs)))"
    "strs cs c' = wrap rs (strs cs (RedirCmd c (s + 2, s + 2 + length f) m fd))"
    using Cons.prems(2,3) by auto
  have "parseredirs cs c s = parseredirs cs (RedirCmd c (s + 2, s + 2 + length f) m fd) (s + 2 + length f + 1)"
    using peek_at [OF at] x g g2 ok(2) by (auto simp: parseredirs.simps [of _ c s] redir_mode_def x_def)
  moreover have "length (show_redirs (r # rs)) = length f + 3 + length (show_redirs rs)"
    by (simp add: show_redirs_def show_redir_def r bytes_def)
  moreover have "take (length f) (drop (s + 2) cs) = f" using at_word [of cs "s + 2" f] at2 by simp
  ultimately show ?case using c' by (auto simp: r wrap_def algebra_simps eval_nat_numeral)
qed

lemma parse_args_stop:
  assumes "at cs s t" "stops t (bytes ''|)&;'')"
  shows "parse_args cs argc c s = Inr (c, skip_ws cs s)"
proof (cases "dropWhile blank t")
  case Nil
  then have "\<not> next_in t toks" for toks by (simp add: next_in_def del: dropWhile_eq_Nil_conv)
  then show ?thesis using token_end [OF assms(1) Nil] peek_at [OF assms(1)] by (simp add: parse_args.simps [of _ _ _ s])
next
  case (Cons d u)
  then have "next_in t (bytes ''|)&;'')" using assms(2) by (simp add: stops_def next_in_def)
  then show ?thesis using peek_at [OF assms(1)] by (simp add: parse_args.simps [of _ _ _ s])
qed

lemma parse_args_text:
  assumes "at cs s (show_words ws @ show_redirs rs @ t)" "ws \<noteq> []" "list_all plain ws" "list_all redir_ok rs"
    and "stops t (bytes ''|)&;'')" "argc + length ws < MAXARGS"
  shows "\<exists>c'. parse_args cs argc (ExecCmd as) s = Inr (c', skip_ws cs (s + length (show_words ws @ show_redirs rs))) \<and>
     strs cs c' = wrap rs (ExecCmd (map (\<lambda>(q, eq). take (eq - q) (drop q cs)) as @ ws))"
  using assms
proof (induction ws arbitrary: s argc as)
  case (Cons w ws)
  have w: "plain w" using Cons.prems(3) by simp
  have no: "\<not> next_in t (bytes ''<>'')" using stops_not_next [OF Cons.prems(5)] by (simp add: bytes_def)
  have at: "at cs s (w @ 32 # show_words ws @ show_redirs rs @ t)" using Cons.prems(1) by (simp add: show_words_def)
  let ?s = "s + length w + 1"
  have at2: "at cs ?s (show_words ws @ show_redirs rs @ t)" using at_Cons [OF at_append [OF at]] by simp
  have "hd w \<notin> set symbols" using w by (cases w) (auto simp: plain_def)
  then have "hd w \<notin> set (bytes ''|)&;'')" by (auto simp: symbols_def bytes_def)
  then have p: "peek cs s (bytes ''|)&;'') = (False, skip_ws cs s)" using peek_at [OF at] w by (simp add: next_in_plain)
  have l: "length (show_words (w # ws)) = length w + 1 + length (show_words ws)" by (simp add: show_words_def)
  let ?as = "as @ [(s, s + length w)]"
  have step: "parse_args cs argc (ExecCmd as) s =
      sh_bind (parseredirs cs (ExecCmd ?as) ?s) (\<lambda>(ret, s). parse_args cs (argc + 1) ret s)"
    using p token_word [OF at w] Cons.prems(6) by (simp add: parse_args.simps [of _ _ _ s] Let_def)
  have as: "map (\<lambda>(q, eq). take (eq - q) (drop q cs)) ?as = map (\<lambda>(q, eq). take (eq - q) (drop q cs)) as @ [w]"
    using at_word [OF at] by simp
  show ?case
  proof (cases "ws = []")
    case True
    have at3: "at cs ?s (show_redirs rs @ t)" using at2 True by (simp add: show_words_def)
    obtain c' where c': "parseredirs cs (ExecCmd ?as) ?s = Inr (c', skip_ws cs (?s + length (show_redirs rs)))"
      "strs cs c' = wrap rs (strs cs (ExecCmd ?as))"
      using parseredirs_text [OF at3 Cons.prems(4) no] by blast
    then show ?thesis using step True l as parse_args_stop [OF at_append [OF at3] Cons.prems(5)]
      by (simp add: show_words_def algebra_simps)
  next
    case False
    then obtain v vs where v: "ws = v # vs" by (cases ws) auto
    have "plain v" using Cons.prems(3) v by simp
    then have "hd v \<notin> set symbols" by (cases v) (auto simp: plain_def)
    then have nv: "\<not> next_in (show_words ws @ show_redirs rs @ t) (bytes ''<>'')"
      using next_in_plain [OF \<open>plain v\<close>] by (simp add: v show_words_def) (auto simp: symbols_def bytes_def)
    have "parseredirs cs (ExecCmd ?as) ?s = Inr (ExecCmd ?as, skip_ws cs ?s)"
      by (rule parseredirs_none [OF at2 nv])
    moreover obtain c' where "parse_args cs (argc + 1) (ExecCmd ?as) ?s = Inr (c', skip_ws cs (?s + length (show_words ws @ show_redirs rs)))"
      "strs cs c' = wrap rs (ExecCmd (map (\<lambda>(q, eq). take (eq - q) (drop q cs)) ?as @ ws))"
      using Cons.IH [OF at2 False, of "argc + 1" ?as] Cons.prems(3-6) by auto
    ultimately show ?thesis using step l as by (simp add: algebra_simps)
  qed
qed simp

text \<open>What the routine of each level does with a printed command; \<open>d\<close> characters are left.\<close>

definition reads0 :: "u8 list cmd \<Rightarrow> bool" where
  "reads0 c \<longleftrightarrow> (\<forall>cs s rs t n. at cs s (show_cmd 0 c @ show_redirs rs @ t) \<longrightarrow> list_all redir_ok rs \<longrightarrow>
     stops t (bytes ''|)&;'') \<longrightarrow> 4 * (length cs - s) + 2 \<le> n \<longrightarrow>
     (\<exists>c'. parseexec n cs s = Inr (c', skip_ws cs (s + length (show_cmd 0 c @ show_redirs rs))) \<and> strs cs c' = wrap rs c))"

definition reads1 :: "u8 list cmd \<Rightarrow> bool" where
  "reads1 c \<longleftrightarrow> (\<forall>cs s t n. at cs s (show_cmd 1 c @ t) \<longrightarrow> stops t (bytes '')&;'') \<longrightarrow> 4 * (length cs - s) + 3 \<le> n \<longrightarrow>
     (\<exists>c'. parsepipe n cs s = Inr (c', skip_ws cs (s + length (show_cmd 1 c))) \<and> strs cs c' = c))"

definition reads2 :: "u8 list cmd \<Rightarrow> bool" where
  "reads2 c \<longleftrightarrow> (\<forall>cs s t n. at cs s (show_cmd 2 c @ t) \<longrightarrow> stops t (bytes '')&;'') \<longrightarrow> 4 * (length cs - s) + 3 \<le> n \<longrightarrow>
     (\<exists>c1 s1 c'. parsepipe n cs s = Inr (c1, s1) \<and>
        parse_back cs c1 s1 = parse_back cs c' (s + length (show_cmd 2 c)) \<and> strs cs c' = c))"

definition reads3 :: "u8 list cmd \<Rightarrow> bool" where
  "reads3 c \<longleftrightarrow> (\<forall>cs s t n. at cs s (show_cmd 3 c @ t) \<longrightarrow> stops t (bytes '')'') \<longrightarrow> 4 * (length cs - s) + 4 \<le> n \<longrightarrow>
     (\<exists>c'. parseline n cs s = Inr (c', skip_ws cs (s + length (show_cmd 3 c))) \<and> strs cs c' = c))"

lemma reads0_Exec:
  assumes "wf_cmd (ExecCmd ws)"
  shows "reads0 (ExecCmd ws)"
  unfolding reads0_def
proof (intro allI impI)
  fix cs s rs t and n :: nat
  assume at: "at cs s (show_cmd 0 (ExecCmd ws) @ show_redirs rs @ t)" and rs: "list_all redir_ok rs"
    and st: "stops t (bytes ''|)&;'')" and n: "4 * (length cs - s) + 2 \<le> n"
  obtain n' where n': "n = Suc n'" using n by (cases n) auto
  have no: "\<not> next_in t (bytes ''<>'')" "\<not> next_in t (bytes ''('')" using stops_not_next [OF st] by (simp_all add: bytes_def)
  show "\<exists>c'. parseexec n cs s = Inr (c', skip_ws cs (s + length (show_cmd 0 (ExecCmd ws) @ show_redirs rs))) \<and> strs cs c' = wrap rs (ExecCmd ws)"
  proof (cases ws)
    case Nil
    have at': "at cs s (show_redirs rs @ t)" using at Nil by (simp add: show_words_def)
    have "\<not> next_in (show_redirs rs @ t) (bytes ''('')"
      using no(2) by (cases rs) (auto simp: show_redirs_def show_redir_def bytes_def whitespace_def split: if_splits)
    then have p: "peek cs s (bytes ''('') = (False, skip_ws cs s)" using peek_at [OF at'] by simp
    obtain c' where "parseredirs cs (ExecCmd []) s = Inr (c', skip_ws cs (s + length (show_redirs rs)))"
      "strs cs c' = wrap rs (strs cs (ExecCmd []))"
      using parseredirs_text [OF at' rs no(1)] by blast
    then show ?thesis using p n' Nil parse_args_stop [OF at_append [OF at'] st] by (simp add: show_words_def)
  next
    case (Cons w ws')
    have w: "plain w" using assms Cons by simp
    then have "hd w \<notin> set symbols" by (cases w) (auto simp: plain_def)
    then have h: "hd w \<notin> set (bytes ''('')" "hd w \<notin> set (bytes ''<>'')" by (auto simp: symbols_def bytes_def)
    have at': "at cs s (show_words ws @ show_redirs rs @ t)" using at by simp
    have nx: "next_in (show_words ws @ show_redirs rs @ t) toks \<longleftrightarrow> hd w \<in> set toks" for toks
      using next_in_plain [OF w] by (simp add: Cons show_words_def)
    have "parseexec n cs s = parse_args cs 0 (ExecCmd []) s"
      using peek_at [OF at'] nx h parseredirs_none [OF at'] by (simp add: n')
    then show ?thesis using parse_args_text [OF at' _ _ rs st, of 0 "[]"] assms Cons by auto
  qed
qed

lemma wrap_Cons: "wrap ((f, m, fd) # rs) c = wrap rs (RedirCmd c f m fd)"
  by (simp add: wrap_def)

lemma reads0_Redir:
  assumes "reads0 c" "plain f" "redir_mode m fd"
  shows "reads0 (RedirCmd c f m fd)"
  unfolding reads0_def
proof (intro allI impI)
  fix cs s rs t and n :: nat
  assume a: "at cs s (show_cmd 0 (RedirCmd c f m fd) @ show_redirs rs @ t)" "list_all redir_ok rs"
    "stops t (bytes ''|)&;'')" "4 * (length cs - s) + 2 \<le> n"
  let ?rs = "(f, m, fd) # rs"
  have "show_redirs ?rs = show_redir f fd @ show_redirs rs" by (simp add: show_redirs_def)
  then show "\<exists>c'. parseexec n cs s = Inr (c', skip_ws cs (s + length (show_cmd 0 (RedirCmd c f m fd) @ show_redirs rs))) \<and>
      strs cs c' = wrap rs (RedirCmd c f m fd)"
    using assms(1) [unfolded reads0_def, rule_format, of cs s ?rs t n] a assms(2,3) by (simp add: redir_ok_def wrap_Cons)
qed

lemma skip_token_at: "at cs s (c # 32 # t) \<Longrightarrow> c \<in> set symbols \<Longrightarrow> skip_token cs s = skip_ws cs (s + 2)"
  by (simp add: skip_token_def token_symbol)

lemma skip_token_skip [simp]: "skip_token cs (skip_ws cs s) = skip_token cs s"
  by (simp add: skip_token_def)

lemma fuel_left: "at cs s (t @ u) \<Longrightarrow> t \<noteq> [] \<Longrightarrow> 4 * (length cs - s) \<le> n \<Longrightarrow> 4 * (length cs - (s + length t)) + 4 \<le> n"
proof -
  assume a: "at cs s (t @ u)" "t \<noteq> []" "4 * (length cs - s) \<le> n"
  have "s + length t \<le> length cs" using at_append [OF a(1)] by (simp add: at_def)
  then show ?thesis using fuel_step [of s "s + length t" "length cs" n] a(2,3) by simp
qed

lemma fuel_later: "4 * (l - s) + k \<le> n \<Longrightarrow> 4 * (l - (s + d)) + k \<le> (n :: nat)"
  by (simp add: diff_le_mono2 order_trans [of "4 * (l - (s + d)) + k" "4 * (l - s) + k" n])

lemma reads1_Pipe:
  assumes "reads0 c" "reads1 d"
  shows "reads1 (PipeCmd c d)"
  unfolding reads1_def
proof (intro allI impI)
  fix cs s t and n :: nat
  assume a: "at cs s (show_cmd 1 (PipeCmd c d) @ t)" "stops t (bytes '')&;'')" "4 * (length cs - s) + 3 \<le> n"
  obtain n' where n: "n = Suc n'" using a(3) by (cases n) auto
  have at: "at cs s (show_cmd 0 c @ show_redirs [] @ 124 # 32 # show_cmd 1 d @ t)"
    using a(1) by (simp add: paren_def bytes_def show_redirs_def)
  let ?s = "s + length (show_cmd 0 c)"
  have at1: "at cs ?s (124 # 32 # show_cmd 1 d @ t)" using at_append [OF at] by (simp add: show_redirs_def)
  have at2: "at cs (?s + 2) (show_cmd 1 d @ t)" using at_Cons [OF at_Cons [OF at1]] by simp
  have "stops (124 # 32 # show_cmd 1 d @ t) (bytes ''|)&;'')" by (simp add: bytes_def whitespace_def)
  then obtain c1 where c1: "parseexec n' cs s = Inr (c1, skip_ws cs ?s)" "strs cs c1 = c"
    using assms(1) [unfolded reads0_def, rule_format, OF at, of n'] a(3) n by (auto simp: show_redirs_def wrap_def)
  have "4 * (length cs - (?s + 2)) + 4 \<le> n'"
    using fuel_left [of cs ?s "[124, 32]" "show_cmd 1 d @ t" n'] fuel_later [of "length cs" s 0 n' "length (show_cmd 0 c)"] at1 a(3) n by simp
  then obtain c2 where c2: "parsepipe n' cs (?s + 2) = Inr (c2, skip_ws cs (?s + 2 + length (show_cmd 1 d)))" "strs cs c2 = d"
    using assms(2) [unfolded reads1_def, rule_format, OF at2 a(2), of n'] by auto
  have "peek cs ?s (bytes ''|'') = (True, skip_ws cs ?s)" using peek_at [OF at1] by (simp add: bytes_def whitespace_def)
  moreover have "skip_token cs ?s = skip_ws cs (?s + 2)" using skip_token_at [OF at1] by (simp add: symbols_def bytes_def)
  ultimately have "parsepipe n cs s = Inr (PipeCmd c1 c2, skip_ws cs (?s + 2 + length (show_cmd 1 d)))"
    using c1 c2 by (simp add: n)
  then show "\<exists>c'. parsepipe n cs s = Inr (c', skip_ws cs (s + length (show_cmd 1 (PipeCmd c d)))) \<and> strs cs c' = PipeCmd c d"
    using c1(2) c2(2) by (simp add: paren_def bytes_def algebra_simps eval_nat_numeral)
qed

lemma reads1_lift:
  assumes "reads0 c" "show_cmd 1 c = show_cmd 0 c"
  shows "reads1 c"
  unfolding reads1_def
proof (intro allI impI)
  fix cs s t and n :: nat
  assume a: "at cs s (show_cmd 1 c @ t)" "stops t (bytes '')&;'')" "4 * (length cs - s) + 3 \<le> n"
  obtain n' where n: "n = Suc n'" using a(3) by (cases n) auto
  have at: "at cs s (show_cmd 0 c @ show_redirs [] @ t)" using a(1) assms(2) by (simp add: show_redirs_def)
  have "stops t (bytes ''|)&;'')" using stops_mono [OF a(2)] by (simp add: bytes_def)
  then obtain c1 where c1: "parseexec n' cs s = Inr (c1, skip_ws cs (s + length (show_cmd 0 c)))" "strs cs c1 = c"
    using assms(1) [unfolded reads0_def, rule_format, OF at, of n'] a(3) n by (auto simp: show_redirs_def wrap_def)
  have "\<not> next_in t (bytes ''|'')" using stops_not_next [OF a(2)] by (simp add: bytes_def)
  then have "peek cs (s + length (show_cmd 0 c)) (bytes ''|'') = (False, skip_ws cs (s + length (show_cmd 0 c)))"
    using peek_at [OF at_append [OF at]] by (simp add: show_redirs_def)
  then show "\<exists>c'. parsepipe n cs s = Inr (c', skip_ws cs (s + length (show_cmd 1 c))) \<and> strs cs c' = c"
    using c1 assms(2) by (simp add: n)
qed

lemma reads2_lift:
  assumes "reads1 c" "show_cmd 2 c = show_cmd 1 c"
  shows "reads2 c"
  unfolding reads2_def
proof (intro allI impI)
  fix cs s t and n :: nat
  assume a: "at cs s (show_cmd 2 c @ t)" "stops t (bytes '')&;'')" "4 * (length cs - s) + 3 \<le> n"
  obtain c' where "parsepipe n cs s = Inr (c', skip_ws cs (s + length (show_cmd 1 c)))" "strs cs c' = c"
    using assms(1) [unfolded reads1_def, rule_format, of cs s t n] a assms(2) by auto
  then show "\<exists>c1 s1 c'. parsepipe n cs s = Inr (c1, s1) \<and>
      parse_back cs c1 s1 = parse_back cs c' (s + length (show_cmd 2 c)) \<and> strs cs c' = c"
    using assms(2) by auto
qed

lemma reads2_Back:
  assumes "reads2 c"
  shows "reads2 (BackCmd c)"
  unfolding reads2_def
proof (intro allI impI)
  fix cs s t and n :: nat
  assume a: "at cs s (show_cmd 2 (BackCmd c) @ t)" "stops t (bytes '')&;'')" "4 * (length cs - s) + 3 \<le> n"
  have at: "at cs s (show_cmd 2 c @ 38 # 32 # t)" using a(1) by (simp add: paren_def bytes_def)
  let ?s = "s + length (show_cmd 2 c)"
  have at1: "at cs ?s (38 # 32 # t)" using at_append [OF at] .
  have "stops (38 # 32 # t) (bytes '')&;'')" by (simp add: bytes_def whitespace_def)
  then obtain c1 s1 c' where c1: "parsepipe n cs s = Inr (c1, s1)" "parse_back cs c1 s1 = parse_back cs c' ?s" "strs cs c' = c"
    using assms [unfolded reads2_def, rule_format, OF at _ a(3)] by blast
  have "peek cs ?s (bytes ''&'') = (True, skip_ws cs ?s)" using peek_at [OF at1] by (simp add: bytes_def whitespace_def)
  moreover have "skip_token cs ?s = skip_ws cs (?s + 2)" using skip_token_at [OF at1] by (simp add: symbols_def bytes_def)
  ultimately have "parse_back cs c' ?s = parse_back cs (BackCmd c') (?s + 2)" by (simp add: parse_back.simps [of _ _ ?s])
  then show "\<exists>c1 s1 c'. parsepipe n cs s = Inr (c1, s1) \<and>
      parse_back cs c1 s1 = parse_back cs c' (s + length (show_cmd 2 (BackCmd c))) \<and> strs cs c' = BackCmd c"
    using c1 by (intro exI [of _ c1] exI [of _ s1] exI [of _ "BackCmd c'"]) (simp add: paren_def bytes_def add.assoc)
qed

lemma parse_back_stop:
  "at cs s t \<Longrightarrow> \<not> next_in t (bytes ''&'') \<Longrightarrow> parse_back cs c s = (c, skip_ws cs s)"
  using peek_at [of cs s t] by (simp add: parse_back.simps [of _ _ s])

lemma reads3_List:
  assumes "reads2 c" "reads3 d"
  shows "reads3 (ListCmd c d)"
  unfolding reads3_def
proof (intro allI impI)
  fix cs s t and n :: nat
  assume a: "at cs s (show_cmd 3 (ListCmd c d) @ t)" "stops t (bytes '')'')" "4 * (length cs - s) + 4 \<le> n"
  obtain n' where n: "n = Suc n'" using a(3) by (cases n) auto
  have at: "at cs s (show_cmd 2 c @ 59 # 32 # show_cmd 3 d @ t)" using a(1) by (simp add: paren_def bytes_def)
  let ?s = "s + length (show_cmd 2 c)"
  have at1: "at cs ?s (59 # 32 # show_cmd 3 d @ t)" using at_append [OF at] .
  have at2: "at cs (?s + 2) (show_cmd 3 d @ t)" using at_Cons [OF at_Cons [OF at1]] by simp
  have "stops (59 # 32 # show_cmd 3 d @ t) (bytes '')&;'')" by (simp add: bytes_def whitespace_def)
  then obtain c1 s1 c' where c1: "parsepipe n' cs s = Inr (c1, s1)" "parse_back cs c1 s1 = parse_back cs c' ?s" "strs cs c' = c"
    using assms(1) [unfolded reads2_def, rule_format, OF at, of n'] a(3) n by auto
  have b: "parse_back cs c' ?s = (c', skip_ws cs ?s)" using parse_back_stop [OF at1] by (simp add: bytes_def whitespace_def)
  have "4 * (length cs - (?s + 2)) + 4 \<le> n'"
    using fuel_left [of cs ?s "[59, 32]" "show_cmd 3 d @ t" n'] fuel_later [of "length cs" s 0 n' "length (show_cmd 2 c)"] at1 a(3) n by simp
  then obtain c2 where c2: "parseline n' cs (?s + 2) = Inr (c2, skip_ws cs (?s + 2 + length (show_cmd 3 d)))" "strs cs c2 = d"
    using assms(2) [unfolded reads3_def, rule_format, OF at2 a(2), of n'] by auto
  have "peek cs ?s (bytes '';'') = (True, skip_ws cs ?s)" using peek_at [OF at1] by (simp add: bytes_def whitespace_def)
  moreover have "skip_token cs ?s = skip_ws cs (?s + 2)" using skip_token_at [OF at1] by (simp add: symbols_def bytes_def)
  ultimately have "parseline n cs s = Inr (ListCmd c' c2, skip_ws cs (?s + 2 + length (show_cmd 3 d)))"
    using c1 b c2 by (simp add: n)
  then show "\<exists>c'. parseline n cs s = Inr (c', skip_ws cs (s + length (show_cmd 3 (ListCmd c d)))) \<and> strs cs c' = ListCmd c d"
    using c1(3) c2(2) by (simp add: paren_def bytes_def algebra_simps eval_nat_numeral)
qed

lemma reads3_lift:
  assumes "reads2 c" "show_cmd 3 c = show_cmd 2 c"
  shows "reads3 c"
  unfolding reads3_def
proof (intro allI impI)
  fix cs s t and n :: nat
  assume a: "at cs s (show_cmd 3 c @ t)" "stops t (bytes '')'')" "4 * (length cs - s) + 4 \<le> n"
  obtain n' where n: "n = Suc n'" using a(3) by (cases n) auto
  let ?s = "s + length (show_cmd 2 c)"
  have at: "at cs s (show_cmd 2 c @ t)" using a(1) assms(2) by simp
  have at1: "at cs ?s t" using at_append [OF at] .
  have "stops t (bytes '')&;'')" using stops_mono [OF a(2)] by (simp add: bytes_def)
  then obtain c1 s1 c' where c1: "parsepipe n' cs s = Inr (c1, s1)" "parse_back cs c1 s1 = parse_back cs c' ?s" "strs cs c' = c"
    using assms(1) [unfolded reads2_def, rule_format, OF at, of n'] a(3) n by auto
  have no: "\<not> next_in t (bytes ''&'')" "\<not> next_in t (bytes '';'')" using stops_not_next [OF a(2)] by (simp_all add: bytes_def)
  have "parseline n cs s = Inr (c', skip_ws cs ?s)"
    using c1 parse_back_stop [OF at1 no(1)] peek_at [OF at1] no(2) by (simp add: n)
  then show "\<exists>c'. parseline n cs s = Inr (c', skip_ws cs (s + length (show_cmd 3 c))) \<and> strs cs c' = c"
    using c1(3) assms(2) by simp
qed

lemma reads0_paren:
  assumes "reads3 c" "show_cmd 0 c = paren True (show_cmd 3 c)"
  shows "reads0 c"
  unfolding reads0_def
proof (intro allI impI)
  fix cs s rs t and n :: nat
  assume a: "at cs s (show_cmd 0 c @ show_redirs rs @ t)" "list_all redir_ok rs"
    "stops t (bytes ''|)&;'')" "4 * (length cs - s) + 2 \<le> n"
  obtain n' where n: "n = Suc (Suc n')" using a(4) by (cases n; cases "n - 1") auto
  have at: "at cs s (40 # 32 # show_cmd 3 c @ 41 # 32 # show_redirs rs @ t)" using a(1) assms(2) by (simp add: paren_def bytes_def)
  have at1: "at cs (s + 2) (show_cmd 3 c @ 41 # 32 # show_redirs rs @ t)" using at_Cons [OF at_Cons [OF at]] by simp
  let ?s = "s + 2 + length (show_cmd 3 c)"
  have at2: "at cs ?s (41 # 32 # show_redirs rs @ t)" using at_append [OF at1] .
  have at3: "at cs (?s + 2) (show_redirs rs @ t)" using at_Cons [OF at_Cons [OF at2]] by simp
  have p: "peek cs s (bytes ''('') = (True, skip_ws cs s)" using peek_at [OF at] by (simp add: bytes_def whitespace_def)
  have k: "skip_token cs s = skip_ws cs (s + 2)" using skip_token_at [OF at] by (simp add: symbols_def bytes_def)
  have "4 * (length cs - (s + 2)) + 4 \<le> n'"
    using fuel_left [of cs s "[40, 32]" "show_cmd 3 c @ 41 # 32 # show_redirs rs @ t" n'] at a(4) n by simp
  then obtain c1 where c1: "parseline n' cs (s + 2) = Inr (c1, skip_ws cs ?s)" "strs cs c1 = c"
    using assms(1) [unfolded reads3_def, rule_format, OF at1, of n'] by (auto simp: bytes_def whitespace_def)
  have p2: "peek cs ?s (bytes '')'') = (True, skip_ws cs ?s)" using peek_at [OF at2] by (simp add: bytes_def whitespace_def)
  have k2: "skip_token cs ?s = skip_ws cs (?s + 2)" using skip_token_at [OF at2] by (simp add: symbols_def bytes_def)
  have no: "\<not> next_in t (bytes ''<>'')" using stops_not_next [OF a(3)] by (simp add: bytes_def)
  obtain c2 where c2: "parseredirs cs c1 (?s + 2) = Inr (c2, skip_ws cs (?s + 2 + length (show_redirs rs)))" "strs cs c2 = wrap rs c"
    using parseredirs_text [OF at3 a(2) no, of c1] c1(2) by auto
  have "parseexec n cs s = Inr (c2, skip_ws cs (?s + 2 + length (show_redirs rs)))"
    using p k c1(1) p2 k2 c2(1) by (simp add: n)
  moreover have "length (show_cmd 0 c) = 2 + length (show_cmd 3 c) + 2" using assms(2) by (simp add: paren_def bytes_def)
  ultimately show "\<exists>c'. parseexec n cs s = Inr (c', skip_ws cs (s + length (show_cmd 0 c @ show_redirs rs))) \<and> strs cs c' = wrap rs c"
    using c2(2) by (simp add: add.assoc)
qed

lemma reads_all: "wf_cmd c \<Longrightarrow> reads0 c \<and> reads1 c \<and> reads2 c \<and> reads3 c"
proof (induction c)
  case (ExecCmd ws)
  then have "reads0 (ExecCmd ws)" by (rule reads0_Exec)
  then show ?case by (simp add: reads1_lift reads2_lift reads3_lift)
next
  case (RedirCmd c f m fd)
  then have "reads0 (RedirCmd c f m fd)" by (simp add: reads0_Redir)
  then show ?case by (simp add: reads1_lift reads2_lift reads3_lift)
next
  case (PipeCmd c d)
  then have "reads1 (PipeCmd c d)" by (simp add: reads1_Pipe)
  then show ?case by (simp add: reads0_paren reads2_lift reads3_lift paren_def)
next
  case (ListCmd c d)
  then have r3: "reads3 (ListCmd c d)" by (simp add: reads3_List)
  then have "reads0 (ListCmd c d)" by (rule reads0_paren) (simp add: paren_def)
  then show ?case using r3 by (simp add: reads1_lift reads2_lift paren_def)
next
  case (BackCmd c)
  then have r2: "reads2 (BackCmd c)" by (simp add: reads2_Back)
  then have r3: "reads3 (BackCmd c)" by (rule reads3_lift) (simp add: paren_def)
  then have "reads0 (BackCmd c)" by (rule reads0_paren) (simp add: paren_def)
  then show ?case using r2 r3 by (simp add: reads1_lift paren_def)
qed

lemma show_cmd_nonzero: "wf_cmd c \<Longrightarrow> 0 \<notin> set (show_cmd l c)"
  by (induction c arbitrary: l)
    (auto simp: show_words_def show_redir_def paren_def bytes_def plain_def list_all_iff split: if_splits)

lemma str_at_line: "0 \<notin> set cs \<Longrightarrow> str_at (cs @ 0 # r) 0 = cs"
  by (auto simp: str_at_def takeWhile_append)

lemma strings_of_strs:
  assumes "b = cs @ 0 # r" "0 \<notin> set cs" "\<forall>w\<in>set_cmd c. word_at cs w"
  shows "strings_of c (nulterminate c b) = strs cs c"
  unfolding strings_of_def strs_def
  by (rule cmd.map_cong0) (use nulterminated_word [OF assms] in auto)

section \<open>Properties\<close>

text \<open>C13: every command has a line that denotes it. Printed with the operators of the shell, with
  parentheses only where they are needed, and followed by any blanks such as the newline, a command with
  well-formed words is what \<^verbatim>\<open>parsecmd\<close> returns for the line: the same tree, and at its pointers the same strings.\<close>

theorem parse_show:
  assumes "wf_cmd c" "list_all blank t"
  shows "\<exists>cmd b. parsecmd (show_cmd 3 c @ t @ 0 # r) = Inr (cmd, b) \<and> strings_of cmd b = c"
proof -
  let ?cs = "show_cmd 3 c @ t" and ?b = "show_cmd 3 c @ t @ 0 # r"
  have "0 \<notin> set t" using assms(2) by (auto simp: list_all_iff whitespace_def)
  then have nz: "0 \<notin> set ?cs" using show_cmd_nonzero [OF assms(1)] by simp
  then have cs: "str_at ?b 0 = ?cs" using str_at_line [of ?cs r] by simp
  have at: "at ?cs 0 ?cs" using nz by (simp add: at_def)
  have bl: "dropWhile blank t = []" using assms(2) by (simp add: list_all_iff)
  then have "stops t (bytes '')'')" by (simp add: stops_def del: dropWhile_eq_Nil_conv)
  then obtain cmd where p: "parseline (4 * length ?cs + 4) ?cs 0 = Inr (cmd, skip_ws ?cs (length (show_cmd 3 c)))" "strs ?cs cmd = c"
    using reads_all [OF assms(1), THEN conjunct2, THEN conjunct2, THEN conjunct2, unfolded reads3_def, rule_format, OF at] by auto
  have e: "skip_ws ?cs (length (show_cmd 3 c)) = length ?cs"
    using assms(2) by (simp add: skip_while_eq list_all_iff takeWhile_eq_all_conv [THEN iffD2])
  then have "peek ?cs (length ?cs) [] = (False, length ?cs)" by (simp add: peek_def skip_while.simps [of _ _ "_ + _"])
  then have r: "parsecmd ?b = Inr (cmd, nulterminate cmd ?b)" using p(1) e by (simp add: parsecmd_def cs)
  have "parsed_ok ?cs 0 (parseline (4 * length ?cs + 4) ?cs 0)" by (rule parser_ok(1)) simp_all
  then have "\<forall>w\<in>set_cmd cmd. word_at ?cs w" using p(1) by (simp add: parsed_ok_def cmd_ok_def)
  then have "strings_of cmd (nulterminate cmd ?b) = c" using strings_of_strs [OF _ nz, of ?b r cmd] p(2) by simp
  then show ?thesis using r by blast
qed

text \<open>\<^verbatim>\<open>a b | c > d & ; e\<close> with a newline, in a buffer with other bytes behind it.\<close>

theorem parse_show_witness:
  defines "c \<equiv> ListCmd (BackCmd (PipeCmd (ExecCmd [[97], [98]]) (RedirCmd (ExecCmd [[99]]) [100] (O_WRONLY OR O_CREATE) 1))) (ExecCmd [[101]])"
  shows "\<exists>cmd b. parsecmd (show_cmd 3 c @ [10] @ 0 # [7]) = Inr (cmd, b) \<and> strings_of cmd b = c"
  unfolding c_def
  by (rule parse_show) (simp_all add: plain_def redir_mode_def MAXARGS_def whitespace_def symbols_def bytes_def)

end
