(* ===== verification/Sh_Run.thy ===== *)
theory Sh_Run
  imports Sh_Roundtrip
begin

text \<open>
  What a command does: the programs that \<^verbatim>\<open>runcmd\<close> starts in all the processes it forks, and the file
  descriptors each of them has.
\<close>

section \<open>Descriptors\<close>

text \<open>What a descriptor refers to. A process has a table of \<^verbatim>\<open>NOFILE\<close> entries; \<^verbatim>\<open>fdalloc\<close> takes the first
  free one.\<close>

datatype fobj = Inherited nat | OpenFile "u8 list" u32 | PipeRead nat | PipeWrite nat

type_synonym fdtab = "nat \<Rightarrow> fobj option"

definition fd_alloc :: "fdtab \<Rightarrow> nat option" where
  "fd_alloc t = List.find (\<lambda>fd. t fd = None) [0..<NOFILE]"

text \<open>The programs started by a process tree, with their arguments and descriptors: \<open>opn\<close> says which calls
  of \<^verbatim>\<open>open\<close> succeed, the other calls succeed while there are descriptors, a successful \<^verbatim>\<open>exec\<close> does not return,
  and a parent sees a positive process number. Pipes are numbered from \<open>k\<close> on.\<close>

type_synonym started = "(u8 list \<times> u8 list list \<times> fdtab) list"

primrec run :: "(u8 list \<Rightarrow> u32 \<Rightarrow> bool) \<Rightarrow> prog \<Rightarrow> fdtab \<Rightarrow> nat \<Rightarrow> started \<times> nat" where
  "run opn (Exit st) t k = ([], k)"
| "run opn (Call c cont) t k = (case c of
       SysFork \<Rightarrow> (case run opn (cont 0) t k of (xs, k) \<Rightarrow> case run opn (cont 1) t k of (ys, k) \<Rightarrow> (xs @ ys, k))
     | SysWait \<Rightarrow> run opn (cont 1) t k
     | SysExec path argv \<Rightarrow> ([(path, argv, t)], k)
     | SysOpen f m \<Rightarrow> (case fd_alloc t of
           Some fd \<Rightarrow> if opn f m then run opn (cont (int fd)) (t(fd \<mapsto> OpenFile f m)) k else run opn (cont (-1)) t k
         | None \<Rightarrow> run opn (cont (-1)) t k)
     | SysClose fd \<Rightarrow> run opn (cont 0) (t(nat fd := None)) k
     | SysDup fd \<Rightarrow> (case fd_alloc t of
           Some fd' \<Rightarrow> run opn (cont (int fd')) (t(fd' := t (nat fd))) k | None \<Rightarrow> run opn (cont (-1)) t k)
     | SysChdir d \<Rightarrow> run opn (cont 0) t k
     | SysWrite fd bs \<Rightarrow> run opn (cont (int (length bs))) t k)"
| "run opn (PipeCall cont) t k = (case fd_alloc t of
       Some p0 \<Rightarrow> (case fd_alloc (t(p0 \<mapsto> PipeRead k)) of
           Some p1 \<Rightarrow> run opn (cont 0 (int p0) (int p1)) (t(p0 \<mapsto> PipeRead k, p1 \<mapsto> PipeWrite k)) (Suc k)
         | None \<Rightarrow> run opn (cont (-1) 0 0) t k)
     | None \<Rightarrow> run opn (cont (-1) 0 0) t k)"

section \<open>What a command means\<close>

text \<open>A redirection replaces one descriptor, a pipe the output of the left and the input of the right side;
  every program starts with the descriptors of the shell otherwise, and with no other end of a pipe.\<close>

primrec starts :: "(u8 list \<Rightarrow> u32 \<Rightarrow> bool) \<Rightarrow> u8 list cmd \<Rightarrow> fdtab \<Rightarrow> nat \<Rightarrow> started \<times> nat" where
  "starts opn (ExecCmd argv) t k = (case argv of [] \<Rightarrow> ([], k) | a # _ \<Rightarrow> ([(a, argv, t)], k))"
| "starts opn (RedirCmd c f m fd) t k = (if opn f m then starts opn c (t(nat fd \<mapsto> OpenFile f m)) k else ([], k))"
| "starts opn (PipeCmd l r) t k =
     (case starts opn l (t(1 \<mapsto> PipeWrite k)) (Suc k) of (xs, k1) \<Rightarrow>
      case starts opn r (t(0 \<mapsto> PipeRead k)) k1 of (ys, k2) \<Rightarrow> (xs @ ys, k2))"
| "starts opn (ListCmd l r) t k =
     (case starts opn l t k of (xs, k1) \<Rightarrow> case starts opn r t k1 of (ys, k2) \<Rightarrow> (xs @ ys, k2))"
| "starts opn (BackCmd c) t k = starts opn c t k"

text \<open>Standard input and output are open, and two more descriptors can be had.\<close>

definition std_open :: "fdtab \<Rightarrow> bool" where
  "std_open t \<longleftrightarrow> t 0 \<noteq> None \<and> t 1 \<noteq> None \<and> (\<exists>p q. p < q \<and> q < NOFILE \<and> t p = None \<and> t q = None)"

lemma find_fd: "List.find P [0..<n] = Some i \<longleftrightarrow> i < n \<and> P i \<and> (\<forall>j<i. \<not> P j)"
  by (auto simp: find_Some_iff)

lemma fd_alloc_Some: "fd_alloc t = Some fd \<longleftrightarrow> fd < NOFILE \<and> t fd = None \<and> (\<forall>j<fd. t j \<noteq> None)"
  by (simp add: fd_alloc_def find_fd)

lemma std_openD: "std_open t \<Longrightarrow> t 0 \<noteq> None \<and> t 1 \<noteq> None"
  by (simp add: std_open_def)

text \<open>A standard descriptor that is closed is the next one to be allocated.\<close>

lemma fd_alloc_closed:
  assumes "t 0 \<noteq> None" "fd = 0 \<or> fd = 1"
  shows "fd_alloc (t(fd := None)) = Some fd"
  using assms(2)
proof
  assume "fd = 1"
  then show ?thesis using assms(1) by (simp add: fd_alloc_Some NOFILE_def)
qed (simp add: fd_alloc_Some NOFILE_def)

lemma std_open_upd:
  assumes "std_open t" "fd = 0 \<or> fd = 1"
  shows "std_open (t(fd \<mapsto> x))"
proof -
  obtain p q where p: "p < q" "q < NOFILE" "t p = None" "t q = None" using assms(1) by (auto simp: std_open_def)
  have o: "t 0 \<noteq> None" "t 1 \<noteq> None" using std_openD [OF assms(1)] by simp_all
  then have "p \<noteq> fd" "q \<noteq> fd" using p(3,4) assms(2) by metis+
  then have "(t(fd \<mapsto> x)) p = None" "(t(fd \<mapsto> x)) q = None" using p by simp_all
  moreover have "(t(fd \<mapsto> x)) 0 \<noteq> None" "(t(fd \<mapsto> x)) 1 \<noteq> None" using o by simp_all
  ultimately show ?thesis unfolding std_open_def using p(1,2) by blast
qed

lemma pipe_fds:
  assumes "std_open t"
  obtains p0 p1 where "fd_alloc t = Some p0" "\<And>x. fd_alloc (t(p0 \<mapsto> x)) = Some p1" "2 \<le> p0" "p0 < p1" "t p0 = None" "t p1 = None"
proof -
  have std: "t 0 \<noteq> None" "t 1 \<noteq> None" using assms by (simp_all add: std_open_def)
  obtain p q where p: "p < q" "q < NOFILE" "t p = None" "t q = None" using assms by (auto simp: std_open_def)
  define p0 where "p0 = (LEAST i. t i = None)"
  have l0: "t p0 = None" "\<forall>j<p0. t j \<noteq> None" "p0 \<le> p"
    unfolding p0_def using LeastI [of "\<lambda>i. t i = None", OF p(3)] Least_le [of "\<lambda>i. t i = None", OF p(3)]
    by (blast dest: not_less_Least)+
  define p1 where "p1 = (LEAST i. p0 < i \<and> t i = None)"
  have q: "p0 < q \<and> t q = None" using l0(3) p by simp
  have l1: "p0 < p1" "t p1 = None" "p1 \<le> q"
    unfolding p1_def using LeastI [of "\<lambda>i. p0 < i \<and> t i = None", OF q] Least_le [of "\<lambda>i. p0 < i \<and> t i = None", OF q] by simp_all
  have l2: "\<forall>j<p1. p0 < j \<longrightarrow> t j \<noteq> None"
  proof (intro allI impI notI)
    fix j assume "j < p1" "p0 < j" "t j = None"
    then show False using not_less_Least [of j "\<lambda>i. p0 < i \<and> t i = None"] by (simp add: p1_def)
  qed
  have "fd_alloc t = Some p0" using l0 p by (simp add: fd_alloc_Some)
  moreover have "fd_alloc (t(p0 \<mapsto> x)) = Some p1" for x
  proof -
    have "(t(p0 \<mapsto> x)) j \<noteq> None" if "j < p1" for j using that l0(2) l2 by (cases j p0 rule: linorder_cases) auto
    then show ?thesis using l1 p(2) by (simp add: fd_alloc_Some)
  qed
  moreover have "p0 \<noteq> 0" "p0 \<noteq> 1" using l0(1) std by metis+
  moreover from this have "2 \<le> p0" by simp
  ultimately show ?thesis using that [of p0 p1] l0(1) l1(1,2) by blast
qed

primrec std_redirs :: "'w cmd \<Rightarrow> bool" where
  "std_redirs (ExecCmd ws) \<longleftrightarrow> True"
| "std_redirs (RedirCmd c f m fd) \<longleftrightarrow> fd \<in> {0, 1} \<and> std_redirs c"
| "std_redirs (PipeCmd l r) \<longleftrightarrow> std_redirs l \<and> std_redirs r"
| "std_redirs (ListCmd l r) \<longleftrightarrow> std_redirs l \<and> std_redirs r"
| "std_redirs (BackCmd c) \<longleftrightarrow> std_redirs c"

lemma run_fork1: "run opn (fork1 cont) t k =
    (case run opn (cont 0) t k of (xs, k) \<Rightarrow> case run opn (cont 1) t k of (ys, k) \<Rightarrow> (xs @ ys, k))"
  by (simp add: fork1_def)

section \<open>Property\<close>

text \<open>C14: running a command starts the programs that it means, each with its descriptors. Input and output
  redirections reach exactly the program they are written for; the two sides of a pipe share a fresh
  pipe and neither keeps any other end of it open, so that the reader sees its end; the shell's own
  descriptors are what they were for the next command.\<close>

theorem runcmd_starts:
  assumes "std_open t" "std_redirs c"
  shows "run opn (runcmd c) t k = starts opn c t k"
  using assms
proof (induction c arbitrary: t k)
  case (ExecCmd argv)
  then show ?case by (cases argv) simp_all
next
  case (RedirCmd c f m fd)
  have fd: "nat fd = 0 \<or> nat fd = 1" "0 \<le> fd" using RedirCmd.prems(2) by auto
  have "run opn (runcmd c) (t(nat fd \<mapsto> OpenFile f m)) k = starts opn c (t(nat fd \<mapsto> OpenFile f m)) k"
    by (rule RedirCmd.IH [OF std_open_upd [OF RedirCmd.prems(1) fd(1)]]) (use RedirCmd.prems(2) in simp)
  then show ?case using fd_alloc_closed [of t, OF _ fd(1)] std_openD [OF RedirCmd.prems(1)] fd(2) by simp
next
  case (PipeCmd l r)
  obtain p0 p1 where p: "fd_alloc t = Some p0" "\<And>x. fd_alloc (t(p0 \<mapsto> x)) = Some p1" "2 \<le> p0" "p0 < p1" "t p0 = None" "t p1 = None"
    using pipe_fds [OF PipeCmd.prems(1)] by blast
  have o: "t 0 \<noteq> None" using std_openD [OF PipeCmd.prems(1)] by simp
  let ?t = "t(p0 \<mapsto> PipeRead k, p1 \<mapsto> PipeWrite k)"
  have a: "fd_alloc (?t(1 := None)) = Some 1" "fd_alloc (?t(0 := None)) = Some 0"
    by (rule fd_alloc_closed; use o in simp)+
  have u: "t(Suc 0 := (?t(Suc 0 := None)) p1, p0 := None, p1 := None) = t(Suc 0 \<mapsto> PipeWrite k)"
    "t(0 := (?t(0 := None)) p0, p0 := None, p1 := None) = t(0 \<mapsto> PipeRead k)"
    using p(3-6) by (simp_all add: fun_eq_iff)
  have "run opn (runcmd l) (t(1 \<mapsto> PipeWrite k)) k' = starts opn l (t(1 \<mapsto> PipeWrite k)) k'"
    "run opn (runcmd r) (t(0 \<mapsto> PipeRead k)) k' = starts opn r (t(0 \<mapsto> PipeRead k)) k'" for k'
    using PipeCmd.prems(2) PipeCmd.IH [OF std_open_upd [OF PipeCmd.prems(1)]] by (simp_all del: fun_upd_apply)
  then show ?case using p(1,2) a
    by (simp add: run_fork1 u del: fun_upd_apply split: prod.splits)
next
  case (ListCmd l r)
  then show ?case by (simp add: run_fork1 split: prod.splits)
next
  case (BackCmd c)
  then show ?case by (simp add: run_fork1 split: prod.splits)
qed

text \<open>\<^verbatim>\<open>a | b > c\<close> in a shell with the console at its three descriptors: both programs start, \<^verbatim>\<open>a\<close> writes into
  the pipe that \<^verbatim>\<open>b\<close> reads, and \<^verbatim>\<open>b\<close> writes into the file.\<close>

definition shell_fds :: fdtab where
  "shell_fds fd = (if fd < 3 then Some (Inherited fd) else None)"

lemma shell_fds_std: "std_open shell_fds"
proof -
  have "(3 :: nat) < 4" "4 < NOFILE" "shell_fds 3 = None" "shell_fds 4 = None" by (simp_all add: shell_fds_def NOFILE_def)
  moreover have "shell_fds 0 \<noteq> None" "shell_fds 1 \<noteq> None" by (simp_all add: shell_fds_def)
  ultimately show ?thesis unfolding std_open_def by blast
qed

theorem runcmd_starts_witness:
  "run (\<lambda>f m. True) (runcmd (PipeCmd (ExecCmd [[97]]) (RedirCmd (ExecCmd [[98]]) [99] (O_WRONLY OR O_CREATE) 1))) shell_fds 0 =
     ([([97], [[97]], shell_fds(1 \<mapsto> PipeWrite 0)),
       ([98], [[98]], shell_fds(0 \<mapsto> PipeRead 0, 1 \<mapsto> OpenFile [99] (O_WRONLY OR O_CREATE)))], 1)"
  by (subst runcmd_starts [OF shell_fds_std]) simp_all

end
