(* ===== verification/Umalloc.thy ===== *)
theory Umalloc
  imports Kernel_Base
begin

text \<open>
  The user-level allocator, \<^verbatim>\<open>umalloc.c\<close>. A \<^verbatim>\<open>Header\<close> is 8 bytes; its two fields are functions of its address, and a
  pointer to a header moves in steps of 8. The address of the static \<^verbatim>\<open>base\<close> is a parameter. \<^verbatim>\<open>sbrk\<close> is a system
  call: \<open>ok b n\<close> says whether the kernel moves the end of the heap from \<open>b\<close> by \<open>n\<close>. A search that does not end is \<open>None\<close>.
\<close>

record uheap =
  h_ptr :: "u32 \<Rightarrow> u32"
  h_size :: "u32 \<Rightarrow> u32"
  freep :: u32
  brk :: u32

partial_function (option) free_search :: "uheap \<Rightarrow> u32 \<Rightarrow> u32 \<Rightarrow> u32 option" where
  "free_search m bp p =
     (if bp > p \<and> bp < h_ptr m p then Some p
      else if p \<ge> h_ptr m p \<and> (bp > p \<or> bp < h_ptr m p) then Some p
      else free_search m bp (h_ptr m p))"

definition free :: "u32 \<Rightarrow> uheap \<Rightarrow> uheap option" where
  "free ap m =
     (let bp = ap - 8
      in case free_search m bp (freep m) of None \<Rightarrow> None
         | Some p \<Rightarrow>
             let m = (if bp + 8 * h_size m bp = h_ptr m p
                      then m\<lparr>h_size := (h_size m)(bp := h_size m bp + h_size m (h_ptr m p)),
                             h_ptr := (h_ptr m)(bp := h_ptr m (h_ptr m p))\<rparr>
                      else m\<lparr>h_ptr := (h_ptr m)(bp := h_ptr m p)\<rparr>);
                 m = (if p + 8 * h_size m p = bp
                      then m\<lparr>h_size := (h_size m)(p := h_size m p + h_size m bp),
                             h_ptr := (h_ptr m)(p := h_ptr m bp)\<rparr>
                      else m\<lparr>h_ptr := (h_ptr m)(p := bp)\<rparr>)
             in Some (m\<lparr>freep := p\<rparr>))"

definition sbrk :: "(u32 \<Rightarrow> u32 \<Rightarrow> bool) \<Rightarrow> u32 \<Rightarrow> uheap \<Rightarrow> u32 \<times> uheap" where
  "sbrk ok n m = (if ok (brk m) n then (brk m, m\<lparr>brk := brk m + n\<rparr>) else (-1, m))"

definition morecore :: "(u32 \<Rightarrow> u32 \<Rightarrow> bool) \<Rightarrow> u32 \<Rightarrow> uheap \<Rightarrow> (u32 \<times> uheap) option" where
  "morecore ok nu m =
     (let nu = (if nu < 4096 then 4096 else nu)
      in case sbrk ok (nu * 8) m of (p, m) \<Rightarrow>
           if p = -1 then Some (0, m)
           else map_option (\<lambda>m. (freep m, m)) (free (p + 8) (m\<lparr>h_size := (h_size m)(p := nu)\<rparr>)))"

partial_function (option) malloc_loop :: "(u32 \<Rightarrow> u32 \<Rightarrow> bool) \<Rightarrow> u32 \<Rightarrow> uheap \<Rightarrow> u32 \<Rightarrow> u32 \<Rightarrow> (u32 \<times> uheap) option" where
  "malloc_loop ok nunits m prevp p =
     (if h_size m p \<ge> nunits
      then if h_size m p = nunits
           then Some (p + 8, m\<lparr>h_ptr := (h_ptr m)(prevp := h_ptr m p), freep := prevp\<rparr>)
           else let m = m\<lparr>h_size := (h_size m)(p := h_size m p - nunits)\<rparr>;
                    p = p + 8 * h_size m p;
                    m = m\<lparr>h_size := (h_size m)(p := nunits)\<rparr>
                in Some (p + 8, m\<lparr>freep := prevp\<rparr>)
      else if p = freep m
           then Option.bind (morecore ok nunits m) (\<lambda>(p, m).
                  if p = 0 then Some (0, m) else malloc_loop ok nunits m p (h_ptr m p))
           else malloc_loop ok nunits m p (h_ptr m p))"

definition malloc :: "(u32 \<Rightarrow> u32 \<Rightarrow> bool) \<Rightarrow> u32 \<Rightarrow> u32 \<Rightarrow> uheap \<Rightarrow> (u32 \<times> uheap) option" where
  "malloc ok base nbytes m =
     (let nunits = (nbytes + 8 - 1) div 8 + 1;
          m = (if freep m = 0
               then m\<lparr>h_ptr := (h_ptr m)(base := base), freep := base, h_size := (h_size m)(base := 0)\<rparr>
               else m)
      in malloc_loop ok nunits m (freep m) (h_ptr m (freep m)))"

section \<open>The ring of free blocks\<close>

text \<open>The blocks of a list are linked in its order, the last one to \<open>z\<close>.\<close>

fun linked :: "uheap \<Rightarrow> u32 list \<Rightarrow> u32 \<Rightarrow> bool" where
  "linked m [] z \<longleftrightarrow> True"
| "linked m [a] z \<longleftrightarrow> h_ptr m a = z"
| "linked m (a # b # xs) z \<longleftrightarrow> h_ptr m a = b \<and> linked m (b # xs) z"

lemma linked_append: "linked m (us @ v # vs) z \<longleftrightarrow> linked m us v \<and> linked m (v # vs) z"
  by (induction us rule: induct_list012) auto

lemma linked_cong: "(\<And>a. a \<in> set xs \<Longrightarrow> h_ptr m' a = h_ptr m a) \<Longrightarrow> linked m' xs z = linked m xs z"
  by (induction xs rule: induct_list012) auto

text \<open>The end of a block, the bytes of a block, and the order of the blocks.\<close>

definition blk_end :: "uheap \<Rightarrow> u32 \<Rightarrow> nat" where
  "blk_end m a = unat a + 8 * unat (h_size m a)"

definition blk :: "uheap \<Rightarrow> u32 \<Rightarrow> nat set" where
  "blk m a = {unat a..<blk_end m a}"

definition before :: "uheap \<Rightarrow> u32 \<Rightarrow> u32 \<Rightarrow> bool" where
  "before m a b \<longleftrightarrow> a < b \<and> blk_end m a \<le> unat b"

text \<open>The invariant, with the free blocks in the order of their addresses after \<open>base\<close>, which is empty
  and below the heap; \<open>heap_core\<close> leaves out where the next search starts.\<close>

definition heap_core :: "u32 \<Rightarrow> uheap \<Rightarrow> u32 list \<Rightarrow> bool" where
  "heap_core base m ys \<longleftrightarrow> 0 < base \<and> unat base + 8 \<le> unat (brk m) \<and> linked m (base # ys) base \<and>
     sorted_wrt (before m) (base # ys) \<and> h_size m base = 0 \<and>
     (\<forall>a\<in>set ys. unat base + 8 \<le> unat a \<and> 0 < h_size m a \<and> blk_end m a \<le> unat (brk m))"

definition heap_ok :: "u32 \<Rightarrow> uheap \<Rightarrow> u32 list \<Rightarrow> bool" where
  "heap_ok base m ys \<longleftrightarrow> heap_core base m ys \<and> freep m \<in> set (base # ys)"

definition free_bytes :: "uheap \<Rightarrow> u32 list \<Rightarrow> nat set" where
  "free_bytes m ys = (\<Union>a\<in>set ys. blk m a)"

text \<open>A block that is not in the list and can be put there.\<close>

definition loose :: "u32 \<Rightarrow> uheap \<Rightarrow> u32 list \<Rightarrow> u32 \<Rightarrow> bool" where
  "loose base m ys a \<longleftrightarrow> unat base + 8 \<le> unat a \<and> 0 < h_size m a \<and> blk_end m a \<le> unat (brk m) \<and>
     blk m a \<inter> free_bytes m ys = {}"

lemma blk_nonempty: "0 < h_size m a \<Longrightarrow> unat a \<in> blk m a"
  by (simp add: blk_def blk_end_def word_less_nat_alt)

lemma before_trans: "before m a b \<Longrightarrow> before m b c \<Longrightarrow> before m a c"
  by (auto simp: before_def blk_end_def word_less_nat_alt)

lemma loose_order:
  assumes "loose base m ys a" "b \<in> set ys" "0 < h_size m b"
  shows "before m a b \<or> before m b a"
proof -
  have d: "blk m a \<inter> blk m b = {}" using assms(1,2) by (auto simp: loose_def free_bytes_def)
  have a: "0 < h_size m a" using assms(1) by (simp add: loose_def)
  have "unat a \<notin> blk m b" "unat b \<notin> blk m a" using d blk_nonempty [OF a] blk_nonempty [OF assms(3)] by auto
  then show ?thesis using a assms(3) by (auto simp: blk_def before_def blk_end_def word_less_nat_alt)
qed

lemma blk_end_word:
  assumes "blk_end m a \<le> unat (b :: u32)"
  shows "unat (a + 8 * h_size m a) = blk_end m a"
proof -
  have lt: "unat a + 8 * unat (h_size m a) < 2 ^ 32" using assms unat_u32_less [of b] by (simp add: blk_end_def)
  have "a + 8 * h_size m a = of_nat (unat a + 8 * unat (h_size m a))" by simp
  then show ?thesis using unat_of_nat32 [OF lt] by (simp add: blk_end_def)
qed

lemma blk_end_eq: "blk_end m a \<le> unat (c :: u32) \<Longrightarrow> a + 8 * h_size m a = b \<longleftrightarrow> blk_end m a = unat b"
  using blk_end_word [of m a c] by (metis word_unat_eq_iff)

lemma core_distinct: "heap_core base m ys \<Longrightarrow> distinct (base # ys)"
proof -
  assume "heap_core base m ys"
  then have "sorted_wrt (<) (base # ys)" unfolding heap_core_def by (auto elim: sorted_wrt_mono_rel [rotated] simp: before_def)
  then show ?thesis by (auto simp: strict_sorted_iff)
qed

text \<open>The list falls into the blocks below a loose one and those above.\<close>

lemma loose_split:
  assumes "heap_core base m ys" "loose base m ys a"
  obtains us vs where "ys = us @ vs" "\<forall>b\<in>set us. before m b a" "\<forall>b\<in>set vs. before m a b"
proof -
  let ?us = "takeWhile (\<lambda>b. b < a) ys" and ?vs = "dropWhile (\<lambda>b. b < a) ys"
  have sz: "\<forall>b\<in>set ys. 0 < h_size m b" using assms(1) by (simp add: heap_core_def)
  have u: "\<forall>b\<in>set ?us. before m b a"
  proof
    fix b assume "b \<in> set ?us"
    then have "b \<in> set ys" "b < a" by (auto dest: set_takeWhileD)
    then show "before m b a" using loose_order [OF assms(2), of b] sz by (auto simp: before_def)
  qed
  have s: "sorted_wrt (before m) ?vs"
    using assms(1) by (auto simp: heap_core_def dropWhile_eq_drop intro: sorted_wrt_drop)
  have "\<forall>b\<in>set ?vs. before m a b"
  proof (cases ?vs)
    case (Cons v vs)
    then have v: "v \<in> set ys" "\<not> v < a" by (metis list.set_intros(1) set_dropWhileD, metis dropWhile_eq_Cons_conv)
    then have "before m a v" using loose_order [OF assms(2), of v] sz by (auto simp: before_def)
    then show ?thesis using s unfolding Cons by (auto intro: before_trans)
  qed (simp only: list.set ball_simps)
  then show ?thesis using that [of ?us ?vs] u takeWhile_dropWhile_id [symmetric] by blast
qed

lemma linked_last: "linked m xs z \<Longrightarrow> xs \<noteq> [] \<Longrightarrow> h_ptr m (last xs) = z"
  by (induction xs rule: induct_list012) auto

lemma linked_snoc: "linked m (us @ [p]) z \<longleftrightarrow> linked m us p \<and> h_ptr m p = z"
  by (simp add: linked_append)

text \<open>Putting a loose block behind \<open>p\<close>, the last block below it.\<close>

lemma insert_core:
  assumes "heap_core base m (us @ vs)" "loose base m (us @ vs) a" "\<forall>b\<in>set us. before m b a" "\<forall>b\<in>set vs. before m a b"
  defines "p \<equiv> last (base # us)"
  shows "heap_core base (m\<lparr>h_ptr := (h_ptr m)(a := h_ptr m p, p := a)\<rparr>) (us @ a # vs)"
    and "h_ptr m p = hd (vs @ [base])"
proof -
  let ?m = "m\<lparr>h_ptr := (h_ptr m)(a := h_ptr m p, p := a)\<rparr>"
  have c: "linked m (base # us @ vs) base" "sorted_wrt (before m) (base # us @ vs)" "0 < base"
    using assms(1) by (simp_all add: heap_core_def)
  have l: "unat base + 8 \<le> unat a" "0 < h_size m a" "blk_end m a \<le> unat (brk m)" using assms(2) by (simp_all add: loose_def)
  have dist: "distinct (base # us @ vs)" using core_distinct [OF assms(1)] .
  have new: "a \<notin> set (base # us @ vs)" using assms(3,4) l(1) by (auto simp: before_def)
  obtain bs where bs: "base # us = bs @ [p]" using append_butlast_last_id [of "base # us"] by (metis p_def list.distinct(1))
  have e: "base # us @ ws = bs @ p # ws" for ws using arg_cong [OF bs, of "\<lambda>xs. xs @ ws"] by simp
  have k: "linked m bs p" "linked m (p # vs) base" using c(1) unfolding e by (simp_all add: linked_append)
  then show h: "h_ptr m p = hd (vs @ [base])" by (cases vs) simp_all
  have d: "p \<notin> set bs" "p \<notin> set vs" "p \<noteq> a" "a \<notin> set bs" "a \<notin> set vs" using dist new unfolding e by auto
  have "linked ?m bs p" using k(1) d by (subst linked_cong [of _ _ m]) auto
  moreover have "linked ?m vs base"
    using k(2) d by (subst linked_cong [of _ _ m]) (auto, cases vs, simp_all)
  ultimately have "linked ?m (bs @ p # a # vs) base" using h d(3)
    by (cases vs) (simp_all add: linked_append)
  then have "linked ?m (base # us @ a # vs) base" unfolding e .
  moreover have "sorted_wrt (before ?m) (base # us @ a # vs)"
  proof -
    have b: "before ?m = before m" by (simp add: fun_eq_iff before_def blk_end_def)
    have "before m base a" using l(1) assms(1) by (auto simp: before_def blk_end_def heap_core_def word_less_nat_alt)
    then show ?thesis unfolding b using c(2) assms(3,4) by (auto simp: sorted_wrt_append)
  qed
  ultimately show "heap_core base ?m (us @ a # vs)" using assms(1) l by (auto simp: heap_core_def blk_end_def)
qed

text \<open>Joining two blocks that touch.\<close>

definition join :: "u32 \<Rightarrow> u32 \<Rightarrow> uheap \<Rightarrow> uheap" where
  "join a b m = m\<lparr>h_size := (h_size m)(a := h_size m a + h_size m b), h_ptr := (h_ptr m)(a := h_ptr m b)\<rparr>"

lemma join_core:
  assumes "heap_core base m (us @ a # b # vs)" "blk_end m a = unat b"
  shows "heap_core base (join a b m) (us @ a # vs)"
    and "free_bytes (join a b m) (us @ a # vs) = free_bytes m (us @ a # b # vs)"
proof -
  let ?m = "join a b m"
  have c: "linked m (base # us @ a # b # vs) base" "sorted_wrt (before m) (base # us @ a # b # vs)"
    "blk_end m b \<le> unat (brk m)" "0 < h_size m a" using assms(1) by (simp_all add: heap_core_def)
  have dist: "distinct (base # us @ a # b # vs)" using core_distinct [OF assms(1)] .
  have "unat (h_size m a) + unat (h_size m b) < 2 ^ 32"
    using c(3) assms(2) unat_u32_less [of "brk m"] by (simp add: blk_end_def)
  then have sz: "unat (h_size m a + h_size m b) = unat (h_size m a) + unat (h_size m b)" by (simp add: unat_plus_if_size word_size)
  have ea: "blk_end ?m a = blk_end m b" using assms(2) sz by (simp add: join_def blk_end_def algebra_simps)
  have eo: "blk_end ?m x = blk_end m x" if "x \<noteq> a" for x using that by (simp add: join_def blk_end_def)
  have "0 < h_size ?m a" using sz c(4) by (simp add: join_def word_less_nat_alt)
  moreover have "linked ?m (base # us @ a # vs) base"
  proof -
    have "linked m ((base # us) @ a # b # vs) base" using c(1) by simp
    then have k: "linked m (base # us) a" "h_ptr m a = b" "linked m (b # vs) base" unfolding linked_append by simp_all
    have "linked ?m (base # us) a" using k(1) dist by (subst linked_cong [of _ _ m]) (auto simp: join_def)
    moreover have "linked ?m vs base" using k(3) dist
      by (subst linked_cong [of _ _ m]) (auto simp: join_def, cases vs, simp_all)
    then have "linked ?m (a # vs) base" using k(3) by (cases vs) (simp_all add: join_def)
    ultimately have "linked ?m ((base # us) @ a # vs) base" unfolding linked_append by simp
    then show ?thesis by simp
  qed
  moreover have "sorted_wrt (before ?m) (base # us @ a # vs)"
  proof -
    have "sorted_wrt (before m) (base # us @ a # vs)" using c(2) by (simp add: sorted_wrt_append)
    moreover have "before ?m x y" if "before m x y" "x \<in> set (base # us @ vs)" for x y
    proof -
      have "x \<noteq> a" using that(2) dist by auto
      then show ?thesis using that(1) eo by (simp add: before_def)
    qed
    moreover have "before ?m a y" if "y \<in> set vs" for y
      using that c(2) ea by (auto simp: before_def sorted_wrt_append)
    ultimately show ?thesis by (auto simp: sorted_wrt_append intro: sorted_wrt_mono_rel [of _ "before m"])
  qed
  moreover have "brk ?m = brk m" by (simp add: join_def)
  moreover have fr: "h_size ?m x = h_size m x" "blk_end ?m x = blk_end m x" if "x \<in> set (base # us @ vs)" for x
  proof -
    have "x \<noteq> a" using that dist by auto
    then show "h_size ?m x = h_size m x" "blk_end ?m x = blk_end m x" by (simp_all add: eo) (simp add: join_def)
  qed
  ultimately show "heap_core base ?m (us @ a # vs)" using assms(1) ea unfolding heap_core_def by simp
  have "blk ?m a = blk m a \<union> blk m b" using ea assms(2) by (auto simp: blk_def blk_end_def)
  then show "free_bytes ?m (us @ a # vs) = free_bytes m (us @ a # b # vs)" using fr(2) by (simp add: free_bytes_def blk_def Un_assoc)
qed

text \<open>The search of \<^verbatim>\<open>free\<close> ends at the last block below, wherever in the ring it starts.\<close>

lemma search_stop:
  assumes "heap_core base m (us @ vs)" "loose base m (us @ vs) a" "\<forall>b\<in>set us. before m b a" "\<forall>b\<in>set vs. before m a b"
  shows "free_search m a (last (base # us)) = Some (last (base # us))"
proof -
  let ?p = "last (base # us)"
  have h: "h_ptr m ?p = hd (vs @ [base])" by (rule insert_core(2) [OF assms])
  have pa: "?p < a" using assms(2,3) by (auto simp: before_def loose_def word_less_nat_alt)
  have "base < last us" if "us \<noteq> []" using assms(1) that by (simp add: heap_core_def before_def)
  then have "base \<le> ?p" by (auto intro: less_imp_le)
  then show ?thesis using h pa assms(4) by (subst free_search.simps) (cases vs, auto simp: before_def)
qed

lemma search_below:
  assumes "linked m (ws @ [p]) z" "sorted_wrt (<) (ws @ [p])" "p < a" "free_search m a p = Some p" "b \<in> set (ws @ [p])"
  shows "free_search m a b = Some p"
  using assms
proof (induction ws arbitrary: b)
  case (Cons w ws)
  show ?case
  proof (cases "b \<in> set (ws @ [p])")
    case True
    then show ?thesis using Cons by (cases ws) auto
  next
    case False
    then have b: "b = w" using Cons.prems(5) by simp
    let ?x = "hd (ws @ [p])"
    have x: "?x \<in> set (ws @ [p])" "h_ptr m w = ?x" using Cons.prems(1) by (cases ws; simp)+
    have "w < ?x" using Cons.prems(2) x(1) by auto
    moreover have "?x \<le> p" using Cons.prems(2) by (cases ws) auto
    moreover have "free_search m a ?x = Some p" using Cons x(1) by (cases ws) auto
    ultimately show ?thesis using Cons.prems(3) b x(2) by (subst free_search.simps) auto
  qed
qed simp

lemma search_above:
  assumes "linked m ws z" "sorted_wrt (<) ws" "\<forall>x\<in>set ws. z \<le> x \<and> a < x" "z < a" "b \<in> set ws"
  shows "free_search m a b = free_search m a z"
  using assms
proof (induction ws arbitrary: b)
  case (Cons w ws)
  show ?case
  proof (cases "b \<in> set ws")
    case True
    then show ?thesis using Cons by (cases ws) auto
  next
    case False
    then have b: "b = w" using Cons.prems(5) by simp
    show ?thesis
    proof (cases ws)
      case Nil
      then show ?thesis using Cons.prems b by (subst free_search.simps) auto
    next
      case (Cons x xs)
      then have "free_search m a x = free_search m a z" using Cons.IH Cons.prems by auto
      then show ?thesis using Cons Cons.prems b by (subst free_search.simps) auto
    qed
  qed
qed simp

lemma search_found:
  assumes "heap_core base m (us @ vs)" "loose base m (us @ vs) a" "\<forall>b\<in>set us. before m b a" "\<forall>b\<in>set vs. before m a b"
    and "b \<in> set (base # us @ vs)"
  shows "free_search m a b = Some (last (base # us))"
proof -
  let ?p = "last (base # us)"
  have c: "linked m (base # us @ vs) base" "sorted_wrt (before m) (base # us @ vs)" using assms(1) by (simp_all add: heap_core_def)
  have s: "sorted_wrt (<) (base # us @ vs)" using c(2) by (rule sorted_wrt_mono_rel [rotated]) (simp add: before_def)
  obtain bs where bs: "base # us = bs @ [?p]" using append_butlast_last_id [of "base # us"] by (metis list.distinct(1))
  have pa: "?p < a" "base < a" using assms(2,3) by (auto simp: before_def loose_def word_less_nat_alt)
  have e: "base # us @ vs = bs @ ?p # vs" using arg_cong [OF bs, of "\<lambda>xs. xs @ vs"] by simp
  have k: "linked m (bs @ [?p]) (hd (vs @ [base]))" "linked m vs base" "sorted_wrt (<) (bs @ [?p])" "sorted_wrt (<) vs"
  proof -
    show "linked m (bs @ [?p]) (hd (vs @ [base]))" "linked m vs base"
      using c(1) unfolding e by (cases vs; simp add: linked_append)+
    show "sorted_wrt (<) (bs @ [?p])" "sorted_wrt (<) vs" using s unfolding e by (simp_all add: sorted_wrt_append)
  qed
  note below = search_below [OF k(1,3) pa(1) search_stop [OF assms(1-4)]]
  show ?thesis
  proof (cases "b \<in> set vs")
    case True
    have "\<forall>x\<in>set vs. base \<le> x \<and> a < x" using assms(4) s by (auto simp: before_def intro: less_imp_le)
    then have "free_search m a b = free_search m a base" using search_above [OF k(2,4) _ pa(2) True] by simp
    then show ?thesis using below [of base] bs by (metis list.set_intros(1))
  next
    case False
    then have "b \<in> set (bs @ [?p])" using assms(5) unfolding bs [symmetric] by auto
    then show ?thesis by (rule below)
  qed
qed

lemma blk_end_upd [simp]:
  "blk_end (m\<lparr>h_ptr := f\<rparr>) x = blk_end m x" "blk_end (m\<lparr>freep := p\<rparr>) x = blk_end m x" "blk_end (m\<lparr>brk := b\<rparr>) x = blk_end m x"
  by (simp_all add: blk_end_def)

lemma free_bytes_upd [simp]:
  "free_bytes (m\<lparr>h_ptr := f\<rparr>) ys = free_bytes m ys" "free_bytes (m\<lparr>freep := p\<rparr>) ys = free_bytes m ys"
  by (simp_all add: free_bytes_def blk_def)

lemma core_freep [simp]: "heap_core base (m\<lparr>freep := p\<rparr>) ys = heap_core base m ys"
proof -
  have "linked (m\<lparr>freep := p\<rparr>) xs z = linked m xs z" for xs z by (rule linked_cong) simp
  moreover have "before (m\<lparr>freep := p\<rparr>) = before m" by (simp add: fun_eq_iff before_def)
  ultimately show ?thesis by (simp add: heap_core_def)
qed

text \<open>What \<^verbatim>\<open>free\<close> does: the block is linked in, and joined with its neighbours where they touch.\<close>

lemma free_spec:
  assumes "heap_ok base m ys" "loose base m ys a"
  shows "\<exists>m' ys'. free (a + 8) m = Some m' \<and> heap_ok base m' ys' \<and> free_bytes m' ys' = free_bytes m ys \<union> blk m a \<and>
     brk m' = brk m \<and> (\<exists>c\<in>set ys'. blk m a \<subseteq> blk m' c) \<and> (\<forall>x. unat x \<notin> free_bytes m ys \<union> blk m a \<longrightarrow> h_size m' x = h_size m x)"
proof -
  have core: "heap_core base m ys" "freep m \<in> set (base # ys)" using assms(1) by (simp_all add: heap_ok_def)
  obtain us vs where ys: "ys = us @ vs" and u: "\<forall>b\<in>set us. before m b a" and v: "\<forall>b\<in>set vs. before m a b"
    using loose_split [OF core(1) assms(2)] by blast
  define p where "p = last (base # us)"
  note c = core(1) [unfolded ys] and l = assms(2) [unfolded ys]
  have f: "free_search m a (freep m) = Some p" using search_found [OF c l u v] core(2) by (simp add: ys p_def)
  define m1 where "m1 = m\<lparr>h_ptr := (h_ptr m)(a := h_ptr m p, p := a)\<rparr>"
  have c1: "heap_core base m1 (us @ a # vs)" and n: "h_ptr m p = hd (vs @ [base])"
    using insert_core [OF c l u v] by (simp_all add: m1_def p_def)
  have fb: "free_bytes m1 (us @ a # vs) = free_bytes m ys \<union> blk m a" by (auto simp: m1_def ys free_bytes_def blk_def)
  have la: "unat base + 8 \<le> unat a" "0 < h_size m a" "blk_end m a \<le> unat (brk m)" using l by (simp_all add: loose_def)
  have pa: "p \<noteq> a" using la(1) u last_in_set [of us] by (auto simp: p_def before_def)
  define up where "up \<longleftrightarrow> a + 8 * h_size m a = h_ptr m p"
  define mA where "mA = (if up then m\<lparr>h_size := (h_size m)(a := h_size m a + h_size m (h_ptr m p)),
      h_ptr := (h_ptr m)(a := h_ptr m (h_ptr m p))\<rparr> else m\<lparr>h_ptr := (h_ptr m)(a := h_ptr m p)\<rparr>)"
  define m2 where "m2 = mA\<lparr>h_ptr := (h_ptr mA)(p := a)\<rparr>"
  have sA: "h_size mA x = h_size m x" if "x \<noteq> a" for x using that by (simp add: mA_def)
  obtain vs2 where c2: "heap_core base m2 (us @ a # vs2)" "free_bytes m2 (us @ a # vs2) = free_bytes m ys \<union> blk m a" "brk m2 = brk m"
    "blk m a \<subseteq> blk m2 a"
  proof (cases up)
    case True
    then have e: "blk_end m a = unat (hd (vs @ [base]))" using blk_end_eq [OF la(3)] n by (simp add: up_def)
    then have "vs \<noteq> []" using la(1) by (auto simp: blk_end_def)
    then obtain w ws where w: "vs = w # ws" by (cases vs) auto
    have wd: "w \<noteq> a" "w \<noteq> p" using core_distinct [OF c1] by (auto simp: w p_def)
    have m2: "m2 = join a w m1" using True wd pa n by (simp add: m2_def mA_def join_def m1_def w fun_upd_twist)
    have j: "heap_core base m2 (us @ a # ws)" "free_bytes m2 (us @ a # ws) = free_bytes m ys \<union> blk m a" "brk m2 = brk m"
      using join_core [OF c1 [unfolded w]] fb e w by (simp_all add: m2 m1_def) (simp add: join_def)
    have "unat (h_size m a) \<le> unat (h_size m2 a)"
    proof -
      have "unat (h_size m a) + unat (h_size m w) < 2 ^ 32"
        using c e unat_u32_less [of "brk m"] by (simp add: w heap_core_def blk_end_def)
      then show ?thesis using m2 by (simp add: join_def m1_def unat_plus_if_size word_size)
    qed
    then have "blk m a \<subseteq> blk m2 a" by (auto simp: blk_def blk_end_def)
    then show ?thesis using that j by blast
  next
    case False
    then have "m2 = m1" using pa by (simp add: m2_def mA_def m1_def)
    then show ?thesis using that [of vs] c1 fb by (simp add: m1_def blk_def)
  qed
  define low where "low \<longleftrightarrow> p + 8 * h_size mA p = a"
  define m3 where "m3 = (if low then mA\<lparr>h_size := (h_size mA)(p := h_size mA p + h_size mA a), h_ptr := (h_ptr mA)(p := h_ptr mA a)\<rparr>
      else m2)"
  have "free (a + 8) m = Some (m3\<lparr>freep := p\<rparr>)"
    by (simp add: free_def f Let_def up_def [symmetric] mA_def [symmetric] low_def [symmetric] m3_def m2_def)
  moreover have "\<exists>ys'. heap_core base m3 ys' \<and> p \<in> set (base # ys') \<and> free_bytes m3 ys' = free_bytes m ys \<union> blk m a \<and> brk m3 = brk m \<and>
      (\<exists>c\<in>set ys'. blk m a \<subseteq> blk m3 c) \<and> (\<forall>x. unat x \<notin> free_bytes m ys \<union> blk m a \<longrightarrow> h_size m3 x = h_size m x)"
  proof (cases low)
    case True
    have "us \<noteq> []" using True la(1) c2(1) by (auto simp: low_def p_def m2_def heap_core_def)
    then obtain us' where us: "us = us' @ [p]" by (metis append_butlast_last_id last.simps p_def)
    have sz: "h_size mA = h_size m2" by (simp add: m2_def)
    have "blk_end m2 p \<le> unat (brk m2)" using c2(1) by (simp add: heap_core_def us)
    then have "blk_end m2 p = unat a" using True blk_end_eq by (simp add: low_def sz)
    moreover have m3: "m3 = join p a m2" using True pa by (simp add: m3_def join_def m2_def)
    ultimately have j: "heap_core base m3 (us' @ p # vs2)" "free_bytes m3 (us' @ p # vs2) = free_bytes m ys \<union> blk m a"
      using join_core [of base m2 us' p a vs2] c2 us by simp_all
    have "blk m3 p = blk m2 p \<union> blk m2 a"
      using j(1) c2(1) \<open>blk_end m2 p = unat a\<close> unat_u32_less [of "brk m2"]
      by (auto simp: m3 join_def blk_def blk_end_def heap_core_def us unat_plus_if_size word_size)
    then have "blk m a \<subseteq> blk m3 p" using c2(4) by blast
    moreover have "h_size m3 x = h_size m x" if "unat x \<notin> free_bytes m ys \<union> blk m a" for x
    proof -
      have "p \<in> set ys" "0 < h_size m p" using c by (simp_all add: ys us heap_core_def)
      then have "x \<noteq> p" "x \<noteq> a" using that la(2) blk_nonempty by (auto simp: free_bytes_def)
      then show ?thesis using sA True by (simp add: m3_def)
    qed
    moreover have "brk m3 = brk m" using c2(3) by (simp add: m3 join_def)
    ultimately show ?thesis using j by (intro exI [of _ "us' @ p # vs2"]) auto
  next
    case False
    have "h_size m3 x = h_size m x" if "unat x \<notin> free_bytes m ys \<union> blk m a" for x
      using that sA [of x] la(2) blk_nonempty [of m a] False by (auto simp: m3_def m2_def)
    then show ?thesis using c2 False last_in_set [of us] by (intro exI [of _ "us @ a # vs2"]) (auto simp: m3_def p_def)
  qed
  ultimately show ?thesis by (auto simp: heap_ok_def blk_def)
qed

section \<open>\<^verbatim>\<open>malloc\<close>\<close>

lemma linked_map: "xs \<noteq> [] \<Longrightarrow> linked m xs z \<longleftrightarrow> map (h_ptr m) xs = tl xs @ [z]"
  by (induction xs rule: induct_list012) auto

lemma pred_unique:
  assumes "heap_core base m (us @ c # vs)" "q \<in> set (base # us @ c # vs)" "h_ptr m q = c"
  shows "q = last (base # us)"
proof -
  let ?xs = "base # us @ c # vs"
  have l: "linked m ?xs base" using assms(1) by (simp add: heap_core_def)
  then have "map (h_ptr m) ?xs = us @ c # vs @ [base]" using linked_map [of ?xs] by simp
  moreover have "distinct (us @ c # vs @ [base])" using core_distinct [OF assms(1)] by auto
  ultimately have i: "inj_on (h_ptr m) (set ?xs)" by (metis distinct_map)
  have "linked m ((base # us) @ c # vs) base" using l by simp
  then have "linked m (base # us) c" unfolding linked_append by simp
  then have "h_ptr m (last (base # us)) = c" by (rule linked_last) simp
  moreover have "last (base # us) \<in> set ?xs" using last_in_set [of "base # us"] by auto
  ultimately show ?thesis using inj_onD [OF i, of q] assms(2,3) by simp
qed

lemma core_blocks_disjoint:
  assumes "heap_core base m (us @ c # vs)"
  shows "blk m c \<inter> free_bytes m (us @ vs) = {}"
proof -
  have "\<forall>x\<in>set us. before m x c" "\<forall>x\<in>set vs. before m c x" using assms by (simp_all add: heap_core_def sorted_wrt_append)
  then show ?thesis by (auto simp: free_bytes_def blk_def before_def word_less_nat_alt blk_end_def)
qed

lemma remove_core:
  assumes "heap_core base m (us @ c # vs)" "q = last (base # us)"
  shows "heap_core base (m\<lparr>h_ptr := (h_ptr m)(q := h_ptr m c)\<rparr>) (us @ vs)"
proof -
  let ?m = "m\<lparr>h_ptr := (h_ptr m)(q := h_ptr m c)\<rparr>"
  have c: "linked m (base # us @ c # vs) base" "sorted_wrt (before m) (base # us @ c # vs)" using assms(1) by (simp_all add: heap_core_def)
  have dist: "distinct (base # us @ c # vs)" using core_distinct [OF assms(1)] .
  obtain bs where bs: "base # us = bs @ [q]" using append_butlast_last_id [of "base # us"] by (metis assms(2) list.distinct(1))
  have e: "base # us @ ws = bs @ q # ws" for ws using arg_cong [OF bs, of "\<lambda>xs. xs @ ws"] by simp
  have k: "linked m bs q" "linked m (c # vs) base" using c(1) unfolding e by (simp_all add: linked_append)
  have d: "q \<notin> set bs" "q \<notin> set vs" "q \<noteq> c" using dist unfolding e by auto
  have "linked ?m bs q" using k(1) d by (subst linked_cong [of _ _ m]) auto
  moreover have "linked ?m vs base" using k(2) d by (subst linked_cong [of _ _ m]) (auto, cases vs, simp_all)
  then have "linked ?m (q # vs) base" using k(2) by (cases vs) simp_all
  ultimately have "linked ?m (base # us @ vs) base" unfolding e by (simp add: linked_append)
  moreover have "before ?m = before m" by (simp add: fun_eq_iff before_def)
  ultimately show ?thesis using assms(1) c(2) by (simp add: heap_core_def sorted_wrt_append)
qed

text \<open>Cutting \<open>n\<close> units off the end of a larger block.\<close>

definition cut :: "u32 \<Rightarrow> u32 \<Rightarrow> uheap \<Rightarrow> u32 \<times> uheap" where
  "cut n c m = (let m = m\<lparr>h_size := (h_size m)(c := h_size m c - n)\<rparr>; p = c + 8 * h_size m c
     in (p, m\<lparr>h_size := (h_size m)(p := n)\<rparr>))"

lemma cut_core:
  assumes "heap_core base m ys" "c \<in> set ys" "0 < n" "n < h_size m c" "cut n c m = (p, m')"
  shows "heap_core base m' ys" "loose base m' ys p" "h_size m' p = n" "free_bytes m ys = free_bytes m' ys \<union> blk m' p"
    "unat p \<in> blk m c" "\<forall>x. x \<noteq> c \<and> x \<noteq> p \<longrightarrow> h_size m' x = h_size m x" "freep m' = freep m" "brk m' = brk m"
proof -
  have c: "unat base + 8 \<le> unat c" "blk_end m c \<le> unat (brk m)" "\<And>x. x \<in> set ys \<Longrightarrow> 0 < h_size m x"
    using assms(1,2) by (simp_all add: heap_core_def)
  let ?k = "h_size m c - n"
  have k: "unat ?k = unat (h_size m c) - unat n" using assms(4) by (simp add: unat_sub word_less_nat_alt less_imp_le)
  have n: "0 < unat n" "unat n < unat (h_size m c)" using assms(3,4) by (simp_all add: word_less_nat_alt)
  have p: "p = c + 8 * ?k" and m': "m' = m\<lparr>h_size := (h_size m)(c := ?k, p := n)\<rparr>" using assms(5) by (auto simp: cut_def Let_def)
  have "blk_end (m\<lparr>h_size := (h_size m)(c := ?k)\<rparr>) c \<le> unat (brk m)" using c(2) k by (simp add: blk_end_def)
  from blk_end_word [OF this] have up: "unat p = unat c + 8 * (unat (h_size m c) - unat n)" using k by (simp add: p blk_end_def)
  have pc: "unat c < unat p" "unat p + 8 * unat n = blk_end m c" using n up by (simp_all add: blk_end_def)
  then have ne: "p \<noteq> c" "p \<noteq> base" "unat p \<in> blk m c" using c(1) n by (auto simp: blk_def)
  obtain us vs where ys: "ys = us @ c # vs" using split_list [OF assms(2)] by blast
  have pn: "p \<notin> set (us @ vs)"
  proof
    assume "p \<in> set (us @ vs)"
    moreover from this have "unat p \<in> blk m p" by (intro blk_nonempty c(3)) (auto simp: ys)
    ultimately have "unat p \<in> free_bytes m (us @ vs)" by (auto simp: free_bytes_def)
    then show False using core_blocks_disjoint [OF assms(1) [unfolded ys]] ne(3) by blast
  qed
  have dist: "distinct (base # ys)" by (rule core_distinct [OF assms(1)])
  have s: "h_size m' p = n" "h_size m' c = ?k" "\<forall>x. x \<noteq> c \<and> x \<noteq> p \<longrightarrow> h_size m' x = h_size m x" using ne by (simp_all add: m')
  then have e: "blk_end m' p = blk_end m c" "blk_end m' c = unat p" "\<forall>x. x \<noteq> c \<and> x \<noteq> p \<longrightarrow> blk_end m' x = blk_end m x"
    using up k pc(2) by (simp_all add: blk_end_def)
  show "unat p \<in> blk m c" "h_size m' p = n" by (rule ne(3), rule s(1))
  show "heap_core base m' ys"
  proof -
    have "linked m' (base # ys) base" using assms(1) by (subst linked_cong [of _ _ m]) (simp_all add: m' heap_core_def)
    moreover have "before m' x y" if "before m x y" "x \<in> set (base # ys)" for x y
    proof (cases "x = c")
      case True
      then show ?thesis using that(1) e(2) pc by (simp add: before_def)
    next
      case False
      then have "blk_end m' x = blk_end m x" using that(2) pn ne(1,2) e(3) by (auto simp: ys)
      then show ?thesis using that(1) by (simp add: before_def)
    qed
    then have "sorted_wrt (before m') (base # ys)" using assms(1) unfolding heap_core_def
      by (blast intro: sorted_wrt_mono_rel [of "base # ys" "before m"])
    moreover have "0 < h_size m' x \<and> blk_end m' x \<le> unat (brk m)" if "x \<in> set ys" for x
    proof (cases "x = c")
      case True
      then show ?thesis using s(2) k n e(2) pc c(2) by (simp add: word_less_nat_alt)
    next
      case False
      then have "x \<noteq> p" using that pn by (auto simp: ys)
      then show ?thesis using False that assms(1) s(3) e(3) by (simp add: heap_core_def)
    qed
    moreover have "h_size m' base = 0" "brk m' = brk m" using assms(1) ne(2) dist assms(2) by (auto simp: m' heap_core_def)
    ultimately show ?thesis using assms(1) unfolding heap_core_def by simp
  qed
  have b: "blk m' c \<union> blk m' p = blk m c" "blk m' c \<inter> blk m' p = {}" using e(1,2) pc by (auto simp: blk_def)
  have o: "free_bytes m' (us @ vs) = free_bytes m (us @ vs)"
  proof -
    have "blk m' x = blk m x" if "x \<in> set (us @ vs)" for x
      using that pn dist e(3) by (auto simp: blk_def ys)
    then show ?thesis by (simp add: free_bytes_def)
  qed
  have f: "free_bytes m'' ys = free_bytes m'' (us @ vs) \<union> blk m'' c" for m'' by (auto simp: free_bytes_def ys)
  show "free_bytes m ys = free_bytes m' ys \<union> blk m' p" unfolding f o using b(1) by blast
  have "blk m' p \<inter> free_bytes m' ys = {}"
    unfolding f o using b core_blocks_disjoint [OF assms(1) [unfolded ys]] by blast
  then show "loose base m' ys p" using c e(1) pc s(1) assms(3) by (simp add: loose_def m')
qed (use assms(5) in \<open>auto simp: cut_def Let_def\<close>)

text \<open>The block that \<^verbatim>\<open>malloc\<close> takes when it finds one.\<close>

definition allocated :: "u32 \<Rightarrow> u32 \<Rightarrow> uheap \<Rightarrow> u32 list \<Rightarrow> u32 \<Rightarrow> uheap \<Rightarrow> u32 list \<Rightarrow> bool" where
  "allocated base n m ys r m' ys' \<longleftrightarrow> heap_ok base m' ys' \<and> loose base m' ys' r \<and> h_size m' r = n \<and>
     free_bytes m ys = free_bytes m' ys' \<union> blk m' r \<and> brk m' = brk m \<and>
     (\<forall>x. unat x \<notin> free_bytes m ys \<longrightarrow> h_size m' x = h_size m x)"

lemma malloc_take:
  assumes "heap_ok base m ys" "c \<in> set ys" "q \<in> set (base # ys)" "h_ptr m q = c" "0 < n" "n \<le> h_size m c"
  shows "\<exists>r m' ys'. malloc_loop ok n m q c = Some (r + 8, m') \<and> allocated base n m ys r m' ys'"
proof (cases "h_size m c = n")
  case True
  have core: "heap_core base m ys" using assms(1) by (simp add: heap_ok_def)
  obtain us vs where ys: "ys = us @ c # vs" using split_list [OF assms(2)] by blast
  have q: "q = last (base # us)" using pred_unique core assms(3,4) by (simp add: ys)
  then have qs: "q \<in> set (base # us @ vs)" using last_in_set [of "base # us"] by auto
  let ?m = "m\<lparr>h_ptr := (h_ptr m)(q := h_ptr m c), freep := q\<rparr>"
  have b: "blk ?m x = blk m x" for x by (simp add: blk_def)
  have f: "free_bytes m ys = free_bytes ?m (us @ vs) \<union> blk ?m c" unfolding b by (auto simp: free_bytes_def ys b)
  have d: "blk ?m c \<inter> free_bytes ?m (us @ vs) = {}"
    using core_blocks_disjoint [of base m us c vs] core by (simp add: ys b)
  have "heap_ok base ?m (us @ vs)" using remove_core [of base m us c vs q] core q qs by (simp add: ys heap_ok_def)
  moreover have "loose base ?m (us @ vs) c" using core d assms(2) by (simp add: loose_def heap_core_def)
  ultimately have "allocated base n m ys c ?m (us @ vs)" using f True by (simp add: allocated_def)
  moreover have "malloc_loop ok n m q c = Some (c + 8, ?m)" using True by (subst malloc_loop.simps) simp
  ultimately show ?thesis by blast
next
  case False
  then have lt: "n < h_size m c" using assms(6) by simp
  have core: "heap_core base m ys" using assms(1) by (simp add: heap_ok_def)
  obtain p m' where p: "cut n c m = (p, m')" by fastforce
  note k = cut_core [OF core assms(2,5) lt p]
  have "unat c \<in> blk m c" using core assms(2) by (intro blk_nonempty) (simp add: heap_core_def)
  then have "unat c \<in> free_bytes m ys" "unat p \<in> free_bytes m ys" using k(5) assms(2) by (auto simp: free_bytes_def)
  then have "\<forall>x. unat x \<notin> free_bytes m ys \<longrightarrow> h_size m' x = h_size m x" using k(6) by metis
  then have "allocated base n m ys p (m'\<lparr>freep := q\<rparr>) ys"
    using k assms(3) by (simp add: allocated_def heap_ok_def loose_def blk_def)
  moreover have "malloc_loop ok n m q c = Some (p + 8, m'\<lparr>freep := q\<rparr>)"
    using p lt False by (subst malloc_loop.simps) (auto simp: cut_def Let_def)
  ultimately show ?thesis by blast
qed

text \<open>The walk over blocks that are too small.\<close>

lemma malloc_walk:
  assumes "linked m (q # zs) c" "\<forall>a\<in>set zs. h_size m a < n \<and> a \<noteq> freep m"
  shows "malloc_loop ok n m q (h_ptr m q) = malloc_loop ok n m (last (q # zs)) c"
  using assms
proof (induction zs arbitrary: q)
  case (Cons z zs)
  then have "malloc_loop ok n m q (h_ptr m q) = malloc_loop ok n m z (h_ptr m z)"
    by (subst malloc_loop.simps) auto
  then show ?case using Cons by simp
qed simp

lemma linked_rotate:
  assumes "linked m (xs @ f # ys) (hd (xs @ f # ys))"
  shows "linked m (f # ys @ xs) f"
proof (cases xs)
  case (Cons x xs')
  then have "linked m ((f # ys) @ x # xs') f" using assms by (simp only: linked_append) (simp add: linked_append [of m "x # xs'" f ys x, simplified])
  then show ?thesis using Cons by simp
qed (use assms in simp)

lemma ring_from_freep:
  assumes "heap_ok base m ys"
  obtains zs where "linked m (freep m # zs) (freep m)" "set (freep m # zs) = set (base # ys)" "freep m \<notin> set zs"
proof -
  have c: "linked m (base # ys) base" "freep m \<in> set (base # ys)" using assms by (simp_all add: heap_ok_def heap_core_def)
  have dist: "distinct (base # ys)" using assms core_distinct [of base m ys] by (simp add: heap_ok_def)
  obtain xs zs where s: "base # ys = xs @ freep m # zs" using split_list [OF c(2)] by blast
  then have "hd (xs @ freep m # zs) = base" by (metis list.sel(1))
  then have "linked m (freep m # zs @ xs) (freep m)" using linked_rotate [of m xs "freep m" zs] c(1) s by simp
  moreover have "set (freep m # zs @ xs) = set (base # ys)" unfolding s by auto
  moreover have "freep m \<notin> set (zs @ xs)" using dist unfolding s by auto
  ultimately show ?thesis by (rule that)
qed

lemma malloc_found:
  assumes "heap_ok base m ys" "c \<in> set ys" "0 < n" "n \<le> h_size m c"
  shows "\<exists>r m' ys'. malloc_loop ok n m (freep m) (h_ptr m (freep m)) = Some (r + 8, m') \<and> allocated base n m ys r m' ys'"
proof -
  obtain zs where z: "linked m (freep m # zs) (freep m)" "set (freep m # zs) = set (base # ys)" "freep m \<notin> set zs"
    using ring_from_freep [OF assms(1)] .
  have b0: "h_size m base = 0" using assms(1) by (simp add: heap_ok_def heap_core_def)
  let ?small = "\<lambda>a. h_size m a < n"
  define xs where "xs = takeWhile ?small zs"
  obtain d where d: "linked m (freep m # xs) d" "d \<in> set (base # ys)" "n \<le> h_size m d"
  proof (cases "dropWhile ?small zs")
    case Nil
    then have "xs = zs" by (metis xs_def append_Nil2 takeWhile_dropWhile_id)
    moreover have "\<forall>a\<in>set zs. ?small a" using Nil by (simp only: dropWhile_eq_Nil_conv)
    then have "c = freep m" using assms(2,4) z(2) by (metis leD list.set_intros(2) set_ConsD)
    ultimately show ?thesis using that z(1) assms(2,4) by simp
  next
    case (Cons d ds)
    then have e: "zs = xs @ d # ds" by (metis xs_def takeWhile_dropWhile_id)
    have "linked m ((freep m # xs) @ d # ds) (freep m)" using z(1) by (simp add: e)
    then have "linked m (freep m # xs) d" unfolding linked_append by simp
    moreover have "n \<le> h_size m d" using Cons by (metis dropWhile_eq_Cons_conv not_less)
    ultimately show ?thesis using that z(2) by (auto simp: e)
  qed
  have ys: "d \<in> set ys" using d(2,3) b0 assms(3) by auto
  let ?q = "last (freep m # xs)"
  have xz: "set xs \<subseteq> set zs" "\<forall>a\<in>set xs. ?small a" by (auto simp: xs_def dest: set_takeWhileD)
  then have "\<forall>a\<in>set xs. h_size m a < n \<and> a \<noteq> freep m" using z(3) by auto
  note w = malloc_walk [OF d(1) this]
  have "h_ptr m ?q = d" using linked_last [OF d(1)] by simp
  moreover have "set (freep m # xs) \<subseteq> set (base # ys)" using xz(1) unfolding z(2) [symmetric] by auto
  then have "?q \<in> set (base # ys)" using last_in_set [of "freep m # xs"] by blast
  ultimately show ?thesis using malloc_take [OF assms(1) ys _ _ assms(3) d(3)] w by metis
qed

lemma malloc_none:
  assumes "heap_ok base m ys" "\<forall>a\<in>set ys. h_size m a < n" "0 < n"
  shows "malloc_loop ok n m (freep m) (h_ptr m (freep m)) = Option.bind (morecore ok n m) (\<lambda>(p, m).
     if p = 0 then Some (0, m) else malloc_loop ok n m p (h_ptr m p))"
proof -
  obtain zs where z: "linked m (freep m # zs) (freep m)" "set (freep m # zs) = set (base # ys)" "freep m \<notin> set zs"
    using ring_from_freep [OF assms(1)] .
  have "h_size m base = 0" using assms(1) by (simp add: heap_ok_def heap_core_def)
  then have small: "h_size m a < n" if "a \<in> set (freep m # zs)" for a using that assms(2,3) unfolding z(2) by auto
  then have "\<forall>a\<in>set zs. h_size m a < n \<and> a \<noteq> freep m" using z(3) by auto
  from malloc_walk [OF z(1) this] show ?thesis
    using small [of "freep m"] by (subst (asm) (2) malloc_loop.simps) (simp add: not_le [symmetric])
qed

lemma heap_freep: "heap_ok base m ys \<Longrightarrow> freep m \<noteq> 0"
  by (auto simp: heap_ok_def heap_core_def word_less_nat_alt)

text \<open>What the kernel promises: the end of the heap stays an address.\<close>

definition sbrk_contract :: "(u32 \<Rightarrow> u32 \<Rightarrow> bool) \<Rightarrow> bool" where
  "sbrk_contract ok \<longleftrightarrow> (\<forall>b k. ok b k \<longrightarrow> unat b + unat k < 2 ^ 32)"

lemma core_cong:
  assumes "heap_core base m ys" "unat (brk m) \<le> unat (brk m')"
    and "\<forall>x\<in>set (base # ys). h_ptr m' x = h_ptr m x \<and> h_size m' x = h_size m x"
  shows "heap_core base m' ys"
proof -
  have "linked m' (base # ys) base" using assms(1,3) by (subst linked_cong [of _ _ m]) (auto simp: heap_core_def)
  moreover have e: "blk_end m' x = blk_end m x" if "x \<in> set (base # ys)" for x using assms(3) that by (auto simp: blk_end_def)
  then have "sorted_wrt (before m') (base # ys)" using assms(1) unfolding heap_core_def
    by (auto simp: before_def intro: sorted_wrt_mono_rel [of ys "before m"])
  moreover have "unat base + 8 \<le> unat (brk m')" using assms(1,2) by (simp add: heap_core_def)
  moreover have "unat base + 8 \<le> unat a \<and> 0 < h_size m' a \<and> blk_end m' a \<le> unat (brk m')" if "a \<in> set ys" for a
    using assms that e [of a] by (simp add: heap_core_def) (metis order_trans)
  ultimately show ?thesis using assms(1,3) by (simp add: heap_core_def)
qed

lemma morecore_spec:
  assumes "heap_ok base m ys" "sbrk_contract ok" "unat n < 2 ^ 28"
  shows "morecore ok n m = Some (0, m) \<or>
    (\<exists>m' ys' c. morecore ok n m = Some (freep m', m') \<and> heap_ok base m' ys' \<and> c \<in> set ys' \<and> n \<le> h_size m' c \<and>
       unat (brk m) \<le> unat (brk m') \<and> free_bytes m' ys' = free_bytes m ys \<union> {unat (brk m)..<unat (brk m')} \<and>
       (\<forall>x. unat x \<notin> free_bytes m ys \<and> unat x < unat (brk m) \<longrightarrow> h_size m' x = h_size m x))"
proof (cases "ok (brk m) ((if n < 4096 then 4096 else n) * 8)")
  case True
  define nu :: u32 where "nu = (if n < 4096 then 4096 else n)"
  let ?b = "brk m"
  have "unat nu < 2 ^ 28" using assms(3) by (simp add: nu_def)
  then have u8: "unat (nu * 8) = 8 * unat nu" by (simp add: unat_word_ariths)
  have nu: "n \<le> nu" "0 < nu" "32768 \<le> unat (nu * 8)" unfolding u8 by (auto simp: nu_def not_less word_le_nat_alt word_less_nat_alt)
  have lt: "unat ?b + unat (nu * 8) < 2 ^ 32" using True assms(2) by (simp add: sbrk_contract_def nu_def)
  then have b': "unat (?b + nu * 8) = unat ?b + 8 * unat nu" using u8 by (simp add: unat_plus_if_size word_size)
  have nb: "?b \<noteq> -1" using lt nu(3) by (auto simp: unsigned_minus_1_eq_mask mask_eq_exp_minus_1)
  define m0 where "m0 = m\<lparr>brk := ?b + nu * 8, h_size := (h_size m)(?b := nu)\<rparr>"
  have core: "heap_core base m ys" using assms(1) by (simp add: heap_ok_def)
  have ob: "x \<noteq> ?b" if "x \<in> set (base # ys)" for x
    using that core by (auto simp: heap_core_def blk_end_def word_less_nat_alt)
  have e: "blk_end m0 x = blk_end m x" "h_size m0 x = h_size m x" if "x \<in> set (base # ys)" for x
    using ob [OF that] by (simp_all add: m0_def blk_end_def)
  have "heap_core base m0 ys" by (rule core_cong [OF core]) (use b' e(2) ob in \<open>auto simp: m0_def\<close>)
  then have ok0: "heap_ok base m0 ys" using assms(1) by (simp add: heap_ok_def m0_def)
  have f0: "free_bytes m0 ys = free_bytes m ys" using e(1) by (simp add: free_bytes_def blk_def)
  have k: "blk m0 ?b = {unat ?b..<unat (brk m0)}" using b' by (simp add: blk_def blk_end_def m0_def)
  have "free_bytes m ys \<subseteq> {..<unat ?b}" using core by (auto simp: free_bytes_def blk_def heap_core_def)
  then have "loose base m0 ys ?b" using core k nu(2) b' f0 by (auto simp: loose_def heap_core_def m0_def blk_end_def)
  from free_spec [OF ok0 this] obtain m' ys' c where r: "free (?b + 8) m0 = Some m'" "heap_ok base m' ys'" "brk m' = brk m0"
    "free_bytes m' ys' = free_bytes m ys \<union> blk m0 ?b" "c \<in> set ys'" "blk m0 ?b \<subseteq> blk m' c"
    "\<forall>x. unat x \<notin> free_bytes m ys \<union> blk m0 ?b \<longrightarrow> h_size m' x = h_size m0 x" unfolding f0 by blast
  have "nu \<le> h_size m' c"
  proof -
    have "8 * unat nu = card (blk m0 ?b)" unfolding k using b' by (simp add: m0_def)
    also have "\<dots> \<le> card (blk m' c)" using r(6) by (rule card_mono [rotated]) (simp add: blk_def)
    also have "\<dots> = 8 * unat (h_size m' c)" by (simp add: blk_def blk_end_def)
    finally show ?thesis by (simp add: word_le_nat_alt)
  qed
  moreover have "h_size m' x = h_size m x" if "unat x \<notin> free_bytes m ys" "unat x < unat ?b" for x
    using that r(7) k by (auto simp: m0_def)
  moreover have "morecore ok n m = Some (freep m', m')"
    using True nb r(1) by (simp add: morecore_def sbrk_def nu_def [symmetric] m0_def)
  ultimately show ?thesis using r k nu(1) b' by (intro disjI2 exI [of _ m'] exI [of _ ys'] exI [of _ c]) (auto simp: m0_def)
qed (simp add: morecore_def sbrk_def)

definition heap_inv :: "u32 \<Rightarrow> uheap \<Rightarrow> u32 list \<Rightarrow> bool" where
  "heap_inv base m ys \<longleftrightarrow> heap_ok base m ys \<or> freep m = 0 \<and> ys = [] \<and> 0 < base \<and> unat base + 8 \<le> unat (brk m)"

lemma nunits_enough:
  assumes "unat nbytes < 2 ^ 28"
  defines "n \<equiv> (nbytes + 8 - 1) div 8 + 1 :: u32"
  shows "0 < n" "unat n \<le> 2 ^ 26" "unat nbytes + 8 \<le> 8 * unat n"
proof -
  have "unat (7 + nbytes) = unat nbytes + 7" using assms(1) by (simp add: unat_plus_if_size word_size)
  then have d: "unat ((7 + nbytes) div 8) = (unat nbytes + 7) div 8" by (simp add: unat_div)
  then have "unat ((7 + nbytes) div 8) < 2 ^ 26" using assms(1) by simp
  then have u: "unat n = (unat nbytes + 7) div 8 + 1" using d by (simp add: n_def unat_plus_if_size word_size)
  then show "0 < n" "unat n \<le> 2 ^ 26" "unat nbytes + 8 \<le> 8 * unat n" using assms(1) by (simp_all add: word_less_nat_alt)
qed

text \<open>\<^verbatim>\<open>malloc\<close> returns, with a null pointer and nothing changed when the kernel gives no more memory, and
  otherwise with a block cut out of the free memory and the memory obtained from the kernel.\<close>

definition fresh_block :: "u32 \<Rightarrow> uheap \<Rightarrow> u32 list \<Rightarrow> u32 \<Rightarrow> uheap \<Rightarrow> u32 list \<Rightarrow> bool" where
  "fresh_block base m ys r m' ys' \<longleftrightarrow> r \<noteq> 0 \<and> loose base m' ys' (r - 8) \<and> unat (brk m) \<le> unat (brk m') \<and>
     free_bytes m' ys' \<union> blk m' (r - 8) = free_bytes m ys \<union> {unat (brk m)..<unat (brk m')} \<and>
     (\<forall>x. unat x \<notin> free_bytes m ys \<and> unat x < unat (brk m) \<and> x \<noteq> base \<longrightarrow> h_size m' x = h_size m x)"

lemma loose_pointer: "loose base m ys a \<Longrightarrow> a + 8 \<noteq> 0"
proof -
  assume "loose base m ys a"
  then have "unat a + 8 < 2 ^ 32" using unat_u32_less [of "brk m"] by (auto simp: loose_def blk_end_def word_less_nat_alt)
  then have "unat (a + 8) = unat a + 8" by (simp add: unat_plus_if_size word_size)
  then show ?thesis by auto
qed

lemma allocated_fresh: "allocated base n m ys r m' ys' \<Longrightarrow> fresh_block base m ys (r + 8) m' ys'"
  using loose_pointer by (auto simp: allocated_def fresh_block_def)

lemma malloc_loop_spec:
  assumes "heap_ok base m ys" "sbrk_contract ok" "0 < n" "unat n < 2 ^ 28"
  shows "malloc_loop ok n m (freep m) (h_ptr m (freep m)) = Some (0, m) \<or>
    (\<exists>r m' ys'. malloc_loop ok n m (freep m) (h_ptr m (freep m)) = Some (r, m') \<and> heap_ok base m' ys' \<and>
       h_size m' (r - 8) = n \<and> fresh_block base m ys r m' ys')"
proof (cases "\<exists>c\<in>set ys. n \<le> h_size m c")
  case True
  then obtain r m' ys' where r: "malloc_loop ok n m (freep m) (h_ptr m (freep m)) = Some (r + 8, m')" "allocated base n m ys r m' ys'"
    using malloc_found [OF assms(1) _ assms(3)] by blast
  then show ?thesis using allocated_fresh [OF r(2)]
    by (intro disjI2 exI [of _ "r + 8"] exI [of _ m'] exI [of _ ys']) (simp add: allocated_def)
next
  case False
  then have none: "\<forall>a\<in>set ys. h_size m a < n" by auto
  note e = malloc_none [OF assms(1) none assms(3), of ok]
  from morecore_spec [OF assms(1,2,4)] show ?thesis
  proof (elim disjE exE conjE)
    assume "morecore ok n m = Some (0, m)"
    then show ?thesis by (simp add: e)
  next
    fix m1 ys1 c
    assume a: "morecore ok n m = Some (freep m1, m1)" "heap_ok base m1 ys1" "c \<in> set ys1" "n \<le> h_size m1 c"
      "unat (brk m) \<le> unat (brk m1)" "free_bytes m1 ys1 = free_bytes m ys \<union> {unat (brk m)..<unat (brk m1)}"
      "\<forall>x. unat x \<notin> free_bytes m ys \<and> unat x < unat (brk m) \<longrightarrow> h_size m1 x = h_size m x"
    obtain r m' ys' where r: "malloc_loop ok n m1 (freep m1) (h_ptr m1 (freep m1)) = Some (r + 8, m')" "allocated base n m1 ys1 r m' ys'"
      using malloc_found [OF a(2,3) assms(3) a(4)] by blast
    have "malloc_loop ok n m (freep m) (h_ptr m (freep m)) = Some (r + 8, m')"
      using e a(1) r(1) heap_freep [OF a(2)] by simp
    moreover have "fresh_block base m ys (r + 8) m' ys'"
      using allocated_fresh [OF r(2)] r(2) a(5-7) by (auto simp: fresh_block_def allocated_def)
    ultimately show ?thesis using r(2)
      by (intro disjI2 exI [of _ "r + 8"] exI [of _ m'] exI [of _ ys']) (simp add: allocated_def)
  qed
qed

lemma malloc_spec:
  assumes "heap_inv base m ys" "sbrk_contract ok" "unat nbytes < 2 ^ 28"
  shows "\<exists>r m' ys'. malloc ok base nbytes m = Some (r, m') \<and> heap_ok base m' ys' \<and>
    (r = 0 \<and> free_bytes m' ys' = free_bytes m ys \<and> brk m' = brk m \<and> (\<forall>x. x \<noteq> base \<longrightarrow> h_size m' x = h_size m x) \<or>
     fresh_block base m ys r m' ys' \<and> unat nbytes + 8 \<le> 8 * unat (h_size m' (r - 8)))"
proof -
  define n :: u32 where "n = (nbytes + 8 - 1) div 8 + 1"
  have n: "0 < n" "unat n \<le> 2 ^ 26" "unat nbytes + 8 \<le> 8 * unat n" using nunits_enough [OF assms(3)] by (simp_all add: n_def)
  define m0 where "m0 = (if freep m = 0
    then m\<lparr>h_ptr := (h_ptr m)(base := base), freep := base, h_size := (h_size m)(base := 0)\<rparr> else m)"
  have ok: "heap_ok base m0 ys"
    using assms(1) heap_freep [of base m ys] by (auto simp: heap_inv_def m0_def heap_ok_def heap_core_def)
  have s0: "\<forall>x. x \<noteq> base \<longrightarrow> h_size m0 x = h_size m x" "brk m0 = brk m" by (simp_all add: m0_def)
  have f0: "free_bytes m0 ys = free_bytes m ys"
    using assms(1) heap_freep [of base m ys] by (auto simp: heap_inv_def m0_def free_bytes_def)
  have e: "malloc ok base nbytes m = malloc_loop ok n m0 (freep m0) (h_ptr m0 (freep m0))"
    by (simp add: malloc_def n_def m0_def Let_def)
  have "unat n < 2 ^ 28" using n(2) by simp
  from malloc_loop_spec [OF ok assms(2) n(1) this] show ?thesis
  proof (elim disjE exE conjE)
    assume "malloc_loop ok n m0 (freep m0) (h_ptr m0 (freep m0)) = Some (0, m0)"
    then show ?thesis using e ok s0 f0 by (intro exI [of _ 0] exI [of _ m0] exI [of _ ys]) simp
  next
    fix r m' ys'
    assume a: "malloc_loop ok n m0 (freep m0) (h_ptr m0 (freep m0)) = Some (r, m')" "heap_ok base m' ys'"
      "h_size m' (r - 8) = n" "fresh_block base m0 ys r m' ys'"
    have "fresh_block base m ys r m' ys'" using a(4) s0 f0 by (simp add: fresh_block_def)
    then show ?thesis using e a(1-3) n(3) by (intro exI [of _ r] exI [of _ m'] exI [of _ ys']) simp
  qed
qed

section \<open>Programs that use the heap\<close>

text \<open>A program allocates, writes what it likes into the bytes it asked for, which may change whatever
  header fields overlap those bytes, and frees what it holds. The list is that of the pointers it holds, with the sizes it asked for.\<close>

type_synonym request = "u32 \<times> nat"

definition req_bytes :: "request \<Rightarrow> nat set" where
  "req_bytes q = {unat (fst q)..<unat (fst q) + snd q}"

inductive heap_run :: "(u32 \<Rightarrow> u32 \<Rightarrow> bool) \<Rightarrow> u32 \<Rightarrow> uheap \<Rightarrow> request list \<Rightarrow> bool" for ok base where
  start: "freep m = 0 \<Longrightarrow> 0 < base \<Longrightarrow> unat base + 8 \<le> unat (brk m) \<Longrightarrow> heap_run ok base m []"
| alloc: "heap_run ok base m live \<Longrightarrow> unat nbytes < 2 ^ 28 \<Longrightarrow> malloc ok base nbytes m = Some (r, m') \<Longrightarrow> r \<noteq> 0 \<Longrightarrow>
    heap_run ok base m' ((r, unat nbytes) # live)"
| exhausted: "heap_run ok base m live \<Longrightarrow> unat nbytes < 2 ^ 28 \<Longrightarrow> malloc ok base nbytes m = Some (0, m') \<Longrightarrow>
    heap_run ok base m' live"
| release: "heap_run ok base m (xs @ (ap, n) # zs) \<Longrightarrow> free ap m = Some m' \<Longrightarrow> heap_run ok base m' (xs @ zs)"
| store: "heap_run ok base m live \<Longrightarrow> q \<in> set live \<Longrightarrow> freep m' = freep m \<Longrightarrow> brk m' = brk m \<Longrightarrow>
    (\<And>x. {unat x..<unat x + 8} \<inter> req_bytes q = {} \<Longrightarrow> h_ptr m' x = h_ptr m x \<and> h_size m' x = h_size m x) \<Longrightarrow>
    heap_run ok base m' live"

abbreviation hdr :: "request \<Rightarrow> u32" where
  "hdr q \<equiv> fst q - 8"

definition live_ok :: "u32 \<Rightarrow> uheap \<Rightarrow> u32 list \<Rightarrow> request list \<Rightarrow> bool" where
  "live_ok base m ys live \<longleftrightarrow> heap_inv base m ys \<and> (live \<noteq> [] \<longrightarrow> heap_ok base m ys) \<and>
     (\<forall>q\<in>set live. loose base m ys (hdr q) \<and> snd q + 8 \<le> 8 * unat (h_size m (hdr q))) \<and>
     sorted_wrt (\<lambda>p q. blk m (hdr p) \<inter> blk m (hdr q) = {}) live"

lemma sorted_wrt_pair: "sorted_wrt P xs \<Longrightarrow> a \<in> set xs \<Longrightarrow> b \<in> set xs \<Longrightarrow> a = b \<or> P a b \<or> P b a"
  by (induction xs) auto

lemma loose_bounds: "loose base m ys a \<Longrightarrow> unat a \<notin> free_bytes m ys \<and> unat a < unat (brk m) \<and> a \<noteq> base \<and> blk m a \<subseteq> {..<unat (brk m)}"
  using blk_nonempty [of m a] by (auto simp: loose_def blk_def)

lemma blk_cong: "h_size m' a = h_size m a \<Longrightarrow> blk m' a = blk m a \<and> blk_end m' a = blk_end m a"
  by (simp add: blk_def blk_end_def)

lemma loose_apart: "loose base m ys a \<Longrightarrow> blk m a \<inter> (free_bytes m ys \<union> {unat (brk m)..}) = {}"
  using loose_bounds [of base m ys a] by (auto simp: loose_def)

lemma loose_mono:
  assumes "loose base m ys a" "h_size m' a = h_size m a" "unat (brk m) \<le> unat (brk m')"
    and "free_bytes m' ys' \<subseteq> free_bytes m ys \<union> {unat (brk m)..}"
  shows "loose base m' ys' a"
proof -
  have "blk m' a = blk m a" "blk_end m' a = blk_end m a" using blk_cong [OF assms(2)] by simp_all
  then show ?thesis using assms loose_apart [OF assms(1)] unfolding loose_def by fastforce
qed

lemma sorted_wrt_same: "(\<And>x. x \<in> set xs \<Longrightarrow> f x = g x) \<Longrightarrow> sorted_wrt (\<lambda>x y. f x \<inter> f y = {}) xs \<Longrightarrow> sorted_wrt (\<lambda>x y. g x \<inter> g y = {}) xs"
  by (induction xs) auto

text \<open>The sizes of the blocks in use are all that matters for them.\<close>

lemma live_cong:
  assumes "live_ok base m ys live" "\<forall>q\<in>set live. h_size m' (hdr q) = h_size m (hdr q) \<and> loose base m' ys' (hdr q)" "heap_ok base m' ys'"
  shows "live_ok base m' ys' live"
proof -
  have "sorted_wrt (\<lambda>p q. blk m' (hdr p) \<inter> blk m' (hdr q) = {}) live"
    by (rule sorted_wrt_same [of live "\<lambda>q. blk m (hdr q)"]) (use assms(1,2) blk_cong [of m'] in \<open>simp_all add: live_ok_def\<close>)
  then show ?thesis using assms by (simp add: live_ok_def heap_inv_def)
qed

lemma live_alloc:
  assumes "live_ok base m ys live" "fresh_block base m ys r m' ys'" "heap_ok base m' ys'" "n + 8 \<le> 8 * unat (h_size m' (r - 8))"
  shows "live_ok base m' ys' ((r, n) # live)"
proof -
  have f: "loose base m' ys' (r - 8)" "unat (brk m) \<le> unat (brk m')"
    "free_bytes m' ys' \<union> blk m' (r - 8) = free_bytes m ys \<union> {unat (brk m)..<unat (brk m')}"
    "\<forall>x. unat x \<notin> free_bytes m ys \<and> unat x < unat (brk m) \<and> x \<noteq> base \<longrightarrow> h_size m' x = h_size m x"
    using assms(2) by (simp_all add: fresh_block_def)
  have l: "loose base m ys (hdr q)" if "q \<in> set live" for q using assms(1) that by (simp add: live_ok_def)
  have s: "h_size m' (hdr q) = h_size m (hdr q)" if "q \<in> set live" for q using f(4) loose_bounds [OF l [OF that]] by blast
  have "free_bytes m' ys' \<subseteq> free_bytes m ys \<union> {unat (brk m)..}" using f(3) by auto
  then have "loose base m' ys' (hdr q)" if "q \<in> set live" for q using loose_mono [OF l [OF that] s [OF that] f(2)] by blast
  then have "live_ok base m' ys' live" using live_cong [OF assms(1) _ assms(3)] s by blast
  moreover have "blk m' (r - 8) \<inter> blk m' (hdr q) = {}" if "q \<in> set live" for q
  proof -
    have "blk m' (r - 8) \<subseteq> free_bytes m ys \<union> {unat (brk m)..}" using f(3) by auto
    moreover have "blk m' (hdr q) = blk m (hdr q)" using blk_cong [OF s [OF that]] by simp
    ultimately show ?thesis using loose_apart [OF l [OF that]] by blast
  qed
  ultimately show ?thesis using assms(3,4) f(1) by (auto simp: live_ok_def)
qed

lemma live_same:
  assumes "live_ok base m ys live" "heap_ok base m' ys'" "free_bytes m' ys' = free_bytes m ys" "brk m' = brk m"
    and "\<forall>x. x \<noteq> base \<longrightarrow> h_size m' x = h_size m x"
  shows "live_ok base m' ys' live"
proof (rule live_cong [OF assms(1) _ assms(2)], intro ballI conjI)
  fix q assume "q \<in> set live"
  then have l: "loose base m ys (hdr q)" using assms(1) by (simp add: live_ok_def)
  then show s: "h_size m' (hdr q) = h_size m (hdr q)" using assms(5) loose_bounds by blast
  show "loose base m' ys' (hdr q)" using loose_mono [OF l s] assms(3,4) by auto
qed

lemma live_free:
  assumes "live_ok base m ys (xs @ (ap, n) # zs)"
  shows "\<exists>m' ys'. free ap m = Some m' \<and> live_ok base m' ys' (xs @ zs)"
proof -
  have ok: "heap_ok base m ys" and la: "loose base m ys (ap - 8)" using assms by (simp_all add: live_ok_def)
  obtain m' ys' where f: "free ap m = Some m'" "heap_ok base m' ys'" "free_bytes m' ys' = free_bytes m ys \<union> blk m (ap - 8)"
    "brk m' = brk m" "\<forall>x. unat x \<notin> free_bytes m ys \<union> blk m (ap - 8) \<longrightarrow> h_size m' x = h_size m x"
    using free_spec [OF ok la] by auto
  have "h_size m' (hdr q) = h_size m (hdr q) \<and> loose base m' ys' (hdr q)" if "q \<in> set (xs @ zs)" for q
  proof -
    have l: "loose base m ys (hdr q)" using assms that by (auto simp: live_ok_def)
    have d: "blk m (hdr q) \<inter> blk m (ap - 8) = {}" using assms that by (auto simp: live_ok_def sorted_wrt_append)
    have "unat (hdr q) \<in> blk m (hdr q)" using l by (intro blk_nonempty) (simp add: loose_def)
    then have "unat (hdr q) \<notin> free_bytes m ys \<union> blk m (ap - 8)" using d loose_bounds [OF l] by blast
    then have s: "h_size m' (hdr q) = h_size m (hdr q)" using f(5) by blast
    then show ?thesis using l d blk_cong [OF s] f(3,4) by (auto simp: loose_def)
  qed
  moreover have "live_ok base m ys (xs @ zs)" using assms by (auto simp: live_ok_def sorted_wrt_append)
  ultimately show ?thesis using live_cong [OF _ _ f(2)] f(1) by blast
qed

text \<open>The bytes a caller asked for lie in its block, behind the header.\<close>

lemma req_in_block:
  assumes "loose base m ys (hdr q)" "snd q + 8 \<le> 8 * unat (h_size m (hdr q))"
  shows "unat (fst q) = unat (hdr q) + 8" "req_bytes q \<subseteq> blk m (hdr q)" "{unat (hdr q)..<unat (hdr q) + 8} \<inter> req_bytes q = {}"
proof -
  have "unat (hdr q) + 8 < 2 ^ 32" using assms unat_u32_less [of "brk m"] by (simp add: loose_def blk_end_def)
  then have "unat (hdr q + 8) = unat (hdr q) + 8" by (simp only: unat_plus_if_size word_size) simp
  then show u: "unat (fst q) = unat (hdr q) + 8" by simp
  show "req_bytes q \<subseteq> blk m (hdr q)" "{unat (hdr q)..<unat (hdr q) + 8} \<inter> req_bytes q = {}"
    using assms(2) u by (auto simp: req_bytes_def blk_def blk_end_def)
qed

lemma live_store:
  assumes "live_ok base m ys live" "q \<in> set live" "freep m' = freep m" "brk m' = brk m"
    and "\<And>x. {unat x..<unat x + 8} \<inter> req_bytes q = {} \<Longrightarrow> h_ptr m' x = h_ptr m x \<and> h_size m' x = h_size m x"
  shows "live_ok base m' ys live"
proof -
  have ok: "heap_ok base m ys" using assms(1,2) by (auto simp: live_ok_def)
  have l: "loose base m ys (hdr p)" "snd p + 8 \<le> 8 * unat (h_size m (hdr p))" if "p \<in> set live" for p using assms(1) that by (simp_all add: live_ok_def)
  note r = req_in_block [OF l [OF assms(2)]]
  have apart: "{unat x..<unat x + 8} \<inter> req_bytes q = {}" if "blk m x \<inter> blk m (hdr q) = {}" "0 < h_size m x" for x
  proof -
    have "{unat x..<unat x + 8} \<subseteq> blk m x" using that(2) by (auto simp: blk_def blk_end_def word_less_nat_alt)
    then show ?thesis using that(1) r(2) by blast
  qed
  have "h_ptr m' x = h_ptr m x \<and> h_size m' x = h_size m x" if "x \<in> set (base # ys)" for x
  proof (cases "x = base")
    case True
    have "unat base + 8 \<le> unat (hdr q)" using l [OF assms(2)] by (simp add: loose_def)
    then show ?thesis using assms(5) [of x] r(1) True by (auto simp: req_bytes_def)
  next
    case False
    then have x: "x \<in> set ys" using that by simp
    then have "blk m x \<inter> blk m (hdr q) = {}" using l(1) [OF assms(2)] by (auto simp: loose_def free_bytes_def)
    then show ?thesis using assms(5) apart x ok by (simp add: heap_ok_def heap_core_def)
  qed
  note same = this
  have ok': "heap_ok base m' ys" using ok core_cong [of base m ys m'] same assms(3,4) by (simp add: heap_ok_def)
  have "free_bytes m' ys = free_bytes m ys" using same by (simp add: free_bytes_def blk_def blk_end_def)
  moreover have "h_size m' (hdr p) = h_size m (hdr p)" if p: "p \<in> set live" for p
  proof (cases "p = q")
    case True
    then show ?thesis using assms(5) r(3) by blast
  next
    case False
    then have "blk m (hdr p) \<inter> blk m (hdr q) = {}" using sorted_wrt_pair [OF _ p assms(2)] assms(1) by (auto simp: live_ok_def)
    then show ?thesis using assms(5) apart l(1) [OF p] by (simp add: loose_def)
  qed
  ultimately show ?thesis using loose_mono [OF l(1)] assms(4) by (intro live_cong [OF assms(1) _ ok']) auto
qed

lemma heap_run_live:
  assumes "heap_run ok base m live" "sbrk_contract ok"
  shows "\<exists>ys. live_ok base m ys live"
  using assms(1)
proof (induction rule: heap_run.induct)
  case (start m)
  then show ?case by (intro exI [of _ "[]"]) (simp add: live_ok_def heap_inv_def)
next
  case (alloc m live nbytes r m')
  then obtain ys where ys: "live_ok base m ys live" by blast
  then have "heap_inv base m ys" by (simp add: live_ok_def)
  from malloc_spec [OF this assms(2) alloc(2)] show ?case using live_alloc [OF ys] alloc(3,4) by fastforce
next
  case (exhausted m live nbytes m')
  then obtain ys where ys: "live_ok base m ys live" by blast
  then have "heap_inv base m ys" by (simp add: live_ok_def)
  from malloc_spec [OF this assms(2) exhausted(2)] show ?case using live_same [OF ys] exhausted(3) by (fastforce simp: fresh_block_def)
next
  case (release m xs ap n zs m')
  then show ?case using live_free by fastforce
next
  case (store m live q m')
  then show ?case using live_store by blast
qed

section \<open>Properties\<close>

text \<open>C9: the heap is safe for any program that stays within what it asked for. However it interleaves
  \<^verbatim>\<open>malloc\<close>, \<^verbatim>\<open>free\<close> and stores into its blocks, the blocks it holds never overlap one another, they lie between the
  allocator's own \<^verbatim>\<open>base\<close> and the end of the heap, and neither \<^verbatim>\<open>malloc\<close> nor \<^verbatim>\<open>free\<close> of a block it holds ever
  fails to return.\<close>

theorem heap_run_safe:
  assumes "heap_run ok base m live" "sbrk_contract ok"
  shows "sorted_wrt (\<lambda>p q. req_bytes p \<inter> req_bytes q = {}) live \<and>
     (\<forall>q\<in>set live. req_bytes q \<subseteq> {unat base + 8..<unat (brk m)}) \<and>
     (\<forall>q\<in>set live. free (fst q) m \<noteq> None) \<and> (\<forall>nbytes. unat nbytes < 2 ^ 28 \<longrightarrow> malloc ok base nbytes m \<noteq> None)"
proof (intro conjI ballI allI impI)
  obtain ys where ys: "live_ok base m ys live" using heap_run_live [OF assms] by blast
  have l: "loose base m ys (hdr q)" "snd q + 8 \<le> 8 * unat (h_size m (hdr q))" if "q \<in> set live" for q
    using ys that by (simp_all add: live_ok_def)
  have "sorted_wrt (\<lambda>p q. blk m (hdr p) \<inter> blk m (hdr q) = {}) live" using ys by (simp add: live_ok_def)
  then show "sorted_wrt (\<lambda>p q. req_bytes p \<inter> req_bytes q = {}) live"
    by (rule sorted_wrt_mono_rel [rotated]) (use req_in_block(2) [OF l] in blast)
  show "free (fst q) m \<noteq> None" if q: "q \<in> set live" for q
  proof -
    obtain xs zs where "live = xs @ (fst q, snd q) # zs" using split_list [OF q] by auto
    then show ?thesis using live_free ys by fastforce
  qed
  show "req_bytes q \<subseteq> {unat base + 8..<unat (brk m)}" if "q \<in> set live" for q
    using req_in_block(2) [OF l [OF that]] l(1) [OF that] loose_bounds [OF l(1) [OF that]] by (auto simp: loose_def blk_def)
  show "malloc ok base nbytes m \<noteq> None" if "unat nbytes < 2 ^ 28" for nbytes
    using malloc_spec [OF _ assms(2) that, of base m ys] ys by (auto simp: live_ok_def)
qed

text \<open>A request of nearly $2^{32}$ bytes wraps around in \<^verbatim>\<open>malloc\<close>: it is served like a request of none.\<close>

lemma malloc_wraps: "malloc ok base 0xFFFFFFFF m = malloc ok base 0 m"
  by (simp add: malloc_def)

text \<open>A first request of 100 bytes is served from the end of the first 32 kilobytes.\<close>

definition heap0 :: uheap where
  "heap0 = \<lparr>h_ptr = \<lambda>_. 0, h_size = \<lambda>_. 0, freep = 0, brk = 0x1000\<rparr>"

definition grow0 :: "u32 \<Rightarrow> u32 \<Rightarrow> bool" where
  "grow0 b k \<longleftrightarrow> b \<le> 0x80000000 \<and> k \<le> 0x7FFFFFFF"

lemma malloc_first: "map_option fst (malloc grow0 0x100 100 heap0) = Some 36760"
  by (simp add: malloc_def heap0_def malloc_loop.simps free_search.simps morecore_def sbrk_def free_def grow0_def Let_def)

theorem heap_run_safe_witness:
  "\<exists>m. heap_run grow0 0x100 m [(36760, 100)] \<and> {36760..<36860} \<subseteq> {264..<unat (brk m)} \<and> free 36760 m \<noteq> None \<and>
     malloc grow0 0x100 50 m \<noteq> None"
proof -
  obtain m where m: "malloc grow0 0x100 100 heap0 = Some (36760, m)" using malloc_first by auto
  have "heap_run grow0 0x100 heap0 []" by (rule heap_run.start) (simp_all add: heap0_def)
  from heap_run.alloc [OF this _ m] have r: "heap_run grow0 0x100 m [(36760, 100)]" by simp
  moreover have "sbrk_contract grow0" by (auto simp: sbrk_contract_def grow0_def word_le_nat_alt)
  ultimately show ?thesis using heap_run_safe [OF r] by (auto simp: req_bytes_def)
qed

end
