(* ===== verification/Vm_Lemmas.thy ===== *)
theory Vm_Lemmas
  imports Vm
begin

text \<open>
  Page tables as a map: the entry of every virtual page, and the invariant by which the directory and its
  tables are pages of their own. \<^verbatim>\<open>mappages\<close> updates the map on the pages of its range and nothing else, and
  \<^verbatim>\<open>copyout\<close> is a store into the virtual memory the tables define.
\<close>

section \<open>Virtual pages\<close>

lemma PDX_bits: "PDX va = take_bit 10 (drop_bit 22 va)"
  by (simp add: PDX_def take_bit_eq_mask mask_eq_exp_minus_1)

lemma PTX_bits: "PTX va = take_bit 10 (drop_bit 12 va)"
  by (simp add: PTX_def take_bit_eq_mask mask_eq_exp_minus_1)

lemma index_less: "unat (PDX va) < 1024" "unat (PTX va) < 1024"
  using take_bit_nat_less_exp [of 10 "unat (drop_bit 22 va)"] take_bit_nat_less_exp [of 10 "unat (drop_bit 12 va)"]
  by (simp_all add: PDX_bits PTX_bits unsigned_take_bit_eq)

lemma slot_fits: "unat i < 1024 \<Longrightarrow> unat (4 * i :: u32) + 4 \<le> 4096" "unat i < 1024 \<Longrightarrow> unat (4 * i :: u32) = 4 * unat i"
  by (simp_all add: unat_word_ariths)

definition same_page :: "u32 \<Rightarrow> u32 \<Rightarrow> bool" where
  "same_page va vb \<longleftrightarrow> PGROUNDDOWN va = PGROUNDDOWN vb"

lemma same_page_bits: "same_page va vb \<longleftrightarrow> (\<forall>n. 12 \<le> n \<longrightarrow> n < 32 \<longrightarrow> bit va n = bit vb n)"
proof
  assume "same_page va vb"
  then have e: "push_bit 12 (drop_bit 12 va) = push_bit 12 (drop_bit 12 vb)" by (simp add: same_page_def PGROUNDDOWN_bits)
  show "\<forall>n. 12 \<le> n \<longrightarrow> n < 32 \<longrightarrow> bit va n = bit vb n"
  proof (intro allI impI)
    fix n :: nat assume "12 \<le> n" "n < 32"
    then show "bit va n = bit vb n" using arg_cong [OF e, of "\<lambda>x. bit x n"] by (simp add: bit_push_bit_iff bit_drop_bit_eq)
  qed
next
  assume b: "\<forall>n. 12 \<le> n \<longrightarrow> n < 32 \<longrightarrow> bit va n = bit vb n"
  have "bit (push_bit 12 (drop_bit 12 va)) n = bit (push_bit 12 (drop_bit 12 vb)) n" if "n < 32" for n
    using b [rule_format, of n] that by (auto simp: bit_push_bit_iff bit_drop_bit_eq)
  then show "same_page va vb" unfolding same_page_def PGROUNDDOWN_bits by (intro bit_word_eqI) simp
qed

lemma same_page_index: "same_page va vb \<longleftrightarrow> PDX va = PDX vb \<and> PTX va = PTX vb"
proof
  assume "same_page va vb"
  then have b: "bit va n = bit vb n" if "12 \<le> n" "n < 32" for n using that by (simp add: same_page_bits)
  have "bit (PDX va) n = bit (PDX vb) n" "bit (PTX va) n = bit (PTX vb) n" for n
    using b [of "22 + n"] b [of "12 + n"] by (auto simp: PDX_bits PTX_bits bit_simps)
  then show "PDX va = PDX vb \<and> PTX va = PTX vb" by (simp add: bit_word_eqI)
next
  assume e: "PDX va = PDX vb \<and> PTX va = PTX vb"
  have "bit va n = bit vb n" if "12 \<le> n" "n < 32" for n
  proof (cases "n < 22")
    case True
    then have "bit (PTX va) (n - 12) = bit va n" "bit (PTX vb) (n - 12) = bit vb n" using that by (auto simp: PTX_bits bit_simps)
    then show ?thesis using e by simp
  next
    case False
    then have "bit (PDX va) (n - 22) = bit va n" "bit (PDX vb) (n - 22) = bit vb n" using that by (auto simp: PDX_bits bit_simps)
    then show ?thesis using e by simp
  qed
  then show "same_page va vb" by (simp add: same_page_bits)
qed

section \<open>Entries\<close>

definition pde :: "mem \<Rightarrow> u32 \<Rightarrow> u32 \<Rightarrow> u32" where
  "pde m pd va = load32 m (pd + 4 * PDX va)"

definition tab :: "mem \<Rightarrow> u32 \<Rightarrow> u32 \<Rightarrow> u32" where
  "tab m pd va = p2v (PTE_ADDR (pde m pd va))"

definition has_tab :: "mem \<Rightarrow> u32 \<Rightarrow> u32 \<Rightarrow> bool" where
  "has_tab m pd va \<longleftrightarrow> pde m pd va AND PTE_P \<noteq> 0"

definition tabs :: "mem \<Rightarrow> u32 \<Rightarrow> u32 set" where
  "tabs m pd = {tab m pd va |va. has_tab m pd va}"

text \<open>The entry of a virtual page, 0 where there is no table.\<close>

definition pte :: "mem \<Rightarrow> u32 \<Rightarrow> u32 \<Rightarrow> u32" where
  "pte m pd va = (if has_tab m pd va then load32 m (tab m pd va + 4 * PTX va) else 0)"

text \<open>The directory and its tables are pages in use, all different.\<close>

definition tabs_apart :: "mem \<Rightarrow> u32 \<Rightarrow> bool" where
  "tabs_apart m pd \<longleftrightarrow> (\<forall>va vb. has_tab m pd va \<longrightarrow> has_tab m pd vb \<longrightarrow> tab m pd va = tab m pd vb \<longrightarrow> PDX va = PDX vb)"

definition pd_inv :: "u32 \<Rightarrow> u32 list \<Rightarrow> u32 \<Rightarrow> 'a kmem_st_scheme \<Rightarrow> bool" where
  "pd_inv kend xs pd s \<longleftrightarrow> kmem_inv kend xs s \<and> page_ok kend pd \<and> pd \<notin> set xs \<and>
     (\<forall>va. has_tab (mem s) pd va \<longrightarrow> page_ok kend (tab (mem s) pd va) \<and> tab (mem s) pd va \<notin> set xs \<and> tab (mem s) pd va \<noteq> pd) \<and>
     tabs_apart (mem s) pd"

lemma load32_slot:
  assumes "unat i < 1024" "unat j < 1024"
  shows "load32 (store32 (k + 4 * i) v m) (k + 4 * j) = (if i = j then v else load32 m (k + 4 * j))"
proof (cases "i = j")
  case False
  have "\<not> (k + 4 * j + x) - (k + 4 * i) < 4" if "x < 4" for x :: u32
  proof -
    have u: "unat (4 * i) = 4 * unat i" "unat (4 * j + x) = 4 * unat j + unat x" "unat x < 4"
      using assms that slot_fits(2) by (simp_all add: unat_word_ariths word_less_nat_alt)
    have ne: "unat i \<noteq> unat j" using False by (simp add: word_unat_eq_iff)
    have "4 \<le> unat ((4 * j + x) - 4 * i)"
    proof (cases "unat i < unat j")
      case True
      then have "4 * i \<le> 4 * j + x" using u by (simp add: word_le_nat_alt)
      then show ?thesis using offset_sub [of "4 * i" "4 * j + x"] u True by simp
    next
      case False
      then have "4 * unat j + 4 \<le> 4 * unat i" using ne by simp
      then show ?thesis using u assms(1) by (simp add: unat_sub_if')
    qed
    moreover have e: "(k + 4 * j + x) - (k + 4 * i) = (4 * j + x) - 4 * i" by (simp add: algebra_simps)
    ultimately show ?thesis unfolding e word_less_nat_alt by auto
  qed
  then have "load32 (store32 (k + 4 * i) v m) (k + 4 * j) = load32 m (k + 4 * j)"
    by (intro load32_cong) (simp add: store32_run)
  then show ?thesis using False by simp
qed simp

lemma page_aligned: "page_ok kend k \<Longrightarrow> k mod PGSIZE = 0"
  by (simp add: page_ok_def)

lemma page_offset_nonzero:
  assumes "page_ok kend k" "unat off < 4096"
  shows "k + off \<noteq> 0"
proof -
  have "unat k mod 4096 = unat (k mod PGSIZE)" by (simp add: PGSIZE_def unat_mod)
  then have "4096 dvd unat k" using assms(1) by (simp add: page_ok_def mod_eq_0_iff_dvd)
  then obtain c where c: "unat k = 4096 * c" by (elim dvdE)
  have "unat k \<noteq> 0" using assms(1) by (simp add: page_ok_def unat_eq_0)
  then have "0 < c" using c by simp
  moreover have "c < 1048576" using c unat_u32_less [of k] by simp
  then have "4096 * c + unat off < 2 ^ 32" using assms(2) by simp
  ultimately have "unat (k + off) = 4096 * c + unat off" using c by (simp add: unat_word_ariths)
  then show ?thesis using \<open>0 < c\<close> by auto
qed

lemma page_take_bit: "k mod PGSIZE = 0 \<longleftrightarrow> take_bit 12 k = 0" for k :: u32
  by (simp add: PGSIZE_def take_bit_eq_mod)

lemma page_shifted: "k mod PGSIZE = 0 \<longleftrightarrow> (\<exists>x. k = push_bit 12 x)" for k :: u32
proof
  assume "k mod PGSIZE = 0"
  then have "push_bit 12 (drop_bit 12 k) = k" using bits_ident [of 12 k] by (simp add: page_take_bit)
  then show "\<exists>x. k = push_bit 12 x" by metis
next
  assume "\<exists>x. k = push_bit 12 x"
  then show "k mod PGSIZE = 0" unfolding page_take_bit by (auto intro!: bit_word_eqI simp: bit_simps)
qed

lemma page_mask: "k AND 0xFFF = 0 \<longleftrightarrow> k mod PGSIZE = 0" for k :: u32
  by (simp add: page_take_bit fff_mask take_bit_eq_mask)

lemma page_diff: "a mod PGSIZE = 0 \<Longrightarrow> b mod PGSIZE = 0 \<Longrightarrow> (a - b) mod PGSIZE = 0"
  "a mod PGSIZE = 0 \<Longrightarrow> b mod PGSIZE = 0 \<Longrightarrow> (a + b) mod PGSIZE = 0" for a b :: u32
proof -
  assume "a mod PGSIZE = 0" "b mod PGSIZE = 0"
  then obtain x y where "a = push_bit 12 x" "b = push_bit 12 y" unfolding page_shifted by blast
  then have "a - b = push_bit 12 (x - y)" "a + b = push_bit 12 (x + y)" by (simp_all add: push_bit_eq_mult algebra_simps)
  then show "(a - b) mod PGSIZE = 0" "(a + b) mod PGSIZE = 0" unfolding page_shifted by blast+
qed

lemma KERNBASE_page: "KERNBASE mod PGSIZE = 0"
  by (simp add: KERNBASE_def PGSIZE_def)

lemma v2p_page: "page_ok kend k \<Longrightarrow> v2p k AND 0xFFF = 0"
  by (simp add: page_mask v2p_def page_diff page_aligned KERNBASE_page)

lemma p2v_v2p [simp]: "p2v (v2p k) = k" "v2p (p2v k) = k"
  by (simp_all add: p2v_def v2p_def)

section \<open>Storing an entry\<close>

lemma entry_fits: "unat (4 * PDX va) + 4 \<le> 4096" "unat (4 * PTX va) + 4 \<le> 4096"
  using slot_fits(1) index_less by blast+

lemma pte_store:
  assumes "pd_inv kend xs pd s" "has_tab (mem s) pd va" "mem t = store32 (tab (mem s) pd va + 4 * PTX va) v (mem s)" "freelist t = freelist s"
  shows "pd_inv kend xs pd t" "pte (mem t) pd vb = (if same_page va vb then v else pte (mem s) pd vb)"
    "has_tab (mem t) pd vb = has_tab (mem s) pd vb" "tab (mem t) pd vb = tab (mem s) pd vb"
    "page_only (tab (mem s) pd va) (mem s) (mem t)"
proof -
  let ?k = "tab (mem s) pd va"
  have inv: "page_ok kend pd" "page_ok kend ?k" "?k \<notin> set xs" "?k \<noteq> pd" using assms(1,2) by (simp_all add: pd_inv_def)
  show po: "page_only ?k (mem s) (mem t)" unfolding assms(3) by (rule page_only_store32 [OF entry_fits(2)])
  have e: "pde (mem t) pd w = pde (mem s) pd w" for w unfolding pde_def
    by (rule page_only_load32 [OF po page_aligned [OF inv(1)] page_aligned [OF inv(2)] inv(4) [symmetric] entry_fits(1)])
  then have h: "has_tab (mem t) pd w = has_tab (mem s) pd w" "tab (mem t) pd w = tab (mem s) pd w" for w
    by (simp_all add: has_tab_def tab_def)
  then show "has_tab (mem t) pd vb = has_tab (mem s) pd vb" "tab (mem t) pd vb = tab (mem s) pd vb" by simp_all
  have "kmem_inv kend xs t"
    using kmem_inv_page_only [OF _ po assms(4) page_aligned [OF inv(2)] inv(3)] assms(1) by (simp add: pd_inv_def)
  moreover have apart: "tabs_apart (mem s) pd" using assms(1) by (simp add: pd_inv_def)
  then have "tabs_apart (mem t) pd" by (simp only: tabs_apart_def h)
  ultimately show "pd_inv kend xs pd t" using assms(1) by (simp add: pd_inv_def h)
  show "pte (mem t) pd vb = (if same_page va vb then v else pte (mem s) pd vb)"
  proof (cases "has_tab (mem s) pd vb \<and> tab (mem s) pd vb = ?k")
    case True
    then have "PDX va = PDX vb" using apart [unfolded tabs_apart_def, rule_format, OF assms(2), of vb] by simp
    then show ?thesis using True load32_slot [OF index_less(2) index_less(2), of ?k va v "mem s" vb, folded assms(3)]
      by (simp add: pte_def h same_page_index)
  next
    case False
    have "\<not> same_page va vb"
    proof
      assume "same_page va vb"
      then have "pde (mem s) pd va = pde (mem s) pd vb" by (simp add: same_page_index pde_def)
      then show False using False assms(2) by (simp add: has_tab_def tab_def)
    qed
    moreover have "load32 (mem t) (tab (mem s) pd vb + 4 * PTX vb) = load32 (mem s) (tab (mem s) pd vb + 4 * PTX vb)" if "has_tab (mem s) pd vb"
      using that False assms(1)
      by (intro page_only_load32 [OF po _ page_aligned [OF inv(2)] _ entry_fits(2)]) (auto simp: pd_inv_def page_ok_def)
    ultimately show ?thesis by (simp add: pte_def h)
  qed
qed

section \<open>Walking with allocation\<close>

text \<open>A change of memory inside some pages only.\<close>

definition pages_only :: "u32 set \<Rightarrow> mem \<Rightarrow> mem \<Rightarrow> bool" where
  "pages_only K m m' \<longleftrightarrow> (\<forall>a. (\<forall>k\<in>K. PGSIZE \<le> a - k) \<longrightarrow> m' a = m a)"

lemma pages_only_refl [simp]: "pages_only K m m"
  by (simp add: pages_only_def)

lemma pages_only_trans: "pages_only K m m' \<Longrightarrow> pages_only K m' m'' \<Longrightarrow> pages_only K m m''"
  by (simp add: pages_only_def)

lemma pages_only_mono: "pages_only K m m' \<Longrightarrow> K \<subseteq> K' \<Longrightarrow> pages_only K' m m'"
  by (auto simp: pages_only_def)

lemma page_only_pages: "page_only k m m' \<Longrightarrow> k \<in> K \<Longrightarrow> pages_only K m m'"
  by (auto simp: pages_only_def page_only_def)

lemma load32_zeroed: "unat i < 1024 \<Longrightarrow> load32 (memset k 0 PGSIZE m) (k + 4 * i) = 0"
proof -
  assume i: "unat i < 1024"
  have "memset k 0 PGSIZE m (k + 4 * i + j) = 0" if "j < 4" for j
  proof -
    have "unat (4 * i + j) = 4 * unat i + unat j" using i that by (simp add: unat_word_ariths word_less_nat_alt)
    then have "4 * i + j < PGSIZE" using i that by (simp add: PGSIZE_def word_less_nat_alt)
    moreover have "k + 4 * i + j - k = 4 * i + j" by simp
    ultimately show ?thesis by (simp only: memset_eq) simp
  qed
  from this [of 0] this [of 1] this [of 2] this [of 3] show ?thesis by (simp add: load32_def of_le32_def word_less_nat_alt)
qed

text \<open>A fresh page becomes the table for \<open>va\<close>; the map of the entries is the same.\<close>

lemma new_table:
  assumes "pd_inv kend (x # xs) pd s" "\<not> has_tab (mem s) pd va" "kmem_inv kend xs t"
    and "mem t = store32 (pd + 4 * PDX va) (v2p x OR PTE_P OR PTE_W OR PTE_U) (memset x 0 PGSIZE (mem s))"
  shows "pd_inv kend xs pd t" "has_tab (mem t) pd va" "tab (mem t) pd va = x" "pte (mem t) pd vb = pte (mem s) pd vb"
    "tabs (mem t) pd = insert x (tabs (mem s) pd)" "has_tab (mem t) pd vb \<longleftrightarrow> PDX va = PDX vb \<or> has_tab (mem s) pd vb"
proof -
  let ?E = "v2p x OR PTE_P OR PTE_W OR PTE_U" and ?m = "memset x 0 PGSIZE (mem s)"
  have inv: "page_ok kend pd" "pd \<noteq> x" "page_ok kend x" "x \<notin> set xs" "tabs_apart (mem s) pd"
    using assms(1) by (auto simp: pd_inv_def kmem_inv_def)
  have old: "page_ok kend (tab (mem s) pd w)" "tab (mem s) pd w \<notin> set xs" "tab (mem s) pd w \<noteq> pd" "tab (mem s) pd w \<noteq> x"
    if "has_tab (mem s) pd w" for w using assms(1) that by (auto simp: pd_inv_def)
  have pm: "page_only x (mem s) ?m" using page_only_memset [of 0 PGSIZE x "mem s" 0] by (simp add: PGSIZE_def)
  have ps: "page_only pd ?m (mem t)" unfolding assms(4) by (rule page_only_store32 [OF entry_fits(1)])
  have "load32 ?m (pd + 4 * PDX w) = load32 (mem s) (pd + 4 * PDX w)" for w
    by (rule page_only_load32 [OF pm page_aligned [OF inv(1)] page_aligned [OF inv(3)] inv(2) entry_fits(1)])
  then have e: "pde (mem t) pd w = (if PDX va = PDX w then ?E else pde (mem s) pd w)" for w
    unfolding pde_def assms(4) load32_slot [OF index_less(1) index_less(1)] by simp
  have "PTE_ADDR ?E = v2p x" using PTE_ADDR_or_flags(1) [OF v2p_page [OF inv(3)], of "PTE_P OR PTE_W OR PTE_U"]
    by (simp add: PTE_P_def PTE_W_def PTE_U_def or.assoc)
  moreover have "bit (?E AND PTE_P) 0" by (simp add: bit_simps PTE_P_def)
  moreover have "\<not> bit (0 :: u32) 0" by simp
  ultimately have "?E AND PTE_P \<noteq> 0" by metis
  moreover have "PTE_ADDR ?E = v2p x" by fact
  ultimately have h: "has_tab (mem t) pd w \<longleftrightarrow> PDX va = PDX w \<or> has_tab (mem s) pd w"
    "tab (mem t) pd w = (if PDX va = PDX w then x else tab (mem s) pd w)" for w
    by (auto simp: has_tab_def tab_def e)
  then show "has_tab (mem t) pd va" "tab (mem t) pd va = x" "has_tab (mem t) pd vb \<longleftrightarrow> PDX va = PDX vb \<or> has_tab (mem s) pd vb" by simp_all
  have "tabs_apart (mem t) pd"
    unfolding tabs_apart_def h using old(4) inv(5) [unfolded tabs_apart_def] by metis
  then show "pd_inv kend xs pd t" using assms(1,3) inv old by (auto simp: pd_inv_def h)
  have none: "\<not> has_tab (mem s) pd w" if "PDX va = PDX w" for w using assms(2) that by (simp add: has_tab_def pde_def)
  then show "tabs (mem t) pd = insert x (tabs (mem s) pd)" by (auto simp: tabs_def h)
  have "load32 (mem t) (k + 4 * PTX vb) = load32 ?m (k + 4 * PTX vb)" if "page_ok kend k" "k \<noteq> pd" for k
    by (rule page_only_load32 [OF ps page_aligned [OF that(1)] page_aligned [OF inv(1)] that(2) entry_fits(2)])
  moreover have "load32 ?m (k + 4 * PTX vb) = load32 (mem s) (k + 4 * PTX vb)" if "page_ok kend k" "k \<noteq> x" for k
    by (rule page_only_load32 [OF pm page_aligned [OF that(1)] page_aligned [OF inv(3)] that(2) entry_fits(2)])
  ultimately show "pte (mem t) pd vb = pte (mem s) pd vb"
    using none [of vb] inv old [of vb] load32_zeroed [OF index_less(2), of x "mem s" vb] by (auto simp: pte_def h)
qed

text \<open>\<^verbatim>\<open>walkpgdir\<close> with allocation finds or makes the entry; without free pages it gives up.\<close>

lemma walk_alloc:
  fixes s :: "'a vm_st_scheme"
  assumes "pd_inv kend xs pd s" "lockset L s" "LKmem \<notin> set L"
  shows "returns (walkpgdir pd va True s) (\<lambda>(p, t). lockset L t \<and> kmem_st.more t = kmem_st.more s \<and> use_lock t = use_lock s \<and>
     (p = 0 \<and> xs = [] \<and> pd_inv kend [] pd t \<and> mem t = mem s \<or>
      p \<noteq> 0 \<and> (\<exists>ys. (ys = xs \<or> ys = tl xs) \<and> pd_inv kend ys pd t \<and> tabs (mem t) pd \<union> set ys = tabs (mem s) pd \<union> set xs) \<and> has_tab (mem t) pd va \<and> p = tab (mem t) pd va + 4 * PTX va \<and>
        (\<forall>vb. pte (mem t) pd vb = pte (mem s) pd vb) \<and> pages_only (insert pd (set xs)) (mem s) (mem t) \<and>
        (\<forall>vb. has_tab (mem t) pd vb \<longrightarrow> has_tab (mem s) pd vb \<or> PDX va = PDX vb)))"
proof (cases "has_tab (mem s) pd va")
  case True
  have "page_ok kend (tab (mem s) pd va)" using assms(1) True by (simp add: pd_inv_def)
  then have "tab (mem s) pd va + 4 * PTX va \<noteq> 0" by (rule page_offset_nonzero) (use entry_fits(2) [of va] in simp)
  moreover have "walkpgdir pd va True s = Inr (tab (mem s) pd va + 4 * PTX va, s)"
    using True by (simp add: walkpgdir_def Let_def has_tab_def pde_def tab_def)
  ultimately show ?thesis using True assms by auto
next
  case False
  let ?pde = "pd + 4 * PDX va"
  have km: "kmem_inv kend xs s" using assms(1) by (simp add: pd_inv_def)
  obtain r t where k: "kalloc s = Inr (r, t)" "r = (case xs of [] \<Rightarrow> 0 | x # _ \<Rightarrow> x)" "kmem_inv kend (tl xs) t" "lockset L t"
    "use_lock t = use_lock s" "kmem_st.more t = kmem_st.more s" "mem t = mem s"
    using kalloc_pop [OF assms(2,3) km] by (auto elim!: returnsE)
  have w: "walkpgdir pd va True s = kbind (kalloc s) (\<lambda>(pgtab, s).
      if pgtab = 0 then Inr (0, s)
      else let s = s\<lparr>mem := memset pgtab 0 PGSIZE (mem s)\<rparr>;
               s = s\<lparr>mem := store32 ?pde (v2p pgtab OR PTE_P OR PTE_W OR PTE_U) (mem s)\<rparr>
           in Inr (pgtab + 4 * PTX va, s))"
    using False by (simp add: walkpgdir_def Let_def has_tab_def pde_def)
  show ?thesis
  proof (cases xs)
    case Nil
    then have "pd_inv kend [] pd t" using assms(1) k by (simp add: pd_inv_def)
    then show ?thesis using Nil k w by simp
  next
    case (Cons x xs')
    have inv: "page_ok kend x" "x \<notin> set xs'" "pd \<notin> set xs'" "page_ok kend pd" using assms(1) by (auto simp: Cons pd_inv_def kmem_inv_def)
    let ?m = "store32 ?pde (v2p x OR PTE_P OR PTE_W OR PTE_U) (memset x 0 PGSIZE (mem s))"
    let ?u = "t\<lparr>mem := ?m\<rparr>"
    have po: "page_only x (mem s) (memset x 0 PGSIZE (mem s))" "page_only pd (memset x 0 PGSIZE (mem s)) ?m"
      using page_only_memset [of 0 PGSIZE x "mem s" 0] page_only_store32 [OF entry_fits(1)] by (simp_all add: PGSIZE_def)
    have "kmem_inv kend xs' (t\<lparr>mem := memset x 0 PGSIZE (mem s)\<rparr>)"
      by (rule kmem_inv_page_only [of _ _ t x]) (use k(3,7) inv po(1) page_aligned in \<open>auto simp: Cons\<close>)
    then have "kmem_inv kend xs' ?u"
      by (rule kmem_inv_page_only [of _ _ "t\<lparr>mem := memset x 0 PGSIZE (mem s)\<rparr>" pd]) (use inv po(2) page_aligned in auto)
    note n = new_table [OF assms(1) [unfolded Cons] False this]
    have "pages_only (insert pd (set xs)) (mem s) ?m"
      using pages_only_trans [OF page_only_pages [OF po(1)] page_only_pages [OF po(2)], of "insert pd (set xs)"] by (simp add: Cons)
    moreover have "x + 4 * PTX va \<noteq> 0" by (rule page_offset_nonzero [OF inv(1)]) (use entry_fits(2) [of va] in simp)
    moreover have "walkpgdir pd va True s = Inr (x + 4 * PTX va, ?u)" using w k Cons inv(1) by (simp add: Let_def page_ok_def)
    ultimately show ?thesis using n k(4-6) Cons by auto
  qed
qed

section \<open>Runs of pages\<close>

definition in_run :: "u32 \<Rightarrow> nat \<Rightarrow> u32 \<Rightarrow> bool" where
  "in_run a j vb \<longleftrightarrow> unat a \<le> unat vb \<and> unat vb < unat a + 4096 * j"

lemma page_unat: "a mod PGSIZE = 0 \<Longrightarrow> unat a mod 4096 = 0" for a :: u32
proof -
  assume "a mod PGSIZE = 0"
  moreover have "unat a mod 4096 = unat (a mod PGSIZE)" by (simp add: PGSIZE_def unat_mod)
  ultimately show ?thesis by simp
qed

lemma rounddown_page: "a mod PGSIZE = 0 \<Longrightarrow> PGROUNDDOWN a = a"
  using bits_ident [of 12 a] by (simp add: PGROUNDDOWN_bits page_take_bit)

lemma same_page_run:
  assumes "a mod PGSIZE = 0"
  shows "same_page a vb \<longleftrightarrow> in_run a 1 vb"
proof -
  have "unat a mod 4096 = 0" using page_unat [OF assms] .
  then have u: "unat a div 4096 * 4096 = unat a" by (simp add: minus_mod_eq_div_mult [symmetric])
  have "same_page a vb \<longleftrightarrow> unat a = unat vb div 4096 * 4096"
    by (simp add: same_page_def word_unat_eq_iff unat_PGROUNDDOWN u)
  also have "\<dots> \<longleftrightarrow> in_run a 1 vb" using \<open>unat a mod 4096 = 0\<close> by (auto simp: in_run_def)
  finally show ?thesis .
qed

lemma in_run_Suc:
  assumes "a mod PGSIZE = 0" "unat a + 4096 * Suc j \<le> 2 ^ 32"
  shows "in_run a (Suc j) vb \<longleftrightarrow> same_page a vb \<or> in_run (a + PGSIZE) j vb"
proof (cases "j = 0")
  case True
  then show ?thesis using same_page_run [OF assms(1), of vb] by (auto simp: in_run_def)
next
  case False
  then have "unat a + 4096 < 2 ^ 32" using assms(2) by simp
  then have "unat (a + PGSIZE) = unat a + 4096" by (simp add: PGSIZE_def unat_plus_if_size word_size)
  then show ?thesis using same_page_run [OF assms(1), of vb] by (auto simp: in_run_def)
qed

text \<open>What mapping a run of \<open>n\<close> pages leaves: the first \<open>j\<close> of them are mapped, all of them on success, and
  on failure there is no free page left; nothing else is mapped or unmapped, memory changes only in
  the directory, its tables and pages that were free, and new tables are for addresses of the run.\<close>

definition mapped ::
  "u32 \<Rightarrow> u32 list \<Rightarrow> u32 list \<Rightarrow> u32 \<Rightarrow> u32 \<Rightarrow> nat \<Rightarrow> u32 \<Rightarrow> u32 \<Rightarrow> 'a kmem_st_scheme \<Rightarrow> int \<Rightarrow> 'a kmem_st_scheme \<Rightarrow> bool" where
  "mapped kend xs ys pd a n pa perm s r t \<longleftrightarrow> pd_inv kend ys pd t \<and> set ys \<subseteq> set xs \<and>
     (\<exists>j. (r = 0 \<and> j = n \<or> r = -1 \<and> j < n \<and> ys = []) \<and>
        (\<forall>vb. pte (mem t) pd vb = (if in_run a j vb then (pa + (PGROUNDDOWN vb - a)) OR perm OR PTE_P else pte (mem s) pd vb))) \<and>
     pages_only (insert pd (set xs \<union> tabs (mem s) pd)) (mem s) (mem t) \<and> tabs (mem t) pd \<union> set ys = tabs (mem s) pd \<union> set xs \<and>
     (\<forall>vb. has_tab (mem t) pd vb \<longrightarrow> has_tab (mem s) pd vb \<or> (\<exists>va. in_run a n va \<and> PDX va = PDX vb))"

lemma map_one:
  fixes s :: "'a vm_st_scheme"
  assumes "pd_inv kend xs pd s" "lockset L s" "LKmem \<notin> set L" "a mod PGSIZE = 0" "pte (mem s) pd a AND PTE_P = 0"
  obtains t where "walkpgdir pd a True s = Inr (0, t)" "lockset L t" "kmem_st.more t = kmem_st.more s"
      "\<And>n. mapped kend xs [] pd a (Suc n) pa perm s (-1) t"
  | p t ys where "walkpgdir pd a True s = Inr (p, t)" "p \<noteq> 0" "load32 (mem t) p AND PTE_P = 0"
      "lockset L (t\<lparr>mem := store32 p (pa OR perm OR PTE_P) (mem t)\<rparr>)" "kmem_st.more t = kmem_st.more s"
      "mapped kend xs ys pd a 1 pa perm s 0 (t\<lparr>mem := store32 p (pa OR perm OR PTE_P) (mem t)\<rparr>)"
proof -
  obtain p t where w: "walkpgdir pd a True s = Inr (p, t)" "lockset L t" "kmem_st.more t = kmem_st.more s"
    "p = 0 \<and> xs = [] \<and> pd_inv kend [] pd t \<and> mem t = mem s \<or>
      p \<noteq> 0 \<and> (\<exists>ys. (ys = xs \<or> ys = tl xs) \<and> pd_inv kend ys pd t \<and> tabs (mem t) pd \<union> set ys = tabs (mem s) pd \<union> set xs) \<and> has_tab (mem t) pd a \<and> p = tab (mem t) pd a + 4 * PTX a \<and>
        (\<forall>vb. pte (mem t) pd vb = pte (mem s) pd vb) \<and> pages_only (insert pd (set xs)) (mem s) (mem t) \<and>
        (\<forall>vb. has_tab (mem t) pd vb \<longrightarrow> has_tab (mem s) pd vb \<or> PDX a = PDX vb)"
    using walk_alloc [OF assms(1-3), of a] by (auto elim!: returnsE)
  show ?thesis
  proof (cases "p = 0")
    case True
    then have "mapped kend xs [] pd a (Suc n) pa perm s (-1) t" for n
      using w(4) by (auto simp: mapped_def in_run_def intro!: exI [of _ 0])
    then show ?thesis using that(1) w(1-3) True by blast
  next
    case False
    then obtain ys where ys: "ys = xs \<or> ys = tl xs" "pd_inv kend ys pd t" and h: "has_tab (mem t) pd a" "p = tab (mem t) pd a + 4 * PTX a"
      "\<forall>vb. pte (mem t) pd vb = pte (mem s) pd vb" "pages_only (insert pd (set xs)) (mem s) (mem t)" "tabs (mem t) pd \<union> set ys = tabs (mem s) pd \<union> set xs"
      "\<forall>vb. has_tab (mem t) pd vb \<longrightarrow> has_tab (mem s) pd vb \<or> PDX a = PDX vb"
      using w(4) by auto
    let ?u = "t\<lparr>mem := store32 p (pa OR perm OR PTE_P) (mem t)\<rparr>"
    note st = pte_store [OF ys(2) h(1), of ?u "pa OR perm OR PTE_P", simplified, folded h(2)]
    have "load32 (mem t) p = pte (mem t) pd a" using h(1,2) by (simp add: pte_def)
    then have np: "load32 (mem t) p AND PTE_P = 0" using h(3) assms(5) by simp
    have sub: "set ys \<subseteq> set xs" using ys(1) by (cases xs) auto
    have e: "pa + (PGROUNDDOWN vb - a) = pa" if "same_page a vb" for vb
      using that rounddown_page [OF assms(4)] by (simp add: same_page_def)
    have ka: "tab (mem t) pd a \<in> insert pd (set xs \<union> tabs (mem s) pd)" using h(1,5) by (auto simp: tabs_def)
    have "pages_only (insert pd (set xs \<union> tabs (mem s) pd)) (mem s) (mem ?u)"
      using pages_only_trans [OF pages_only_mono [OF h(4)] page_only_pages [OF st(5) ka]] by auto
    moreover have "tabs (mem ?u) pd \<union> set ys = tabs (mem s) pd \<union> set xs" using h(5) st(3,4) by (simp add: tabs_def)
    moreover have "pte (mem ?u) pd vb = (if in_run a 1 vb then (pa + (PGROUNDDOWN vb - a)) OR perm OR PTE_P else pte (mem s) pd vb)" for vb
      using st(2) [of vb] h(3) e [of vb] same_page_run [OF assms(4), of vb] by simp
    moreover have "in_run a 1 a" by (simp add: in_run_def)
    then have "\<forall>vb. has_tab (mem ?u) pd vb \<longrightarrow> has_tab (mem s) pd vb \<or> (\<exists>va. in_run a 1 va \<and> PDX va = PDX vb)" using h(6) st(3) by auto
    ultimately have "mapped kend xs ys pd a 1 pa perm s 0 ?u" using st(1) sub unfolding mapped_def by blast
    then show ?thesis using that(2) [OF w(1) False np] w(2,3) by simp
  qed
qed

lemma mapped_compose:
  assumes "mapped kend xs ys pd a 1 pa perm s 0 u" "mapped kend ys zs pd (a + PGSIZE) n (pa + PGSIZE) perm u r t"
    and "a mod PGSIZE = 0" "unat a + 4096 * Suc n \<le> 2 ^ 32"
  shows "mapped kend xs zs pd a (Suc n) pa perm s r t"
proof -
  have h: "has_tab (mem u) pd vb \<Longrightarrow> has_tab (mem s) pd vb \<or> (\<exists>va. in_run a 1 va \<and> PDX va = PDX vb)"
    "has_tab (mem t) pd vb \<Longrightarrow> has_tab (mem u) pd vb \<or> (\<exists>va. in_run (a + PGSIZE) n va \<and> PDX va = PDX vb)" for vb
    using assms(1,2) by (auto simp: mapped_def)
  have "in_run a (Suc n) va" if "in_run a 1 va \<or> in_run (a + PGSIZE) n va" for va
    using that in_run_Suc [OF assms(3,4), of va] same_page_run [OF assms(3), of va] by blast
  then have tb: "\<forall>vb. has_tab (mem t) pd vb \<longrightarrow> has_tab (mem s) pd vb \<or> (\<exists>va. in_run a (Suc n) va \<and> PDX va = PDX vb)" using h by blast
  have u: "set ys \<subseteq> set xs" "pages_only (insert pd (set xs \<union> tabs (mem s) pd)) (mem s) (mem u)" "tabs (mem u) pd \<union> set ys = tabs (mem s) pd \<union> set xs"
    "\<And>vb. pte (mem u) pd vb = (if same_page a vb then (pa + (PGROUNDDOWN vb - a)) OR perm OR PTE_P else pte (mem s) pd vb)"
    using assms(1) same_page_run [OF assms(3)] by (auto simp: mapped_def)
  obtain j where t: "pd_inv kend zs pd t" "set zs \<subseteq> set ys" "r = 0 \<and> j = n \<or> r = -1 \<and> j < n \<and> zs = []"
    "\<And>vb. pte (mem t) pd vb = (if in_run (a + PGSIZE) j vb then (pa + PGSIZE + (PGROUNDDOWN vb - (a + PGSIZE))) OR perm OR PTE_P else pte (mem u) pd vb)"
    "pages_only (insert pd (set ys \<union> tabs (mem u) pd)) (mem u) (mem t)" "tabs (mem t) pd \<union> set zs = tabs (mem u) pd \<union> set ys"
    using assms(2) by (auto simp: mapped_def)
  have "unat a + 4096 * Suc j \<le> 2 ^ 32" using t(3) assms(4) by auto
  note run = in_run_Suc [OF assms(3) this]
  have "pte (mem t) pd vb = (if in_run a (Suc j) vb then (pa + (PGROUNDDOWN vb - a)) OR perm OR PTE_P else pte (mem s) pd vb)" for vb
    unfolding t(4) u(4) run by (simp add: algebra_simps)
  moreover have "pages_only (insert pd (set xs \<union> tabs (mem s) pd)) (mem s) (mem t)"
    by (rule pages_only_trans [OF u(2) pages_only_mono [OF t(5)]]) (use u(1,3) in auto)
  moreover have "tabs (mem t) pd \<union> set zs = tabs (mem s) pd \<union> set xs" "set zs \<subseteq> set xs" using t(2,6) u(1,3) by auto
  moreover have "r = 0 \<and> Suc j = Suc n \<or> r = -1 \<and> Suc j < Suc n \<and> zs = []" using t(3) by auto
  ultimately show ?thesis using t(1) tb unfolding mapped_def by blast
qed

lemma mappages_loop_maps:
  fixes s :: "'a vm_st_scheme"
  assumes "pd_inv kend xs pd s" "lockset L s" "LKmem \<notin> set L" "a mod PGSIZE = 0" "unat a + 4096 * Suc n \<le> 2 ^ 32"
    and "lst = a + of_nat n * PGSIZE" "n < fuel" "\<forall>vb. in_run a (Suc n) vb \<longrightarrow> pte (mem s) pd vb AND PTE_P = 0"
  shows "returns (mappages_loop fuel pd a lst pa perm s) (\<lambda>(r, t). lockset L t \<and> kmem_st.more t = kmem_st.more s \<and>
     (\<exists>ys. mapped kend xs ys pd a (Suc n) pa perm s r t))"
  using assms
proof (induction n arbitrary: fuel a pa s xs)
  case (0 fuel a pa s xs)
  obtain f where f: "fuel = Suc f" using 0(7) by (cases fuel) auto
  have "in_run a 1 a" by (simp add: in_run_def)
  then have "pte (mem s) pd a AND PTE_P = 0" using 0(8) by simp
  then show ?case
    by (rule map_one [OF 0(1-4), where pa = pa and perm = perm]) (use f 0(6) in \<open>auto simp: Let_def\<close>)
next
  case (Suc n)
  obtain f where f: "fuel = Suc f" using Suc.prems(7) by (cases fuel) auto
  have "in_run a (Suc (Suc n)) a" by (simp add: in_run_def)
  then have np: "pte (mem s) pd a AND PTE_P = 0" using Suc.prems(8) by simp
  have u: "unat (a + PGSIZE) = unat a + 4096" using Suc.prems(5) by (simp add: PGSIZE_def unat_plus_if_size word_size)
  have pg: "(a + PGSIZE) mod PGSIZE = 0" using page_diff(2) [OF Suc.prems(4), of PGSIZE] by (simp add: PGSIZE_def)
  have ne: "a \<noteq> lst"
  proof -
    have "Suc n * 4096 < 2 ^ 32" using Suc.prems(5) by simp
    then have "unat (of_nat (Suc n * 4096) :: u32) = Suc n * 4096" by (rule unat_of_nat32)
    moreover have "of_nat (Suc n) * PGSIZE = (of_nat (Suc n * 4096) :: u32)" by (simp add: PGSIZE_def)
    ultimately have "of_nat (Suc n) * PGSIZE \<noteq> (0 :: u32)" by (metis mult_is_0 nat.distinct(1) numeral_eq_Suc unat_0)
    then show ?thesis using Suc.prems(6) by (metis add_cancel_right_right)
  qed
  show ?case
  proof (rule map_one [OF Suc.prems(1-4) np, where pa = pa and perm = perm])
    fix t assume "walkpgdir pd a True s = Inr (0, t)" "lockset L t" "kmem_st.more t = kmem_st.more s"
      "\<And>n. mapped kend xs [] pd a (Suc n) pa perm s (-1) t"
    then show ?thesis using f by auto
  next
    fix p and t :: "'a vm_st_scheme" and ys
    let ?u = "t\<lparr>mem := store32 p (pa OR perm OR PTE_P) (mem t)\<rparr>"
    assume a: "walkpgdir pd a True s = Inr (p, t)" "p \<noteq> 0" "load32 (mem t) p AND PTE_P = 0" "lockset L ?u" "kmem_st.more t = kmem_st.more s"
      "mapped kend xs ys pd a 1 pa perm s 0 ?u"
    have m: "pd_inv kend ys pd ?u" "\<And>vb. pte (mem ?u) pd vb = (if same_page a vb then (pa + (PGROUNDDOWN vb - a)) OR perm OR PTE_P else pte (mem s) pd vb)"
      using a(6) same_page_run [OF Suc.prems(4)] by (auto simp: mapped_def)
    have "returns (mappages_loop f pd (a + PGSIZE) lst (pa + PGSIZE) perm ?u) (\<lambda>(r, t'). lockset L t' \<and> kmem_st.more t' = kmem_st.more ?u \<and>
       (\<exists>zs. mapped kend ys zs pd (a + PGSIZE) (Suc n) (pa + PGSIZE) perm ?u r t'))"
    proof (rule Suc.IH [OF m(1) a(4) Suc.prems(3) pg])
      show "unat (a + PGSIZE) + 4096 * Suc n \<le> 2 ^ 32" "n < f" using u Suc.prems(5,7) f by simp_all
      show "lst = a + PGSIZE + of_nat n * PGSIZE" using Suc.prems(6) by (simp add: algebra_simps)
      show "\<forall>vb. in_run (a + PGSIZE) (Suc n) vb \<longrightarrow> pte (mem ?u) pd vb AND PTE_P = 0"
        using Suc.prems(8) same_page_run [OF Suc.prems(4)] u unfolding m(2) by (auto simp: in_run_def)
    qed
    then have "returns (mappages_loop f pd (a + PGSIZE) lst (pa + PGSIZE) perm ?u) (\<lambda>(r, t'). lockset L t' \<and> kmem_st.more t' = kmem_st.more s \<and>
       (\<exists>zs. mapped kend xs zs pd a (Suc (Suc n)) pa perm s r t'))"
      by (rule returns_mono) (use a(5) mapped_compose [OF a(6) _ Suc.prems(4,5)] in auto)
    then show ?thesis using f a(1-3) ne by (simp add: Let_def)
  qed
qed

lemma run_fits: "A \<le> B \<Longrightarrow> B < 2 ^ 20 \<Longrightarrow> A * 4096 + 4096 * Suc (B - A) \<le> (2 ^ 32 :: nat)"
  by simp

lemma run_top: "A \<le> B \<Longrightarrow> v < A * 4096 + 4096 * Suc (B - A) \<Longrightarrow> v div 4096 \<le> (B :: nat)"
  by simp

lemma mappages_run:
  fixes s :: "'a vm_st_scheme"
  assumes "pd_inv kend xs pd s" "lockset L s" "LKmem \<notin> set L" "0 < sz" "unat va + unat sz \<le> 2 ^ 32"
    and "\<forall>vb. PGROUNDDOWN va \<le> vb \<and> PGROUNDDOWN vb \<le> va + sz - 1 \<longrightarrow> pte (mem s) pd vb AND PTE_P = 0"
  shows "returns (mappages pd va sz pa perm s) (\<lambda>(r, t). lockset L t \<and> kmem_st.more t = kmem_st.more s \<and>
     (\<exists>ys. mapped kend xs ys pd (PGROUNDDOWN va) (Suc ((unat va + unat sz - 1) div 4096 - unat va div 4096)) pa perm s r t))"
proof -
  let ?a = "PGROUNDDOWN va" and ?l = "va + sz - 1"
  let ?n = "(unat va + unat sz - 1) div 4096 - unat va div 4096"
  have sz: "0 < unat sz" using assms(4) by (simp add: word_less_nat_alt)
  have ul: "unat ?l = unat va + unat sz - 1"
  proof -
    define y where "y = sz - 1"
    have "sz \<noteq> 0" using assms(4) by auto
    then have uy: "unat y = unat sz - 1" unfolding y_def by (rule unat_minus_one)
    have "unat va + unat y < 2 ^ 32" using assms(5) sz uy by simp
    then have "unat (va + y) = unat va + unat y" by (simp add: unat_plus_if_size word_size)
    moreover have e: "va + sz - 1 = va + y" by (simp add: y_def)
    ultimately show ?thesis unfolding e using uy sz by simp
  qed
  have ua: "unat ?a = unat va div 4096 * 4096" by (rule unat_PGROUNDDOWN)
  have le: "unat va div 4096 \<le> (unat va + unat sz - 1) div 4096" by (rule div_le_mono) (use sz in simp)
  have top: "(unat va + unat sz - 1) div 4096 < 2 ^ 20" using assms(5) sz by simp
  have aa: "?a mod PGSIZE = 0" unfolding page_shifted PGROUNDDOWN_bits by blast
  have fit: "unat ?a + 4096 * Suc ?n \<le> 2 ^ 32" unfolding ua by (rule run_fits [OF le top])
  have "unat (PGROUNDDOWN ?l) = unat ?a + ?n * 4096" unfolding unat_PGROUNDDOWN ul ua using le by (simp add: diff_mult_distrib)
  then have "PGROUNDDOWN ?l = of_nat (unat ?a + ?n * 4096)" by (rule eq_of_unat)
  then have lst: "PGROUNDDOWN ?l = ?a + of_nat ?n * PGSIZE" by (simp add: PGSIZE_def)
  have run: "pte (mem s) pd vb AND PTE_P = 0" if "in_run ?a (Suc ?n) vb" for vb
  proof -
    have b: "unat va div 4096 * 4096 \<le> unat vb" "unat vb < unat va div 4096 * 4096 + 4096 * Suc ?n" using that by (simp_all add: in_run_def ua)
    then have "unat vb div 4096 \<le> (unat va + unat sz - 1) div 4096" by (intro run_top [OF le])
    then have "unat vb div 4096 * 4096 \<le> unat va + unat sz - 1" by (meson div_times_less_eq_dividend mult_le_mono1 order_trans)
    then show ?thesis using assms(6) b(1) by (simp add: word_le_nat_alt ua ul unat_PGROUNDDOWN)
  qed
  show ?thesis unfolding mappages_def
    by (rule mappages_loop_maps [OF assms(1-3) aa fit lst]) (use top run in auto)
qed

section \<open>User memory\<close>

definition user_pte :: "u32 \<Rightarrow> bool" where
  "user_pte e \<longleftrightarrow> e AND PTE_P \<noteq> 0 \<and> e AND PTE_U \<noteq> 0"

definition frame :: "mem \<Rightarrow> u32 \<Rightarrow> u32 \<Rightarrow> u32" where
  "frame m pd va = p2v (PTE_ADDR (pte m pd va))"

text \<open>The bytes a process sees.\<close>

definition user_byte :: "mem \<Rightarrow> u32 \<Rightarrow> u32 \<Rightarrow> u8 option" where
  "user_byte m pd va = (if user_pte (pte m pd va) then Some (m (frame m pd va + (va AND 0xFFF))) else None)"

text \<open>The pages of a process are pages of the kernel's memory other than the directory and its tables, and each is mapped once.\<close>

definition user_inv :: "mem \<Rightarrow> u32 \<Rightarrow> bool" where
  "user_inv m pd \<longleftrightarrow> (\<forall>va. user_pte (pte m pd va) \<longrightarrow> frame m pd va \<noteq> 0 \<and> frame m pd va \<noteq> pd \<and> frame m pd va \<notin> tabs m pd) \<and>
     (\<forall>va vb. user_pte (pte m pd va) \<longrightarrow> user_pte (pte m pd vb) \<longrightarrow> frame m pd va = frame m pd vb \<longrightarrow> same_page va vb)"

lemma frame_page: "frame m pd va mod PGSIZE = 0"
proof -
  have "PTE_ADDR e mod PGSIZE = 0" for e unfolding page_shifted PTE_ADDR_bits by blast
  then show ?thesis by (simp add: frame_def p2v_def page_diff(2) KERNBASE_page)
qed

lemma offset_less: "unat (va AND 0xFFF :: u32) = unat va mod 4096"
  by (simp add: fff_mask unat_mod take_bit_eq_mod flip: take_bit_eq_mask)

lemma page_split: "PGROUNDDOWN va + (va AND 0xFFF) = va"
  using bits_ident [of 12 va] by (simp add: PGROUNDDOWN_bits fff_mask flip: take_bit_eq_mask)

lemma page_addr_eq:
  assumes "k mod PGSIZE = 0" "l mod PGSIZE = 0" "i < PGSIZE" "j < PGSIZE" "k + i = l + j"
  shows "k = l \<and> i = j"
proof -
  have "k = l"
  proof (rule ccontr)
    assume "k \<noteq> l"
    then have "PGSIZE \<le> k + i - l" using page_disjoint [OF assms(1,2) _ assms(3)] by simp
    then show False using assms(4,5) by simp
  qed
  then show ?thesis using assms(5) by simp
qed

lemma store_bytes_eq:
  assumes "length bs < 2 ^ 32"
  shows "store_bytes a bs m = (\<lambda>x. if unat (x - a) < length bs then bs ! unat (x - a) else m x)"
  using assms
proof (induction bs arbitrary: a m)
  case (Cons b bs)
  have "(if unat (x - (a + 1)) < length bs then bs ! unat (x - (a + 1)) else (m(a := b)) x) =
      (if unat (x - a) < Suc (length bs) then (b # bs) ! unat (x - a) else m x)" for x
  proof (cases "x = a")
    case True
    have "unat (- 1 :: u32) = 2 ^ 32 - 1" by (simp add: unsigned_minus_1_eq_mask mask_eq_exp_minus_1)
    then show ?thesis using True Cons.prems by simp
  next
    case False
    then have "x - a \<noteq> 0" by simp
    then have u: "unat (x - a - 1) = unat (x - a) - 1" "0 < unat (x - a)" using unat_minus_one [of "x - a"] by (simp_all add: unat_gt_0)
    have e: "x - (a + 1) = x - a - 1" by (simp only: diff_diff_eq)
    show ?thesis unfolding e u(1) using False u(2) by (auto simp: nth_Cons')
  qed
  then show ?case using Cons by simp
qed simp

text \<open>A store into the page of a user address leaves the page tables alone.\<close>

definition pd_pages :: "u32 \<Rightarrow> mem \<Rightarrow> u32 \<Rightarrow> bool" where
  "pd_pages kend m pd \<longleftrightarrow> page_ok kend pd \<and> (\<forall>k\<in>tabs m pd. page_ok kend k)"

lemma user_store:
  assumes "pd_pages kend (mem s) pd" "user_inv (mem s) pd" "user_pte (pte (mem s) pd va)" "page_only (frame (mem s) pd va) (mem s) (mem t)"
  shows "pte (mem t) pd vb = pte (mem s) pd vb" "pd_pages kend (mem t) pd" "user_inv (mem t) pd" "has_tab (mem t) pd vb = has_tab (mem s) pd vb"
proof -
  let ?k = "frame (mem s) pd va"
  have f: "?k \<noteq> pd" "?k \<notin> tabs (mem s) pd" using assms(2,3) by (auto simp: user_inv_def)
  have pd: "page_ok kend pd" using assms(1) by (simp add: pd_pages_def)
  have e: "pde (mem t) pd w = pde (mem s) pd w" for w unfolding pde_def
    by (rule page_only_load32 [OF assms(4) page_aligned [OF pd] frame_page f(1) [symmetric] entry_fits(1)])
  then have h: "has_tab (mem t) pd w = has_tab (mem s) pd w" "tab (mem t) pd w = tab (mem s) pd w" for w by (simp_all add: has_tab_def tab_def)
  then show "has_tab (mem t) pd vb = has_tab (mem s) pd vb" by simp
  have p: "pte (mem t) pd w = pte (mem s) pd w" for w
  proof (cases "has_tab (mem s) pd w")
    case True
    then have "tab (mem s) pd w \<noteq> ?k" "page_ok kend (tab (mem s) pd w)" using f(2) assms(1) by (auto simp: tabs_def pd_pages_def)
    then have "load32 (mem t) (tab (mem s) pd w + 4 * PTX w) = load32 (mem s) (tab (mem s) pd w + 4 * PTX w)"
      by (intro page_only_load32 [OF assms(4) _ frame_page _ entry_fits(2)]) (simp_all add: page_aligned)
    then show ?thesis by (simp add: pte_def h)
  qed (simp add: pte_def h)
  then show "pte (mem t) pd vb = pte (mem s) pd vb" .
  have tb: "tabs (mem t) pd = tabs (mem s) pd" by (simp add: tabs_def h)
  then show "pd_pages kend (mem t) pd" using assms(1) by (simp add: pd_pages_def)
  have "frame (mem t) pd w = frame (mem s) pd w" for w by (simp add: frame_def p)
  then show "user_inv (mem t) pd" using assms(2) by (simp only: user_inv_def p tb)
qed

lemma outside_page:
  assumes "unat off + n \<le> 4096" "PGSIZE \<le> a - k"
  shows "\<not> unat (a - (k + off)) < n"
proof -
  have "off \<le> a - k" using assms by (simp add: PGSIZE_def word_le_nat_alt)
  then have "unat (a - (k + off)) = unat (a - k) - unat off" using offset_sub [of off "a - k"] by (simp add: diff_diff_add)
  then show ?thesis using assms by (simp add: PGSIZE_def word_le_nat_alt)
qed

lemma page_only_bytes:
  assumes "unat off + length bs \<le> 4096"
  shows "page_only k m (store_bytes (k + off) bs m)"
proof -
  have l: "length bs < 2 ^ 32" using assms by simp
  show ?thesis using outside_page [OF assms] by (auto simp: page_only_def store_bytes_eq [OF l])
qed

lemma range_page: "a \<le> b \<Longrightarrow> b < a + n \<Longrightarrow> a mod 4096 + n \<le> 4096 \<Longrightarrow> b div 4096 = a div (4096 :: nat)"
proof (rule div_nat_eqI)
  assume a: "a \<le> b" "b < a + n" "a mod 4096 + n \<le> 4096"
  have e: "a = 4096 * (a div 4096) + a mod 4096" by simp
  show "4096 * (a div 4096) \<le> b" using a(1) e by linarith
  show "b < 4096 * Suc (a div 4096)" using a(2,3) e unfolding mult_Suc_right by linarith
qed

lemma same_page_div: "same_page va vb \<longleftrightarrow> unat va div 4096 = unat vb div 4096"
  by (simp add: same_page_def word_unat_eq_iff unat_PGROUNDDOWN)

lemma same_page_pte: "same_page va vb \<Longrightarrow> pte m pd va = pte m pd vb"
  by (simp add: same_page_index pte_def has_tab_def tab_def pde_def)

text \<open>The distance of two user addresses in the memory of the kernel.\<close>

lemma user_distance:
  assumes "user_inv m pd" "user_pte (pte m pd va)" "user_pte (pte m pd vb)" "unat va mod 4096 + n \<le> 4096"
  defines "d \<equiv> frame m pd vb + (vb AND 0xFFF) - (frame m pd va + (va AND 0xFFF))"
  shows "unat d < n \<longleftrightarrow> unat va \<le> unat vb \<and> unat vb < unat va + n" "unat d < n \<Longrightarrow> unat d = unat vb - unat va"
proof -
  have "(unat d < n \<longleftrightarrow> unat va \<le> unat vb \<and> unat vb < unat va + n) \<and> (unat d < n \<longrightarrow> unat d = unat vb - unat va)"
  proof (cases "same_page va vb")
    case True
    have "frame m pd va = frame m pd vb" using same_page_pte [OF True] by (simp add: frame_def)
    moreover have "PGROUNDDOWN va = PGROUNDDOWN vb" using True by (simp add: same_page_def)
    ultimately have d: "d = vb - va" using page_split [of va] page_split [of vb] unfolding d_def by (metis add_diff_cancel_left)
    show ?thesis
    proof (cases "unat va \<le> unat vb")
      case le: True
      then have "unat d = unat vb - unat va" unfolding d by (simp add: unat_sub_if')
      then show ?thesis using le by auto
    next
      case False
      have "unat va - unat vb < 4096" using True by (simp add: same_page_div)
      moreover have "unat d = 2 ^ 32 + unat vb - unat va" unfolding d using False by (simp add: unat_sub_if')
      ultimately show ?thesis using False assms(4) by auto
    qed
  next
    case False
    then have ne: "frame m pd vb \<noteq> frame m pd va" using assms(1-3) by (auto simp: user_inv_def)
    have "vb AND 0xFFF < PGSIZE" by (simp add: word_less_nat_alt offset_less PGSIZE_def)
    from page_disjoint [OF frame_page frame_page ne this] have "\<not> unat d < n"
      unfolding d_def using assms(4) by (intro outside_page) (simp_all add: offset_less)
    moreover have "\<not> (unat va \<le> unat vb \<and> unat vb < unat va + n)" using False range_page [OF _ _ assms(4), of "unat vb"] by (auto simp: same_page_div)
    ultimately show ?thesis by blast
  qed
  then show "unat d < n \<longleftrightarrow> unat va \<le> unat vb \<and> unat vb < unat va + n" "unat d < n \<Longrightarrow> unat d = unat vb - unat va" by blast+
qed

text \<open>One round of \<^verbatim>\<open>copyout\<close>: the bytes that go to the page of \<open>va\<close>.\<close>

lemma copyout_round:
  assumes "pd_pages kend (mem s) pd" "user_inv (mem s) pd" "user_pte (pte (mem s) pd va)" "unat va mod 4096 + length bs \<le> 4096"
    and "mem t = store_bytes (frame (mem s) pd va + (va AND 0xFFF)) bs (mem s)"
  shows "user_byte (mem t) pd vb =
    (if unat va \<le> unat vb \<and> unat vb < unat va + length bs then Some (bs ! (unat vb - unat va)) else user_byte (mem s) pd vb)"
proof -
  let ?k = "frame (mem s) pd va" and ?o = "va AND 0xFFF"
  have po: "page_only ?k (mem s) (mem t)" unfolding assms(5) using assms(4) by (intro page_only_bytes) (simp add: offset_less)
  note u = user_store [OF assms(1-3) po]
  have fr: "frame (mem t) pd vb = frame (mem s) pd vb" by (simp add: frame_def u(1))
  have l: "length bs < 2 ^ 32" using assms(4) by simp
  show ?thesis
  proof (cases "user_pte (pte (mem s) pd vb)")
    case True
    let ?x = "frame (mem s) pd vb + (vb AND 0xFFF)"
    note w = user_distance [OF assms(2,3) True assms(4)]
    have "mem t ?x = (if unat va \<le> unat vb \<and> unat vb < unat va + length bs then bs ! (unat vb - unat va) else mem s ?x)"
      unfolding assms(5) store_bytes_eq [OF l] using w by auto
    then show ?thesis using True by (simp add: user_byte_def u(1) fr)
  next
    case False
    have "\<not> (unat va \<le> unat vb \<and> unat vb < unat va + length bs)"
    proof
      assume "unat va \<le> unat vb \<and> unat vb < unat va + length bs"
      then have "same_page va vb" using range_page [OF _ _ assms(4), of "unat vb"] by (simp add: same_page_div)
      then show False using False assms(3) by (simp add: same_page_pte [of va vb])
    qed
    then show ?thesis using False by (simp add: user_byte_def u(1))
  qed
qed

lemma uva2ka_user:
  assumes "user_pte (pte (mem s) pd va)" "pd_pages kend (mem s) pd"
  shows "uva2ka pd va s = Inr (frame (mem s) pd va, s)"
proof -
  have h: "has_tab (mem s) pd va" using assms(1) by (auto simp: pte_def user_pte_def split: if_splits)
  then have "page_ok kend (tab (mem s) pd va)" using assms(2) by (auto simp: pd_pages_def tabs_def)
  then have "tab (mem s) pd va + 4 * PTX va \<noteq> 0" by (rule page_offset_nonzero) (use entry_fits(2) [of va] in simp)
  then show ?thesis using assms(1) h
    by (auto simp: uva2ka_def walkpgdir_def Let_def has_tab_def tab_def pde_def pte_def user_pte_def frame_def)
qed

definition stored :: "u32 \<Rightarrow> u32 \<Rightarrow> u8 list \<Rightarrow> mem \<Rightarrow> mem \<Rightarrow> bool" where
  "stored pd va bs m m' \<longleftrightarrow> (\<forall>vb. user_byte m' pd vb =
     (if unat va \<le> unat vb \<and> unat vb < unat va + length bs then Some (bs ! (unat vb - unat va)) else user_byte m pd vb))"

lemma stored_append:
  assumes "stored pd va bs m m1" "stored pd va' cs m1 m2" "cs \<noteq> [] \<Longrightarrow> unat va' = unat va + length bs"
  shows "stored pd va (bs @ cs) m m2"
proof (cases "cs = []")
  case False
  then show ?thesis using assms by (auto simp: stored_def nth_append)
qed (use assms in \<open>auto simp: stored_def\<close>)

lemma copyout_loop_stores:
  assumes "pd_pages kend (mem s) pd" "user_inv (mem s) pd" "unat va + length bs \<le> 2 ^ 32"
    and "\<forall>vb. unat va \<le> unat vb \<and> unat vb < unat va + length bs \<longrightarrow> user_pte (pte (mem s) pd vb)" "length bs \<le> fuel"
  shows "returns (copyout_loop fuel pd va bs s) (\<lambda>(r, t). r = 0 \<and> t = s\<lparr>mem := mem t\<rparr> \<and> stored pd va bs (mem s) (mem t))"
  using assms
proof (induction fuel pd va bs s rule: copyout_loop.induct)
  case (3 fuel pd va b bs s)
  let ?bs = "b # bs" and ?o = "va AND 0xFFF" and ?v = "PGROUNDDOWN va"
  have off: "va - ?v = ?o" using page_split [of va] by (metis add_diff_cancel_left')
  have sp: "same_page ?v va" by (simp add: same_page_div unat_PGROUNDDOWN)
  have us: "user_pte (pte (mem s) pd va)" using 3(5) by simp
  have ka: "uva2ka pd ?v s = Inr (frame (mem s) pd va, s)"
    using uva2ka_user [of s pd ?v kend] us 3(2) same_page_pte [OF sp] by (simp add: frame_def)
  have fz: "frame (mem s) pd va \<noteq> 0" using us 3(3) by (simp add: user_inv_def)
  have uo: "unat (PGSIZE - ?o) = 4096 - unat va mod 4096"
    by (subst unat_sub) (simp_all add: word_le_nat_alt offset_less PGSIZE_def less_imp_le)
  define n where "n = min (unat (PGSIZE - ?o)) (length ?bs)"
  have n: "0 < n" "n \<le> length ?bs" "unat va mod 4096 + n \<le> 4096" "drop n ?bs \<noteq> [] \<Longrightarrow> n = 4096 - unat va mod 4096"
    using mod_less_divisor [of 4096 "unat va"] by (auto simp: n_def uo)
  let ?s = "s\<lparr>mem := store_bytes (frame (mem s) pd va + ?o) (take n ?bs) (mem s)\<rparr>"
  have fit: "unat va mod 4096 + length (take n ?bs) \<le> 4096" using n by simp
  have st: "stored pd va (take n ?bs) (mem s) (mem ?s)"
    using copyout_round [OF 3(2,3) us fit, of ?s] by (simp add: stored_def)
  have po: "page_only (frame (mem s) pd va) (mem s) (mem ?s)"
    using fit by (simp del: length_take) (rule page_only_bytes, simp add: offset_less)
  note u = user_store [OF 3(2,3) us po]
  have v': "unat (?v + PGSIZE) = unat va + n" if "drop n ?bs \<noteq> []"
  proof -
    have e: "unat ?v + 4096 = unat va + n" using n(4) [OF that] div_mult_mod_eq [of "unat va" 4096]
      mod_less_divisor [of 4096 "unat va"] by (simp only: unat_PGROUNDDOWN)
    have "unat va + n < 2 ^ 32" using 3(4) that n(2) by (simp add: not_le)
    then show ?thesis using e by (simp add: PGSIZE_def unat_plus_if_size word_size)
  qed
  have "returns (copyout_loop fuel pd (?v + PGSIZE) (drop n ?bs) ?s) (\<lambda>(r, t). r = 0 \<and> t = ?s\<lparr>mem := mem t\<rparr> \<and>
     stored pd (?v + PGSIZE) (drop n ?bs) (mem ?s) (mem t))"
  proof (rule 3(1) [OF refl ka refl fz])
    show "pd_pages kend (mem ?s) pd" "user_inv (mem ?s) pd" using u(2,3) by simp_all
    show "unat (?v + PGSIZE) + length (drop n ?bs) \<le> 2 ^ 32"
      using v' 3(4) n(2) unat_u32_less [of "?v + PGSIZE"] by (cases "drop n ?bs = []") auto
    show "\<forall>vb. unat (?v + PGSIZE) \<le> unat vb \<and> unat vb < unat (?v + PGSIZE) + length (drop n ?bs) \<longrightarrow> user_pte (pte (mem ?s) pd vb)"
      using v' 3(5) n(2) u(1) by (cases "drop n ?bs = []") auto
    show "length (drop n ?bs) \<le> fuel" using n(1) 3(6) by simp
  qed (simp_all add: n_def off)
  then have "returns (copyout_loop fuel pd (?v + PGSIZE) (drop n ?bs) ?s) (\<lambda>(r, t). r = 0 \<and> t = s\<lparr>mem := mem t\<rparr> \<and> stored pd va ?bs (mem s) (mem t))"
    by (rule returns_mono) (use stored_append [OF st, of "?v + PGSIZE" "drop n ?bs"] v' n(2) in auto)
  then show ?case using ka fz by (simp add: Let_def off n_def del: drop_Cons' take_Cons')
qed (auto simp: stored_def)

section \<open>Properties\<close>

text \<open>C5: \<^verbatim>\<open>mappages\<close> maps exactly the pages that the range touches. On a well-formed page directory, for a range
  whose pages are not mapped, it returns, and the map of the page-table entries changes on the pages of
  the range only, where each entry holds the next physical page and the permissions. If it returns -1 instead of 0,
  there is no free page and a first part of the range has been mapped. The directory stays well
  formed, its tables and the free pages together are the same pages as before, and no byte changes
  outside the directory, its tables and pages that were free.\<close>

theorem mappages_maps:
  fixes s :: "'a vm_st_scheme"
  assumes "pd_inv kend xs pd s" "lockset L s" "LKmem \<notin> set L" "0 < sz" "unat va + unat sz \<le> 2 ^ 32"
    and "\<forall>vb. PGROUNDDOWN va \<le> vb \<and> PGROUNDDOWN vb \<le> va + sz - 1 \<longrightarrow> pte (mem s) pd vb AND PTE_P = 0"
  shows "returns (mappages pd va sz pa perm s) (\<lambda>(r, t). lockset L t \<and> kmem_st.more t = kmem_st.more s \<and>
     (\<exists>ys. mapped kend xs ys pd (PGROUNDDOWN va) (Suc ((unat va + unat sz - 1) div 4096 - unat va div 4096)) pa perm s r t))"
  using mappages_run [OF assms] .

lemma load32_zero: "load32 (\<lambda>_. 0) a = 0"
  by (simp add: load32_def of_le32_def)

theorem mappages_maps_witness:
  "\<exists>s :: vm_st. returns (mappages 0x80400000 0x1800 0x1000 0x5000 6 s) (\<lambda>(r, t).
     \<exists>ys. mapped 0x80100000 [0x80401000] ys 0x80400000 0x1000 (Suc 1) 0x5000 6 s r t)"
proof -
  let ?s = "\<lparr>locks = \<lambda>_. \<lparr>locked = 0, holder = None\<rparr>, cpu = \<lparr>cpu_id = 0, ncli = 0, intena = False\<rparr>,
     IF = True, mem = \<lambda>_. 0, use_lock = True, freelist = 0x80401000, kpgdir = 0, cr3 = 0\<rparr>"
  have z: "\<not> has_tab (\<lambda>_. 0) 0x80400000 va" for va by (simp add: has_tab_def pde_def load32_zero)
  have "page_ok 0x80100000 0x80400000" "page_ok 0x80100000 0x80401000"
    by (simp_all add: page_ok_def PGSIZE_def v2p_def KERNBASE_def PHYSTOP_def)
  then have "pd_inv 0x80100000 [0x80401000] 0x80400000 ?s" by (simp add: pd_inv_def kmem_inv_def z tabs_apart_def load32_zero)
  moreover have "lockset [] ?s" by (simp add: lockset_def)
  moreover have "\<forall>vb. pte (\<lambda>_. 0) 0x80400000 vb = 0" by (simp add: pte_def z)
  moreover have "PGROUNDDOWN 0x1800 = 0x1000" by (simp add: PGROUNDDOWN_def PGSIZE_def)
  ultimately show ?thesis using mappages_maps [of "0x80100000" "[0x80401000]" "0x80400000" ?s "[]" "0x1000" "0x1800" "0x5000" 6]
    by (intro exI [of _ ?s]) (auto elim!: returns_mono)
qed


text \<open>A space with one user page: the directory at \<open>0x80400000\<close>, one table and the page behind address 0.\<close>

definition one_page :: mem where
  "one_page = store32 0x80401000 0x402007 (store32 0x80400000 0x401007 (\<lambda>_. 0))"

lemma one_page_pde: "pde one_page 0x80400000 va = (if PDX va = 0 then 0x401007 else 0)"
proof -
  have "page_only 0x80401000 (store32 0x80400000 0x401007 (\<lambda>_. 0)) one_page"
    unfolding one_page_def using page_only_store32 [of 0 "0x80401000"] by simp
  from page_only_load32 [OF this, of "0x80400000" "4 * PDX va"]
  show ?thesis using load32_slot [OF _ index_less(1), of 0 "0x80400000" "0x401007" "\<lambda>_. 0" va] entry_fits(1) [of va]
    by (simp add: pde_def PGSIZE_def load32_zero)
qed

lemma one_page_tab: "has_tab one_page 0x80400000 va \<longleftrightarrow> PDX va = 0" "PDX va = 0 \<Longrightarrow> tab one_page 0x80400000 va = 0x80401000"
  by (simp_all add: has_tab_def tab_def one_page_pde PTE_P_def PTE_ADDR_def p2v_def KERNBASE_def)

lemma one_page_pte: "pte one_page 0x80400000 va = (if same_page 0 va then 0x402007 else 0)"
proof -
  have "page_only 0x80400000 (\<lambda>_. 0) (store32 0x80400000 0x401007 (\<lambda>_. 0))"
    using page_only_store32 [of 0 "0x80400000"] by simp
  from page_only_load32 [OF this, of "0x80401000" "4 * PTX va"]
  have "load32 (store32 0x80400000 0x401007 (\<lambda>_. 0)) (0x80401000 + 4 * PTX va) = 0"
    using entry_fits(2) [of va] by (simp add: PGSIZE_def load32_zero)
  then have "load32 one_page (0x80401000 + 4 * PTX va) = (if PTX va = 0 then 0x402007 else 0)"
    using load32_slot [OF _ index_less(2), of 0 "0x80401000" "0x402007" _ va] by (simp add: one_page_def)
  moreover have "same_page 0 va \<longleftrightarrow> PDX va = 0 \<and> PTX va = 0" by (auto simp: same_page_index PDX_def PTX_def)
  ultimately show ?thesis by (cases "PTX va = 0") (simp_all add: pte_def one_page_tab)
qed

lemma one_page_ok: "pd_pages 0x80100000 one_page 0x80400000" "user_inv one_page 0x80400000"
  by (auto simp: pd_pages_def user_inv_def tabs_def one_page_tab one_page_pte page_ok_def PGSIZE_def v2p_def p2v_def KERNBASE_def PHYSTOP_def
      frame_def user_pte_def PTE_ADDR_def same_page_def split: if_splits)


end
