(* ===== verification/Vm_Space.thy ===== *)
theory Vm_Space
  imports Vm_Lemmas
begin

text \<open>
  Whole address spaces: the pages one owns, and that the routines that build, copy and free a
  space account for every page. \<open>vm_inv\<close> is the invariant of a space beside the free list; a
  change of memory outside the pages of a space leaves it alone (\<open>space_frame\<close>), which is how two spaces
  are handled at once when \<^verbatim>\<open>fork\<close> copies one.
\<close>

section \<open>The pages of a space\<close>

definition low_page :: "mem \<Rightarrow> u32 \<Rightarrow> u32 \<Rightarrow> bool" where
  "low_page m pd va \<longleftrightarrow> va < KERNBASE \<and> pte m pd va AND PTE_P \<noteq> 0"

definition frames :: "mem \<Rightarrow> u32 \<Rightarrow> u32 set" where
  "frames m pd = {frame m pd va |va. low_page m pd va}"

definition space :: "mem \<Rightarrow> u32 \<Rightarrow> u32 set" where
  "space m pd = insert pd (tabs m pd \<union> frames m pd)"

definition frames_apart :: "mem \<Rightarrow> u32 \<Rightarrow> bool" where
  "frames_apart m pd \<longleftrightarrow> (\<forall>va vb. low_page m pd va \<longrightarrow> low_page m pd vb \<longrightarrow> frame m pd va = frame m pd vb \<longrightarrow> same_page va vb)"

definition kernel_only :: "mem \<Rightarrow> u32 \<Rightarrow> bool" where
  "kernel_only m pd \<longleftrightarrow> (\<forall>va. KERNBASE \<le> va \<longrightarrow> pte m pd va AND PTE_U = 0)"

definition vm_inv :: "u32 \<Rightarrow> u32 list \<Rightarrow> u32 \<Rightarrow> 'a kmem_st_scheme \<Rightarrow> bool" where
  "vm_inv kend xs pd s \<longleftrightarrow> pd_inv kend xs pd s \<and> frames_apart (mem s) pd \<and> kernel_only (mem s) pd \<and>
     (\<forall>k\<in>frames (mem s) pd. page_ok kend k \<and> k \<notin> set xs \<and> k \<noteq> pd \<and> k \<notin> tabs (mem s) pd)"

lemma vm_inv_space:
  assumes "vm_inv kend xs pd s"
  shows "kmem_inv kend xs s" "pd_inv kend xs pd s" "space (mem s) pd \<inter> set xs = {}" "k \<in> space (mem s) pd \<Longrightarrow> page_ok kend k"
    "pd_pages kend (mem s) pd"
  using assms by (auto simp: vm_inv_def pd_inv_def space_def tabs_def pd_pages_def)

text \<open>The user memory of a space in order is what \<^verbatim>\<open>copyout\<close> needs.\<close>

lemma user_low: "kernel_only m pd \<Longrightarrow> user_pte (pte m pd va) \<Longrightarrow> low_page m pd va"
  by (auto simp: kernel_only_def user_pte_def low_page_def not_le [symmetric])

lemma vm_inv_user:
  assumes "vm_inv kend xs pd s"
  shows "user_inv (mem s) pd"
proof -
  have low: "low_page (mem s) pd va" if "user_pte (pte (mem s) pd va)" for va
    using assms that by (auto simp: vm_inv_def intro: user_low)
  then have "frame (mem s) pd va \<in> frames (mem s) pd" if "user_pte (pte (mem s) pd va)" for va
    using that by (auto simp: frames_def)
  moreover have "frames_apart (mem s) pd" "\<forall>k\<in>frames (mem s) pd. page_ok kend k \<and> k \<noteq> pd \<and> k \<notin> tabs (mem s) pd"
    using assms by (auto simp: vm_inv_def)
  ultimately show ?thesis using low unfolding user_inv_def frames_apart_def page_ok_def by metis
qed

section \<open>Changes elsewhere\<close>

lemma pages_only_load32:
  assumes "pages_only K m m'" "\<forall>x\<in>K. x mod PGSIZE = 0" "k mod PGSIZE = 0" "k \<notin> K" "unat off + 4 \<le> 4096"
  shows "load32 m' (k + off) = load32 m (k + off)"
proof (rule load32_cong)
  fix i :: u32 assume "i < 4"
  then have "off + i < PGSIZE" using assms(5) by (simp add: PGSIZE_def word_less_nat_alt unat_word_ariths)
  then have "PGSIZE \<le> k + (off + i) - x" if "x \<in> K" for x using that assms by (intro page_disjoint) auto
  then show "m' (k + off + i) = m (k + off + i)" using assms(1) by (simp add: pages_only_def add.assoc)
qed

text \<open>A space is the same in a memory that differs in other pages only.\<close>

lemma dir_frame:
  assumes "pages_only K (mem s) (mem t)" "\<forall>x\<in>K. x mod PGSIZE = 0" "pd_pages kend (mem s) pd" "pd \<notin> K" "tabs (mem s) pd \<inter> K = {}"
  shows "pte (mem t) pd va = pte (mem s) pd va" "has_tab (mem t) pd va = has_tab (mem s) pd va" "tab (mem t) pd va = tab (mem s) pd va"
proof -
  have al: "pd mod PGSIZE = 0" "\<And>k. k \<in> tabs (mem s) pd \<Longrightarrow> k mod PGSIZE = 0" using assms(3) by (auto simp: pd_pages_def page_ok_def)
  have "pde (mem t) pd va = pde (mem s) pd va"
    unfolding pde_def by (rule pages_only_load32 [OF assms(1,2) al(1) assms(4) entry_fits(1)])
  then show h: "has_tab (mem t) pd va = has_tab (mem s) pd va" "tab (mem t) pd va = tab (mem s) pd va"
    by (simp_all add: has_tab_def tab_def)
  have "load32 (mem t) (tab (mem s) pd va + 4 * PTX va) = load32 (mem s) (tab (mem s) pd va + 4 * PTX va)" if "has_tab (mem s) pd va"
    using that assms(5) by (intro pages_only_load32 [OF assms(1,2) al(2) _ entry_fits(2)]) (auto simp: tabs_def)
  then show "pte (mem t) pd va = pte (mem s) pd va" by (simp add: pte_def h)
qed

lemma dir_frame_sets:
  assumes "\<And>va. pte m' pd va = pte m pd va" "\<And>va. has_tab m' pd va = has_tab m pd va" "\<And>va. tab m' pd va = tab m pd va"
  shows "frame m' pd va = frame m pd va" "low_page m' pd va = low_page m pd va" "tabs m' pd = tabs m pd" "frames m' pd = frames m pd"
    "space m' pd = space m pd" "tabs_apart m' pd = tabs_apart m pd" "frames_apart m' pd = frames_apart m pd" "kernel_only m' pd = kernel_only m pd"
  by (simp_all add: frame_def low_page_def tabs_def frames_def space_def tabs_apart_def frames_apart_def kernel_only_def assms cong: conj_cong)

lemma frame_byte:
  assumes "pages_only K m m'" "\<forall>x\<in>K. x mod PGSIZE = 0" "frame m pd va \<notin> K"
  shows "m' (frame m pd va + (va AND 0xFFF)) = m (frame m pd va + (va AND 0xFFF))"
proof -
  have "va AND 0xFFF < PGSIZE" by (simp add: PGSIZE_def word_less_nat_alt offset_less)
  then have "PGSIZE \<le> frame m pd va + (va AND 0xFFF) - x" if "x \<in> K" for x
    using that assms by (intro page_disjoint) (auto simp: frame_page)
  then show ?thesis using assms(1) by (simp add: pages_only_def)
qed

lemma space_frame:
  assumes "vm_inv kend xs pd s" "kmem_inv kend ys t" "set ys \<inter> space (mem s) pd = {}"
    and "pages_only K (mem s) (mem t)" "\<forall>x\<in>K. x mod PGSIZE = 0" "K \<inter> space (mem s) pd = {}"
  shows "vm_inv kend ys pd t" "pte (mem t) pd va = pte (mem s) pd va" "space (mem t) pd = space (mem s) pd"
    "user_byte (mem t) pd va = user_byte (mem s) pd va" "frame (mem t) pd va = frame (mem s) pd va" "low_page (mem t) pd va = low_page (mem s) pd va"
    "tabs (mem t) pd = tabs (mem s) pd" "frames (mem t) pd = frames (mem s) pd"
proof -
  note d = dir_frame [OF assms(4,5) vm_inv_space(5) [OF assms(1)]]
  have k: "pd \<notin> K" "tabs (mem s) pd \<inter> K = {}" using assms(6) by (auto simp: space_def)
  note d = d [OF k]
  note e = dir_frame_sets [of "mem t" pd "mem s", OF d]
  show "pte (mem t) pd va = pte (mem s) pd va" by (rule d)
  show "space (mem t) pd = space (mem s) pd" "frame (mem t) pd va = frame (mem s) pd va" "low_page (mem t) pd va = low_page (mem s) pd va"
    "tabs (mem t) pd = tabs (mem s) pd" "frames (mem t) pd = frames (mem s) pd" by (rule e)+
  show "vm_inv kend ys pd t"
    using assms(1,2,3) by (auto simp: vm_inv_def pd_inv_def d e space_def tabs_def)
  have "mem t (frame (mem s) pd va + (va AND 0xFFF)) = mem s (frame (mem s) pd va + (va AND 0xFFF))" if "user_pte (pte (mem s) pd va)"
  proof -
    have "low_page (mem s) pd va" using assms(1) that by (auto simp: vm_inv_def intro: user_low)
    then show ?thesis by (intro frame_byte [OF assms(4,5)]) (use assms(6) in \<open>auto simp: space_def frames_def\<close>)
  qed
  then show "user_byte (mem t) pd va = user_byte (mem s) pd va" by (simp add: user_byte_def d e)
qed

section \<open>Mapping a page\<close>

lemma entry_bits:
  assumes "page_ok kend x" "perm AND NOT 0xFFF = 0"
  shows "p2v (PTE_ADDR (v2p x OR perm OR PTE_P)) = x" "PTE_FLAGS (v2p x OR perm OR PTE_P) = perm OR PTE_P"
    "(v2p x OR perm OR PTE_P) AND PTE_P \<noteq> 0"
proof -
  have f: "(perm OR PTE_P) AND NOT 0xFFF = 0" using assms(2) by (simp add: PTE_P_def bit.conj_disj_distrib2)
  show "p2v (PTE_ADDR (v2p x OR perm OR PTE_P)) = x" "PTE_FLAGS (v2p x OR perm OR PTE_P) = perm OR PTE_P"
    using PTE_ADDR_or_flags [OF v2p_page [OF assms(1)] f] by (simp_all add: or.assoc)
  have "bit ((v2p x OR perm OR PTE_P) AND PTE_P) 0" by (simp add: bit_simps PTE_P_def)
  then show "(v2p x OR perm OR PTE_P) AND PTE_P \<noteq> 0" by auto
qed

lemma same_page_low: "same_page va vb \<Longrightarrow> va < KERNBASE \<longleftrightarrow> vb < KERNBASE"
proof -
  have "v < KERNBASE \<longleftrightarrow> unat v div 4096 < 524288" for v by (simp add: KERNBASE_def word_less_nat_alt div_less_iff_less_mult)
  then show "same_page va vb \<Longrightarrow> va < KERNBASE \<longleftrightarrow> vb < KERNBASE" by (simp add: same_page_div)
qed

lemma same_page_refl [simp]: "same_page va va"
  by (simp add: same_page_def)

lemma same_page_sym: "same_page va vb \<Longrightarrow> same_page vb va"
  by (simp add: same_page_def)

lemma same_page_trans: "same_page va vb \<Longrightarrow> same_page vb vc \<Longrightarrow> same_page va vc"
  by (simp add: same_page_def)

lemma vm_inv_keep:
  assumes "vm_inv kend xs pd s" "pd_inv kend ys pd t" "set ys \<subseteq> set xs" "tabs (mem t) pd \<subseteq> tabs (mem s) pd \<union> set xs"
    and "\<And>vb. pte (mem t) pd vb = pte (mem s) pd vb"
  shows "vm_inv kend ys pd t" "frames (mem t) pd = frames (mem s) pd"
proof -
  have e: "low_page (mem t) pd = low_page (mem s) pd" "frame (mem t) pd = frame (mem s) pd"
    by (auto simp: fun_eq_iff low_page_def frame_def assms(5))
  show f: "frames (mem t) pd = frames (mem s) pd" by (simp add: frames_def e)
  have "frames_apart (mem t) pd = frames_apart (mem s) pd" "kernel_only (mem t) pd = kernel_only (mem s) pd"
    by (simp_all only: frames_apart_def kernel_only_def e assms(5))
  then show "vm_inv kend ys pd t" using assms(1-4) by (auto simp: vm_inv_def f)
qed

lemma vm_inv_add:
  assumes "vm_inv kend xs pd s" "pd_inv kend ys pd t" "set ys \<subseteq> set xs" "tabs (mem t) pd \<subseteq> tabs (mem s) pd \<union> set xs"
    and "a < KERNBASE" "\<not> low_page (mem s) pd a" "page_ok kend x" "x \<notin> set xs" "x \<notin> space (mem s) pd" "perm AND NOT 0xFFF = 0"
    and p: "\<And>vb. pte (mem t) pd vb = (if same_page a vb then v2p x OR perm OR PTE_P else pte (mem s) pd vb)"
  shows "vm_inv kend ys pd t" "frames (mem t) pd = insert x (frames (mem s) pd)"
proof -
  note b = entry_bits [OF assms(7,10)]
  have f: "frame (mem t) pd vb = (if same_page a vb then x else frame (mem s) pd vb)" for vb by (simp add: frame_def p b)
  have l: "low_page (mem t) pd vb \<longleftrightarrow> same_page a vb \<or> low_page (mem s) pd vb" for vb
    using same_page_low [of a vb] assms(5) by (auto simp: low_page_def p b)
  have n: "\<not> low_page (mem s) pd vb" if "same_page a vb" for vb
    using assms(6) that same_page_pte [OF that, of "mem s" pd] same_page_low [OF that] by (simp add: low_page_def)
  have "low_page (mem t) pd a" "frame (mem t) pd a = x" by (simp_all add: l f)
  then show fr: "frames (mem t) pd = insert x (frames (mem s) pd)"
    using n by (auto simp: frames_def f l) (metis same_page_refl)
  have old: "frame (mem s) pd vb \<noteq> x" if "low_page (mem s) pd vb" for vb
    using that assms(9) by (auto simp: space_def frames_def)
  have ap: "same_page va vb" if "low_page (mem s) pd va" "low_page (mem s) pd vb" "frame (mem s) pd va = frame (mem s) pd vb" for va vb
    using assms(1) that by (simp add: vm_inv_def frames_apart_def)
  have "frames_apart (mem t) pd" unfolding frames_apart_def
  proof (intro allI impI)
    fix va vb assume h: "low_page (mem t) pd va" "low_page (mem t) pd vb" "frame (mem t) pd va = frame (mem t) pd vb"
    show "same_page va vb"
    proof (cases "same_page a va")
      case True
      then have "same_page a vb" using h old [of vb] by (auto simp: f l split: if_splits)
      then show ?thesis using True by (simp add: same_page_def)
    next
      case False
      then have "\<not> same_page a vb" using h old [of va] by (auto simp: f l split: if_splits)
      then show ?thesis using h ap [of va vb] False by (simp add: f l)
    qed
  qed
  moreover have "kernel_only (mem t) pd"
    using assms(1,5) same_page_low [of a] by (auto simp: vm_inv_def kernel_only_def p not_le [symmetric])
  moreover have "\<forall>k\<in>frames (mem t) pd. page_ok kend k \<and> k \<notin> set ys \<and> k \<noteq> pd \<and> k \<notin> tabs (mem t) pd"
    using assms(1,3,4,7,8,9) unfolding fr by (auto simp: vm_inv_def space_def)
  ultimately show "vm_inv kend ys pd t" using assms(2) by (simp add: vm_inv_def)
qed

text \<open>One more page, or no change when a table was needed and there was no page for it.\<close>

definition page_mapped ::
  "u32 \<Rightarrow> u32 list \<Rightarrow> u32 list \<Rightarrow> u32 \<Rightarrow> u32 \<Rightarrow> u32 \<Rightarrow> u32 \<Rightarrow> 'a kmem_st_scheme \<Rightarrow> int \<Rightarrow> 'a kmem_st_scheme \<Rightarrow> bool" where
  "page_mapped kend xs ys pd a x perm s r t \<longleftrightarrow> vm_inv kend ys pd t \<and> set ys \<subseteq> set xs \<and>
     tabs (mem t) pd \<union> set ys = tabs (mem s) pd \<union> set xs \<and> pages_only (insert pd (set xs \<union> tabs (mem s) pd)) (mem s) (mem t) \<and>
     (r = 0 \<and> (\<forall>vb. pte (mem t) pd vb = (if same_page a vb then v2p x OR perm OR PTE_P else pte (mem s) pd vb)) \<and>
        frames (mem t) pd = insert x (frames (mem s) pd) \<or>
      r = -1 \<and> ys = [] \<and> (\<forall>vb. pte (mem t) pd vb = pte (mem s) pd vb) \<and> frames (mem t) pd = frames (mem s) pd)"

lemma mapped_page:
  assumes "vm_inv kend xs pd s" "a mod PGSIZE = 0" "a < KERNBASE" "\<not> low_page (mem s) pd a"
    and "page_ok kend x" "x \<notin> set xs" "x \<notin> space (mem s) pd" "perm AND NOT 0xFFF = 0"
    and "mapped kend xs ys pd a (Suc 0) (v2p x) perm s r t"
  shows "page_mapped kend xs ys pd a x perm s r t"
proof -
  obtain j where t: "pd_inv kend ys pd t" "set ys \<subseteq> set xs" "r = 0 \<and> j = 1 \<or> r = -1 \<and> j = 0 \<and> ys = []"
    "\<And>vb. pte (mem t) pd vb = (if in_run a j vb then (v2p x + (PGROUNDDOWN vb - a)) OR perm OR PTE_P else pte (mem s) pd vb)"
    "pages_only (insert pd (set xs \<union> tabs (mem s) pd)) (mem s) (mem t)" "tabs (mem t) pd \<union> set ys = tabs (mem s) pd \<union> set xs"
    using assms(9) by (auto simp: mapped_def)
  have sub: "tabs (mem t) pd \<subseteq> tabs (mem s) pd \<union> set xs" using t(6) by blast
  have e: "v2p x + (PGROUNDDOWN vb - a) = v2p x" if "same_page a vb" for vb
    using that rounddown_page [OF assms(2)] by (simp add: same_page_def)
  show ?thesis
  proof (cases "r = 0")
    case True
    then have p: "pte (mem t) pd vb = (if same_page a vb then v2p x OR perm OR PTE_P else pte (mem s) pd vb)" for vb
      using t(3,4) e same_page_run [OF assms(2), of vb] by simp
    note k = vm_inv_add [OF assms(1) t(1,2) sub assms(3-8) p]
    show ?thesis using t(2,5,6) True k by (simp add: page_mapped_def p)
  next
    case False
    then have r: "r = -1" "ys = []" "j = 0" using t(3) by auto
    then have p: "pte (mem t) pd vb = pte (mem s) pd vb" for vb using t(4) [of vb] by (auto simp: in_run_def)
    note k = vm_inv_keep [OF assms(1) t(1,2) sub p]
    show ?thesis using t(2,5,6) r(1,2) k by (simp add: page_mapped_def p)
  qed
qed

lemma map_page:
  fixes s :: "'a vm_st_scheme"
  assumes "vm_inv kend xs pd s" "lockset L s" "LKmem \<notin> set L" "a mod PGSIZE = 0" "a < KERNBASE" "\<not> low_page (mem s) pd a"
    and "page_ok kend x" "x \<notin> set xs" "x \<notin> space (mem s) pd" "perm AND NOT 0xFFF = 0"
  shows "returns (mappages pd a PGSIZE (v2p x) perm s) (\<lambda>(r, t). lockset L t \<and> kmem_st.more t = kmem_st.more s \<and>
     (\<exists>ys. page_mapped kend xs ys pd a x perm s r t))"
proof -
  have m: "unat a mod 4096 = 0" by (rule page_unat [OF assms(4)])
  have n: "(unat a + unat PGSIZE - 1) div 4096 - unat a div 4096 = 0" using m by (auto simp: PGSIZE_def mod_eq_0_iff_dvd elim!: dvdE)
  have a: "unat a < 2 ^ 31" using assms(5) by (simp add: KERNBASE_def word_less_nat_alt)
  then have fits: "unat a + unat PGSIZE \<le> 2 ^ 32" by (simp add: PGSIZE_def)
  have np: "\<forall>vb. PGROUNDDOWN a \<le> vb \<and> PGROUNDDOWN vb \<le> a + PGSIZE - 1 \<longrightarrow> pte (mem s) pd vb AND PTE_P = 0"
  proof (intro allI impI, elim conjE)
    fix vb assume b: "PGROUNDDOWN a \<le> vb" "PGROUNDDOWN vb \<le> a + PGSIZE - 1"
    have "unat (a + 0xFFF) = unat a + 4095" using a by (simp add: unat_plus_if_size word_size)
    moreover have e: "a + PGSIZE - 1 = a + 0xFFF" by (simp add: PGSIZE_def)
    ultimately have "unat vb div 4096 * 4096 \<le> unat a + 4095" "unat a div 4096 * 4096 \<le> unat vb"
      using b unfolding e by (simp_all add: word_le_nat_alt unat_PGROUNDDOWN)
    then have "same_page a vb" unfolding same_page_div
      using m div_mult_mod_eq [of "unat a" 4096] div_mult_mod_eq [of "unat vb" 4096] mod_less_divisor [of 4096 "unat vb"] by linarith
    then show "pte (mem s) pd vb AND PTE_P = 0"
      using assms(5,6) same_page_pte [of a vb "mem s" pd] by (simp add: low_page_def)
  qed
  have pos: "0 < PGSIZE" by (simp add: PGSIZE_def)
  note run = mappages_run [OF vm_inv_space(2) [OF assms(1)] assms(2,3) pos fits np, of "v2p x" perm, unfolded n rounddown_page [OF assms(4)]]
  show ?thesis by (rule returns_mono [OF run]) (auto intro: mapped_page [OF assms(1,4-10)])
qed

section \<open>Unmapping pages\<close>

text \<open>The low pages that \<open>R\<close> selects are unmapped and free; every other page of the space is as it was.\<close>

definition unmapped :: "u32 \<Rightarrow> u32 list \<Rightarrow> u32 list \<Rightarrow> u32 \<Rightarrow> (u32 \<Rightarrow> bool) \<Rightarrow> 'a kmem_st_scheme \<Rightarrow> 'a kmem_st_scheme \<Rightarrow> bool" where
  "unmapped kend xs ys pd R s t \<longleftrightarrow> vm_inv kend ys pd t \<and>
     set ys = set xs \<union> {frame (mem s) pd va |va. low_page (mem s) pd va \<and> R va} \<and>
     (\<forall>va. pte (mem t) pd va = (if low_page (mem s) pd va \<and> R va then 0 else pte (mem s) pd va)) \<and>
     tabs (mem t) pd = tabs (mem s) pd \<and> (\<forall>va. has_tab (mem t) pd va = has_tab (mem s) pd va) \<and>
     pages_only (tabs (mem s) pd \<union> {frame (mem s) pd va |va. low_page (mem s) pd va \<and> R va}) (mem s) (mem t)"

lemma unmapped_low:
  assumes "unmapped kend xs ys pd R s t"
  shows "low_page (mem t) pd va \<longleftrightarrow> low_page (mem s) pd va \<and> \<not> R va"
    "\<not> (low_page (mem s) pd va \<and> R va) \<Longrightarrow> frame (mem t) pd va = frame (mem s) pd va"
proof -
  have p: "pte (mem t) pd va = (if low_page (mem s) pd va \<and> R va then 0 else pte (mem s) pd va)" using assms by (simp add: unmapped_def)
  show "low_page (mem t) pd va \<longleftrightarrow> low_page (mem s) pd va \<and> \<not> R va" by (auto simp: low_page_def p)
  show "\<not> (low_page (mem s) pd va \<and> R va) \<Longrightarrow> frame (mem t) pd va = frame (mem s) pd va" by (auto simp: frame_def p)
qed

lemma unmapped_none: "vm_inv kend xs pd s \<Longrightarrow> \<forall>va. \<not> (low_page (mem s) pd va \<and> R va) \<Longrightarrow> unmapped kend xs xs pd R s s"
  by (auto simp: unmapped_def)

lemma unmapped_trans:
  assumes "unmapped kend xs ys pd Q s t" "unmapped kend ys zs pd R t u" "\<And>va. low_page (mem s) pd va \<Longrightarrow> P va \<longleftrightarrow> Q va \<or> R va"
  shows "unmapped kend xs zs pd P s u"
proof -
  note l = unmapped_low [OF assms(1)]
  let ?F = "\<lambda>R. {frame (mem s) pd va |va. low_page (mem s) pd va \<and> R va}"
  have sub: "{frame (mem t) pd va |va. low_page (mem t) pd va \<and> R va} = {frame (mem s) pd va |va. low_page (mem s) pd va \<and> \<not> Q va \<and> R va}"
    using l by (metis (no_types, opaque_lifting))
  have F: "?F Q \<union> {frame (mem s) pd va |va. low_page (mem s) pd va \<and> \<not> Q va \<and> R va} = ?F P"
    using assms(3) by blast
  have ys: "set ys = set xs \<union> ?F Q" "tabs (mem t) pd = tabs (mem s) pd" "pages_only (tabs (mem s) pd \<union> ?F Q) (mem s) (mem t)"
    "\<And>va. pte (mem t) pd va = (if low_page (mem s) pd va \<and> Q va then 0 else pte (mem s) pd va)"
    using assms(1) by (simp_all add: unmapped_def)
  have zs: "vm_inv kend zs pd u" "set zs = set ys \<union> {frame (mem s) pd va |va. low_page (mem s) pd va \<and> \<not> Q va \<and> R va}" "tabs (mem u) pd = tabs (mem t) pd"
    "pages_only (tabs (mem t) pd \<union> {frame (mem s) pd va |va. low_page (mem s) pd va \<and> \<not> Q va \<and> R va}) (mem t) (mem u)"
    "\<And>va. pte (mem u) pd va = (if low_page (mem t) pd va \<and> R va then 0 else pte (mem t) pd va)"
    using assms(2) by (simp_all add: unmapped_def sub)
  have "set zs = set xs \<union> ?F P" unfolding zs(2) ys(1) F [symmetric] by blast
  moreover have "pte (mem u) pd va = (if low_page (mem s) pd va \<and> P va then 0 else pte (mem s) pd va)" for va
    using assms(3) [of va] by (auto simp: zs(5) ys(4) l(1))
  moreover have "pages_only (tabs (mem s) pd \<union> ?F P) (mem s) (mem u)"
    by (rule pages_only_trans [OF pages_only_mono [OF ys(3)] pages_only_mono [OF zs(4)]]) (use F ys(2) in blast)+
  moreover have "has_tab (mem u) pd va = has_tab (mem s) pd va" for va using assms(1,2) by (simp add: unmapped_def)
  ultimately show ?thesis using zs(1,3) ys(2) by (simp add: unmapped_def)
qed

text \<open>Freeing a page changes this page only.\<close>

lemma kfree_page:
  assumes "lockset L s" "LKmem \<notin> set L" "kmem_inv kend xs s" "page_ok kend k" "k \<notin> set xs"
  shows "returns (kfree kend k s) (\<lambda>t. kmem_inv kend (k # xs) t \<and> lockset L t \<and> kmem_st.more t = kmem_st.more s \<and> page_only k (mem s) (mem t))"
proof -
  have "page_only k (mem s) (memset k 1 PGSIZE (mem s))" "page_only k (memset k 1 PGSIZE (mem s)) (store32 k (freelist s) (memset k 1 PGSIZE (mem s)))"
    using page_only_memset [of 0 PGSIZE k "mem s" 1] page_only_store32 [of 0 k] by (simp_all add: PGSIZE_def)
  then have "page_only k (mem s) (store32 k (freelist s) (memset k 1 PGSIZE (mem s)))" by (rule page_only_trans)
  then show ?thesis using kfree_push [OF assms] by (auto elim!: returns_mono)
qed

lemma walk_find:
  assumes "pd_pages kend (mem s) pd"
  shows "walkpgdir pd va False s = Inr (if has_tab (mem s) pd va then tab (mem s) pd va + 4 * PTX va else 0, s)"
    "has_tab (mem s) pd va \<Longrightarrow> tab (mem s) pd va + 4 * PTX va \<noteq> 0" "has_tab (mem s) pd va \<Longrightarrow> load32 (mem s) (tab (mem s) pd va + 4 * PTX va) = pte (mem s) pd va"
proof -
  show "tab (mem s) pd va + 4 * PTX va \<noteq> 0" if "has_tab (mem s) pd va"
    by (rule page_offset_nonzero [of kend]) (use that assms entry_fits(2) [of va] in \<open>auto simp: pd_pages_def tabs_def\<close>)
qed (simp_all add: walkpgdir_def Let_def has_tab_def pde_def tab_def pte_def)

lemma unmap_one:
  fixes s :: "'a vm_st_scheme"
  assumes "vm_inv kend xs pd s" "lockset L s" "LKmem \<notin> set L" "low_page (mem s) pd a"
  shows "returns (kfree kend (frame (mem s) pd a) s) (\<lambda>t. lockset L t \<and> kmem_st.more t = kmem_st.more s \<and>
     unmapped kend xs (frame (mem s) pd a # xs) pd (same_page a) s (t\<lparr>mem := store32 (tab (mem s) pd a + 4 * PTX a) 0 (mem t)\<rparr>))"
proof -
  let ?k = "frame (mem s) pd a"
  have fr: "?k \<in> frames (mem s) pd" using assms(4) by (auto simp: frames_def)
  then have k: "page_ok kend ?k" "?k \<notin> set xs" "?k \<noteq> pd" "?k \<notin> tabs (mem s) pd" using assms(1) by (auto simp: vm_inv_def)
  obtain t where t: "kfree kend ?k s = Inr t" "kmem_inv kend (?k # xs) t" "lockset L t" "kmem_st.more t = kmem_st.more s" "page_only ?k (mem s) (mem t)"
    using kfree_page [OF assms(2,3) vm_inv_space(1) [OF assms(1)] k(1,2)] by (auto elim!: returnsE)
  have po: "pages_only {?k} (mem s) (mem t)" using page_only_pages [OF t(5)] by simp
  have al: "\<forall>x\<in>{?k}. x mod PGSIZE = 0" by (simp add: frame_page)
  have disj: "pd \<notin> {?k}" "tabs (mem s) pd \<inter> {?k} = {}" using k(3,4) by auto
  note d = dir_frame [OF po al vm_inv_space(5) [OF assms(1)] disj]
  note e = dir_frame_sets [of "mem t" pd "mem s", OF d]
  have pt: "pd_inv kend (?k # xs) pd t"
    using vm_inv_space(2) [OF assms(1)] t(2) k(3,4) by (auto simp: pd_inv_def d e tabs_def)
  have h: "has_tab (mem t) pd a" using assms(4) by (auto simp: d(2) low_page_def pte_def split: if_splits)
  let ?u = "t\<lparr>mem := store32 (tab (mem s) pd a + 4 * PTX a) 0 (mem t)\<rparr>"
  note st = pte_store [OF pt h, of ?u 0, simplified, unfolded d]
  have l: "same_page a va \<Longrightarrow> low_page (mem s) pd va" for va
    using assms(4) same_page_pte [of a va "mem s" pd] same_page_low [of a va] by (simp add: low_page_def)
  have f: "same_page a va \<Longrightarrow> frame (mem s) pd va = ?k" for va using same_page_pte [of a va "mem s" pd] by (simp add: frame_def)
  have F: "{frame (mem s) pd va |va. low_page (mem s) pd va \<and> same_page a va} = {?k}"
    using f assms(4) same_page_refl [of a] by blast
  have tb: "tabs (mem ?u) pd = tabs (mem s) pd" by (simp add: tabs_def st(3,4))
  have p: "pte (mem ?u) pd va = (if low_page (mem s) pd va \<and> same_page a va then 0 else pte (mem s) pd va)" for va
    using l [of va] by (simp add: st(2))
  have lu: "low_page (mem ?u) pd va \<longleftrightarrow> low_page (mem s) pd va \<and> \<not> same_page a va" "\<not> same_page a va \<Longrightarrow> frame (mem ?u) pd va = frame (mem s) pd va" for va
    using p [of va] by (auto simp: low_page_def frame_def)
  have ap: "frames_apart (mem s) pd" "kernel_only (mem s) pd" "\<forall>k\<in>frames (mem s) pd. page_ok kend k \<and> k \<notin> set xs \<and> k \<noteq> pd \<and> k \<notin> tabs (mem s) pd"
    using assms(1) by (simp_all add: vm_inv_def)
  have "frames_apart (mem ?u) pd" unfolding frames_apart_def
  proof (intro allI impI)
    fix va vb assume "low_page (mem ?u) pd va" "low_page (mem ?u) pd vb" "frame (mem ?u) pd va = frame (mem ?u) pd vb"
    then show "same_page va vb" using ap(1) lu [of va] lu [of vb] by (simp add: frames_apart_def)
  qed
  moreover have "kernel_only (mem ?u) pd" using ap(2) p by (auto simp: kernel_only_def)
  moreover have "\<forall>k\<in>frames (mem ?u) pd. k \<in> frames (mem s) pd \<and> k \<noteq> ?k"
  proof
    fix k assume "k \<in> frames (mem ?u) pd"
    then obtain va where "k = frame (mem ?u) pd va" "low_page (mem ?u) pd va" by (auto simp: frames_def)
    then have va: "k = frame (mem s) pd va" "low_page (mem s) pd va" "\<not> same_page a va" using lu [of va] by auto
    then show "k \<in> frames (mem s) pd \<and> k \<noteq> ?k" using ap(1) assms(4) by (auto simp: frames_def frames_apart_def)
  qed
  ultimately have "vm_inv kend (?k # xs) pd ?u" using st(1) ap(3) tb by (auto simp: vm_inv_def)
  moreover have "pages_only (tabs (mem s) pd \<union> {?k}) (mem s) (mem ?u)"
  proof (rule pages_only_trans [OF pages_only_mono [OF po] page_only_pages])
    show "page_only (tab (mem s) pd a) (mem t) (mem ?u)" using st(5) by simp
    show "tab (mem s) pd a \<in> tabs (mem s) pd \<union> {?k}" using h by (auto simp: tabs_def d)
  qed auto
  ultimately have "unmapped kend xs (?k # xs) pd (same_page a) s ?u" unfolding unmapped_def F tb using p st(3) by auto
  then show ?thesis using t(1,3,4) by simp
qed

section \<open>Freeing a range\<close>

lemma unat_PDX: "unat (PDX va) = unat va div 4194304"
proof -
  have "unat (PDX va) = unat va div 4194304 mod 1024" by (simp add: PDX_bits unsigned_take_bit_eq unat_drop_bit_eq take_bit_eq_mod drop_bit_eq_div unat_div unat_mod)
  moreover have "unat va div 4194304 < 1024" using unat_u32_less [of va] by (simp add: div_less_iff_less_mult)
  ultimately show ?thesis by simp
qed

lemma unat_PTX: "unat (PTX va) = unat va div 4096 mod 1024"
  by (simp add: PTX_bits unsigned_take_bit_eq unat_drop_bit_eq take_bit_eq_mod drop_bit_eq_div unat_div unat_mod)

lemma has_tab_PDX: "PDX va = PDX vb \<Longrightarrow> has_tab m pd va = has_tab m pd vb"
  by (simp add: has_tab_def pde_def)

lemma low_has_tab: "low_page m pd va \<Longrightarrow> has_tab m pd va"
  by (auto simp: low_page_def pte_def split: if_splits)

lemma next_page_tab:
  assumes "a mod PGSIZE = 0" "unat a + 4096 < 2 ^ 32"
  shows "PTX (a + PGSIZE) = 0 \<or> PDX (a + PGSIZE) = PDX a"
proof -
  obtain k where k: "unat a = 4096 * k" using page_unat [OF assms(1)] by (auto simp: mod_eq_0_iff_dvd elim: dvdE)
  have u: "unat (a + PGSIZE) = 4096 * Suc k" using assms(2) k by (simp add: PGSIZE_def unat_plus_if_size word_size)
  have "4096 * j div 4194304 = j div (1024 :: nat)" for j using div_mult2_eq [of "4096 * j" 4096 1024] by simp
  then have "unat (PDX (a + PGSIZE)) = Suc k div 1024" "unat (PDX a) = k div 1024" "unat (PTX (a + PGSIZE)) = Suc k mod 1024"
    unfolding unat_PDX unat_PTX u k by simp_all
  then show ?thesis by (cases "Suc k mod 1024 = 0") (simp_all add: word_unat_eq_iff div_Suc)
qed

text \<open>A region of the size of a table that starts at a table boundary lies in one table.\<close>

lemma table_region:
  assumes "PTX a = 0" "a mod PGSIZE = 0" "a \<le> va" "unat va < unat a + 4194304"
  shows "PDX va = PDX a"
proof -
  obtain k where k: "unat a = 4096 * k" using page_unat [OF assms(2)] by (auto simp: mod_eq_0_iff_dvd elim: dvdE)
  have "k mod 1024 = 0" using assms(1) k unat_PTX [of a] by simp
  then obtain j where "k = 1024 * j" by (auto simp: mod_eq_0_iff_dvd elim: dvdE)
  then have j: "unat a = 4194304 * j" using k by simp
  then have "unat va div 4194304 = j" using assms(3,4) by (intro div_nat_eqI) (simp_all add: word_le_nat_alt)
  then show ?thesis using j by (simp add: word_unat_eq_iff unat_PDX)
qed

lemma rounddown_ge: "a mod PGSIZE = 0 \<Longrightarrow> a \<le> va \<Longrightarrow> a \<le> PGROUNDDOWN va"
  using page_unat [of a] by (auto simp: word_le_nat_alt unat_PGROUNDDOWN mod_eq_0_iff_dvd div_mult_mod_eq elim!: dvdE intro: div_le_mono)

definition in_cut :: "u32 \<Rightarrow> u32 \<Rightarrow> u32 \<Rightarrow> bool" where
  "in_cut a oldsz va \<longleftrightarrow> a \<le> va \<and> PGROUNDDOWN va < oldsz"

lemma in_cut_step:
  assumes "a mod PGSIZE = 0" "a < oldsz" "oldsz \<le> KERNBASE"
  shows "in_cut a oldsz va \<longleftrightarrow> same_page a va \<or> in_cut (a + PGSIZE) oldsz va"
proof -
  obtain k where k: "unat a = 4096 * k" using page_unat [OF assms(1)] by (auto simp: mod_eq_0_iff_dvd elim: dvdE)
  have "unat a < 2 ^ 31" using assms(2,3) by (simp add: KERNBASE_def word_less_nat_alt word_le_nat_alt)
  then have u: "unat (a + PGSIZE) = unat a + 4096" by (simp add: PGSIZE_def unat_plus_if_size word_size)
  have s: "same_page a va \<longleftrightarrow> 4096 * k \<le> unat va \<and> unat va < 4096 * k + 4096"
    using same_page_run [OF assms(1), of va] by (simp add: in_run_def k)
  have "unat va div 4096 * 4096 < unat oldsz" if "unat va < 4096 * k + 4096" "4096 * k < unat oldsz"
  proof -
    have "unat va div 4096 \<le> k" using that(1) by (simp add: less_Suc_eq_le [symmetric] div_less_iff_less_mult)
    then show ?thesis using that(2) by linarith
  qed
  then show ?thesis using assms(2) unfolding s in_cut_def
    by (auto simp: word_le_nat_alt word_less_nat_alt unat_PGROUNDDOWN u k)
qed

lemma in_cut_none: "a mod PGSIZE = 0 \<Longrightarrow> \<not> a < oldsz \<Longrightarrow> \<not> in_cut a oldsz va"
  using rounddown_ge [of a va] by (auto simp: in_cut_def)

text \<open>The loop of \<^verbatim>\<open>deallocuvm\<close> passes over a whole table when there is none at its address. It then misses no page,
  if it is at a table boundary or there is nothing above.\<close>

definition may_skip :: "mem \<Rightarrow> u32 \<Rightarrow> u32 \<Rightarrow> bool" where
  "may_skip m pd a \<longleftrightarrow> has_tab m pd a \<or> PTX a = 0 \<or> (\<forall>va. a \<le> va \<longrightarrow> \<not> low_page m pd va)"

lemma may_skip_next:
  assumes "has_tab m pd a" "a mod PGSIZE = 0" "unat a + 4096 < 2 ^ 32"
  shows "may_skip m pd (a + PGSIZE)"
  using next_page_tab [OF assms(2,3)] has_tab_PDX [of "a + PGSIZE" a m pd] assms(1) by (auto simp: may_skip_def)

lemma skip_table:
  assumes "may_skip m pd a" "\<not> has_tab m pd a" "a mod PGSIZE = 0" "unat a < 2 ^ 31"
  defines "b \<equiv> a + (NPTENTRIES - 1) * PGSIZE + PGSIZE"
  shows "may_skip m pd b" "low_page m pd va \<Longrightarrow> in_cut a oldsz va \<longleftrightarrow> in_cut b oldsz va" "unat b = unat a + 4194304" "b mod PGSIZE = 0"
proof -
  have b: "b = a + 4194304" by (simp add: b_def NPTENTRIES_def PGSIZE_def)
  then show u: "unat b = unat a + 4194304" using assms(4) by (simp add: unat_plus_if_size word_size)
  show bp: "b mod PGSIZE = 0" unfolding b using page_diff(2) [OF assms(3), of 4194304] by (simp add: PGSIZE_def)
  have gap: "\<not> low_page m pd va" if "a \<le> va" "unat va < unat b" for va
    using that assms(1,2) table_region [OF _ assms(3) that(1)] has_tab_PDX [of va a m pd] low_has_tab [of m pd va]
    by (auto simp: may_skip_def u)
  show "low_page m pd va \<Longrightarrow> in_cut a oldsz va \<longleftrightarrow> in_cut b oldsz va"
    using gap [of va] u by (force simp: in_cut_def word_le_nat_alt not_less [symmetric])
  have "PTX b = 0" if "PTX a = 0"
  proof -
    have "(n + 4194304) div 4096 mod 1024 = n div 4096 mod (1024 :: nat)" for n
      using div_mult_self2 [of 4096 n 1024] by simp
    then show ?thesis using that unat_PTX [of a] unat_PTX [of b] by (simp add: u word_unat_eq_iff)
  qed
  moreover have "a \<le> b" using u by (simp add: word_le_nat_alt)
  ultimately show "may_skip m pd b" using assms(1,2) by (auto simp: may_skip_def)
qed

lemma dealloc_loop_unmaps:
  fixes s :: "'a vm_st_scheme"
  assumes "vm_inv kend xs pd s" "lockset L s" "LKmem \<notin> set L" "KERNBASE < kend" "a mod PGSIZE = 0" "oldsz \<le> KERNBASE"
    and "unat oldsz \<le> unat a + 4096 * fuel" "may_skip (mem s) pd a"
  shows "returns (deallocuvm_loop (Suc fuel) kend pd a oldsz s) (\<lambda>t. lockset L t \<and> kmem_st.more t = kmem_st.more s \<and>
     (\<exists>ys. unmapped kend xs ys pd (in_cut a oldsz) s t))"
  using assms
proof (induction fuel arbitrary: a s xs)
  case 0
  then have "\<not> a < oldsz" by (simp add: word_less_nat_alt)
  then have "unmapped kend xs xs pd (in_cut a oldsz) s s" using 0 in_cut_none by (intro unmapped_none) auto
  then show ?case using 0 \<open>\<not> a < oldsz\<close> by auto
next
  case (Suc fuel)
  note w = walk_find [OF vm_inv_space(5) [OF Suc.prems(1)], of a]
  show ?case
  proof (cases "a < oldsz")
    case False
    then have "unmapped kend xs xs pd (in_cut a oldsz) s s" using Suc.prems in_cut_none by (intro unmapped_none) auto
    then show ?thesis using Suc.prems False by auto
  next
    case lt: True
    then have a31: "unat a < 2 ^ 31" using Suc.prems(6) by (simp add: KERNBASE_def word_less_nat_alt word_le_nat_alt)
    then have u: "unat (a + PGSIZE) = unat a + 4096" by (simp add: PGSIZE_def unat_plus_if_size word_size)
    have pg: "(a + PGSIZE) mod PGSIZE = 0" using page_diff(2) [OF Suc.prems(5), of PGSIZE] by (simp add: PGSIZE_def)
    have fl: "unat oldsz \<le> unat (a + PGSIZE) + 4096 * fuel" using Suc.prems(7) u by simp
    note step = in_cut_step [OF Suc.prems(5) lt Suc.prems(6)]
    show ?thesis
    proof (cases "has_tab (mem s) pd a")
      case False
      note k = skip_table [OF Suc.prems(8) False Suc.prems(5) a31]
      let ?b = "a + (NPTENTRIES - 1) * PGSIZE + PGSIZE"
      have "unat oldsz \<le> unat ?b + 4096 * fuel" using Suc.prems(7) k(3) by simp
      from Suc.IH [OF Suc.prems(1-4) k(4) Suc.prems(6) this k(1)]
      have "returns (deallocuvm_loop (Suc fuel) kend pd ?b oldsz s) (\<lambda>t. lockset L t \<and> kmem_st.more t = kmem_st.more s \<and>
         (\<exists>ys. unmapped kend xs ys pd (in_cut a oldsz) s t))"
        by (rule returns_mono) (use unmapped_trans [OF unmapped_none [OF Suc.prems(1), of "\<lambda>_. False"]] k(2) in blast)
      then show ?thesis using lt False w(1) by simp
    next
      case tab: True
      have sk: "may_skip (mem s) pd (a + PGSIZE)" using may_skip_next [OF tab Suc.prems(5)] a31 by simp
      show ?thesis
      proof (cases "pte (mem s) pd a AND PTE_P = 0")
        case True
        then have "\<not> low_page (mem s) pd va" if "same_page a va" for va using same_page_pte [OF that, of "mem s" pd] by (simp add: low_page_def)
        then have nl: "in_cut a oldsz va \<longleftrightarrow> in_cut (a + PGSIZE) oldsz va" if "low_page (mem s) pd va" for va using step that by blast
        from Suc.IH [OF Suc.prems(1-4) pg Suc.prems(6) fl sk]
        have "returns (deallocuvm_loop (Suc fuel) kend pd (a + PGSIZE) oldsz s) (\<lambda>t. lockset L t \<and> kmem_st.more t = kmem_st.more s \<and>
           (\<exists>ys. unmapped kend xs ys pd (in_cut a oldsz) s t))"
          by (rule returns_mono) (use unmapped_trans [OF unmapped_none [OF Suc.prems(1), of "\<lambda>_. False"]] nl in blast)
        then show ?thesis using lt tab True w by simp
      next
        case False
        have "a < KERNBASE" using lt Suc.prems(6) by simp
        then have low: "low_page (mem s) pd a" using False by (simp add: low_page_def)
        let ?k = "frame (mem s) pd a" and ?e = "tab (mem s) pd a + 4 * PTX a"
        have "page_ok kend ?k" using low vm_inv_space(4) [OF Suc.prems(1), of ?k] by (auto simp: space_def frames_def)
        then have "?k \<noteq> KERNBASE" using Suc.prems(4) by (auto simp: page_ok_def)
        then have nz: "PTE_ADDR (pte (mem s) pd a) \<noteq> 0" by (auto simp: frame_def p2v_def)
        obtain t where t: "kfree kend ?k s = Inr t" "lockset L t" "kmem_st.more t = kmem_st.more s"
          "unmapped kend xs (?k # xs) pd (same_page a) s (t\<lparr>mem := store32 ?e 0 (mem t)\<rparr>)"
          using unmap_one [OF Suc.prems(1-3) low] by (auto elim!: returnsE)
        let ?u = "t\<lparr>mem := store32 ?e 0 (mem t)\<rparr>"
        have u': "vm_inv kend (?k # xs) pd ?u" "lockset L ?u" "\<And>va. has_tab (mem ?u) pd va = has_tab (mem s) pd va"
          using t(2,4) by (simp_all add: unmapped_def)
        have sk': "may_skip (mem ?u) pd (a + PGSIZE)"
          using sk unmapped_low(1) [OF t(4)] u'(3) by (auto simp: may_skip_def)
        from Suc.IH [OF u'(1,2) Suc.prems(3,4) pg Suc.prems(6) fl sk']
        have "returns (deallocuvm_loop (Suc fuel) kend pd (a + PGSIZE) oldsz ?u) (\<lambda>t'. lockset L t' \<and> kmem_st.more t' = kmem_st.more s \<and>
           (\<exists>ys. unmapped kend xs ys pd (in_cut a oldsz) s t'))"
          by (rule returns_mono) (use unmapped_trans [OF t(4), where P = "in_cut a oldsz" and R = "in_cut (a + PGSIZE) oldsz"] step t(3) in auto)
        then show ?thesis using lt tab False w t(1) nz by (simp add: Let_def frame_def)
      qed
    qed
  qed
qed

section \<open>Freeing a space\<close>

definition dir_entry :: "mem \<Rightarrow> u32 \<Rightarrow> nat \<Rightarrow> u32" where
  "dir_entry m pd i = load32 m (pd + 4 * of_nat i)"

definition dir_tabs :: "mem \<Rightarrow> u32 \<Rightarrow> nat set \<Rightarrow> u32 set" where
  "dir_tabs m pd I = {p2v (PTE_ADDR (dir_entry m pd i)) |i. i \<in> I \<and> dir_entry m pd i AND PTE_P \<noteq> 0}"

lemma PDX_index:
  assumes "i < 1024"
  shows "PDX (of_nat (i * 4194304)) = of_nat i"
proof -
  have "unat (of_nat (i * 4194304) :: u32) = i * 4194304" "unat (of_nat i :: u32) = i"
    by (rule unat_of_nat32, use assms in simp)+
  then show ?thesis by (simp add: word_unat_eq_iff unat_PDX del: of_nat_mult)
qed

lemma dir_entry_pde: "i < 1024 \<Longrightarrow> dir_entry m pd i = pde m pd (of_nat (i * 4194304))" "pde m pd va = dir_entry m pd (unat (PDX va))"
  by (simp_all add: dir_entry_def pde_def PDX_index del: of_nat_mult)

lemma dir_tabs_all: "dir_tabs m pd {..<1024} = tabs m pd"
proof
  show "tabs m pd \<subseteq> dir_tabs m pd {..<1024}"
    using index_less(1) by (fastforce simp: tabs_def has_tab_def tab_def dir_tabs_def dir_entry_pde(2))
  show "dir_tabs m pd {..<1024} \<subseteq> tabs m pd"
    by (auto simp: tabs_def has_tab_def tab_def dir_tabs_def dir_entry_pde(1) simp del: of_nat_mult)
qed

lemma card_tabs: "finite (tabs m pd)" "card (tabs m pd) \<le> 1024"
proof -
  have "tabs m pd \<subseteq> (\<lambda>i. p2v (PTE_ADDR (dir_entry m pd i))) ` {..<1024}" by (auto simp: dir_tabs_all [symmetric] dir_tabs_def)
  then show "finite (tabs m pd)" "card (tabs m pd) \<le> 1024" using surj_card_le [of "{..<1024 :: nat}"] by (auto dest: finite_subset)
qed

lemma dir_tab_index:
  assumes "tabs_apart m pd" "i < 1024" "j < 1024" "dir_entry m pd i AND PTE_P \<noteq> 0" "dir_entry m pd j AND PTE_P \<noteq> 0"
    and "p2v (PTE_ADDR (dir_entry m pd i)) = p2v (PTE_ADDR (dir_entry m pd j))"
  shows "i = j"
proof -
  let ?a = "of_nat (i * 4194304) :: u32" and ?b = "of_nat (j * 4194304) :: u32"
  have "PDX ?a = PDX ?b"
    using assms(1) [unfolded tabs_apart_def, rule_format, of ?a ?b] assms(2-6)
    by (simp add: has_tab_def tab_def dir_entry_pde(1) del: of_nat_mult)
  then have "(of_nat i :: u32) = of_nat j" using assms(2,3) by (simp add: PDX_index del: of_nat_mult)
  moreover have "unat (of_nat i :: u32) = i" "unat (of_nat j :: u32) = j" by (rule unat_of_nat32, use assms(2,3) in simp)+
  ultimately show ?thesis by metis
qed

lemma free_tables_frees:
  fixes s :: "'a vm_st_scheme"
  assumes "kmem_inv kend zs s" "lockset L s" "LKmem \<notin> set L" "page_ok kend pd" "pd \<notin> set zs" "tabs_apart m pd"
    and "distinct is" "set is \<subseteq> {..<1024}" "\<forall>i\<in>set is. dir_entry (mem s) pd i = dir_entry m pd i"
    and "\<forall>k\<in>dir_tabs m pd (set is). page_ok kend k \<and> k \<notin> set zs \<and> k \<noteq> pd"
  shows "returns (free_tables kend pd is s) (\<lambda>t. lockset L t \<and> kmem_st.more t = kmem_st.more s \<and>
     (\<exists>ws. kmem_inv kend ws t \<and> set ws = set zs \<union> dir_tabs m pd (set is) \<and> pages_only (dir_tabs m pd (set is)) (mem s) (mem t)))"
  using assms
proof (induction "is" arbitrary: s zs)
  case Nil
  then show ?case by (auto simp: dir_tabs_def)
next
  case (Cons i "is")
  have e: "load32 (mem s) (pd + 4 * of_nat i) = dir_entry m pd i" using Cons.prems(9) by (simp add: dir_entry_def)
  let ?k = "p2v (PTE_ADDR (dir_entry m pd i))"
  show ?case
  proof (cases "dir_entry m pd i AND PTE_P = 0")
    case True
    then have "dir_tabs m pd (set (i # is)) = dir_tabs m pd (set is)" by (auto simp: dir_tabs_def)
    then show ?thesis using Cons.IH [OF Cons.prems(1-6)] Cons.prems(7-10) e True by simp
  next
    case False
    then have D: "dir_tabs m pd (set (i # is)) = insert ?k (dir_tabs m pd (set is))" by (auto simp: dir_tabs_def)
    have k: "page_ok kend ?k" "?k \<notin> set zs" "?k \<noteq> pd" using Cons.prems(10) unfolding D by auto
    have nk: "?k \<notin> dir_tabs m pd (set is)"
    proof
      assume "?k \<in> dir_tabs m pd (set is)"
      then obtain j where "j \<in> set is" "dir_entry m pd j AND PTE_P \<noteq> 0" "?k = p2v (PTE_ADDR (dir_entry m pd j))" by (auto simp: dir_tabs_def)
      then have "i = j" using dir_tab_index [OF Cons.prems(6), of i j] Cons.prems(8) False by auto
      then show False using \<open>j \<in> set is\<close> Cons.prems(7) by simp
    qed
    obtain t where t: "kfree kend ?k s = Inr t" "kmem_inv kend (?k # zs) t" "lockset L t" "kmem_st.more t = kmem_st.more s" "page_only ?k (mem s) (mem t)"
      using kfree_page [OF Cons.prems(2,3,1) k(1,2)] by (auto elim!: returnsE)
    have "dir_entry (mem t) pd j = dir_entry m pd j" if "j \<in> set is" for j
    proof -
      have "j < 1024" using that Cons.prems(8) by auto
      then have j: "unat (of_nat j :: u32) < 1024" by (simp add: unat_of_nat32)
      have "dir_entry (mem t) pd j = dir_entry (mem s) pd j" unfolding dir_entry_def
        by (rule page_only_load32 [OF t(5) page_aligned [OF Cons.prems(4)] page_aligned [OF k(1)] k(3) [symmetric] slot_fits(1) [OF j]])
      then show ?thesis using Cons.prems(9) that by simp
    qed
    then have "returns (free_tables kend pd is t) (\<lambda>u. lockset L u \<and> kmem_st.more u = kmem_st.more t \<and>
       (\<exists>ws. kmem_inv kend ws u \<and> set ws = set (?k # zs) \<union> dir_tabs m pd (set is) \<and> pages_only (dir_tabs m pd (set is)) (mem t) (mem u)))"
      using Cons.prems(7,8,10) k(3) nk Cons.prems(5) unfolding D by (intro Cons.IH [OF t(2,3) Cons.prems(3,4) _ Cons.prems(6)]) auto
    then have "returns (free_tables kend pd is t) (\<lambda>u. lockset L u \<and> kmem_st.more u = kmem_st.more s \<and>
       (\<exists>ws. kmem_inv kend ws u \<and> set ws = set zs \<union> dir_tabs m pd (set (i # is)) \<and> pages_only (dir_tabs m pd (set (i # is))) (mem s) (mem u)))"
      unfolding D
      by (rule returns_mono)
        (use t(4) in \<open>auto intro!: pages_only_trans [OF page_only_pages [OF t(5)]] elim!: pages_only_mono\<close>)
    then show ?thesis using e False t(1) by (simp add: Let_def)
  qed
qed

text \<open>\<^verbatim>\<open>freevm\<close> gives every page of the space back, each once.\<close>

lemma freevm_frees:
  fixes s :: "'a vm_st_scheme"
  assumes "vm_inv kend xs pd s" "lockset L s" "LKmem \<notin> set L" "KERNBASE < kend"
  shows "returns (freevm kend pd s) (\<lambda>t. lockset L t \<and> kmem_st.more t = kmem_st.more s \<and>
     (\<exists>ys. kmem_inv kend ys t \<and> set ys = set xs \<union> space (mem s) pd \<and> pages_only (space (mem s) pd) (mem s) (mem t)))"
proof -
  have skip: "may_skip (mem s) pd 0" by (simp add: may_skip_def PTX_def)
  obtain t ys where t: "deallocuvm_loop (2 ^ 20 + 1) kend pd 0 KERNBASE s = Inr t" "lockset L t" "kmem_st.more t = kmem_st.more s"
    "unmapped kend xs ys pd (in_cut 0 KERNBASE) s t"
    using dealloc_loop_unmaps [OF assms, of 0 KERNBASE "2 ^ 20"] skip by (auto simp: KERNBASE_def PGSIZE_def elim!: returnsE)
  have all: "in_cut 0 KERNBASE va" if "low_page (mem s) pd va" for va
  proof -
    have "PGROUNDDOWN va \<le> va" by (simp add: word_le_nat_alt unat_PGROUNDDOWN)
    then show ?thesis using that by (auto simp: in_cut_def low_page_def intro: le_less_trans)
  qed
  have F: "{frame (mem s) pd va |va. low_page (mem s) pd va \<and> in_cut 0 KERNBASE va} = frames (mem s) pd" using all by (auto simp: frames_def)
  have m: "set ys = set xs \<union> frames (mem s) pd" "tabs (mem t) pd = tabs (mem s) pd" "vm_inv kend ys pd t"
    "pages_only (tabs (mem s) pd \<union> frames (mem s) pd) (mem s) (mem t)"
    using t(4) unfolding unmapped_def F by simp_all
  note v = m(3)
  have pd: "page_ok kend pd" "pd \<notin> set ys" "tabs_apart (mem t) pd" "pd \<noteq> 0"
    using v vm_inv_space(2) [OF v] by (auto simp: pd_inv_def page_ok_def)
  have "\<forall>k\<in>dir_tabs (mem t) pd (set [0..<1024]). page_ok kend k \<and> k \<notin> set ys \<and> k \<noteq> pd"
    using vm_inv_space(2) [OF v] by (auto simp: dir_tabs_all atLeast0LessThan tabs_def pd_inv_def)
  then obtain u ws where u: "free_tables kend pd [0..<1024] t = Inr u" "lockset L u" "kmem_st.more u = kmem_st.more t" "kmem_inv kend ws u"
    "set ws = set ys \<union> tabs (mem s) pd" "pages_only (tabs (mem s) pd) (mem t) (mem u)"
    using free_tables_frees [OF vm_inv_space(1) [OF v] t(2) assms(3) pd(1,2,3), of "[0..<1024]"]
    by (auto simp: dir_tabs_all atLeast0LessThan m(2) elim!: returnsE)
  have "pd \<notin> set ws" using pd(2) u(5) vm_inv_space(2) [OF assms(1)] by (auto simp: tabs_def pd_inv_def)
  then obtain w where w: "kfree kend pd u = Inr w" "kmem_inv kend (pd # ws) w" "lockset L w" "kmem_st.more w = kmem_st.more u" "page_only pd (mem u) (mem w)"
    using kfree_page [OF u(2) assms(3) u(4) pd(1)] by (auto elim!: returnsE)
  have "pages_only (space (mem s) pd) (mem s) (mem w)"
    by (rule pages_only_trans [OF pages_only_mono [OF m(4)] pages_only_trans [OF pages_only_mono [OF u(6)] page_only_pages [OF w(5)]]])
      (auto simp: space_def)
  moreover have "set (pd # ws) = set xs \<union> space (mem s) pd" using u(5) m(1) by (auto simp: space_def)
  ultimately have "\<exists>ys. kmem_inv kend ys w \<and> set ys = set xs \<union> space (mem s) pd \<and> pages_only (space (mem s) pd) (mem s) (mem w)" using w(2) by blast
  moreover have "PGROUNDUP 0 = 0" "\<not> KERNBASE \<le> 0" by (simp_all add: PGROUNDUP_def PGSIZE_def KERNBASE_def)
  ultimately show ?thesis using pd(4) t(1,3) u(1,3) w(1,3,4) by (simp add: freevm_def deallocuvm_def NPDENTRIES_def)
qed

end
