(* ===== verification/Vm_Fork.thy ===== *)
theory Vm_Fork
  imports Vm_Space
begin

text \<open>
  Building address spaces: the kernel's part of a space (\<^verbatim>\<open>setupkvm\<close>), growing one
  (\<^verbatim>\<open>allocuvm\<close>) and copying one for \<^verbatim>\<open>fork\<close> (\<^verbatim>\<open>copyuvm\<close>). The linker places \<^verbatim>\<open>data\<close> at a page
  boundary above the kernel's start (\<open>kdata_ok\<close>) and \<^verbatim>\<open>end\<close> above the base of the kernel's addresses.
\<close>

section \<open>The kernel's part\<close>

definition kdata_ok :: "u32 \<Rightarrow> bool" where
  "kdata_ok kdata \<longleftrightarrow> kdata mod PGSIZE = 0 \<and> KERNLINK < kdata \<and> kdata < p2v PHYSTOP"

definition ksize :: "kmap_entry \<Rightarrow> nat" where
  "ksize k = unat (phys_end k - phys_start k)"

text \<open>Entries in increasing order, page-aligned, in the kernel's half and not for user programs.\<close>

fun kmap_ok :: "nat \<Rightarrow> kmap_entry list \<Rightarrow> bool" where
  "kmap_ok lo [] \<longleftrightarrow> True"
| "kmap_ok lo (k # ks) \<longleftrightarrow> lo \<le> unat (virt k) \<and> KERNBASE \<le> virt k \<and> virt k mod PGSIZE = 0 \<and> phys_start k mod PGSIZE = 0 \<and>
     kperm k AND PTE_U = 0 \<and> 0 < ksize k \<and> unat (virt k) + ksize k \<le> 2 ^ 32 \<and> kmap_ok (unat (virt k) + ksize k) ks"

lemma kmap_kdata:
  assumes "kdata_ok kdata"
  shows "kmap_ok 0 (kmap kdata)"
proof -
  have c: "unat KERNBASE = 0x80000000" "unat KERNLINK = 0x80100000" "unat EXTMEM = 0x100000" "unat DEVSPACE = 0xFE000000"
    "unat (p2v PHYSTOP) = 0x8E000000" "unat PHYSTOP = 0xE000000"
    by (simp_all add: KERNBASE_def KERNLINK_def EXTMEM_def DEVSPACE_def p2v_def PHYSTOP_def)
  have k: "0x80100000 < unat kdata" "unat kdata < 0x8E000000" using assms by (simp_all add: kdata_ok_def word_less_nat_alt c)
  have v: "unat (v2p kdata) = unat kdata - 0x80000000" using k by (simp add: v2p_def unat_sub_if' c)
  have "v2p KERNLINK = 0x100000" by (simp add: v2p_def KERNLINK_def EXTMEM_def)
  then have s: "unat (v2p kdata - v2p KERNLINK) = unat kdata - 0x80100000" "unat (PHYSTOP - v2p kdata) = 0x8E000000 - unat kdata"
    using k by (simp_all add: unat_sub_if' v c)
  have "v2p kdata mod PGSIZE = 0" using page_diff(1) [of kdata KERNBASE] assms KERNBASE_page by (simp add: v2p_def kdata_ok_def)
  moreover have "unat (0 - DEVSPACE) = 0x2000000" by (simp add: DEVSPACE_def)
  ultimately show ?thesis
    using k assms by (simp add: kmap_def ksize_def s c word_le_nat_alt kdata_ok_def PTE_W_def PTE_U_def)
      (simp add: KERNBASE_def KERNLINK_def EXTMEM_def DEVSPACE_def PGSIZE_def v2p_def)
qed

lemma aligned_flags:
  assumes "q mod PGSIZE = 0" "perm AND PTE_U = 0"
  shows "(q OR perm OR PTE_P) AND PTE_U = 0"
proof -
  obtain x where "q = push_bit 12 x" using assms(1) [unfolded page_shifted] ..
  moreover have u: "PTE_U = push_bit 2 1" by (simp add: PTE_U_def)
  have "push_bit 12 x AND PTE_U = 0" for x :: u32 unfolding u
    by (rule bit_word_eqI) (auto simp: bit_push_bit_iff bit_and_iff bit_1_iff simp del: push_bit_of_1)
  ultimately show ?thesis using assms(2) by (simp add: bit.conj_disj_distrib2 PTE_P_def PTE_U_def)
qed

definition kcovers :: "kmap_entry \<Rightarrow> u32 \<Rightarrow> bool" where
  "kcovers k vb \<longleftrightarrow> virt k \<le> vb \<and> unat vb < unat (virt k) + ksize k"

definition kpte :: "kmap_entry \<Rightarrow> u32 \<Rightarrow> u32" where
  "kpte k vb = (phys_start k + (PGROUNDDOWN vb - virt k)) OR kperm k OR PTE_P"

text \<open>What mapping the kernel's entries does: the user's half is left alone, every kernel page has the entry the
  table asks for, and none is open to user programs; a failure leaves no free page.\<close>

definition kernel_part ::
  "u32 \<Rightarrow> u32 list \<Rightarrow> u32 list \<Rightarrow> u32 \<Rightarrow> kmap_entry list \<Rightarrow> 'a kmem_st_scheme \<Rightarrow> int \<Rightarrow> 'a kmem_st_scheme \<Rightarrow> bool" where
  "kernel_part kend xs ys pd ks s r t \<longleftrightarrow> pd_inv kend ys pd t \<and> set ys \<subseteq> set xs \<and> tabs (mem t) pd \<union> set ys = tabs (mem s) pd \<union> set xs \<and>
     pages_only (insert pd (set xs \<union> tabs (mem s) pd)) (mem s) (mem t) \<and>
     (\<forall>va. va < KERNBASE \<longrightarrow> pte (mem t) pd va = pte (mem s) pd va \<and> (has_tab (mem t) pd va \<longrightarrow> has_tab (mem s) pd va)) \<and> kernel_only (mem t) pd \<and>
     (r = 0 \<and> (\<forall>k\<in>set ks. \<forall>vb. kcovers k vb \<longrightarrow> pte (mem t) pd vb = kpte k vb) \<or> r = -1 \<and> ys = [])"

lemma run_in: "A \<le> B \<Longrightarrow> v div 4096 \<le> B \<Longrightarrow> v < A * 4096 + 4096 * Suc (B - A)" for v :: nat
  by (simp add: diff_mult_distrib2 algebra_simps)

lemma map_entry:
  fixes s :: "'a vm_st_scheme"
  assumes "pd_inv kend xs pd s" "lockset L s" "LKmem \<notin> set L" "kmap_ok lo (k # ks)" "kernel_only (mem s) pd"
    and "\<forall>vb. lo \<le> unat (PGROUNDDOWN vb) \<longrightarrow> pte (mem s) pd vb AND PTE_P = 0"
  shows "returns (mappages pd (virt k) (phys_end k - phys_start k) (phys_start k) (kperm k) s) (\<lambda>(r, t). lockset L t \<and> kmem_st.more t = kmem_st.more s \<and>
     (\<exists>ys. kernel_part kend xs ys pd [k] s r t) \<and>
     (\<forall>vb. unat (PGROUNDDOWN vb) < lo \<or> unat (virt k) + ksize k \<le> unat (PGROUNDDOWN vb) \<longrightarrow> pte (mem t) pd vb = pte (mem s) pd vb))"
proof -
  let ?v = "virt k" and ?sz = "phys_end k - phys_start k"
  have k: "lo \<le> unat ?v" "KERNBASE \<le> ?v" "?v mod PGSIZE = 0" "phys_start k mod PGSIZE = 0" "kperm k AND PTE_U = 0" "0 < ksize k" "unat ?v + ksize k \<le> 2 ^ 32"
    using assms(4) by simp_all
  have pos: "0 < ?sz" using k(6) by (simp add: ksize_def word_less_nat_alt)
  have fits: "unat ?v + unat ?sz \<le> 2 ^ 32" using k(7) by (simp add: ksize_def)
  have np: "\<forall>vb. PGROUNDDOWN ?v \<le> vb \<and> PGROUNDDOWN vb \<le> ?v + ?sz - 1 \<longrightarrow> pte (mem s) pd vb AND PTE_P = 0"
    using assms(6) k(1) rounddown_ge [OF k(3)] rounddown_page [OF k(3)] by (auto simp: word_le_nat_alt intro: order_trans)
  note run = mappages_run [OF assms(1-3) pos fits np, of "phys_start k" "kperm k", unfolded rounddown_page [OF k(3)]]
  have m: "unat ?v div 4096 * 4096 = unat ?v" using page_unat [OF k(3)] by (simp add: minus_mod_eq_div_mult [symmetric])
  have le: "unat ?v div 4096 \<le> (unat ?v + unat ?sz - 1) div 4096" by (rule div_le_mono) (use k(6) in \<open>simp add: ksize_def\<close>)
  let ?n = "Suc ((unat ?v + unat ?sz - 1) div 4096 - unat ?v div 4096)"
  obtain r t ys where l: "mappages pd ?v ?sz (phys_start k) (kperm k) s = Inr (r, t)" "lockset L t" "kmem_st.more t = kmem_st.more s"
    and "mapped kend xs ys pd ?v ?n (phys_start k) (kperm k) s r t"
    using run by (auto elim!: returnsE)
  then obtain j where t: "pd_inv kend ys pd t" "set ys \<subseteq> set xs" "r = 0 \<and> j = ?n \<or> r = -1 \<and> j < ?n \<and> ys = []"
    "\<And>vb. pte (mem t) pd vb = (if in_run ?v j vb then kpte k vb else pte (mem s) pd vb)"
    "pages_only (insert pd (set xs \<union> tabs (mem s) pd)) (mem s) (mem t)" "tabs (mem t) pd \<union> set ys = tabs (mem s) pd \<union> set xs"
    "\<And>vb. has_tab (mem t) pd vb \<Longrightarrow> has_tab (mem s) pd vb \<or> (\<exists>va. in_run ?v ?n va \<and> PDX va = PDX vb)"
    by (auto simp: mapped_def kpte_def)
  have top: "unat (PGROUNDDOWN vb) < unat ?v + ksize k" if "in_run ?v j vb" for vb
  proof -
    have "unat vb < unat ?v + 4096 * ?n" using that t(3) by (auto simp: in_run_def)
    then have "unat vb div 4096 \<le> (unat ?v + unat ?sz - 1) div 4096" by (intro run_top [OF le]) (simp only: m)
    then have "unat vb div 4096 * 4096 \<le> unat ?v + unat ?sz - 1" by (meson div_times_less_eq_dividend mult_le_mono1 order_trans)
    then show ?thesis using k(6) by (simp add: unat_PGROUNDDOWN ksize_def)
  qed
  have bot: "?v \<le> PGROUNDDOWN vb" "?v \<le> vb" if "in_run ?v j vb" for vb
    using that rounddown_ge [OF k(3), of vb] by (simp_all add: in_run_def word_le_nat_alt)
  have cov: "in_run ?v ?n vb" if "kcovers k vb" for vb
  proof -
    have "unat vb div 4096 \<le> (unat ?v + unat ?sz - 1) div 4096" using that by (intro div_le_mono) (auto simp: kcovers_def ksize_def)
    then have "unat vb < unat ?v div 4096 * 4096 + 4096 * ?n" by (rule run_in [OF le])
    then show ?thesis using that unfolding m by (simp add: in_run_def kcovers_def word_le_nat_alt)
  qed
  have "has_tab (mem s) pd va" if lowa: "va < KERNBASE" "has_tab (mem t) pd va" for va
  proof (rule ccontr)
    assume "\<not> has_tab (mem s) pd va"
    then obtain vb where vb: "?v \<le> vb" "PDX vb = PDX va" using t(7) [OF lowa(2)] by (auto simp: in_run_def word_le_nat_alt)
    have "unat vb div 4194304 = unat va div 4194304" using vb(2) by (metis unat_PDX)
    moreover have "2 ^ 31 \<le> unat vb" "unat va < 2 ^ 31" using k(2) vb(1) lowa(1) by (auto simp: KERNBASE_def word_le_nat_alt word_less_nat_alt)
    then have "512 \<le> unat vb div 4194304" "unat va div 4194304 < 512" by simp_all
    ultimately show False by simp
  qed
  then have "pte (mem t) pd va = pte (mem s) pd va \<and> (has_tab (mem t) pd va \<longrightarrow> has_tab (mem s) pd va)" if "va < KERNBASE" for va
    using that bot(2) [of va] k(2) t(4) [of va] by auto
  moreover have "kernel_only (mem t) pd" unfolding kernel_only_def
  proof (intro allI impI)
    fix va :: u32 assume "KERNBASE \<le> va"
    have "PGROUNDDOWN va mod PGSIZE = 0" unfolding page_shifted PGROUNDDOWN_bits by blast
    then have "(phys_start k + (PGROUNDDOWN va - ?v)) mod PGSIZE = 0" by (intro page_diff k(3,4))
    then have "kpte k va AND PTE_U = 0" unfolding kpte_def using k(5) by (rule aligned_flags)
    then show "pte (mem t) pd va AND PTE_U = 0" using t(4) [of va] assms(5) \<open>KERNBASE \<le> va\<close> by (simp add: kernel_only_def)
  qed
  moreover have "r = 0 \<and> (\<forall>vb. kcovers k vb \<longrightarrow> pte (mem t) pd vb = kpte k vb) \<or> r = -1 \<and> ys = []" using t(3,4) cov by auto
  ultimately have "kernel_part kend xs ys pd [k] s r t" using t(1,2,5,6) by (simp add: kernel_part_def)
  moreover have "pte (mem t) pd vb = pte (mem s) pd vb" if "unat (PGROUNDDOWN vb) < lo \<or> unat ?v + ksize k \<le> unat (PGROUNDDOWN vb)" for vb
    using that top [of vb] bot(1) [of vb] k(1) t(4) [of vb] by (auto simp: word_le_nat_alt)
  ultimately show ?thesis using l by auto
qed

lemma kernel_part_cons:
  assumes "kernel_part kend xs ys pd [k] s 0 u" "kernel_part kend ys zs pd ks u r t"
    and "\<And>vb. kcovers k vb \<Longrightarrow> pte (mem t) pd vb = pte (mem u) pd vb"
  shows "kernel_part kend xs zs pd (k # ks) s r t"
proof -
  have u: "set ys \<subseteq> set xs" "tabs (mem u) pd \<union> set ys = tabs (mem s) pd \<union> set xs" "pages_only (insert pd (set xs \<union> tabs (mem s) pd)) (mem s) (mem u)"
    "\<And>va. va < KERNBASE \<Longrightarrow> pte (mem u) pd va = pte (mem s) pd va \<and> (has_tab (mem u) pd va \<longrightarrow> has_tab (mem s) pd va)" "\<And>vb. kcovers k vb \<Longrightarrow> pte (mem u) pd vb = kpte k vb"
    using assms(1) by (simp_all add: kernel_part_def)
  have "pages_only (insert pd (set ys \<union> tabs (mem u) pd)) (mem u) (mem t)" using assms(2) by (simp add: kernel_part_def)
  then have "pages_only (insert pd (set xs \<union> tabs (mem s) pd)) (mem s) (mem t)"
    by (intro pages_only_trans [OF u(3)]) (erule pages_only_mono, use u(1,2) in blast)
  then show ?thesis using assms(2,3) u(1,2,4,5) by (auto simp: kernel_part_def)
qed

lemma map_kernel_maps:
  fixes s :: "'a vm_st_scheme"
  assumes "pd_inv kend xs pd s" "lockset L s" "LKmem \<notin> set L" "kmap_ok lo ks" "kernel_only (mem s) pd"
    and "\<forall>vb. lo \<le> unat (PGROUNDDOWN vb) \<longrightarrow> pte (mem s) pd vb AND PTE_P = 0"
  shows "returns (map_kernel pd ks s) (\<lambda>(r, t). lockset L t \<and> kmem_st.more t = kmem_st.more s \<and>
     (\<exists>ys. kernel_part kend xs ys pd ks s r t) \<and> (\<forall>vb. unat (PGROUNDDOWN vb) < lo \<longrightarrow> pte (mem t) pd vb = pte (mem s) pd vb))"
  using assms
proof (induction ks arbitrary: lo xs s)
  case Nil
  then have "kernel_part kend xs xs pd [] s 0 s" by (simp add: kernel_part_def)
  then show ?case using Nil by auto
next
  case (Cons k ks)
  let ?hi = "unat (virt k) + ksize k"
  obtain r u ys where u: "mappages pd (virt k) (phys_end k - phys_start k) (phys_start k) (kperm k) s = Inr (r, u)" "lockset L u" "kmem_st.more u = kmem_st.more s"
    "kernel_part kend xs ys pd [k] s r u" "\<And>vb. unat (PGROUNDDOWN vb) < lo \<or> ?hi \<le> unat (PGROUNDDOWN vb) \<Longrightarrow> pte (mem u) pd vb = pte (mem s) pd vb"
    using map_entry [OF Cons.prems] by (auto elim!: returnsE)
  have lo: "lo \<le> unat (virt k)" "kmap_ok ?hi ks" using Cons.prems(4) by simp_all
  show ?case
  proof (cases "r = 0")
    case False
    then have "kernel_part kend xs ys pd (k # ks) s (-1) u" "r = -1" using u(4) by (auto simp: kernel_part_def)
    then show ?thesis using u by auto
  next
    case True
    have np: "\<forall>vb. ?hi \<le> unat (PGROUNDDOWN vb) \<longrightarrow> pte (mem u) pd vb AND PTE_P = 0" using u(5) Cons.prems(6) lo(1) by simp
    have ku: "pd_inv kend ys pd u" "kernel_only (mem u) pd" using u(4) by (simp_all add: kernel_part_def)
    obtain r' t zs where t: "lockset L t" "kmem_st.more t = kmem_st.more u" "kernel_part kend ys zs pd ks u r' t"
      "\<And>vb. unat (PGROUNDDOWN vb) < ?hi \<Longrightarrow> pte (mem t) pd vb = pte (mem u) pd vb" "map_kernel pd ks u = Inr (r', t)"
      using Cons.IH [OF ku(1) u(2) Cons.prems(3) lo(2) ku(2) np] by (auto elim!: returnsE)
    have "pte (mem t) pd vb = pte (mem u) pd vb" if "kcovers k vb" for vb
      proof -
        have "unat (PGROUNDDOWN vb) \<le> unat vb" by (simp add: unat_PGROUNDDOWN)
        then show ?thesis using that t(4) by (simp add: kcovers_def)
      qed
      then have "kernel_part kend xs zs pd (k # ks) s r' t" using kernel_part_cons [OF _ t(3)] u(4) True by blast
      moreover have "pte (mem t) pd vb = pte (mem s) pd vb" if "unat (PGROUNDDOWN vb) < lo" for vb using that t(4) u(5) lo(1) by simp
    ultimately show ?thesis using t(1,2,5) u(1,3) True by auto
  qed
qed

text \<open>\<^verbatim>\<open>setupkvm\<close> makes a space with the kernel's part and nothing else, out of free pages. When it fails, there is no free page
  left, and there were no more than a directory and the tables of the kernel's half can use.\<close>

lemma upper_tabs:
  assumes "\<And>va. va < KERNBASE \<Longrightarrow> \<not> has_tab m pd va"
  shows "card (tabs m pd) \<le> 512"
proof -
  have "tabs m pd \<subseteq> (\<lambda>i. p2v (PTE_ADDR (dir_entry m pd i))) ` {512..<1024}"
  proof
    fix x assume "x \<in> tabs m pd"
    then obtain va where va: "has_tab m pd va" "x = tab m pd va" by (auto simp: tabs_def)
    then have "KERNBASE \<le> va" using assms by (meson not_le)
    then have "2 ^ 31 \<le> unat va" by (simp add: KERNBASE_def word_le_nat_alt)
    then have "unat (PDX va) \<in> {512..<1024}" using index_less(1) [of va] by (simp add: unat_PDX)
    moreover have "x = p2v (PTE_ADDR (dir_entry m pd (unat (PDX va))))" using va(2) by (simp add: tab_def dir_entry_pde(2))
    ultimately show "x \<in> (\<lambda>i. p2v (PTE_ADDR (dir_entry m pd i))) ` {512..<1024}" by blast
  qed
  then show ?thesis using surj_card_le [of "{512..<1024 :: nat}"] by fastforce
qed

definition fresh_space :: "u32 \<Rightarrow> u32 \<Rightarrow> u32 list \<Rightarrow> u32 list \<Rightarrow> u32 \<Rightarrow> 'a kmem_st_scheme \<Rightarrow> bool" where
  "fresh_space kend kdata xs ys d t \<longleftrightarrow> vm_inv kend ys d t \<and> frames (mem t) d = {} \<and> space (mem t) d \<union> set ys = set xs \<and>
     (\<forall>va. va < KERNBASE \<longrightarrow> pte (mem t) d va = 0) \<and> (\<forall>k\<in>set (kmap kdata). \<forall>vb. kcovers k vb \<longrightarrow> pte (mem t) d vb = kpte k vb)"

lemma setupkvm_fresh:
  fixes s :: "'a vm_st_scheme"
  assumes "kmem_inv kend xs s" "lockset L s" "LKmem \<notin> set L" "kdata_ok kdata"
  shows "returns (setupkvm kdata s) (\<lambda>(d, t). lockset L t \<and> kmem_st.more t = kmem_st.more s \<and> pages_only (set xs) (mem s) (mem t) \<and>
     (\<exists>ys. set ys \<subseteq> set xs \<and> (d = 0 \<and> ys = [] \<and> kmem_inv kend ys t \<and> length xs \<le> 513 \<or> d \<noteq> 0 \<and> fresh_space kend kdata xs ys d t)))"
proof -
  obtain d t where k: "kalloc s = Inr (d, t)" "d = (case xs of [] \<Rightarrow> 0 | x # _ \<Rightarrow> x)" "kmem_inv kend (tl xs) t" "lockset L t"
    "kmem_st.more t = kmem_st.more s" "mem t = mem s" "use_lock t = use_lock s"
    using kalloc_pop [OF assms(2,3,1)] by (auto elim!: returnsE)
  show ?thesis
  proof (cases xs)
    case Nil
    then show ?thesis using k by (auto simp: setupkvm_def)
  next
    case (Cons x xs')
    have x: "page_ok kend x" "x \<notin> set xs'" "d = x" using assms(1) k(2) by (auto simp: Cons kmem_inv_def)
    let ?u = "t\<lparr>mem := memset x 0 PGSIZE (mem t)\<rparr>"
    have po: "page_only x (mem s) (mem ?u)" using page_only_memset [of 0 PGSIZE x "mem s" 0] k(6) by (simp add: PGSIZE_def)
    have km: "kmem_inv kend xs' ?u"
      by (rule kmem_inv_page_only [of _ _ t x]) (use k(3,6) x po page_aligned [OF x(1)] Cons in auto)
    have nt: "\<not> has_tab (mem ?u) x va" for va
      using load32_zeroed [OF index_less(1), of x "mem t" va] by (simp add: has_tab_def pde_def)
    then have z: "pte (mem ?u) x va = 0" for va by (simp add: pte_def)
    have "pd_inv kend xs' x ?u" using km x nt by (simp add: pd_inv_def tabs_apart_def)
    then obtain r w ys where w: "map_kernel x (kmap kdata) ?u = Inr (r, w)" "lockset L w" "kmem_st.more w = kmem_st.more s" "kernel_part kend xs' ys x (kmap kdata) ?u r w"
      using map_kernel_maps [OF _ _ assms(3) kmap_kdata [OF assms(4)], of kend xs' x ?u] k(4,5) z
      by (auto simp: kernel_only_def elim!: returnsE)
    have tz: "tabs (mem ?u) x = {}" using nt by (simp add: tabs_def)
    have kp: "pd_inv kend ys x w" "set ys \<subseteq> set xs'" "tabs (mem w) x \<union> set ys = set xs'" "pages_only (insert x (set xs')) (mem ?u) (mem w)"
      "\<And>va. va < KERNBASE \<Longrightarrow> pte (mem w) x va = 0" "kernel_only (mem w) x" "\<And>va. va < KERNBASE \<Longrightarrow> \<not> has_tab (mem w) x va"
      using w(4) z nt unfolding kernel_part_def tz by simp_all
    have low: "\<not> low_page (mem w) x va" for va using kp(5) [of va] by (auto simp: low_page_def)
    then have fr: "frames (mem w) x = {}" "frames_apart (mem w) x" by (simp_all add: frames_def frames_apart_def)
    have "vm_inv kend ys x w" using kp(1,6) fr by (simp add: vm_inv_def)
    moreover have "space (mem w) x \<union> set ys = set xs" using kp(3) fr(1) by (auto simp: space_def Cons)
    ultimately have fs: "r = 0 \<Longrightarrow> fresh_space kend kdata xs ys x w" using w(4) fr(1) kp(5) by (simp add: fresh_space_def kernel_part_def)
    have po': "pages_only (set xs) (mem s) (mem w)"
      using pages_only_trans [OF page_only_pages [OF po, of "set xs"] kp(4) [folded list.set(2), folded Cons]] by (simp add: Cons)
    have r: "r = 0 \<or> r = -1 \<and> ys = []" "kmem_inv kend ys w" using w(4) kp(1) by (auto simp: kernel_part_def pd_inv_def)
    have "x \<noteq> 0" "\<not> DEVSPACE < p2v PHYSTOP" using x(1) by (simp_all add: page_ok_def DEVSPACE_def p2v_def PHYSTOP_def KERNBASE_def)
    then have "setupkvm kdata s = Inr (if r < 0 then 0 else x, w)" using k(1) x(3) w(1) by (simp add: setupkvm_def Let_def)
    moreover have "length xs \<le> 513" if "ys = []"
    proof -
      have "card (set xs') \<le> 512" using kp(3) that upper_tabs [OF kp(7)] by simp
      then show ?thesis using assms(1) distinct_card [of xs'] by (simp add: Cons kmem_inv_def)
    qed
    ultimately show ?thesis using r(1) fs r(2) po' w(2,3) kp(2) \<open>x \<noteq> 0\<close> by (auto simp: Cons)
  qed
qed

end
