(* ===== verification/Vm_Copy.thy ===== *)
theory Vm_Copy
  imports Vm_Fork
begin

text \<open>
  Copying an address space: after \<^verbatim>\<open>copyuvm\<close> the child sees the bytes the parent sees, in pages of
  its own, and every page is accounted for.
\<close>

section \<open>Copying a page\<close>

lemma page_ok_top: "page_ok kend k \<Longrightarrow> unat k + 4096 < 2 ^ 32"
  by (auto simp: page_ok_def v2p_def KERNBASE_def PHYSTOP_def word_less_nat_alt unat_sub_if' split: if_splits)

lemma copy_page:
  assumes "page_ok kend x" "page_ok kend k" "x \<noteq> k"
  shows "page_only x m (memmove x k PGSIZE m)" "i < PGSIZE \<Longrightarrow> memmove x k PGSIZE m (x + i) = m (k + i)"
proof -
  have "memmove x k PGSIZE m = moved x k 4096 m"
    using memmove_moved [of k PGSIZE x m] page_ok_top [OF assms(1)] page_ok_top [OF assms(2)] by (simp add: PGSIZE_def)
  then show "page_only x m (memmove x k PGSIZE m)" "i < PGSIZE \<Longrightarrow> memmove x k PGSIZE m (x + i) = m (k + i)"
    by (simp_all add: page_only_def moved_def PGSIZE_def word_le_nat_alt word_less_nat_alt)
qed

definition page_byte :: "mem \<Rightarrow> u32 \<Rightarrow> u32 \<Rightarrow> u8" where
  "page_byte m pd va = m (frame m pd va + (va AND 0xFFF))"

text \<open>The user memory of a space is \<open>[0, sz)\<close>, in whole pages.\<close>

definition spans :: "mem \<Rightarrow> u32 \<Rightarrow> u32 \<Rightarrow> bool" where
  "spans m pd sz \<longleftrightarrow> (\<forall>va. low_page m pd va \<longleftrightarrow> PGROUNDDOWN va < sz)"

definition same_pages :: "mem \<Rightarrow> u32 \<Rightarrow> u32 \<Rightarrow> bool" where
  "same_pages m pd d \<longleftrightarrow> (\<forall>va. low_page m d va \<longrightarrow> PTE_FLAGS (pte m d va) = PTE_FLAGS (pte m pd va) \<and> page_byte m d va = page_byte m pd va)"

lemma flags_user:
  assumes "PTE_FLAGS a = PTE_FLAGS b"
  shows "a AND PTE_P = b AND PTE_P" "user_pte a = user_pte b"
proof -
  have "e AND PTE_P = PTE_FLAGS e AND PTE_P" "e AND PTE_U = PTE_FLAGS e AND PTE_U" for e
    by (simp_all add: PTE_FLAGS_def PTE_P_def PTE_U_def and.assoc)
  then show "a AND PTE_P = b AND PTE_P" "user_pte a = user_pte b" using assms by (metis user_pte_def)+
qed

lemma same_pages_user:
  assumes "same_pages m pd d" "spans m pd sz" "spans m d sz" "kernel_only m pd" "kernel_only m d"
  shows "user_byte m d va = user_byte m pd va"
proof (cases "PGROUNDDOWN va < sz")
  case True
  then have "low_page m d va" using assms(3) by (simp add: spans_def)
  then have "PTE_FLAGS (pte m d va) = PTE_FLAGS (pte m pd va)" "page_byte m d va = page_byte m pd va"
    using assms(1) by (auto simp: same_pages_def)
  then show ?thesis using flags_user(2) [of "pte m d va" "pte m pd va"] by (simp add: user_byte_def page_byte_def)
next
  case False
  then have "\<not> low_page m d va" "\<not> low_page m pd va" using assms(2,3) by (auto simp: spans_def)
  then show ?thesis using user_low [OF assms(4), of va] user_low [OF assms(5), of va] by (auto simp: user_byte_def)
qed

section \<open>Two spaces\<close>

definition copying :: "u32 \<Rightarrow> u32 list \<Rightarrow> u32 \<Rightarrow> u32 \<Rightarrow> u32 \<Rightarrow> u32 \<Rightarrow> 'a kmem_st_scheme \<Rightarrow> bool" where
  "copying kend xs pd d i sz s \<longleftrightarrow> vm_inv kend xs pd s \<and> vm_inv kend xs d s \<and> space (mem s) pd \<inter> space (mem s) d = {} \<and>
     spans (mem s) pd sz \<and> spans (mem s) d i \<and> same_pages (mem s) pd d"

lemma page_byte_frame:
  assumes "pages_only K m m'" "\<forall>x\<in>K. x mod PGSIZE = 0" "frame m pd va \<notin> K" "frame m' pd va = frame m pd va"
  shows "page_byte m' pd va = page_byte m pd va"
  using frame_byte [OF assms(1-3)] assms(4) by (simp add: page_byte_def)

lemma low_frame: "low_page m pd va \<Longrightarrow> frame m pd va \<in> space m pd"
  by (auto simp: space_def frames_def)

lemma spans_low: "spans m pd sz \<Longrightarrow> low_page m pd va \<longleftrightarrow> PGROUNDDOWN va < sz"
  by (simp add: spans_def)

text \<open>Taking a free page and filling it does not touch the two spaces.\<close>

lemma copying_fill:
  assumes "copying kend (x # xs) pd d i sz s" "kmem_inv kend xs t" "page_only x (mem s) (mem t)"
  shows "copying kend xs pd d i sz t" "x \<notin> space (mem t) d" "x \<notin> space (mem t) pd" "x \<notin> set xs" "page_ok kend x"
    "pte (mem t) pd va = pte (mem s) pd va" "pte (mem t) d va = pte (mem s) d va" "space (mem t) d = space (mem s) d"
    "space (mem t) pd = space (mem s) pd" "user_byte (mem t) pd va = user_byte (mem s) pd va"
proof -
  have v: "vm_inv kend (x # xs) pd s" "vm_inv kend (x # xs) d s" using assms(1) by (simp_all add: copying_def)
  have x: "page_ok kend x" "x \<notin> set xs" using vm_inv_space(1) [OF v(1)] by (auto simp: kmem_inv_def)
  have po: "pages_only {x} (mem s) (mem t)" "\<forall>y\<in>{x}. y mod PGSIZE = 0" using page_only_pages [OF assms(3)] x(1) by (auto simp: page_ok_def)
  have dis: "set xs \<inter> space (mem s) pd = {}" "set xs \<inter> space (mem s) d = {}" "{x} \<inter> space (mem s) pd = {}" "{x} \<inter> space (mem s) d = {}"
    using vm_inv_space(3) [OF v(1)] vm_inv_space(3) [OF v(2)] by auto
  note P = space_frame [OF v(1) assms(2) dis(1) po dis(3)] and D = space_frame [OF v(2) assms(2) dis(2) po dis(4)]
  show "x \<notin> space (mem t) d" "x \<notin> space (mem t) pd" using dis P(3) D(3) by auto
  show "pte (mem t) pd va = pte (mem s) pd va" "pte (mem t) d va = pte (mem s) d va" "space (mem t) d = space (mem s) d"
    "space (mem t) pd = space (mem s) pd" "user_byte (mem t) pd va = user_byte (mem s) pd va" by (rule P D)+
  have "same_pages (mem t) pd d" unfolding same_pages_def
  proof (intro allI impI)
    fix va assume "low_page (mem t) d va"
    then have l: "low_page (mem s) d va" by (simp add: D(6))
    then have f: "PTE_FLAGS (pte (mem s) d va) = PTE_FLAGS (pte (mem s) pd va)" "page_byte (mem s) d va = page_byte (mem s) pd va"
      using assms(1) by (auto simp: copying_def same_pages_def)
    have "pte (mem s) d va AND PTE_P \<noteq> 0" "va < KERNBASE" using l by (simp_all add: low_page_def)
    then have "low_page (mem s) pd va"
      using flags_user(1) [OF f(1)] by (simp add: low_page_def)
    then have "frame (mem s) pd va \<notin> {x}" "frame (mem s) d va \<notin> {x}" using low_frame [OF l] low_frame [of "mem s" pd va] dis by auto
    then show "PTE_FLAGS (pte (mem t) d va) = PTE_FLAGS (pte (mem t) pd va) \<and> page_byte (mem t) d va = page_byte (mem t) pd va"
      using f page_byte_frame [OF po _ D(5)] page_byte_frame [OF po _ P(5)] by (simp add: P(2) D(2))
  qed
  moreover have "spans (mem t) pd sz" "spans (mem t) d i" using assms(1) by (simp_all add: copying_def spans_def P(6) D(6))
  ultimately show "copying kend xs pd d i sz t" using assms(1) P(1,3) D(1,3) by (simp add: copying_def)
  show "x \<notin> set xs" "page_ok kend x" by (fact x)+
qed

lemma spans_step:
  assumes "i mod PGSIZE = 0" "i < KERNBASE"
  shows "PGROUNDDOWN va < i + PGSIZE \<longleftrightarrow> same_page i va \<or> PGROUNDDOWN va < i"
proof -
  obtain k where k: "unat i = 4096 * k" using page_unat [OF assms(1)] by (auto simp: mod_eq_0_iff_dvd elim: dvdE)
  have "unat i < 2 ^ 31" using assms(2) by (simp add: KERNBASE_def word_less_nat_alt)
  then have u: "unat (i + PGSIZE) = 4096 * Suc k" using k by (simp add: PGSIZE_def unat_plus_if_size word_size)
  have "same_page i va \<longleftrightarrow> k = unat va div 4096" by (simp add: same_page_div k)
  then show ?thesis by (auto simp: word_less_nat_alt unat_PGROUNDDOWN u k)
qed

text \<open>Mapping a page into the second space leaves the first alone.\<close>

lemma copying_other:
  assumes "copying kend xs pd d i sz s" "page_mapped kend xs ys d a x perm s r t"
  shows "vm_inv kend ys pd t" "pte (mem t) pd va = pte (mem s) pd va" "space (mem t) pd = space (mem s) pd" "user_byte (mem t) pd va = user_byte (mem s) pd va"
    "low_page (mem s) pd va \<Longrightarrow> page_byte (mem t) pd va = page_byte (mem s) pd va" "spans (mem t) pd sz"
    "low_page (mem s) d va \<Longrightarrow> frame (mem t) d va = frame (mem s) d va \<Longrightarrow> page_byte (mem t) d va = page_byte (mem s) d va"
    "x \<notin> space (mem s) d \<Longrightarrow> x \<notin> set xs \<Longrightarrow> page_ok kend x \<Longrightarrow> j < PGSIZE \<Longrightarrow> mem t (x + j) = mem s (x + j)"
proof -
  let ?K = "insert d (set xs \<union> tabs (mem s) d)"
  have v: "vm_inv kend xs pd s" "vm_inv kend xs d s" "space (mem s) pd \<inter> space (mem s) d = {}" using assms(1) by (simp_all add: copying_def)
  have m: "vm_inv kend ys d t" "set ys \<subseteq> set xs" "pages_only ?K (mem s) (mem t)" using assms(2) by (simp_all add: page_mapped_def)
  have al: "\<forall>y\<in>?K. y mod PGSIZE = 0"
    using vm_inv_space(4) [OF v(2)] vm_inv_space(1) [OF v(2)] by (auto simp: space_def kmem_inv_def page_ok_def)
  have dis: "?K \<inter> space (mem s) pd = {}" "set ys \<inter> space (mem s) pd = {}"
    using v(3) vm_inv_space(3) [OF v(1)] m(2) by (auto simp: space_def)
  note P = space_frame [OF v(1) vm_inv_space(1) [OF m(1)] dis(2) m(3) al dis(1)]
  show "vm_inv kend ys pd t" "pte (mem t) pd va = pte (mem s) pd va" "space (mem t) pd = space (mem s) pd" "user_byte (mem t) pd va = user_byte (mem s) pd va"
    by (rule P)+
  show "spans (mem t) pd sz" using assms(1) by (simp add: copying_def spans_def P(6))
  show "page_byte (mem t) pd va = page_byte (mem s) pd va" if "low_page (mem s) pd va"
    by (rule page_byte_frame [OF m(3) al _ P(5)]) (use low_frame [OF that] dis(1) in blast)
  have "k \<notin> ?K" if "k \<in> frames (mem s) d" for k using v(2) that by (auto simp: vm_inv_def)
  then show "page_byte (mem t) d va = page_byte (mem s) d va" if "low_page (mem s) d va" "frame (mem t) d va = frame (mem s) d va"
    by (intro page_byte_frame [OF m(3) al _ that(2)]) (use that(1) in \<open>auto simp: frames_def\<close>)
  assume x: "x \<notin> space (mem s) d" "x \<notin> set xs" "page_ok kend x" "j < PGSIZE"
  then have "PGSIZE \<le> x + j - y" if "y \<in> ?K" for y
    using bspec [OF al that] that by (intro page_disjoint) (auto simp: page_ok_def space_def)
  then show "mem t (x + j) = mem s (x + j)" using m(3) by (simp add: pages_only_def)
qed

lemma present_flag:
  assumes "e AND PTE_P \<noteq> 0"
  shows "PTE_FLAGS e OR PTE_P = PTE_FLAGS e"
proof -
  have "bit e 0" using assms by (auto simp: PTE_P_def and_one_eq bit_0 odd_iff_mod_2_eq_one)
  then show ?thesis by (intro bit_word_eqI) (auto simp: PTE_FLAGS_def PTE_P_def fff_mask bit_simps)
qed

lemma copying_map:
  assumes "copying kend xs pd d i sz s" "i mod PGSIZE = 0" "i < sz" "page_ok kend x" "x \<notin> set xs" "x \<notin> space (mem s) d" "x \<notin> space (mem s) pd"
    and bytes: "\<And>j. j < PGSIZE \<Longrightarrow> mem s (x + j) = mem s (frame (mem s) pd i + j)"
    and pm: "page_mapped kend xs ys d i x (PTE_FLAGS (pte (mem s) pd i)) s 0 t"
  shows "copying kend ys pd d (i + PGSIZE) sz t" "space (mem t) d \<union> set ys = insert x (space (mem s) d \<union> set xs)"
proof -
  let ?fl = "PTE_FLAGS (pte (mem s) pd i)"
  note o = copying_other [OF assms(1) pm]
  have c: "vm_inv kend xs d s" "space (mem s) pd \<inter> space (mem s) d = {}" "spans (mem s) pd sz" "spans (mem s) d i" "same_pages (mem s) pd d"
    using assms(1) by (simp_all add: copying_def)
  have m: "vm_inv kend ys d t" "set ys \<subseteq> set xs" "tabs (mem t) d \<union> set ys = tabs (mem s) d \<union> set xs" "frames (mem t) d = insert x (frames (mem s) d)"
    "\<And>vb. pte (mem t) d vb = (if same_page i vb then v2p x OR ?fl OR PTE_P else pte (mem s) d vb)"
    using pm by (simp_all add: page_mapped_def)
  have li: "low_page (mem s) pd i" using c(3) assms(3) rounddown_page [OF assms(2)] by (simp add: spans_def)
  then have ik: "i < KERNBASE" by (simp add: low_page_def)
  have fl: "?fl AND NOT 0xFFF = 0" by (simp add: PTE_FLAGS_def and.assoc)
  have flp: "?fl OR PTE_P = ?fl" by (rule present_flag) (use li in \<open>simp add: low_page_def\<close>)
  note b = entry_bits [OF assms(4) fl, unfolded flp] and m5 = m(5) [unfolded flp]
  have lo: "low_page (mem t) d va \<longleftrightarrow> same_page i va \<or> low_page (mem s) d va" for va
    using same_page_low [of i va] ik b(3) by (auto simp: low_page_def m5)
  have sp': "spans (mem t) d (i + PGSIZE)" unfolding spans_def lo spans_low [OF c(4)] spans_step [OF assms(2) ik] by simp
  have sm: "same_pages (mem t) pd d" unfolding same_pages_def
  proof (intro allI impI)
    fix va assume l: "low_page (mem t) d va"
    show "PTE_FLAGS (pte (mem t) d va) = PTE_FLAGS (pte (mem t) pd va) \<and> page_byte (mem t) d va = page_byte (mem t) pd va"
    proof (cases "same_page i va")
      case True
      note sp = same_page_pte [OF True, of "mem s" pd]
      have lv: "low_page (mem s) pd va" using li sp same_page_low [OF True] by (simp add: low_page_def)
      have off: "va AND 0xFFF < PGSIZE" by (simp add: PGSIZE_def word_less_nat_alt offset_less)
      have "page_byte (mem t) d va = mem s (x + (va AND 0xFFF))"
        using o(8) [OF assms(6,5,4) off] True by (simp add: page_byte_def frame_def m5 b(1))
      also have "\<dots> = page_byte (mem s) pd va" using bytes [OF off] sp by (simp add: page_byte_def frame_def)
      finally show ?thesis using True b(2) sp o(5) [OF lv] by (simp add: m5 o(2))
    next
      case False
      then have ls: "low_page (mem s) d va" using l lo by simp
      then have f: "PTE_FLAGS (pte (mem s) d va) = PTE_FLAGS (pte (mem s) pd va)" "page_byte (mem s) d va = page_byte (mem s) pd va"
        using c(5) by (auto simp: same_pages_def)
      then have "low_page (mem s) pd va" using flags_user(1) [OF f(1)] ls by (simp add: low_page_def)
      moreover have "frame (mem t) d va = frame (mem s) d va" using False by (simp add: frame_def m5)
      ultimately show ?thesis using f False o(5) [of va] o(7) [OF ls] by (simp add: m5 o(2))
    qed
  qed
  have S: "space (mem t) d \<union> set ys = insert x (space (mem s) d \<union> set xs)" using m(3,4) unfolding space_def by blast
  then have "space (mem t) d \<subseteq> insert x (space (mem s) d \<union> set xs)" by (metis Un_upper1)
  moreover have "space (mem s) pd \<inter> set xs = {}" using assms(1) by (intro vm_inv_space(3) [of kend]) (simp add: copying_def)
  ultimately have "space (mem t) pd \<inter> space (mem t) d = {}" using c(2) assms(7) unfolding o(3) by auto
  then show "copying kend ys pd d (i + PGSIZE) sz t" using sp' sm o(1,6) m(1) by (simp add: copying_def)
  show "space (mem t) d \<union> set ys = insert x (space (mem s) d \<union> set xs)" by (rule S)
qed

section \<open>The loop\<close>

definition npages :: "u32 \<Rightarrow> nat" where
  "npages sz = (unat sz + 4095) div 4096"

lemma card_space:
  assumes "spans m d i"
  shows "finite (space m d)" "card (space m d) \<le> 1025 + npages i"
proof -
  have "frames m d \<subseteq> (\<lambda>k. frame m d (of_nat (4096 * k))) ` {..<npages i}"
  proof
    fix x assume "x \<in> frames m d"
    then obtain va where va: "x = frame m d va" "PGROUNDDOWN va < i" using assms by (auto simp: frames_def spans_def)
    let ?k = "unat va div 4096"
    have "4096 * ?k < 2 ^ 32" using unat_u32_less [of va] by simp
    then have "unat (of_nat (4096 * ?k) :: u32) = 4096 * ?k" by (rule unat_of_nat32)
    then have "same_page va (of_nat (4096 * ?k))" by (simp add: same_page_div)
    then have "x = frame m d (of_nat (4096 * ?k))" using va(1) same_page_pte by (simp add: frame_def)
    moreover have "?k < npages i" using va(2) by (simp add: word_less_nat_alt unat_PGROUNDDOWN npages_def)
    ultimately show "x \<in> (\<lambda>k. frame m d (of_nat (4096 * k))) ` {..<npages i}" by blast
  qed
  then have "finite (frames m d)" "card (frames m d) \<le> npages i" using surj_card_le [of "{..<npages i}"] by (auto dest: finite_subset)
  then show "finite (space m d)" "card (space m d) \<le> 1025 + npages i"
    using card_tabs [of m d] card_Un_le [of "tabs m d" "frames m d"] card_insert_if [of "tabs m d \<union> frames m d" d] by (auto simp: space_def)
qed

lemma npages_mono: "i \<le> sz \<Longrightarrow> npages i \<le> npages sz"
  by (simp add: npages_def word_le_nat_alt div_le_mono)

text \<open>The outcome: the first space is as before; either the second one is a copy, and no page is lost, or it is gone, which
  happens only when the pages are too few.\<close>

definition copied ::
  "u32 \<Rightarrow> u32 list \<Rightarrow> u32 list \<Rightarrow> u32 \<Rightarrow> u32 \<Rightarrow> u32 \<Rightarrow> 'a kmem_st_scheme \<Rightarrow> u32 \<Rightarrow> 'a kmem_st_scheme \<Rightarrow> bool" where
  "copied kend xs ys pd d sz s r t \<longleftrightarrow> vm_inv kend ys pd t \<and> space (mem t) pd = space (mem s) pd \<and>
     (\<forall>va. user_byte (mem t) pd va = user_byte (mem s) pd va) \<and>
     (r = 0 \<and> set ys \<subseteq> set xs \<union> space (mem s) d \<and> card (space (mem s) d \<union> set xs) \<le> 1026 + npages sz \<or>
      r = d \<and> copying kend ys pd d sz sz t \<and> space (mem t) d \<union> set ys = space (mem s) d \<union> set xs)"

lemma copied_trans:
  assumes "copied kend ys zs pd d sz u r t" "space (mem u) pd = space (mem s) pd" "\<And>va. user_byte (mem u) pd va = user_byte (mem s) pd va"
    "space (mem u) d \<union> set ys = space (mem s) d \<union> set xs"
  shows "copied kend xs zs pd d sz s r t"
  using assms by (auto simp: copied_def)

lemma give_up:
  fixes s :: "'a vm_st_scheme"
  assumes "vm_inv kend ys pd s" "vm_inv kend ys d s" "space (mem s) pd \<inter> space (mem s) d = {}" "lockset L s" "LKmem \<notin> set L" "KERNBASE < kend"
  shows "returns (kbind (freevm kend d s) (\<lambda>s. Inr (0, s))) (\<lambda>(r, t). lockset L t \<and> kmem_st.more t = kmem_st.more s \<and> r = (0 :: u32) \<and>
     (\<exists>zs. vm_inv kend zs pd t \<and> space (mem t) pd = space (mem s) pd \<and> (\<forall>va. user_byte (mem t) pd va = user_byte (mem s) pd va) \<and> set zs = set ys \<union> space (mem s) d))"
proof -
  obtain t zs where t: "freevm kend d s = Inr t" "lockset L t" "kmem_st.more t = kmem_st.more s" "kmem_inv kend zs t"
    "set zs = set ys \<union> space (mem s) d" "pages_only (space (mem s) d) (mem s) (mem t)"
    using freevm_frees [OF assms(2,4-6)] by (auto elim!: returnsE)
  have dis: "set zs \<inter> space (mem s) pd = {}" "space (mem s) d \<inter> space (mem s) pd = {}" using assms(3) vm_inv_space(3) [OF assms(1)] t(5) by auto
  have al: "\<forall>x\<in>space (mem s) d. x mod PGSIZE = 0" using vm_inv_space(4) [OF assms(2)] by (auto simp: page_ok_def)
  note P = space_frame [OF assms(1) t(4) dis(1) t(6) al dis(2)]
  show ?thesis using P(1,3,4) t by auto
qed

lemma page_below:
  assumes "i mod PGSIZE = 0" "\<not> i < sz" "unat i < unat sz + 4096"
  shows "PGROUNDDOWN va < i \<longleftrightarrow> PGROUNDDOWN va < sz"
proof -
  obtain k where k: "unat i = 4096 * k" using page_unat [OF assms(1)] by (auto simp: mod_eq_0_iff_dvd elim: dvdE)
  have "unat va div 4096 * 4096 < 4096 * k \<longleftrightarrow> unat va div 4096 * 4096 < unat sz"
  proof
    assume "unat va div 4096 * 4096 < 4096 * k"
    then have "Suc (unat va div 4096) \<le> k" by simp
    then have "unat va div 4096 * 4096 + 4096 \<le> 4096 * k" by linarith
    then show "unat va div 4096 * 4096 < unat sz" using assms(3) k by linarith
  qed (use assms(2) k in \<open>simp add: word_less_nat_alt\<close>)
  then show ?thesis by (simp add: word_less_nat_alt unat_PGROUNDDOWN k)
qed

lemma spans_end: "spans m d i \<Longrightarrow> i mod PGSIZE = 0 \<Longrightarrow> \<not> i < sz \<Longrightarrow> unat i < unat sz + 4096 \<Longrightarrow> spans m d sz"
  by (simp add: spans_def page_below)

lemma copyuvm_loop_copies:
  fixes s :: "'a vm_st_scheme"
  assumes "copying kend xs pd d i sz s" "lockset L s" "LKmem \<notin> set L" "KERNBASE < kend" "i mod PGSIZE = 0" "unat i < unat sz + 4096"
    and "unat sz \<le> unat i + 4096 * fuel"
  shows "returns (copyuvm_loop (Suc fuel) kend pd d i sz s) (\<lambda>(r, t). lockset L t \<and> kmem_st.more t = kmem_st.more s \<and>
     (\<exists>ys. copied kend xs ys pd d sz s r t))"
  using assms
proof (induction fuel arbitrary: i s xs)
  case 0
  then have e: "\<not> i < sz" by (simp add: word_less_nat_alt)
  then have "copied kend xs xs pd d sz s d s" using 0 spans_end [of "mem s" d i sz] by (simp add: copied_def copying_def)
  then show ?case using 0(2) e by auto
next
  case (Suc fuel)
  show ?case
  proof (cases "i < sz")
    case False
    then have "copied kend xs xs pd d sz s d s" using Suc.prems spans_end [of "mem s" d i sz] by (simp add: copied_def copying_def)
    then show ?thesis using Suc.prems(2) False by auto
  next
    case lt: True
    have c: "vm_inv kend xs pd s" "vm_inv kend xs d s" "spans (mem s) pd sz" "spans (mem s) d i" using Suc.prems(1) by (simp_all add: copying_def)
    have li: "low_page (mem s) pd i" "\<not> low_page (mem s) d i" using c(3,4) lt rounddown_page [OF Suc.prems(5)] by (simp_all add: spans_def)
    then have ik: "i < KERNBASE" "pte (mem s) pd i AND PTE_P \<noteq> 0" by (simp_all add: low_page_def)
    have "unat i < 2 ^ 31" using ik(1) by (simp add: KERNBASE_def word_less_nat_alt)
    then have u: "unat (i + PGSIZE) = unat i + 4096" by (simp add: PGSIZE_def unat_plus_if_size word_size)
    have pg: "(i + PGSIZE) mod PGSIZE = 0" using page_diff(2) [OF Suc.prems(5), of PGSIZE] by (simp add: PGSIZE_def)
    note w = walk_find [OF vm_inv_space(5) [OF c(1)], of i]
    have h: "has_tab (mem s) pd i" by (rule low_has_tab [OF li(1)])
    let ?k = "frame (mem s) pd i" and ?fl = "PTE_FLAGS (pte (mem s) pd i)"
    have pk: "page_ok kend ?k" "?k \<in> space (mem s) pd" using vm_inv_space(4) [OF c(1)] low_frame [OF li(1)] by auto
    have np: "npages i \<le> npages sz" using lt by (intro npages_mono) simp
    have cs: "card (space (mem s) d) \<le> 1026 + npages sz" using card_space(2) [OF c(4)] np by simp
    obtain x t where k: "kalloc s = Inr (x, t)" "x = (case xs of [] \<Rightarrow> 0 | x # _ \<Rightarrow> x)" "kmem_inv kend (tl xs) t" "lockset L t"
      "kmem_st.more t = kmem_st.more s" "mem t = mem s"
      using kalloc_pop [OF Suc.prems(2,3) vm_inv_space(1) [OF c(1)]] by (auto elim!: returnsE)
    show ?thesis
    proof (cases xs)
      case Nil
      have "vm_inv kend xs pd t" "vm_inv kend xs d t" "space (mem t) pd \<inter> space (mem t) d = {}"
        using Suc.prems(1) k(3,6) Nil by (simp_all add: copying_def vm_inv_def pd_inv_def)
      from give_up [OF this k(4) Suc.prems(3,4)]
      have "returns (kbind (freevm kend d t) (\<lambda>s. Inr (0, s))) (\<lambda>(r, t). lockset L t \<and> kmem_st.more t = kmem_st.more s \<and>
          (\<exists>ys. copied kend xs ys pd d sz s r t))"
        by (rule returns_mono) (use k(5,6) cs in \<open>auto simp: copied_def Nil\<close>)
      then show ?thesis using lt h w k(1,2) ik(2) Nil by (simp add: Let_def)
    next
      case (Cons y xs')
      let ?u = "t\<lparr>mem := memmove x ?k PGSIZE (mem t)\<rparr>"
      have x: "x = y" "page_ok kend y" "y \<notin> space (mem s) pd" using k(2) vm_inv_space(1,3) [OF c(1)] Cons by (auto simp: kmem_inv_def)
      then have ne: "y \<noteq> ?k" "y \<noteq> 0" using pk(2) by (auto simp: page_ok_def)
      note cp = copy_page [OF x(2) pk(1) ne(1), where m = "mem s"]
      have po: "page_only y (mem s) (mem ?u)" using cp(1) k(6) x(1) by simp
      have km: "kmem_inv kend xs' ?u"
        by (rule kmem_inv_page_only [of _ _ t y]) (use k(3,6) po x vm_inv_space(1) [OF c(1)] page_aligned [OF x(2)] in \<open>auto simp: Cons kmem_inv_def\<close>)
      note f = copying_fill [OF Suc.prems(1) [unfolded Cons] km po]
      have lu: "lockset L ?u" "kmem_st.more ?u = kmem_st.more s" using k(4,5) by simp_all
      have fl: "?fl AND NOT 0xFFF = 0" by (simp add: PTE_FLAGS_def and.assoc)
      have vd: "vm_inv kend xs' d ?u" using f(1) by (simp add: copying_def)
      have nl: "\<not> low_page (mem ?u) d i" using li(2) unfolding low_page_def f(7) .
      obtain r v ys where m: "mappages d i PGSIZE (v2p y) ?fl ?u = Inr (r, v)" "lockset L v" "kmem_st.more v = kmem_st.more s" "page_mapped kend xs' ys d i y ?fl ?u r v"
        using map_page [OF vd lu(1) Suc.prems(3,5) ik(1) nl x(2) f(4,2) fl] lu(2) by (auto elim!: returnsE)
      note o = copying_other [OF f(1) m(4)]
      have run: "copyuvm_loop (Suc (Suc fuel)) kend pd d i sz s =
          (if r < 0 then kbind (freevm kend d v) (\<lambda>s. Inr (0, s)) else copyuvm_loop (Suc fuel) kend pd d (i + PGSIZE) sz v)"
        using lt h w k(1) ik(2) x(1) ne(2) m(1) by (simp add: Let_def frame_def)
      show ?thesis
      proof (cases "r = 0")
        case True
        have bts: "mem ?u (y + j) = mem ?u (frame (mem ?u) pd i + j)" if "j < PGSIZE" for j
        proof -
          have "PGSIZE \<le> ?k + j - y" by (rule page_disjoint [OF page_aligned [OF pk(1)] page_aligned [OF x(2)] ne(1) [symmetric] that])
          then have "mem ?u (?k + j) = mem s (?k + j)" using po by (simp add: page_only_def)
          moreover have "frame (mem ?u) pd i = ?k" using f(6) [of i] by (simp add: frame_def)
          ultimately show ?thesis using cp(2) [OF that] k(6) x(1) by simp
        qed
        note cm = copying_map [OF f(1) Suc.prems(5) lt x(2) f(4,2,3) bts m(4) [unfolded True f(6) [of i, symmetric]]]
        have IH: "returns (copyuvm_loop (Suc fuel) kend pd d (i + PGSIZE) sz v) (\<lambda>(r, t). lockset L t \<and> kmem_st.more t = kmem_st.more v \<and>
           (\<exists>ys'. copied kend ys ys' pd d sz v r t))"
          by (rule Suc.IH [OF cm(1) m(2) Suc.prems(3,4) pg]) (use Suc.prems(7) lt u in \<open>auto simp: word_less_nat_alt\<close>)
        have S: "space (mem v) d \<union> set ys = space (mem s) d \<union> set xs" using cm(2) unfolding f(8) by (auto simp: Cons)
        have U: "space (mem v) pd = space (mem s) pd" "\<And>va. user_byte (mem v) pd va = user_byte (mem s) pd va"
          using o(3,4) f(9,10) by simp_all
        have "returns (copyuvm_loop (Suc fuel) kend pd d (i + PGSIZE) sz v) (\<lambda>(r, t). lockset L t \<and> kmem_st.more t = kmem_st.more s \<and>
           (\<exists>ys. copied kend xs ys pd d sz s r t))"
          by (rule returns_mono [OF IH]) (auto simp: m(3) intro!: exI dest: copied_trans [OF _ U S])
        then show ?thesis unfolding run using True by simp
      next
        case False
        have pm: "r = -1" "vm_inv kend ys d v" "ys = []" "tabs (mem v) d \<union> set ys = tabs (mem ?u) d \<union> set xs'" "frames (mem v) d = frames (mem ?u) d"
          "\<And>vb. pte (mem v) d vb = pte (mem ?u) d vb"
          using m(4) False by (auto simp: page_mapped_def)
        have "space (mem v) d \<union> set ys = space (mem ?u) d \<union> set xs'" using pm(4,5) unfolding space_def by blast
        then have S: "space (mem v) d \<union> set ys = space (mem s) d \<union> set xs'" unfolding f(8) .
        have "space (mem s) pd \<inter> (space (mem s) d \<union> set xs') = {}"
          using Suc.prems(1) vm_inv_space(3) [OF c(1)] by (auto simp: Cons copying_def)
        then have "space (mem v) pd \<inter> space (mem v) d = {}" unfolding o(3) f(9) S [symmetric] by auto
        then obtain q zs where q: "freevm kend d v = Inr q" "lockset L q" "kmem_st.more q = kmem_st.more s" "vm_inv kend zs pd q"
          "space (mem q) pd = space (mem v) pd" "\<forall>va. user_byte (mem q) pd va = user_byte (mem v) pd va" "set zs = set ys \<union> space (mem v) d"
          using give_up [OF o(1) pm(2) _ m(2) Suc.prems(3,4)] m(3) by (auto simp: returns_kbind elim!: returnsE)
        have "set zs \<subseteq> set xs \<union> space (mem s) d" unfolding q(7) using S by (auto simp: Cons)
        moreover have "spans (mem v) d i" using c(4) unfolding spans_def low_page_def pm(6) f(7) .
        then have "card (space (mem v) d) \<le> 1025 + npages sz" using card_space(2) np by (meson add_le_mono1 nat_add_left_cancel_le order_trans)
        then have "card (insert y (space (mem v) d)) \<le> 1026 + npages sz" using card_insert_le_m1 [of "1026 + npages sz" "space (mem v) d" y] by simp
        then have "card (space (mem s) d \<union> set xs) \<le> 1026 + npages sz" using S pm(3) by (simp add: Cons Un_commute)
        ultimately have "copied kend xs zs pd d sz s 0 q" using q(4-6) o(3,4) f(9,10) by (simp add: copied_def)
        then have "returns (kbind (freevm kend d v) (\<lambda>s. Inr (0, s))) (\<lambda>(r, t). lockset L t \<and> kmem_st.more t = kmem_st.more s \<and>
            (\<exists>ys. copied kend xs ys pd d sz s r t))" using q(1-3) by auto
        then show ?thesis unfolding run using pm(1) by simp
      qed
    qed
  qed
qed

lemma copying_start:
  assumes "vm_inv kend xs pd s" "spans (mem s) pd sz" "fresh_space kend kdata xs ys d t" "set ys \<subseteq> set xs" "pages_only (set xs) (mem s) (mem t)"
  shows "copying kend ys pd d 0 sz t" "space (mem t) pd = space (mem s) pd" "user_byte (mem t) pd va = user_byte (mem s) pd va"
proof -
  have f: "vm_inv kend ys d t" "space (mem t) d \<union> set ys = set xs" "\<And>va. va < KERNBASE \<Longrightarrow> pte (mem t) d va = 0"
    using assms(3) by (simp_all add: fresh_space_def)
  have dis: "set ys \<inter> space (mem s) pd = {}" "set xs \<inter> space (mem s) pd = {}" using assms(4) vm_inv_space(3) [OF assms(1)] by auto
  have al: "\<forall>x\<in>set xs. x mod PGSIZE = 0" using vm_inv_space(1) [OF assms(1)] by (auto simp: kmem_inv_def page_ok_def)
  note P = space_frame [OF assms(1) vm_inv_space(1) [OF f(1)] dis(1) assms(5) al dis(2)]
  have n: "\<not> low_page (mem t) d va" for va using f(3) [of va] by (auto simp: low_page_def)
  show "space (mem t) pd = space (mem s) pd" "user_byte (mem t) pd va = user_byte (mem s) pd va" by (rule P)+
  have "space (mem t) pd \<inter> space (mem t) d = {}" using dis(2) f(2) P(3) by blast
  moreover have "spans (mem t) pd sz" using assms(2) by (simp add: spans_def P(6))
  ultimately show "copying kend ys pd d 0 sz t" using P(1) f(1) by (simp add: copying_def spans_def same_pages_def n)
qed

section \<open>Properties\<close>

text \<open>C4: \<^verbatim>\<open>copyuvm\<close>, the copy of memory for \<^verbatim>\<open>fork\<close>, makes a second address space out of free pages in which a process sees
  at every address exactly the bytes the first one shows, with no page in common; the first space is untouched, and
  every page taken from the free list is in the new space. It gives up (0) only if the free pages are no more than
  a directory, its tables and the pages to copy can use, and then too the first space is untouched. It never panics.\<close>

theorem copyuvm_copies:
  fixes s :: "'a vm_st_scheme"
  assumes "vm_inv kend xs pd s" "spans (mem s) pd sz" "lockset L s" "LKmem \<notin> set L" "KERNBASE < kend" "kdata_ok kdata"
  shows "returns (copyuvm kend kdata pd sz s) (\<lambda>(d, t). lockset L t \<and> kmem_st.more t = kmem_st.more s \<and>
     (\<exists>ys. vm_inv kend ys pd t \<and> (\<forall>va. user_byte (mem t) pd va = user_byte (mem s) pd va) \<and>
       (if d = 0 then set ys \<subseteq> set xs \<and> length xs \<le> 1026 + npages sz
        else vm_inv kend ys d t \<and> space (mem t) pd \<inter> space (mem t) d = {} \<and> space (mem t) d \<union> set ys = set xs \<and>
          (\<forall>va. user_byte (mem t) d va = user_byte (mem s) pd va))))"
proof -
  have km: "kmem_inv kend xs s" by (rule vm_inv_space(1) [OF assms(1)])
  have card: "card (set xs) = length xs" using km by (simp add: kmem_inv_def distinct_card)
  obtain d t ys where t: "setupkvm kdata s = Inr (d, t)" "lockset L t" "kmem_st.more t = kmem_st.more s" "pages_only (set xs) (mem s) (mem t)"
    "set ys \<subseteq> set xs" "d = 0 \<and> ys = [] \<and> kmem_inv kend ys t \<and> length xs \<le> 513 \<or> d \<noteq> 0 \<and> fresh_space kend kdata xs ys d t"
    using setupkvm_fresh [OF km assms(3,4,6)] by (auto elim!: returnsE)
  show ?thesis
  proof (cases "d = 0")
    case True
    have dis: "set ys \<inter> space (mem s) pd = {}" "set xs \<inter> space (mem s) pd = {}" using t(5) vm_inv_space(3) [OF assms(1)] by auto
    have al: "\<forall>x\<in>set xs. x mod PGSIZE = 0" using km by (auto simp: kmem_inv_def page_ok_def)
    have ky: "kmem_inv kend ys t" using t(6) True by auto
    note P = space_frame [OF assms(1) ky dis(1) t(4) al dis(2)]
    show ?thesis using t(1-3,5,6) True P(1,4) by (auto simp: copyuvm_def)
  next
    case False
    then have fs: "fresh_space kend kdata xs ys d t" using t(6) by simp
    note c = copying_start [OF assms(1,2) fs t(5,4)]
    have S: "space (mem t) d \<union> set ys = set xs" using fs by (simp add: fresh_space_def)
    obtain r u zs where u: "copyuvm_loop (2 ^ 20 + 1) kend pd d 0 sz t = Inr (r, u)" "lockset L u" "kmem_st.more u = kmem_st.more s" "copied kend ys zs pd d sz t r u"
      using copyuvm_loop_copies [OF c(1) t(2) assms(4,5), of "2 ^ 20"] t(3) unat_u32_less [of sz] by (auto elim!: returnsE)
    have run: "copyuvm kend kdata pd sz s = Inr (r, u)" using t(1) False u(1) by (simp add: copyuvm_def)
    have P: "vm_inv kend zs pd u" "user_byte (mem u) pd va = user_byte (mem s) pd va" for va using u(4) c(3) by (simp_all add: copied_def)
    show ?thesis
    proof (cases "r = 0")
      case True
      then have "set zs \<subseteq> set xs" "length xs \<le> 1026 + npages sz"
        using u(4) S card False by (auto simp: copied_def Un_commute)
      then show ?thesis using run True P u(2,3) by auto
    next
      case False
      then have c: "r = d" "copying kend zs pd d sz sz u" "space (mem u) d \<union> set zs = set xs" using u(4) S by (auto simp: copied_def)
      then have v: "vm_inv kend zs d u" "space (mem u) pd \<inter> space (mem u) d = {}" by (simp_all add: copying_def)
      have "user_byte (mem u) d va = user_byte (mem u) pd va" for va
        by (rule same_pages_user) (use c(2) in \<open>auto simp: copying_def vm_inv_def\<close>)
      then show ?thesis using run False P u(2,3) v c(1,3) by auto
    qed
  qed
qed

text \<open>For examples: a memory with given free pages beside the space with one user page.\<close>

lemma make_flist:
  assumes "distinct xs" "\<forall>x\<in>set xs. page_ok kend x"
  shows "\<exists>m'. flist m' (case xs of [] \<Rightarrow> 0 | x # _ \<Rightarrow> x) xs \<and> pages_only (set xs) m m'"
  using assms
proof (induction xs)
  case Nil
  then show ?case by (auto intro!: exI [of _ m])
next
  case (Cons x xs)
  then obtain m' where m': "flist m' (case xs of [] \<Rightarrow> 0 | x # _ \<Rightarrow> x) xs" "pages_only (set xs) m m'" by auto
  let ?m = "store32 x (case xs of [] \<Rightarrow> 0 | x # _ \<Rightarrow> x) m'"
  have po: "page_only x m' ?m" using page_only_store32 [of 0 x] by simp
  have "load32 ?m y = load32 m' y" if "y \<in> set xs" for y
    using page_only_load32 [OF po, of y 0] Cons.prems that by (auto simp: page_ok_def)
  then have "flist ?m (case xs of [] \<Rightarrow> 0 | x # _ \<Rightarrow> x) xs" using m'(1) flist_cong [of xs ?m m'] by simp
  moreover have "pages_only (set (x # xs)) m ?m"
    by (rule pages_only_trans [OF pages_only_mono [OF m'(2)] page_only_pages [OF po]]) auto
  ultimately show ?case by (intro exI [of _ ?m]) simp
qed

lemma one_page_low: "low_page one_page 0x80400000 va \<longleftrightarrow> same_page 0 va" "same_page 0 va \<Longrightarrow> frame one_page 0x80400000 va = 0x80402000"
  using same_page_low [of 0 va] by (auto simp: low_page_def frame_def one_page_pte PTE_P_def PTE_ADDR_def p2v_def KERNBASE_def)

lemma one_page_frames: "frames one_page 0x80400000 = {0x80402000}" "tabs one_page 0x80400000 = {0x80401000}"
proof -
  show "frames one_page 0x80400000 = {0x80402000}"
    using one_page_low same_page_refl [of 0] by (auto simp: frames_def) (metis same_page_refl)
  have "PDX 0 = 0" by (simp add: PDX_def)
  then show "tabs one_page 0x80400000 = {0x80401000}" using one_page_tab by (auto simp: tabs_def intro!: exI [of _ 0])
qed

lemma one_page_inv:
  assumes "mem s = one_page" "freelist s = 0"
  shows "vm_inv 0x80100000 [] 0x80400000 s"
proof -
  have ok: "page_ok 0x80100000 0x80400000" "page_ok 0x80100000 0x80401000" "page_ok 0x80100000 0x80402000"
    by (simp_all add: page_ok_def PGSIZE_def v2p_def KERNBASE_def PHYSTOP_def)
  have "frames_apart one_page 0x80400000" unfolding frames_apart_def one_page_low by (metis same_page_sym same_page_trans)
  moreover have "kernel_only one_page 0x80400000"
    using same_page_low [of 0] by (fastforce simp: kernel_only_def one_page_pte KERNBASE_def)
  moreover have "pd_inv 0x80100000 [] 0x80400000 s"
    using ok assms by (auto simp: pd_inv_def kmem_inv_def one_page_tab tabs_apart_def)
  ultimately show ?thesis using ok(3) by (simp add: vm_inv_def assms one_page_frames)
qed

lemma one_page_state:
  assumes "distinct xs" "\<forall>x\<in>set xs. page_ok 0x80100000 x \<and> 0x80402000 < x"
  obtains s :: vm_st where "vm_inv 0x80100000 xs 0x80400000 s" "spans (mem s) 0x80400000 0x1000" "lockset [] s" "user_byte (mem s) 0x80400000 0 = Some 0"
proof -
  let ?h = "case xs of [] \<Rightarrow> 0 | x # _ \<Rightarrow> x"
  obtain m where m: "flist m ?h xs" "pages_only (set xs) one_page m" using make_flist [of xs "0x80100000" one_page] assms by auto
  let ?base = "\<lparr>locks = \<lambda>_. \<lparr>locked = 0, holder = None\<rparr>, cpu = \<lparr>cpu_id = 0, ncli = 0, intena = False\<rparr>,
     IF = True, mem = one_page, use_lock = True, freelist = 0, kpgdir = 0, cr3 = 0\<rparr>"
  let ?s = "?base\<lparr>mem := m, freelist := ?h\<rparr>"
  have v: "vm_inv 0x80100000 [] 0x80400000 ?base" by (rule one_page_inv) simp_all
  have km: "kmem_inv 0x80100000 xs ?s" using m(1) assms by (auto simp: kmem_inv_def)
  have dis: "set xs \<inter> space (mem ?base) 0x80400000 = {}" using assms(2) by (auto simp: space_def one_page_frames)
  have al: "\<forall>x\<in>set xs. x mod PGSIZE = 0" using assms(2) by (auto simp: page_ok_def)
  have po: "pages_only (set xs) (mem ?base) (mem ?s)" using m(2) by simp
  note P = space_frame [OF v km dis po al dis]
  show ?thesis
  proof (rule that [OF P(1)])
    show "spans (mem ?s) 0x80400000 0x1000"
      unfolding spans_def P(6) by (simp add: one_page_low same_page_div word_less_nat_alt unat_PGROUNDDOWN)
    show "lockset [] ?s" by (simp add: lockset_def)
    have "one_page 0x80402000 = 0" by (simp add: one_page_def store32_run)
    then show "user_byte (mem ?s) 0x80400000 0 = Some 0" unfolding P(4)
      by (simp add: user_byte_def one_page_pte one_page_low user_pte_def PTE_P_def PTE_U_def)
  qed
qed

lemma free_run: "distinct (page_run 0x80500000 1030)" "\<forall>x\<in>set (page_run 0x80500000 1030). page_ok 0x80100000 x \<and> 0x80402000 < x"
proof -
  let ?xs = "page_run 0x80500000 1030"
  have top: "unat (p2v PHYSTOP) = 0x8E000000" by (simp add: p2v_def PHYSTOP_def KERNBASE_def)
  show "distinct ?xs" by (rule page_run_distinct) simp
  have "0x80402000 < x" if x: "x \<in> set ?xs" for x
  proof -
    obtain i where i: "i < 1030" "x = 0x80500000 + of_nat i * PGSIZE" using x by (auto simp: page_run_def)
    then have "unat x = 0x80500000 + 4096 * i" using unat_page_run [of "0x80500000" 1030 i] by simp
    then show ?thesis by (simp add: word_less_nat_alt)
  qed
  then show "\<forall>x\<in>set ?xs. page_ok 0x80100000 x \<and> 0x80402000 < x"
    using page_run_usable [of "0x80500000" "0x80100000" 1030] top by (auto simp: PGSIZE_def KERNBASE_def)
qed

theorem copyuvm_copies_witness:
  "\<exists>(s :: vm_st) d t. copyuvm 0x80100000 0x80108000 0x80400000 0x1000 s = Inr (d, t) \<and> d \<noteq> 0 \<and> user_byte (mem t) d 0 = Some 0"
proof -
  let ?xs = "page_run 0x80500000 1030"
  obtain s :: vm_st where s: "vm_inv 0x80100000 ?xs 0x80400000 s" "spans (mem s) 0x80400000 0x1000" "lockset [] s" "user_byte (mem s) 0x80400000 0 = Some 0"
    by (rule one_page_state [OF free_run])
  have "kdata_ok 0x80108000" "KERNBASE < 0x80100000"
    by (simp_all add: kdata_ok_def KERNBASE_def KERNLINK_def EXTMEM_def PGSIZE_def p2v_def PHYSTOP_def)
  note copy = copyuvm_copies [OF s(1-3) _ this(2,1)]
  have l: "length ?xs = 1030" "npages 0x1000 = 1" by (simp_all add: page_run_def npages_def)
  have "returns (copyuvm 0x80100000 0x80108000 0x80400000 0x1000 s) (\<lambda>(d, t). d \<noteq> 0 \<and> user_byte (mem t) d 0 = Some 0)"
    by (rule returns_mono [OF copy]) (use s(4) l in \<open>auto split: if_splits\<close>)
  then show ?thesis by (auto elim!: returnsE)
qed

text \<open>C6: \<^verbatim>\<open>freevm\<close> gives back exactly the pages of an address space: it returns, and then the free pages are the
  ones there were together with the directory, its tables and the pages of user memory, each on the list once,
  and nothing outside these pages has been written.\<close>

theorem freevm_gives_back:
  fixes s :: "'a vm_st_scheme"
  assumes "vm_inv kend xs pd s" "lockset L s" "LKmem \<notin> set L" "KERNBASE < kend"
  shows "returns (freevm kend pd s) (\<lambda>t. lockset L t \<and> kmem_st.more t = kmem_st.more s \<and>
     (\<exists>ys. kmem_inv kend ys t \<and> set ys = set xs \<union> space (mem s) pd \<and> pages_only (space (mem s) pd) (mem s) (mem t)))"
  by (rule freevm_frees [OF assms])

theorem freevm_gives_back_witness:
  "\<exists>s :: vm_st. returns (freevm 0x80100000 0x80400000 s) (\<lambda>t. \<exists>ys. kmem_inv 0x80100000 ys t \<and> set ys = {0x80400000, 0x80401000, 0x80402000})"
proof -
  let ?s = "\<lparr>locks = \<lambda>_. \<lparr>locked = 0, holder = None\<rparr>, cpu = \<lparr>cpu_id = 0, ncli = 0, intena = False\<rparr>,
     IF = True, mem = one_page, use_lock = True, freelist = 0, kpgdir = 0, cr3 = 0\<rparr>"
  have v: "vm_inv 0x80100000 [] 0x80400000 ?s" by (rule one_page_inv) simp_all
  have "lockset [] ?s" "KERNBASE < 0x80100000" by (simp_all add: lockset_def KERNBASE_def)
  note free = freevm_gives_back [OF v this(1) _ this(2)]
  show ?thesis by (intro exI [of _ ?s] returns_mono [OF free]) (auto simp: space_def one_page_frames)
qed

end
