(* ===== verification/Vm_Grow.thy ===== *)
theory Vm_Grow
  imports Vm_Copy
begin

text \<open>
  Growing a process: with enough free pages \<^verbatim>\<open>allocuvm\<close> extends the user memory by zeroed pages and keeps
  what was there; without, it may report a success it has not had.
\<close>

section \<open>A round of \<^verbatim>\<open>allocuvm\<close>\<close>

definition grown :: "mem \<Rightarrow> u32 \<Rightarrow> u32 \<Rightarrow> u32 \<Rightarrow> mem \<Rightarrow> bool" where
  "grown m pd a b m' \<longleftrightarrow> (\<forall>va. user_byte m' pd va =
     (if PGROUNDDOWN va < a then user_byte m pd va else if PGROUNDDOWN va < b then Some 0 else None))"

lemma user_new:
  assumes "page_mapped kend xs ys pd a x (PTE_W OR PTE_U) s 0 t" "vm_inv kend xs pd s" "page_ok kend x" "x \<notin> set xs" "x \<notin> space (mem s) pd"
    and zero: "\<And>j. j < PGSIZE \<Longrightarrow> mem s (x + j) = 0"
  shows "user_byte (mem t) pd va = (if same_page a va then Some 0 else user_byte (mem s) pd va)"
proof -
  let ?K = "insert pd (set xs \<union> tabs (mem s) pd)"
  have m: "pages_only ?K (mem s) (mem t)"
    "\<And>vb. pte (mem t) pd vb = (if same_page a vb then v2p x OR (PTE_W OR PTE_U) OR PTE_P else pte (mem s) pd vb)"
    using assms(1) by (simp_all add: page_mapped_def)
  have al: "\<forall>y\<in>?K. y mod PGSIZE = 0"
    using vm_inv_space(4) [OF assms(2)] vm_inv_space(1) [OF assms(2)] by (auto simp: space_def kmem_inv_def page_ok_def)
  have off: "va AND 0xFFF < PGSIZE" by (simp add: PGSIZE_def word_less_nat_alt offset_less)
  show ?thesis
  proof (cases "same_page a va")
    case True
    have fl: "(PTE_W OR PTE_U) AND NOT 0xFFF = 0" by (simp add: PTE_W_def PTE_U_def)
    note b = entry_bits [OF assms(3) fl]
    have "PTE_FLAGS (pte (mem t) pd va) = PTE_FLAGS 7" using True b(2) by (simp add: m(2) PTE_W_def PTE_U_def PTE_P_def PTE_FLAGS_def)
    then have "user_pte (pte (mem t) pd va)" using flags_user(2) by (fastforce simp: user_pte_def PTE_P_def PTE_U_def)
    moreover have "frame (mem t) pd va = x" using True b(1) by (simp add: frame_def m(2))
    moreover have "PGSIZE \<le> x + (va AND 0xFFF) - y" if "y \<in> ?K" for y
      using bspec [OF al that] that assms(3-5) off by (intro page_disjoint) (auto simp: page_ok_def space_def)
    then have "mem t (x + (va AND 0xFFF)) = 0" using m(1) zero [OF off] by (simp add: pages_only_def)
    ultimately show ?thesis using True by (simp add: user_byte_def)
  next
    case False
    then have p: "pte (mem t) pd va = pte (mem s) pd va" by (simp add: m(2))
    have "mem t (frame (mem s) pd va + (va AND 0xFFF)) = mem s (frame (mem s) pd va + (va AND 0xFFF))" if "user_pte (pte (mem s) pd va)"
    proof (rule frame_byte [OF m(1) al])
      have "low_page (mem s) pd va" using assms(2) that by (auto simp: vm_inv_def intro: user_low)
      then have "frame (mem s) pd va \<in> frames (mem s) pd" by (auto simp: frames_def)
      then show "frame (mem s) pd va \<notin> ?K" using assms(2) by (auto simp: vm_inv_def)
    qed
    then show ?thesis using False p by (simp add: user_byte_def frame_def)
  qed
qed

lemma spans_map:
  assumes "page_mapped kend xs ys pd a x perm s 0 t" "spans (mem s) pd a" "a mod PGSIZE = 0" "a < KERNBASE" "page_ok kend x" "perm AND NOT 0xFFF = 0"
  shows "spans (mem t) pd (a + PGSIZE)"
proof -
  have p: "pte (mem t) pd vb = (if same_page a vb then v2p x OR perm OR PTE_P else pte (mem s) pd vb)" for vb using assms(1) by (simp add: page_mapped_def)
  have "low_page (mem t) pd va \<longleftrightarrow> same_page a va \<or> low_page (mem s) pd va" for va
    using same_page_low [of a va] assms(4) entry_bits(3) [OF assms(5,6)] by (auto simp: low_page_def p)
  then show ?thesis unfolding spans_def spans_step [OF assms(3,4)] using assms(2) by (simp add: spans_def)
qed

text \<open>One round, with the pages of the space and the free ones together more than a space can use.\<close>

lemma alloc_round:
  fixes s :: "'a vm_st_scheme"
  assumes "vm_inv kend xs pd s" "lockset L s" "LKmem \<notin> set L" "spans (mem s) pd a" "a mod PGSIZE = 0" "a < KERNBASE"
    and "1026 + npages a < card (space (mem s) pd \<union> set xs)"
  obtains x u t ys where "kalloc s = Inr (x, u)" "x \<noteq> 0" "mappages pd a PGSIZE (v2p x) (PTE_W OR PTE_U) (u\<lparr>mem := memset x 0 PGSIZE (mem u)\<rparr>) = Inr (0, t)"
    "lockset L t" "kmem_st.more t = kmem_st.more s" "vm_inv kend ys pd t" "spans (mem t) pd (a + PGSIZE)"
    "space (mem t) pd \<union> set ys = space (mem s) pd \<union> set xs"
    "\<forall>va. user_byte (mem t) pd va = (if same_page a va then Some 0 else user_byte (mem s) pd va)"
    "frame (mem t) pd a = x" "pages_only (space (mem s) pd \<union> set xs) (mem s) (mem t)" "x \<in> set xs"
proof -
  obtain x u where k: "kalloc s = Inr (x, u)" "x = (case xs of [] \<Rightarrow> 0 | x # _ \<Rightarrow> x)" "kmem_inv kend (tl xs) u" "lockset L u"
    "kmem_st.more u = kmem_st.more s" "mem u = mem s"
    using kalloc_pop [OF assms(2,3) vm_inv_space(1) [OF assms(1)]] by (auto elim!: returnsE)
  have cs: "finite (space (mem s) pd)" "card (space (mem s) pd) \<le> 1025 + npages a" by (rule card_space [OF assms(4)])+
  then obtain xs' where xs: "xs = x # xs'" using assms(7) k(2) by (cases xs) auto
  have x: "page_ok kend x" "x \<notin> set xs'" "x \<notin> space (mem s) pd" using vm_inv_space(1,3) [OF assms(1)] by (auto simp: xs kmem_inv_def)
  let ?v = "u\<lparr>mem := memset x 0 PGSIZE (mem u)\<rparr>"
  have po: "page_only x (mem s) (mem ?v)" using page_only_memset [of 0 PGSIZE x "mem s" 0] k(6) by (simp add: PGSIZE_def)
  have km: "kmem_inv kend xs' ?v"
    by (rule kmem_inv_page_only [of _ _ u x]) (use k(3,6) po x page_aligned [OF x(1)] in \<open>auto simp: xs\<close>)
  have K: "pages_only {x} (mem s) (mem ?v)" "\<forall>y\<in>{x}. y mod PGSIZE = 0" "{x} \<inter> space (mem s) pd = {}" "set xs' \<inter> space (mem s) pd = {}"
    using page_only_pages [OF po] x vm_inv_space(3) [OF assms(1)] by (auto simp: page_ok_def xs)
  note P = space_frame [OF assms(1) km K(4,1,2,3)]
  have sv: "spans (mem ?v) pd a" using assms(4) unfolding spans_def P(6) .
  have nl: "\<not> low_page (mem ?v) pd a" using spans_low [OF sv, of a] rounddown_page [OF assms(5)] by simp
  have fl: "(PTE_W OR PTE_U) AND NOT 0xFFF = 0" by (simp add: PTE_W_def PTE_U_def)
  have lv: "lockset L ?v" "x \<notin> space (mem ?v) pd" using k(4) x(3) unfolding P(3) by simp_all
  obtain r t ys where m: "mappages pd a PGSIZE (v2p x) (PTE_W OR PTE_U) ?v = Inr (r, t)" "lockset L t" "kmem_st.more t = kmem_st.more s"
    "page_mapped kend xs' ys pd a x (PTE_W OR PTE_U) ?v r t"
    using map_page [OF P(1) lv(1) assms(3,5,6) nl x(1,2) lv(2) fl] k(5) by (auto elim!: returnsE)
  have r: "r = 0"
  proof (rule ccontr)
    assume "r \<noteq> 0"
    then have e: "ys = []" "tabs (mem t) pd \<union> set ys = tabs (mem s) pd \<union> set xs'" "frames (mem t) pd = frames (mem s) pd"
      "\<And>vb. pte (mem t) pd vb = pte (mem ?v) pd vb" using m(4) unfolding page_mapped_def P(7,8) by auto
    have "space (mem t) pd = space (mem s) pd \<union> set xs'" using e(1-3) by (auto simp: space_def)
    moreover have "spans (mem t) pd a" using sv unfolding spans_def low_page_def e(4) .
    ultimately show False
      using card_space(2) [of "mem t" pd a] assms(7) card_insert_le_m1 [of "1026 + npages a" "space (mem s) pd \<union> set xs'" x]
      by (simp add: xs)
  qed
  have zero: "mem ?v (x + j) = 0" if "j < PGSIZE" for j using that by (simp add: memset_eq)
  have ub: "user_byte (mem t) pd va = (if same_page a va then Some 0 else user_byte (mem s) pd va)" for va
    using user_new [OF m(4) [unfolded r] P(1) x(1,2) lv(2) zero] unfolding P(4) .
  have S: "space (mem t) pd \<union> set ys = space (mem s) pd \<union> set xs"
    using m(4) r unfolding page_mapped_def space_def P(7,8) by (auto simp: xs)
  have "vm_inv kend ys pd t" using m(4) by (simp add: page_mapped_def)
  moreover have "spans (mem t) pd (a + PGSIZE)" by (rule spans_map [OF m(4) [unfolded r] sv assms(5,6) x(1) fl])
  moreover have "x \<noteq> 0" using x(1) by (simp add: page_ok_def)
  moreover have "frame (mem t) pd a = x" using m(4) r entry_bits(1) [OF x(1) fl] by (simp add: page_mapped_def frame_def)
  moreover have "pages_only (space (mem s) pd \<union> set xs) (mem s) (mem t)"
  proof (rule pages_only_trans)
    show "pages_only (space (mem s) pd \<union> set xs) (mem s) (mem ?v)" using K(1) by (rule pages_only_mono) (simp add: xs)
    have "pages_only (insert pd (set xs' \<union> tabs (mem s) pd)) (mem ?v) (mem t)" using m(4) unfolding page_mapped_def P(7) by simp
    then show "pages_only (space (mem s) pd \<union> set xs) (mem ?v) (mem t)" by (rule pages_only_mono) (auto simp: space_def xs)
  qed
  moreover have "x \<in> set xs" by (simp add: xs)
  ultimately show ?thesis using that [OF k(1)] m(1-3) S ub unfolding r by blast
qed

lemma allocuvm_loop_grows:
  fixes s :: "'a vm_st_scheme"
  assumes "vm_inv kend xs pd s" "lockset L s" "LKmem \<notin> set L" "spans (mem s) pd a" "a mod PGSIZE = 0" "newsz < KERNBASE"
    and "1026 + npages newsz < card (space (mem s) pd \<union> set xs)" "unat newsz \<le> unat a + 4096 * fuel" "unat a < unat newsz + 4096"
  shows "returns (allocuvm_loop (Suc fuel) kend pd a oldsz newsz s) (\<lambda>(r, t). r = newsz \<and> lockset L t \<and> kmem_st.more t = kmem_st.more s \<and>
     (\<exists>ys. vm_inv kend ys pd t \<and> spans (mem t) pd newsz \<and> space (mem t) pd \<union> set ys = space (mem s) pd \<union> set xs) \<and> grown (mem s) pd a newsz (mem t))"
  using assms
proof (induction fuel arbitrary: a s xs)
  have stop: "grown (mem s) pd a newsz (mem s) \<and> spans (mem s) pd newsz"
    if "vm_inv kend xs pd s" "spans (mem s) pd a" "a mod PGSIZE = 0" "\<not> a < newsz" "unat a < unat newsz + 4096" for a and s :: "'a vm_st_scheme" and xs
  proof -
    have "user_byte (mem s) pd va = None" if "\<not> PGROUNDDOWN va < a" for va
      using that \<open>spans (mem s) pd a\<close> \<open>vm_inv kend xs pd s\<close> user_low [of "mem s" pd va] by (auto simp: user_byte_def spans_def vm_inv_def)
    moreover have "PGROUNDDOWN va < a" if "PGROUNDDOWN va < newsz" for va using that \<open>\<not> a < newsz\<close> by simp
    ultimately show ?thesis using spans_end [OF that(2-5)] by (auto simp: grown_def)
  qed
  {
    case 0
    then have e: "\<not> a < newsz" by (simp add: word_less_nat_alt)
    then show ?case using 0 stop [OF 0(1,4,5) e 0(9)] by auto
  next
    case (Suc fuel)
    show ?case
    proof (cases "a < newsz")
      case False
      then show ?thesis using Suc.prems stop [OF Suc.prems(1,4,5) False Suc.prems(9)] by auto
    next
      case lt: True
      then have ak: "a < KERNBASE" "npages a \<le> npages newsz" using Suc.prems(6) npages_mono [of a newsz] by simp_all
      have "unat a < 2 ^ 31" using ak(1) by (simp add: KERNBASE_def word_less_nat_alt)
      then have u: "unat (a + PGSIZE) = unat a + 4096" by (simp add: PGSIZE_def unat_plus_if_size word_size)
      have pg: "(a + PGSIZE) mod PGSIZE = 0" using page_diff(2) [OF Suc.prems(5), of PGSIZE] by (simp add: PGSIZE_def)
      have big: "1026 + npages a < card (space (mem s) pd \<union> set xs)" using ak(2) Suc.prems(7) by simp
      obtain x v t ys where r: "kalloc s = Inr (x, v)" "x \<noteq> 0" "mappages pd a PGSIZE (v2p x) (PTE_W OR PTE_U) (v\<lparr>mem := memset x 0 PGSIZE (mem v)\<rparr>) = Inr (0, t)"
        "lockset L t" "kmem_st.more t = kmem_st.more s" "vm_inv kend ys pd t" "spans (mem t) pd (a + PGSIZE)" "space (mem t) pd \<union> set ys = space (mem s) pd \<union> set xs"
        "\<forall>va. user_byte (mem t) pd va = (if same_page a va then Some 0 else user_byte (mem s) pd va)"
        using alloc_round [OF Suc.prems(1-5) ak(1) big] by metis
      have IH: "returns (allocuvm_loop (Suc fuel) kend pd (a + PGSIZE) oldsz newsz t) (\<lambda>(r, t'). r = newsz \<and> lockset L t' \<and> kmem_st.more t' = kmem_st.more t \<and>
         (\<exists>ys'. vm_inv kend ys' pd t' \<and> spans (mem t') pd newsz \<and> space (mem t') pd \<union> set ys' = space (mem t) pd \<union> set ys) \<and> grown (mem t) pd (a + PGSIZE) newsz (mem t'))"
        by (rule Suc.IH [OF r(6,4) Suc.prems(3) r(7) pg Suc.prems(6)]) (use Suc.prems(7,8) r(8) u lt in \<open>auto simp: word_less_nat_alt\<close>)
      have g: "grown (mem s) pd a newsz m" if "grown (mem t) pd (a + PGSIZE) newsz m" for m
        using that lt rounddown_page [OF Suc.prems(5)] unfolding grown_def spans_step [OF Suc.prems(5) ak(1)] r(9) [rule_format]
        by (auto simp: same_page_def)
      have "returns (allocuvm_loop (Suc fuel) kend pd (a + PGSIZE) oldsz newsz t) (\<lambda>(r, t'). r = newsz \<and> lockset L t' \<and> kmem_st.more t' = kmem_st.more s \<and>
         (\<exists>ys'. vm_inv kend ys' pd t' \<and> spans (mem t') pd newsz \<and> space (mem t') pd \<union> set ys' = space (mem s) pd \<union> set xs) \<and> grown (mem s) pd a newsz (mem t'))"
        by (rule returns_mono [OF IH]) (use r(5,8) g in auto)
      then show ?thesis using lt r(1-3) by (simp add: Let_def)
    qed
  }
qed

lemma roundup_page:
  assumes "sz < KERNBASE"
  shows "PGROUNDUP sz mod PGSIZE = 0" "\<not> PGROUNDUP sz < sz" "unat (PGROUNDUP sz) < unat sz + 4096"
proof -
  have "unat sz < 2 ^ 31" using assms by (simp add: KERNBASE_def word_less_nat_alt)
  then have u: "unat (PGROUNDUP sz) = (unat sz + 4095) div 4096 * 4096" by (intro unat_PGROUNDUP) simp
  have "PGROUNDUP sz = PGROUNDDOWN (sz + PGSIZE - 1)" by (simp add: PGROUNDUP_def PGROUNDDOWN_def)
  then show "PGROUNDUP sz mod PGSIZE = 0" unfolding page_shifted PGROUNDDOWN_bits by blast
  have "unat sz + 4095 = (unat sz + 4095) div 4096 * 4096 + (unat sz + 4095) mod 4096" "(unat sz + 4095) mod 4096 < 4096" by simp_all
  then show "\<not> PGROUNDUP sz < sz" "unat (PGROUNDUP sz) < unat sz + 4096" using u by (auto simp: word_less_nat_alt)
qed

section \<open>Properties\<close>

text \<open>C8: with more free pages than a space of the new size can use, \<^verbatim>\<open>allocuvm\<close> grows the user memory from \<open>oldsz\<close> to
  \<open>newsz\<close> and returns \<open>newsz\<close>: the process sees its old bytes, zeros in the new pages and nothing above; no page is lost.\<close>

theorem allocuvm_grows:
  fixes s :: "'a vm_st_scheme"
  assumes "vm_inv kend xs pd s" "lockset L s" "LKmem \<notin> set L" "spans (mem s) pd oldsz" "oldsz \<le> newsz" "newsz < KERNBASE"
    and "1026 + npages newsz < length xs"
  shows "returns (allocuvm kend pd oldsz newsz s) (\<lambda>(r, t). r = newsz \<and> lockset L t \<and> kmem_st.more t = kmem_st.more s \<and>
     (\<exists>ys. vm_inv kend ys pd t \<and> spans (mem t) pd newsz \<and> space (mem t) pd \<union> set ys = space (mem s) pd \<union> set xs) \<and>
     (\<forall>va. user_byte (mem t) pd va = (if PGROUNDDOWN va < oldsz then user_byte (mem s) pd va else if PGROUNDDOWN va < newsz then Some 0 else None)))"
proof -
  have old: "oldsz < KERNBASE" using assms(5,6) by simp
  note a = roundup_page [OF old]
  have sp: "spans (mem s) pd (PGROUNDUP oldsz)" using assms(4) by (simp add: spans_def page_below [OF a])
  have "card (set xs) = length xs" using vm_inv_space(1) [OF assms(1)] by (simp add: kmem_inv_def distinct_card)
  then have big: "1026 + npages newsz < card (space (mem s) pd \<union> set xs)"
    using assms(7) card_mono [of "space (mem s) pd \<union> set xs" "set xs"] card_space(1) [OF assms(4)] by auto
  have fuel: "unat newsz \<le> unat (PGROUNDUP oldsz) + 4096 * 2 ^ 20" "unat (PGROUNDUP oldsz) < unat newsz + 4096"
    using unat_u32_less [of newsz] a(3) assms(5) by (auto simp: word_le_nat_alt)
  have "\<not> KERNBASE \<le> newsz" "\<not> newsz < oldsz" using assms(5,6) by auto
  then show ?thesis
    using allocuvm_loop_grows [OF assms(1-3) sp a(1) assms(6) big fuel, of oldsz]
    by (simp add: allocuvm_def grown_def page_below [OF a] del: allocuvm_loop.simps)
qed

theorem allocuvm_grows_witness:
  "\<exists>s :: vm_st. returns (allocuvm 0x80100000 0x80400000 0x1000 0x1800 s) (\<lambda>(r, t). r = 0x1800 \<and> user_byte (mem t) 0x80400000 0x1004 = Some 0)"
proof -
  obtain s :: vm_st where s: "vm_inv 0x80100000 (page_run 0x80500000 1030) 0x80400000 s" "spans (mem s) 0x80400000 0x1000" "lockset [] s"
    by (rule one_page_state [OF free_run])
  have "1026 + npages 0x1800 < length (page_run 0x80500000 1030)" "(0x1000 :: u32) \<le> 0x1800" "0x1800 < KERNBASE"
    by (simp_all add: npages_def page_run_def KERNBASE_def)
  note grow = allocuvm_grows [OF s(1,3) _ s(2) this(2,3,1)]
  show ?thesis by (intro exI [of _ s] returns_mono [OF grow]) (auto simp: PGROUNDDOWN_def PGSIZE_def)
qed

text \<open>C33: \<^verbatim>\<open>allocuvm\<close> does not look at the result of \<^verbatim>\<open>mappages\<close>. When one page is left and the address space has no table for
  the new page yet, it takes the page, fails to map it, and still returns the new size: the process is told it has memory that
  is not there, and the page is lost.\<close>

theorem allocuvm_false_success:
  fixes s :: "'a vm_st_scheme"
  assumes "vm_inv kend [x] pd s" "\<not> has_tab (mem s) pd 0" "lockset L s" "LKmem \<notin> set L"
  shows "returns (allocuvm kend pd 0 PGSIZE s) (\<lambda>(r, t). r = PGSIZE \<and> \<not> low_page (mem t) pd 0 \<and> kmem_inv kend [] t \<and> x \<notin> space (mem t) pd)"
proof -
  obtain u where k: "kalloc s = Inr (x, u)" "kmem_inv kend [] u" "lockset L u" "mem u = mem s"
    using kalloc_pop [OF assms(3,4) vm_inv_space(1) [OF assms(1)]] by (auto elim!: returnsE)
  have x: "page_ok kend x" "x \<notin> space (mem s) pd" using vm_inv_space(1,3) [OF assms(1)] by (auto simp: kmem_inv_def)
  let ?v = "u\<lparr>mem := memset x 0 PGSIZE (mem u)\<rparr>"
  have po: "page_only x (mem s) (mem ?v)" using page_only_memset [of 0 PGSIZE x "mem s" 0] k(4) by (simp add: PGSIZE_def)
  have km: "kmem_inv kend [] ?v" using k(2) by (simp add: kmem_inv_def)
  have K: "pages_only {x} (mem s) (mem ?v)" "\<forall>y\<in>{x}. y mod PGSIZE = 0" "{x} \<inter> space (mem s) pd = {}" "set [] \<inter> space (mem s) pd = {}"
    using page_only_pages [OF po] x by (auto simp: page_ok_def)
  note P = space_frame [OF assms(1) km K(4,1,2,3)]
  have dis: "pd \<notin> {x}" "tabs (mem s) pd \<inter> {x} = {}" using K(3) by (auto simp: space_def)
  have nt: "\<not> has_tab (mem ?v) pd 0" using assms(2) dir_frame(2) [OF K(1,2) vm_inv_space(5) [OF assms(1)] dis] by simp
  then have nl: "\<not> low_page (mem ?v) pd 0" using low_has_tab by blast
  have lv: "lockset L ?v" using k(3) by simp
  obtain w where w: "kalloc ?v = Inr (0, w)" "kmem_inv kend [] w" "mem w = mem ?v"
    using kalloc_pop [OF lv assms(4) km] by (auto elim!: returnsE)
  have "walkpgdir pd 0 True ?v = Inr (0, w)" using nt w(1) by (simp add: walkpgdir_def Let_def has_tab_def pde_def)
  then have m: "mappages_loop (Suc n) pd 0 0 (v2p x) (PTE_W OR PTE_U) ?v = Inr (-1, w)" for n by simp
  have "mappages pd 0 PGSIZE (v2p x) (PTE_W OR PTE_U) ?v = Inr (-1, w)"
    using m [of "2 ^ 20"] by (simp add: mappages_def PGROUNDDOWN_def PGSIZE_def)
  moreover have "x \<noteq> 0" using x(1) by (simp add: page_ok_def)
  ultimately have a: "allocuvm_loop (Suc (Suc n)) kend pd 0 0 PGSIZE s = Inr (PGSIZE, w)" for n
    using k(1) by (simp add: PGSIZE_def Let_def)
  have "allocuvm kend pd 0 PGSIZE s = Inr (PGSIZE, w)"
    using a [of "2 ^ 20 - 1"] by (simp add: allocuvm_def PGROUNDUP_def PGSIZE_def KERNBASE_def)
  moreover have "\<not> low_page (mem w) pd 0" "x \<notin> space (mem w) pd" using nl x(2) unfolding w(3) P(3) by auto
  ultimately show ?thesis using w(2) by simp
qed

theorem allocuvm_false_success_witness:
  "\<exists>s :: vm_st. returns (allocuvm 0x80100000 0x80400000 0 PGSIZE s) (\<lambda>(r, t). r = PGSIZE \<and> \<not> low_page (mem t) 0x80400000 0)"
proof -
  let ?s = "\<lparr>locks = \<lambda>_. \<lparr>locked = 0, holder = None\<rparr>, cpu = \<lparr>cpu_id = 0, ncli = 0, intena = False\<rparr>,
     IF = True, mem = \<lambda>_. 0, use_lock = True, freelist = 0x80401000, kpgdir = 0, cr3 = 0\<rparr>"
  have z: "\<not> has_tab (\<lambda>_. 0) 0x80400000 va" for va by (simp add: has_tab_def pde_def load32_zero)
  then have l: "pte (\<lambda>_. 0) 0x80400000 va = 0" for va by (simp add: pte_def)
  have "page_ok 0x80100000 0x80400000" "page_ok 0x80100000 0x80401000"
    by (simp_all add: page_ok_def PGSIZE_def v2p_def KERNBASE_def PHYSTOP_def)
  then have "pd_inv 0x80100000 [0x80401000] 0x80400000 ?s" by (simp add: pd_inv_def kmem_inv_def z tabs_apart_def load32_zero)
  then have v: "vm_inv 0x80100000 [0x80401000] 0x80400000 ?s"
    by (simp add: vm_inv_def frames_apart_def kernel_only_def frames_def low_page_def l)
  have "lockset [] ?s" "\<not> has_tab (mem ?s) 0x80400000 0" using z by (simp_all add: lockset_def)
  note r = allocuvm_false_success [OF v this(2,1)]
  show ?thesis by (intro exI [of _ ?s] returns_mono [OF r]) auto
qed

end
