(* ===== verification/Boot.thy ===== *)
theory Boot
  imports Vm_Lemmas
begin

text \<open>
  The boot loader (\<^verbatim>\<open>bootmain.c\<close>): it runs before the kernel, on physical memory and the first disk. The
  disk is the parameter \<open>disk\<close>, its sectors by number; the readings of the status port are a list in the
  state, and so are the writes to the ports.

  What is shown: reading a segment puts exactly the sectors it lies in into memory, and the loader leaves
  every segment of the kernel in place, also over the bytes it has read too many.
\<close>

record boot_st =
  bmem :: mem
  polls :: "u8 list"
  bports :: "(u16 \<times> u8) list"

definition SECTSIZE :: nat where "SECTSIZE = 512"

fun wait_ready :: "u8 list \<Rightarrow> u8 list option" where
  "wait_ready [] = None"
| "wait_ready (r # rs) = (if r AND 0xC0 \<noteq> 0x40 then wait_ready rs else Some rs)"

definition waitdisk :: "boot_st \<Rightarrow> (boot_st, boot_st) kres" where
  "waitdisk s = (case wait_ready (polls s) of None \<Rightarrow> Inl Diverge | Some rs \<Rightarrow> Inr (s\<lparr>polls := rs\<rparr>))"

definition boot_outb :: "u16 \<Rightarrow> u32 \<Rightarrow> boot_st \<Rightarrow> boot_st" where
  "boot_outb port v s = s\<lparr>bports := bports s @ [(port, ucast v)]\<rparr>"

text \<open>The sector the drive is asked for: the last values of its address ports, 28 bits.\<close>

fun last_out :: "u16 \<Rightarrow> (u16 \<times> u8) list \<Rightarrow> u8" where
  "last_out p [] = 0"
| "last_out p ((q, v) # ws) = (if list_ex (\<lambda>(q, v). q = p) ws then last_out p ws else if q = p then v else 0)"

definition lba :: "(u16 \<times> u8) list \<Rightarrow> u32" where
  "lba ws = ucast (last_out 0x1F3 ws) OR push_bit 8 (ucast (last_out 0x1F4 ws)) OR push_bit 16 (ucast (last_out 0x1F5 ws)) OR
     push_bit 24 (ucast (last_out 0x1F6 ws AND 0x0F))"

definition readsect :: "(u32 \<Rightarrow> u8 list) \<Rightarrow> u32 \<Rightarrow> u32 \<Rightarrow> boot_st \<Rightarrow> (boot_st, boot_st) kres" where
  "readsect disk dst offset s =
     kbind (waitdisk s) (\<lambda>s.
     let s = boot_outb 0x1F2 1 s;
         s = boot_outb 0x1F3 offset s;
         s = boot_outb 0x1F4 (drop_bit 8 offset) s;
         s = boot_outb 0x1F5 (drop_bit 16 offset) s;
         s = boot_outb 0x1F6 (drop_bit 24 offset OR 0xE0) s;
         s = boot_outb 0x1F7 0x20 s
     in kbind (waitdisk s) (\<lambda>s.
        Inr (s\<lparr>bmem := store_bytes dst (take SECTSIZE (disk (lba (bports s)))) (bmem s)\<rparr>)))"

text \<open>The loop of \<^verbatim>\<open>readseg\<close>; the address space has \<open>2 ^ 23\<close> sectors.\<close>

fun readseg_loop :: "nat \<Rightarrow> (u32 \<Rightarrow> u8 list) \<Rightarrow> u32 \<Rightarrow> u32 \<Rightarrow> u32 \<Rightarrow> boot_st \<Rightarrow> (boot_st, boot_st) kres" where
  "readseg_loop 0 disk pa epa offset s = Inl Diverge"
| "readseg_loop (Suc fuel) disk pa epa offset s =
     (if pa < epa then kbind (readsect disk pa offset s) (readseg_loop fuel disk (pa + 512) epa (offset + 1)) else Inr s)"

definition readseg :: "(u32 \<Rightarrow> u8 list) \<Rightarrow> u32 \<Rightarrow> u32 \<Rightarrow> u32 \<Rightarrow> boot_st \<Rightarrow> (boot_st, boot_st) kres" where
  "readseg disk pa len offset s =
     readseg_loop (2 ^ 23 + 1) disk (pa - offset mod 512) (pa + len) (offset div 512 + 1) s"

record boot_seg =
  p_off :: u32
  p_paddr :: u32
  p_filesz :: u32
  p_memsz :: u32

definition boot_seg_at :: "mem \<Rightarrow> u32 \<Rightarrow> boot_seg" where
  "boot_seg_at m ph = \<lparr>p_off = load32 m (ph + 4), p_paddr = load32 m (ph + 12), p_filesz = load32 m (ph + 16), p_memsz = load32 m (ph + 20)\<rparr>"

definition load_seg :: "(u32 \<Rightarrow> u8 list) \<Rightarrow> boot_seg \<Rightarrow> boot_st \<Rightarrow> (boot_st, boot_st) kres" where
  "load_seg disk ph s =
     kbind (readseg disk (p_paddr ph) (p_filesz ph) (p_off ph) s) (\<lambda>s.
     Inr (if p_memsz ph > p_filesz ph
          then s\<lparr>bmem := stosb (p_paddr ph + p_filesz ph) 0 (unat (p_memsz ph - p_filesz ph)) (bmem s)\<rparr> else s))"

text \<open>The loop over the program headers, in the scratch space at \<open>0x10000\<close>: \<open>n\<close> is the number of headers left.\<close>

fun load_segs :: "nat \<Rightarrow> (u32 \<Rightarrow> u8 list) \<Rightarrow> u32 \<Rightarrow> u32 \<Rightarrow> boot_st \<Rightarrow> (boot_st, boot_st) kres" where
  "load_segs 0 disk ph eph s = Inr s"
| "load_segs (Suc n) disk ph eph s =
     (if ph < eph then kbind (load_seg disk (boot_seg_at (bmem s) ph) s) (load_segs n disk (ph + 32) eph) else Inr s)"

definition phnum_at :: "mem \<Rightarrow> nat" where
  "phnum_at m = unat (of_le16 [m 0x1002C, m 0x1002D])"

definition bootmain :: "(u32 \<Rightarrow> u8 list) \<Rightarrow> boot_st \<Rightarrow> (boot_st, u32 option \<times> boot_st) kres" where
  "bootmain disk s =
     kbind (readseg disk 0x10000 4096 0 s) (\<lambda>s.
     if load32 (bmem s) 0x10000 \<noteq> 0x464C457F then Inr (None, s)
     else let ph = 0x10000 + load32 (bmem s) 0x1001C;
              n = phnum_at (bmem s)
          in kbind (load_segs n disk ph (ph + 32 * of_nat n) s) (\<lambda>s.
             Inr (Some (load32 (bmem s) 0x10018), s)))"

section \<open>Sectors\<close>

lemma last_out_append: "last_out p (ws @ vs) = (if list_ex (\<lambda>(q, v). q = p) vs then last_out p vs else last_out p ws)"
proof (induction ws)
  case Nil
  have "\<not> list_ex (\<lambda>(q, v). q = p) vs \<Longrightarrow> last_out p vs = 0" by (induction vs) auto
  then show ?case by simp
next
  case (Cons w ws)
  have "\<not> list_ex (\<lambda>(q, v). q = p) us \<Longrightarrow> last_out p us = 0" for us by (induction us) auto
  then show ?case using Cons by (cases w) auto
qed

lemma lba_bits:
  assumes "unat (o' :: u32) < 2 ^ 28"
  shows "ucast (ucast o' :: u8) OR push_bit 8 (ucast (ucast (drop_bit 8 o') :: u8)) OR push_bit 16 (ucast (ucast (drop_bit 16 o') :: u8)) OR
     push_bit 24 (ucast ((ucast (drop_bit 24 o' OR 0xE0) :: u8) AND 0x0F)) = o'"
proof (rule bit_word_eqI)
  fix n assume n: "n < LENGTH(32)"
  have hi: "\<not> bit o' k" if "28 \<le> k" for k
  proof -
    have "take_bit 28 o' = o'" using assms by (simp add: word_unat_eq_iff unsigned_take_bit_eq take_bit_nat_eq_self_iff)
    then show ?thesis using that by (metis bit_take_bit_iff not_le)
  qed
  have c: "(0x0F :: u8) = mask 4" "(0xE0 :: u32) = push_bit 5 (mask 3)" by (simp_all add: mask_eq_exp_minus_1)
  show "bit (ucast (ucast o' :: u8) OR push_bit 8 (ucast (ucast (drop_bit 8 o') :: u8)) OR push_bit 16 (ucast (ucast (drop_bit 16 o') :: u8)) OR
     push_bit 24 (ucast ((ucast (drop_bit 24 o' OR 0xE0) :: u8) AND 0x0F)) :: u32) n = bit o' n"
    using n hi [of n] unfolding c
    by (cases "n < 8"; cases "n < 16"; cases "n < 24"; cases "n < 28") (auto simp: bit_simps)
qed

lemma lba_readsect:
  assumes "unat offset < 2 ^ 28"
  shows "lba (ws @ [(0x1F2, 1), (0x1F3, ucast offset), (0x1F4, ucast (drop_bit 8 offset)), (0x1F5, ucast (drop_bit 16 offset)),
     (0x1F6, ucast (drop_bit 24 offset OR 0xE0)), (0x1F7, 0x20)]) = offset"
  using lba_bits [OF assms] by (simp add: lba_def last_out_append)

definition sectors_ok :: "(u32 \<Rightarrow> u8 list) \<Rightarrow> bool" where
  "sectors_ok disk \<longleftrightarrow> (\<forall>i. length (disk i) = 512)"

definition ready :: "nat \<Rightarrow> boot_st \<Rightarrow> bool" where
  "ready n s \<longleftrightarrow> take (2 * n) (polls s) = replicate (2 * n) 0x40"

lemma ready_Suc: "ready (Suc n) s \<Longrightarrow> \<exists>rs. polls s = 0x40 # 0x40 # rs \<and> take (2 * n) rs = replicate (2 * n) 0x40"
  by (cases "polls s"; cases "tl (polls s)") (auto simp: ready_def)

lemma ready_le: "ready (n + k) s \<Longrightarrow> ready n s"
proof -
  assume "ready (n + k) s"
  then have "take (2 * n) (take (2 * (n + k)) (polls s)) = take (2 * n) (replicate (2 * (n + k)) 0x40)" by (simp add: ready_def)
  then show "ready n s" by (simp add: ready_def)
qed

lemma readsect_reads:
  assumes "sectors_ok disk" "ready (Suc n) s" "unat offset < 2 ^ 28"
  shows "returns (readsect disk dst offset s) (\<lambda>t. ready n t \<and> bmem t = store_bytes dst (disk offset) (bmem s))"
proof -
  obtain rs where rs: "polls s = 0x40 # 0x40 # rs" "take (2 * n) rs = replicate (2 * n) 0x40" using ready_Suc [OF assms(2)] by blast
  then show ?thesis using assms(1) lba_readsect [OF assms(3), of "bports s"]
    by (simp add: readsect_def waitdisk_def boot_outb_def Let_def ready_def sectors_ok_def SECTSIZE_def)
qed

text \<open>The bytes of the kernel's file, which starts at sector 1.\<close>

definition img :: "(u32 \<Rightarrow> u8 list) \<Rightarrow> nat \<Rightarrow> u8" where
  "img disk k = disk (of_nat (1 + k div 512)) ! (k mod 512)"

definition copied_in :: "(u32 \<Rightarrow> u8 list) \<Rightarrow> nat \<Rightarrow> nat \<Rightarrow> nat \<Rightarrow> mem \<Rightarrow> mem \<Rightarrow> bool" where
  "copied_in disk a k len m m' \<longleftrightarrow> (\<forall>x. m' x = (if a \<le> unat x \<and> unat x < a + len then img disk (k + (unat x - a)) else m x))"

lemma sector_copied:
  assumes "sectors_ok disk" "unat pa + 512 \<le> 2 ^ 32"
  shows "copied_in disk (unat pa) (512 * j) 512 m (store_bytes pa (disk (of_nat (1 + j))) m)"
proof -
  have l: "length (disk (of_nat (1 + j))) = 512" using assms(1) by (simp add: sectors_ok_def)
  have d: "unat (x - pa) < 512 \<longleftrightarrow> unat pa \<le> unat x \<and> unat x < unat pa + 512" "unat pa \<le> unat x \<Longrightarrow> unat (x - pa) = unat x - unat pa" for x :: u32
    using assms(2) unat_u32_less [of x] by (auto simp: unat_sub_if')
  have b: "img disk (512 * j + i) = disk (of_nat (1 + j)) ! i" if "i < 512" for i using that by (simp add: img_def)
  have "disk (of_nat (1 + j)) ! (unat x - unat pa) = img disk (512 * j + unat x - unat pa)" if "unat x < unat pa + 512" "unat pa \<le> unat x" for x
    using b [of "unat x - unat pa"] that by (simp del: of_nat_add)
  then show ?thesis using d l by (auto simp: copied_in_def store_bytes_eq)
qed

lemma copied_in_append:
  assumes "copied_in disk a k len m u" "copied_in disk (a + len) (k + len) len' u t"
  shows "copied_in disk a k (len + len') m t"
  using assms unfolding copied_in_def by auto

lemma readseg_loop_reads:
  assumes "sectors_ok disk" "ready n s" "unat pa + 512 * n < 2 ^ 32" "unat epa \<le> unat pa + 512 * n" "unat pa + 512 * n < unat epa + 512"
    and "offset = of_nat (1 + j)" "1 + j + n < 2 ^ 28" "n < fuel"
  shows "returns (readseg_loop fuel disk pa epa offset s) (\<lambda>t. (\<forall>r. ready (n + r) s \<longrightarrow> ready r t) \<and> copied_in disk (unat pa) (512 * j) (512 * n) (bmem s) (bmem t))"
  using assms
proof (induction n arbitrary: pa offset j fuel s)
  case 0
  then show ?case by (cases fuel) (auto simp: word_less_nat_alt copied_in_def)
next
  case (Suc n)
  obtain f where f: "fuel = Suc f" using Suc.prems(8) by (cases fuel) auto
  have lt: "pa < epa" using Suc.prems(5) by (simp add: word_less_nat_alt)
  have o: "unat offset < 2 ^ 28" using Suc.prems(6,7) by (simp add: unat_of_nat32 del: of_nat_add of_nat_Suc)
  have u: "unat (pa + 512) = unat pa + 512" using Suc.prems(3) by (simp add: unat_plus_if_size word_size)
  have "\<forall>r. ready (Suc n + r) s \<longrightarrow> returns (readsect disk pa offset s) (ready (n + r))"
    by (intro allI impI returns_mono [OF readsect_reads [OF Suc.prems(1) _ o]]) auto
  moreover obtain t where t: "readsect disk pa offset s = Inr t" "ready n t" "bmem t = store_bytes pa (disk offset) (bmem s)"
    using readsect_reads [OF Suc.prems(1,2) o, of pa] by (auto elim!: returnsE)
  ultimately have r: "\<forall>r. ready (Suc n + r) s \<longrightarrow> ready (n + r) t" by simp
  have s1: "copied_in disk (unat pa) (512 * j) 512 (bmem s) (bmem t)"
    using sector_copied [OF Suc.prems(1), of pa j "bmem s"] Suc.prems(3,6) t(3) by simp
  have "returns (readseg_loop f disk (pa + 512) epa (offset + 1) t) (\<lambda>w. (\<forall>r. ready (n + r) t \<longrightarrow> ready r w) \<and>
     copied_in disk (unat (pa + 512)) (512 * Suc j) (512 * n) (bmem t) (bmem w))"
    by (rule Suc.IH [OF Suc.prems(1) t(2)]) (use Suc.prems(3-8) u f in \<open>auto simp: algebra_simps\<close>)
  then have "returns (readseg_loop f disk (pa + 512) epa (offset + 1) t) (\<lambda>w. (\<forall>r. ready (Suc n + r) s \<longrightarrow> ready r w) \<and>
     copied_in disk (unat pa) (512 * j) (512 * Suc n) (bmem s) (bmem w))"
    by (rule returns_mono) (use r copied_in_append [OF s1, of "512 * n"] u in \<open>auto simp: algebra_simps\<close>)
  then show ?case using f lt t(1) by simp
qed

section \<open>Segments\<close>

text \<open>The sectors a run of \<open>len\<close> bytes from offset \<open>off\<close> lies in.\<close>

definition nsect :: "u32 \<Rightarrow> u32 \<Rightarrow> nat" where
  "nsect off len = (unat off mod 512 + unat len + 511) div 512"

lemma nsect_bounds:
  "unat off mod 512 + unat len \<le> 512 * nsect off len" "512 * nsect off len < unat off mod 512 + unat len + 512"
  unfolding nsect_def by linarith+

lemma readseg_reads:
  assumes "sectors_ok disk" "ready (nsect off len) s" "unat off mod 512 \<le> unat pa" "unat pa + unat len + 512 \<le> 2 ^ 32"
  shows "returns (readseg disk pa len off s) (\<lambda>t. (\<forall>r. ready (nsect off len + r) s \<longrightarrow> ready r t) \<and>
     copied_in disk (unat pa - unat off mod 512) (512 * (unat off div 512)) (512 * nsect off len) (bmem s) (bmem t))"
proof -
  note b = nsect_bounds [of off len]
  have a: "unat (pa - off mod 512) = unat pa - unat off mod 512" using assms(3) by (simp add: unat_sub word_le_nat_alt unat_mod)
  have e: "unat (pa + len) = unat pa + unat len" using assms(4) by (simp add: unat_plus_if_size word_size)
  have o: "off div 512 + 1 = of_nat (1 + unat off div 512)"
  proof -
    have "unat (512 :: u32) = 512" by simp
    then show ?thesis using word_arith_nat_div [of off 512] by (metis add.commute of_nat_1 of_nat_add)
  qed
  have d: "unat off div 512 < 2 ^ 23" using unat_u32_less [of off] by (simp add: less_mult_imp_div_less)
  have "512 * nsect off len < 2 ^ 32" using b(2) assms(3,4) by linarith
  then have n: "nsect off len < 2 ^ 23 + 1" by simp
  then have k: "1 + unat off div 512 + nsect off len < 2 ^ 28" using d by simp
  have "returns (readseg_loop (2 ^ 23 + 1) disk (pa - off mod 512) (pa + len) (off div 512 + 1) s) (\<lambda>t.
     (\<forall>r. ready (nsect off len + r) s \<longrightarrow> ready r t) \<and>
     copied_in disk (unat (pa - off mod 512)) (512 * (unat off div 512)) (512 * nsect off len) (bmem s) (bmem t))"
    by (intro readseg_loop_reads [OF assms(1,2) _ _ _ o]) (use a b e k n assms(3,4) in \<open>assumption | linarith\<close>)+
  then show ?thesis using a by (simp add: readseg_def)
qed

text \<open>
  A header the loader can follow: the segment and the sectors read with it lie inside the address space.
  The addresses from \<open>seg_lo\<close> up to \<open>seg_hi\<close> are those its loading may change.
\<close>

definition seg_ok :: "boot_seg \<Rightarrow> bool" where
  "seg_ok ph \<longleftrightarrow> p_filesz ph \<le> p_memsz ph \<and> 512 \<le> unat (p_paddr ph) \<and> unat (p_paddr ph) + unat (p_memsz ph) + 512 \<le> 2 ^ 32"

definition seg_lo :: "boot_seg \<Rightarrow> nat" where
  "seg_lo ph = unat (p_paddr ph) - unat (p_off ph) mod 512"

definition seg_hi :: "boot_seg \<Rightarrow> nat" where
  "seg_hi ph = max (seg_lo ph + 512 * nsect (p_off ph) (p_filesz ph)) (unat (p_paddr ph) + unat (p_memsz ph))"

definition clear :: "nat \<Rightarrow> nat \<Rightarrow> boot_seg \<Rightarrow> bool" where
  "clear a b ph \<longleftrightarrow> seg_hi ph \<le> a \<or> b \<le> seg_lo ph"

definition in_place :: "(u32 \<Rightarrow> u8 list) \<Rightarrow> boot_seg \<Rightarrow> mem \<Rightarrow> bool" where
  "in_place disk ph m \<longleftrightarrow> (\<forall>i < unat (p_memsz ph).
     m (p_paddr ph + of_nat i) = (if i < unat (p_filesz ph) then img disk (unat (p_off ph) + i) else 0))"

lemma load_seg_loads:
  assumes "sectors_ok disk" "ready (nsect (p_off ph) (p_filesz ph)) s" "seg_ok ph"
  shows "returns (load_seg disk ph s) (\<lambda>t. (\<forall>r. ready (nsect (p_off ph) (p_filesz ph) + r) s \<longrightarrow> ready r t) \<and>
     in_place disk ph (bmem t) \<and> (\<forall>x. clear (unat x) (unat x + 1) ph \<longrightarrow> bmem t x = bmem s x))"
proof -
  let ?a = "unat (p_paddr ph)" and ?f = "unat (p_filesz ph)" and ?m = "unat (p_memsz ph)" and ?o = "unat (p_off ph)" and ?n = "nsect (p_off ph) (p_filesz ph)"
  note ok = assms(3) [unfolded seg_ok_def word_le_nat_alt]
  have md: "?o mod 512 < 512" by simp
  note b = nsect_bounds [of "p_off ph" "p_filesz ph"]
  obtain t where t: "readseg disk (p_paddr ph) (p_filesz ph) (p_off ph) s = Inr t" "\<forall>r. ready (?n + r) s \<longrightarrow> ready r t"
    and c: "copied_in disk (?a - ?o mod 512) (512 * (?o div 512)) (512 * ?n) (bmem s) (bmem t)"
    using readseg_reads [OF assms(1,2), of "p_paddr ph"] ok md by (auto elim!: returnsE)
  define w where "w = (\<lambda>x. if ?a + ?f \<le> unat x \<and> unat x < ?a + ?m then 0 else bmem t x)"
  have z: "(if p_memsz ph > p_filesz ph then stosb (p_paddr ph + p_filesz ph) 0 (unat (p_memsz ph - p_filesz ph)) (bmem t) else bmem t) = w"
  proof (rule ext)
    fix x :: u32
    have "unat (p_memsz ph - p_filesz ph) = ?m - ?f" using ok by (simp add: unat_sub word_le_nat_alt)
    moreover have "unat (p_paddr ph + p_filesz ph) = ?a + ?f" using ok by (simp add: unat_plus_if_size word_size)
    ultimately show "(if p_memsz ph > p_filesz ph then stosb (p_paddr ph + p_filesz ph) 0 (unat (p_memsz ph - p_filesz ph)) (bmem t) else bmem t) x = w x"
      using ok unat_u32_less [of x] by (auto simp: w_def stosb_eq word_less_nat_alt unat_sub_if')
  qed
  have in_place: "in_place disk ph w"
    unfolding in_place_def
  proof (intro allI impI)
    fix i assume i: "i < ?m"
    have u: "unat (p_paddr ph + of_nat i) = ?a + i" using i ok by (simp add: unat_plus_if_size word_size unat_of_nat32)
    have "512 * (?o div 512) + (?a + i - (?a - ?o mod 512)) = ?o + i" using ok md mult_div_mod_eq [of 512 ?o] by linarith
    then show "w (p_paddr ph + of_nat i) = (if i < ?f then img disk (?o + i) else 0)"
      using i u ok md b c by (auto simp: w_def copied_in_def)
  qed
  have "w x = bmem s x" if "clear (unat x) (unat x + 1) ph" for x
    using that ok c by (auto simp: w_def copied_in_def clear_def seg_lo_def seg_hi_def)
  moreover have "load_seg disk ph s = Inr (t\<lparr>bmem := w\<rparr>)" using t(1) z by (auto simp: load_seg_def)
  ultimately show ?thesis using in_place t(2) by (simp add: ready_def)
qed

text \<open>
  A kernel the loader can load: no segment reaches into the scratch page the headers are read from, or into a
  segment loaded before.
\<close>

definition kernel_ok :: "boot_seg list \<Rightarrow> bool" where
  "kernel_ok phs \<longleftrightarrow> list_all seg_ok phs \<and> list_all (clear 0x10000 0x11000) phs \<and>
     sorted_wrt (\<lambda>p q. clear (unat (p_paddr p)) (unat (p_paddr p) + unat (p_memsz p)) q) phs"

definition all_sects :: "boot_seg list \<Rightarrow> nat" where
  "all_sects phs = sum_list (map (\<lambda>p. nsect (p_off p) (p_filesz p)) phs)"

definition scratch_same :: "mem \<Rightarrow> mem \<Rightarrow> bool" where
  "scratch_same m m' \<longleftrightarrow> (\<forall>x. 0x10000 \<le> unat x \<and> unat x < 0x11000 \<longrightarrow> m x = m' x)"

lemma clear_sub: "clear a b ph \<Longrightarrow> a \<le> c \<Longrightarrow> d \<le> b \<Longrightarrow> clear c d ph"
  by (auto simp: clear_def)

lemma in_place_keeps:
  assumes "in_place disk p m" "seg_ok p"
    and "\<forall>x. unat (p_paddr p) \<le> unat x \<and> unat x < unat (p_paddr p) + unat (p_memsz p) \<longrightarrow> m' x = m x"
  shows "in_place disk p m'"
  unfolding in_place_def
proof (intro allI impI)
  fix i assume i: "i < unat (p_memsz p)"
  have "unat (p_paddr p + of_nat i) = unat (p_paddr p) + i" using i assms(2) by (simp add: seg_ok_def unat_plus_if_size word_size unat_of_nat32)
  then have "m' (p_paddr p + of_nat i) = m (p_paddr p + of_nat i)" using assms(3) i by simp
  then show "m' (p_paddr p + of_nat i) = (if i < unat (p_filesz p) then img disk (unat (p_off p) + i) else 0)"
    using assms(1) i by (simp add: in_place_def)
qed

lemma load32_scratch:
  assumes "scratch_same m m'" "0x10000 \<le> unat a" "unat a + 4 \<le> 0x11000"
  shows "load32 m a = load32 m' a"
proof (rule load32_cong)
  fix i :: u32 assume "i < 4"
  then have "unat (a + i) = unat a + unat i" "unat i < 4" using assms(3) by (simp_all add: word_less_nat_alt unat_plus_if_size word_size)
  then show "m (a + i) = m' (a + i)" using assms by (simp add: scratch_same_def)
qed

lemma boot_seg_at_scratch:
  assumes "scratch_same m m'" "0x10000 \<le> unat ph" "unat ph + 32 \<le> 0x11000"
  shows "boot_seg_at m ph = boot_seg_at m' ph"
proof -
  have "load32 m (ph + k) = load32 m' (ph + k)" if "unat k \<le> 28" for k
    by (rule load32_scratch [OF assms(1)]) (use assms(2,3) that in \<open>simp_all add: unat_plus_if_size word_size\<close>)
  then show ?thesis by (simp add: boot_seg_at_def)
qed

lemma load_segs_loads:
  assumes "sectors_ok disk" "ready (all_sects phs) s" "kernel_ok phs" "0x10000 \<le> unat ph" "unat ph + 32 * length phs \<le> 0x11000"
    and "\<forall>i < length phs. boot_seg_at (bmem s) (ph + 32 * of_nat i) = phs ! i" "eph = ph + 32 * of_nat (length phs)"
  shows "returns (load_segs (length phs) disk ph eph s) (\<lambda>t. (\<forall>p \<in> set phs. in_place disk p (bmem t)) \<and> scratch_same (bmem s) (bmem t) \<and>
     (\<forall>x. list_all (clear (unat x) (unat x + 1)) phs \<longrightarrow> bmem t x = bmem s x))"
  using assms
proof (induction phs arbitrary: ph s)
  case Nil
  then show ?case by (simp add: scratch_same_def)
next
  case (Cons p phs)
  have p: "boot_seg_at (bmem s) ph = p" using Cons.prems(6) by force
  have ok: "seg_ok p" "clear 0x10000 0x11000 p" "kernel_ok phs" "\<forall>q \<in> set phs. clear (unat (p_paddr p)) (unat (p_paddr p) + unat (p_memsz p)) q"
    using Cons.prems(3) by (auto simp: kernel_ok_def)
  have n: "ready (nsect (p_off p) (p_filesz p) + all_sects phs) s" using Cons.prems(2) by (simp add: all_sects_def)
  have u: "unat (ph + 32) = unat ph + 32" using Cons.prems(5) by (simp add: unat_plus_if_size word_size)
  have lt: "ph < eph" using Cons.prems(5,7) by (simp add: word_less_nat_alt unat_plus_if_size word_size unat_word_ariths unat_of_nat32)
  have r1: "ready (nsect (p_off p) (p_filesz p)) s" using n by (rule ready_le)
  obtain t where t: "load_seg disk p s = Inr t" "ready (all_sects phs) t" "in_place disk p (bmem t)" "\<forall>x. clear (unat x) (unat x + 1) p \<longrightarrow> bmem t x = bmem s x"
    using load_seg_loads [OF Cons.prems(1) r1 ok(1)] n by (auto elim!: returnsE)
  have sc: "scratch_same (bmem s) (bmem t)" using t(4) clear_sub [OF ok(2)] by (simp add: scratch_same_def)
  have hs: "\<forall>i < length phs. boot_seg_at (bmem t) (ph + 32 + 32 * of_nat i) = phs ! i"
  proof (intro allI impI)
    fix i assume i: "i < length phs"
    have e: "ph + 32 + 32 * of_nat i = ph + 32 * of_nat (Suc i)" by (simp add: algebra_simps)
    have "unat (ph + 32 * of_nat (Suc i)) = unat ph + 32 * Suc i"
      using i Cons.prems(5) by (simp add: unat_plus_if_size word_size unat_word_ariths unat_of_nat32 del: of_nat_Suc)
    then have "boot_seg_at (bmem s) (ph + 32 * of_nat (Suc i)) = boot_seg_at (bmem t) (ph + 32 * of_nat (Suc i))"
      using i Cons.prems(4,5) by (intro boot_seg_at_scratch [OF sc]) (simp_all del: of_nat_Suc)
    then show "boot_seg_at (bmem t) (ph + 32 + 32 * of_nat i) = phs ! i" using Cons.prems(6) i e by (metis Suc_less_eq length_Cons nth_Cons_Suc)
  qed
  have "returns (load_segs (length phs) disk (ph + 32) eph t) (\<lambda>w. (\<forall>p \<in> set phs. in_place disk p (bmem w)) \<and> scratch_same (bmem t) (bmem w) \<and>
     (\<forall>x. list_all (clear (unat x) (unat x + 1)) phs \<longrightarrow> bmem w x = bmem t x))"
    by (rule Cons.IH [OF Cons.prems(1) t(2) ok(3) _ _ hs]) (use u Cons.prems(4,5,7) in \<open>simp_all add: algebra_simps\<close>)
  then obtain w where w: "load_segs (length phs) disk (ph + 32) eph t = Inr w" "\<forall>p \<in> set phs. in_place disk p (bmem w)" "scratch_same (bmem t) (bmem w)"
    "\<forall>x. list_all (clear (unat x) (unat x + 1)) phs \<longrightarrow> bmem w x = bmem t x" by (auto elim!: returnsE)
  have "list_all (clear (unat x) (unat x + 1)) phs" if "unat (p_paddr p) \<le> unat x \<and> unat x < unat (p_paddr p) + unat (p_memsz p)" for x :: u32
    using ok(4) that by (auto simp: list_all_iff clear_def)
  then have "in_place disk p (bmem w)" using w(4) by (intro in_place_keeps [OF t(3) ok(1)]) blast
  moreover have "scratch_same (bmem s) (bmem w)" using sc w(3) by (simp add: scratch_same_def)
  moreover have "load_segs (length (p # phs)) disk ph eph s = Inr w" using p lt t(1) w(1) by simp
  ultimately show ?case using w t(4) by simp
qed

section \<open>The loader\<close>

text \<open>The first page of the file as the loader sees it in its scratch space, and the headers in it.\<close>

definition scratch :: "(u32 \<Rightarrow> u8 list) \<Rightarrow> mem" where
  "scratch disk x = img disk (unat x - 0x10000)"

definition headers :: "(u32 \<Rightarrow> u8 list) \<Rightarrow> boot_seg list" where
  "headers disk = map (\<lambda>i. boot_seg_at (scratch disk) (0x10000 + load32 (scratch disk) 0x1001C + 32 * of_nat i)) [0..<phnum_at (scratch disk)]"

definition headers_fit :: "(u32 \<Rightarrow> u8 list) \<Rightarrow> bool" where
  "headers_fit disk \<longleftrightarrow> unat (load32 (scratch disk) 0x1001C) + 32 * phnum_at (scratch disk) \<le> 4096"

lemma phnum_scratch: "scratch_same m m' \<Longrightarrow> phnum_at m = phnum_at m'"
  by (simp add: scratch_same_def phnum_at_def)

text \<open>
  C10: the boot loader loads the kernel. Let the file at sector 1 start with an ELF header with the right magic
  number, with its program headers in the first page and segments that do not run into each other or into the
  page the headers are in, and let the disk become ready each time it is waited for. Then \<^verbatim>\<open>bootmain\<close> returns
  the entry point of the ELF header, and every segment is at its physical address: its bytes from the file
  first, zeros behind them, also after the segments that follow have been read by whole sectors.
\<close>

theorem bootmain_loads:
  assumes "sectors_ok disk" "load32 (scratch disk) 0x10000 = 0x464C457F" "headers_fit disk" "kernel_ok (headers disk)"
    and "ready (8 + all_sects (headers disk)) s"
  shows "returns (bootmain disk s) (\<lambda>(entry, t). entry = Some (load32 (scratch disk) 0x10018) \<and>
     (\<forall>ph \<in> set (headers disk). in_place disk ph (bmem t)))"
proof -
  let ?m = "scratch disk" and ?phs = "headers disk"
  define ph where "ph = 0x10000 + load32 ?m 0x1001C"
  have n8: "nsect 0 4096 = 8" by (simp add: nsect_def)
  have "ready 8 s" using assms(5) by (rule ready_le)
  then obtain t where t: "readseg disk 0x10000 4096 0 s = Inr t" "ready (all_sects ?phs) t" "copied_in disk 0x10000 0 4096 (bmem s) (bmem t)"
    using readseg_reads [of disk 0 4096 s "0x10000"] assms(1,5) n8 by (auto elim!: returnsE)
  have sc: "scratch_same ?m (bmem t)" using t(3) by (simp add: scratch_same_def scratch_def copied_in_def)
  have l: "load32 (bmem t) a = load32 ?m a" if "0x10000 \<le> unat a" "unat a + 4 \<le> 0x11000" for a
    using load32_scratch [OF sc that] by simp
  have n: "phnum_at (bmem t) = length ?phs" using phnum_scratch [OF sc] by (simp add: headers_def)
  have len: "length ?phs = phnum_at ?m" by (simp add: headers_def)
  have u: "unat ph = 0x10000 + unat (load32 ?m 0x1001C)" using assms(3) by (simp add: ph_def headers_fit_def unat_plus_if_size word_size)
  have hs: "\<forall>i < length ?phs. boot_seg_at (bmem t) (ph + 32 * of_nat i) = ?phs ! i"
  proof (intro allI impI)
    fix i assume i: "i < length ?phs"
    then have "unat (ph + 32 * of_nat i) = unat ph + 32 * i"
      using u assms(3) len by (simp add: headers_fit_def unat_plus_if_size word_size unat_word_ariths unat_of_nat32)
    then have "boot_seg_at ?m (ph + 32 * of_nat i) = boot_seg_at (bmem t) (ph + 32 * of_nat i)"
      using i u assms(3) len by (intro boot_seg_at_scratch [OF sc]) (simp_all add: headers_fit_def)
    then show "boot_seg_at (bmem t) (ph + 32 * of_nat i) = ?phs ! i" using i by (simp add: headers_def ph_def)
  qed
  have "returns (load_segs (length ?phs) disk ph (ph + 32 * of_nat (length ?phs)) t) (\<lambda>w. (\<forall>p \<in> set ?phs. in_place disk p (bmem w)) \<and>
     scratch_same (bmem t) (bmem w) \<and> (\<forall>x. list_all (clear (unat x) (unat x + 1)) ?phs \<longrightarrow> bmem w x = bmem t x))"
    by (rule load_segs_loads [OF assms(1) t(2) assms(4) _ _ hs refl]) (use u assms(3) len in \<open>simp_all add: headers_fit_def\<close>)
  then obtain w where w: "load_segs (length ?phs) disk ph (ph + 32 * of_nat (length ?phs)) t = Inr w" "\<forall>p \<in> set ?phs. in_place disk p (bmem w)"
    "scratch_same (bmem t) (bmem w)" by (auto elim!: returnsE)
  have "load32 (bmem w) 0x10018 = load32 ?m 0x10018" using load32_scratch [OF w(3), of "0x10018"] l [of "0x10018"] by simp
  then show ?thesis using w(1,2) t(1) l [of "0x10000"] l [of "0x1001C"] assms(2) n by (simp add: bootmain_def Let_def ph_def)
qed

definition demo_disk :: "u32 \<Rightarrow> u8 list" where
  "demo_disk i = (if i = 1 then
     [0x7F, 0x45, 0x4C, 0x46] @ replicate 20 0 @ [0x0C, 0, 0x10, 0, 52, 0, 0, 0] @ replicate 12 0 @ [1, 0] @ replicate 6 0 @
     [1, 0, 0, 0, 0, 0x10, 0, 0, 0, 0, 0x10, 0x80, 0, 0, 0x10, 0, 0x58, 2, 0, 0, 0xE8, 3, 0, 0] @ replicate 436 0
     else replicate 512 0xAA)"

theorem bootmain_loads_witness:
  "returns (bootmain demo_disk \<lparr>bmem = (\<lambda>_. 7), polls = replicate 20 0x40, bports = []\<rparr>) (\<lambda>(entry, t). entry = Some 0x10000C \<and>
     in_place demo_disk \<lparr>p_off = 0x1000, p_paddr = 0x100000, p_filesz = 600, p_memsz = 1000\<rparr> (bmem t))"
proof -
  let ?s = "\<lparr>bmem = (\<lambda>_. 7), polls = replicate 20 0x40, bports = []\<rparr>"
  note ev = load32_def scratch_def img_def demo_disk_def of_le32_def of_le16_def nth_append nth_Cons' phnum_at_def
  have p: "load32 (scratch demo_disk) 0x10000 = 0x464C457F" "load32 (scratch demo_disk) 0x1001C = 52" "phnum_at (scratch demo_disk) = 1"
    by (simp_all add: ev)
  have h: "headers demo_disk = [\<lparr>p_off = 0x1000, p_paddr = 0x100000, p_filesz = 600, p_memsz = 1000\<rparr>]"
    unfolding headers_def p by (simp add: boot_seg_at_def ev)
  have "sectors_ok demo_disk" by (simp add: sectors_ok_def demo_disk_def)
  moreover have "headers_fit demo_disk" using p by (simp add: headers_fit_def)
  moreover have "kernel_ok (headers demo_disk)" unfolding h by (simp add: kernel_ok_def seg_ok_def clear_def seg_lo_def seg_hi_def nsect_def)
  moreover have "ready (8 + all_sects (headers demo_disk)) ?s" unfolding h by (simp add: ready_def all_sects_def nsect_def)
  ultimately have "returns (bootmain demo_disk ?s) (\<lambda>(entry, t). entry = Some (load32 (scratch demo_disk) 0x10018) \<and>
     (\<forall>ph \<in> set (headers demo_disk). in_place demo_disk ph (bmem t)))" using p by (intro bootmain_loads)
  moreover have "load32 (scratch demo_disk) 0x10018 = 0x10000C" by (simp add: ev)
  ultimately show ?thesis unfolding h by (simp add: case_prod_beta)
qed

end
