(* ===== verification/Mp.thy ===== *)
theory Mp
  imports Sys_Lemmas Console_Lemmas
begin

text \<open>
  The search for the description of the machine that the firmware leaves in memory (\<^verbatim>\<open>mp.c\<close>, \<^verbatim>\<open>mp.h\<close>), on the
  kernel's state extended by what it fills in: the identifiers of the processors, the boot processor, the
  addresses of the interrupt controllers; and by the registers of these controllers, for the drivers in
  \<open>Devices\<close>. What the interrupt mode register reads is an argument.

  What is shown: on a table of known entries \<^verbatim>\<open>mpinit\<close> counts the processors and numbers them, or falls back to
  one processor if the identifiers are not those numbers; on a table with an unknown entry it never returns.
\<close>

record hw_st = sys_st +
  cpu_ids :: "u8 list"
  bcpu :: nat
  ismp :: bool
  ncpu :: nat
  ioapicid :: u8
  lapic :: u32
  outs :: "(u16 \<times> u8) list"
  irqmask :: u16
  ioregs :: "u32 \<Rightarrow> u32"
  lapic_out :: "(nat \<times> u32) list"

definition NCPU :: nat where "NCPU = 8"
definition MPBOOT :: u8 where "MPBOOT = 2"
definition MPPROC :: u8 where "MPPROC = 0"
definition MPBUS :: u8 where "MPBUS = 1"
definition MPIOAPIC :: u8 where "MPIOAPIC = 2"
definition MPIOINTR :: u8 where "MPIOINTR = 3"
definition MPLINTR :: u8 where "MPLINTR = 4"

definition outb :: "u16 \<Rightarrow> u32 \<Rightarrow> 'a hw_st_scheme \<Rightarrow> 'a hw_st_scheme" where
  "outb port v s = s\<lparr>outs := outs s @ [(port, ucast v)]\<rparr>"

definition mpbcpu :: "'a hw_st_scheme \<Rightarrow> nat" where
  "mpbcpu s = bcpu s"

section \<open>Finding the table\<close>

fun mp_sum :: "mem \<Rightarrow> u32 \<Rightarrow> nat \<Rightarrow> u8" where
  "mp_sum m addr 0 = 0"
| "mp_sum m addr (Suc len) = m addr + mp_sum m (addr + 1) len"

definition sig_at :: "mem \<Rightarrow> u32 \<Rightarrow> string \<Rightarrow> bool" where
  "sig_at m p sig \<longleftrightarrow> memcmp (\<lambda>i. m (p + of_nat i)) (\<lambda>i. bytes sig ! i) 4 = 0"

text \<open>The floating pointer structure has 16 bytes; \<open>n\<close> is the number of places left.\<close>

fun mpsearch1_loop :: "nat \<Rightarrow> mem \<Rightarrow> u32 \<Rightarrow> u32" where
  "mpsearch1_loop 0 m p = 0"
| "mpsearch1_loop (Suc n) m p = (if sig_at m p ''_MP_'' \<and> mp_sum m p 16 = 0 then p else mpsearch1_loop n m (p + 16))"

definition mpsearch1 :: "mem \<Rightarrow> u32 \<Rightarrow> nat \<Rightarrow> u32" where
  "mpsearch1 m a len = mpsearch1_loop ((len + 15) div 16) m (p2v a)"

definition mpsearch :: "mem \<Rightarrow> u32" where
  "mpsearch m =
     (let bda = p2v 0x400;
          p = push_bit 4 (push_bit 8 (ucast (m (bda + 0x0F))) OR ucast (m (bda + 0x0E)));
          q = (push_bit 8 (ucast (m (bda + 0x14))) OR ucast (m (bda + 0x13))) * 1024;
          mp = (if p \<noteq> 0 then mpsearch1 m p 1024 else mpsearch1 m (q - 1024) 1024)
      in if mp \<noteq> 0 then mp else mpsearch1 m 0xF0000 0x10000)"

definition conf_length :: "mem \<Rightarrow> u32 \<Rightarrow> nat" where
  "conf_length m conf = unat (of_le16 [m (conf + 4), m (conf + 5)])"

definition mpconfig :: "mem \<Rightarrow> (u32 \<times> u32) option" where
  "mpconfig m =
     (let mp = mpsearch m;
          physaddr = load32 m (mp + 4);
          conf = p2v physaddr
      in if mp = 0 \<or> physaddr = 0 then None
         else if \<not> sig_at m conf ''PCMP'' then None
         else if m (conf + 6) \<noteq> 1 \<and> m (conf + 6) \<noteq> 4 then None
         else if mp_sum m conf (conf_length m conf) \<noteq> 0 then None
         else Some (mp, conf))"

section \<open>Reading the table\<close>

text \<open>
  The entry of a processor has 20 bytes, the others have 8. The identifier of a processor is compared with
  the number of those seen before, and the array \<^verbatim>\<open>cpus\<close> has \<open>NCPU\<close> elements.
\<close>

fun mp_entries :: "nat \<Rightarrow> u32 \<Rightarrow> u32 \<Rightarrow> 'a hw_st_scheme \<Rightarrow> ('a hw_st_scheme, 'a hw_st_scheme) kres" where
  "mp_entries 0 p e s = Inl Diverge"
| "mp_entries (Suc fuel) p e s =
     (if p < e
      then if mem s p = MPPROC
           then kbind (if ncpu s \<noteq> unat (mem s (p + 1))
                       then kbind (cprintf (bytes ''mpinit: ncpu=%d apicid=%d'' @ [10]) [AInt (of_nat (ncpu s)), AInt (ucast (mem s (p + 1)))] s)
                              (\<lambda>s. Inr (s\<lparr>ismp := False\<rparr>))
                       else Inr s) (\<lambda>s.
                let s = (if mem s (p + 3) AND MPBOOT \<noteq> 0 then s\<lparr>bcpu := ncpu s\<rparr> else s)
                in if ncpu s < NCPU
                   then mp_entries fuel (p + 20) e (s\<lparr>cpu_ids := (cpu_ids s)[ncpu s := of_nat (ncpu s)], ncpu := ncpu s + 1\<rparr>)
                   else Inl (Fault ''mpinit: cpus''))
           else if mem s p = MPIOAPIC then mp_entries fuel (p + 8) e (s\<lparr>ioapicid := mem s (p + 1)\<rparr>)
           else if mem s p = MPBUS \<or> mem s p = MPIOINTR \<or> mem s p = MPLINTR then mp_entries fuel (p + 8) e s
           else kbind (cprintf (bytes ''mpinit: unknown config type %x'' @ [10]) [AInt (ucast (mem s p))] s) (\<lambda>s.
                mp_entries fuel p e (s\<lparr>ismp := False\<rparr>))
      else Inr s)"

text \<open>The table has fewer than \<open>2 ^ 16\<close> bytes, so that a loop that ends does so within \<open>2 ^ 13\<close> entries.\<close>

definition mpinit :: "u8 \<Rightarrow> 'a hw_st_scheme \<Rightarrow> ('a hw_st_scheme, 'a hw_st_scheme) kres" where
  "mpinit imcr s =
     (let s = s\<lparr>bcpu := 0\<rparr>
      in case mpconfig (mem s) of None \<Rightarrow> Inr s
         | Some (mp, conf) \<Rightarrow>
           let s = s\<lparr>ismp := True, lapic := load32 (mem s) (conf + 36)\<rparr>
           in kbind (mp_entries (2 ^ 13 + 1) (conf + 44) (conf + of_nat (conf_length (mem s) conf)) s) (\<lambda>s.
              if \<not> ismp s then Inr (s\<lparr>ncpu := 1, lapic := 0, ioapicid := 0\<rparr>)
              else if mem s (mp + 12) \<noteq> 0 then Inr (outb 0x23 (ucast imcr OR 1) (outb 0x22 0x70 s))
              else Inr s))"

section \<open>Tables\<close>

text \<open>What the loop looks at of an entry: of a processor's the identifier and the flags.\<close>

datatype mp_entry = ProcEntry u8 u8 | IoapicEntry u8 | OtherEntry

fun entry_size :: "mp_entry \<Rightarrow> nat" where
  "entry_size (ProcEntry a f) = 20"
| "entry_size _ = 8"

fun entry_at :: "mem \<Rightarrow> u32 \<Rightarrow> mp_entry \<Rightarrow> bool" where
  "entry_at m p (ProcEntry a f) \<longleftrightarrow> m p = MPPROC \<and> m (p + 1) = a \<and> m (p + 3) = f"
| "entry_at m p (IoapicEntry n) \<longleftrightarrow> m p = MPIOAPIC \<and> m (p + 1) = n"
| "entry_at m p OtherEntry \<longleftrightarrow> m p = MPBUS \<or> m p = MPIOINTR \<or> m p = MPLINTR"

fun table_at :: "mem \<Rightarrow> u32 \<Rightarrow> mp_entry list \<Rightarrow> bool" where
  "table_at m p [] \<longleftrightarrow> True"
| "table_at m p (x # xs) \<longleftrightarrow> entry_at m p x \<and> table_at m (p + of_nat (entry_size x)) xs"

definition table_size :: "mp_entry list \<Rightarrow> nat" where
  "table_size xs = sum_list (map entry_size xs)"

fun proc_ids :: "mp_entry list \<Rightarrow> u8 list" where
  "proc_ids [] = []"
| "proc_ids (ProcEntry a f # xs) = a # proc_ids xs"
| "proc_ids (_ # xs) = proc_ids xs"

text \<open>The effect of an entry, apart from messages.\<close>

fun note_entry :: "mp_entry \<Rightarrow> 'a hw_st_scheme \<Rightarrow> 'a hw_st_scheme" where
  "note_entry (ProcEntry a f) s = s\<lparr>ismp := ismp s \<and> ncpu s = unat a, bcpu := if f AND MPBOOT \<noteq> 0 then ncpu s else bcpu s,
     cpu_ids := (cpu_ids s)[ncpu s := of_nat (ncpu s)], ncpu := ncpu s + 1\<rparr>"
| "note_entry (IoapicEntry n) s = s\<lparr>ioapicid := n\<rparr>"
| "note_entry OtherEntry s = s"

lemma entry_size_le: "8 \<le> entry_size x" "entry_size x \<le> 20"
  by (cases x; simp)+

lemma table_size_simps [simp]: "table_size [] = 0" "table_size (x # xs) = entry_size x + table_size xs"
  by (simp_all add: table_size_def)

lemma table_length: "8 * length xs \<le> table_size xs"
proof (induction xs)
  case (Cons x xs)
  then show ?case using entry_size_le(1) [of x] by simp
qed simp

lemma type_codes [simp]:
  "MPPROC \<noteq> MPIOAPIC" "MPPROC \<noteq> MPBUS" "MPPROC \<noteq> MPIOINTR" "MPPROC \<noteq> MPLINTR" "MPIOAPIC \<noteq> MPPROC" "MPIOAPIC \<noteq> MPBUS"
  "MPIOAPIC \<noteq> MPIOINTR" "MPIOAPIC \<noteq> MPLINTR" "MPBUS \<noteq> MPPROC" "MPIOINTR \<noteq> MPPROC" "MPLINTR \<noteq> MPPROC"
  "MPBUS \<noteq> MPIOAPIC" "MPIOINTR \<noteq> MPIOAPIC" "MPLINTR \<noteq> MPIOAPIC"
  by (simp_all add: MPPROC_def MPBUS_def MPIOAPIC_def MPIOINTR_def MPLINTR_def)

text \<open>Messages change none of the fields that entries change.\<close>

definition screen_ok :: "'a cons_st_scheme \<Rightarrow> bool" where
  "screen_ok s \<longleftrightarrow> lockset [] s \<and> crt_ok s \<and> \<not> panicked s"

lemma prints_hw_fields:
  assumes "prints L s (t :: 'a hw_st_scheme)"
  shows "ismp t = ismp s" "bcpu t = bcpu s" "cpu_ids t = cpu_ids s" "ncpu t = ncpu s" "ioapicid t = ioapicid s" "lapic t = lapic s"
    "mem t = mem s" "panicked t = panicked s" "outs t = outs s"
  using assms by (cases s; cases t; simp add: prints_def screen_rest_def)+

lemma prints_hw_upd:
  assumes "prints L s (t :: 'a hw_st_scheme)"
  shows "prints L (s\<lparr>ismp := a, bcpu := b, cpu_ids := c, ncpu := d\<rparr>) (t\<lparr>ismp := a, bcpu := b, cpu_ids := c, ncpu := d\<rparr>)"
    "prints L (s\<lparr>ioapicid := i\<rparr>) (t\<lparr>ioapicid := i\<rparr>)" "prints L (s\<lparr>ismp := a\<rparr>) (t\<lparr>ismp := a\<rparr>)"
    "prints L (s\<lparr>ncpu := d, lapic := l, ioapicid := i\<rparr>) (t\<lparr>ncpu := d, lapic := l, ioapicid := i\<rparr>)"
    "prints L (s\<lparr>outs := os\<rparr>) (t\<lparr>outs := os\<rparr>)"
  using assms by (cases s; cases t; simp add: prints_def screen_rest_def crt_ok_def lockset_def)+

lemma screen_ok_upd [simp]:
  fixes s :: "'a hw_st_scheme"
  shows "screen_ok (s\<lparr>ismp := a, bcpu := b, cpu_ids := c, ncpu := d\<rparr>) = screen_ok s" "screen_ok (s\<lparr>ioapicid := i\<rparr>) = screen_ok s"
    "screen_ok (s\<lparr>ismp := a\<rparr>) = screen_ok s" "screen_ok (s\<lparr>bcpu := b\<rparr>) = screen_ok s" "screen_ok (s\<lparr>lapic := l\<rparr>) = screen_ok s"
  by (simp_all add: screen_ok_def crt_ok_def lockset_def)

lemma note_entry_keeps [simp]: "screen_ok (note_entry x s) = screen_ok s" "mem (note_entry x s) = mem s" "lapic (note_entry x s) = lapic s" "outs (note_entry x s) = outs s"
  by (cases x; simp)+

lemma screen_ok_prints: "prints [] s t \<Longrightarrow> screen_ok s \<Longrightarrow> screen_ok t"
  using screen_rest_fields(5) [of s t] by (auto simp: screen_ok_def prints_def)

lemma note_entry_prints:
  assumes "prints [] s t"
  shows "prints [] (note_entry x s) (note_entry x t)"
proof (cases x)
  case (ProcEntry a f)
  show ?thesis unfolding ProcEntry note_entry.simps prints_hw_fields [OF assms] by (rule prints_hw_upd(1) [OF assms])
qed (use assms prints_hw_upd [OF assms] in simp_all)

lemma notes_prints: "prints [] s t \<Longrightarrow> prints [] (fold note_entry xs s) (fold note_entry xs t)"
  by (induction xs arbitrary: s t) (simp_all add: note_entry_prints)

lemma message_ok:
  assumes "screen_ok s"
  shows "returns (cprintf (bytes ''mpinit: ncpu=%d apicid=%d'' @ [10]) [AInt a, AInt b] s) (prints [] s)"
    "returns (cprintf (bytes ''mpinit: unknown config type %x'' @ [10]) [AInt a] s) (prints [] s)"
  using assms by (auto intro!: cprintf_ok simp: screen_ok_def bytes_def)

lemma step_below:
  assumes "unat p + n < 2 ^ 32"
  shows "unat (p + of_nat n :: u32) = unat p + n"
  using assms by (simp add: unat_plus_if_size word_size unat_of_nat32)

text \<open>One round of the loop on a known entry.\<close>

lemma entry_step:
  assumes "screen_ok s" "entry_at (mem s) p x" "p < e" "ncpu s + length (proc_ids [x]) \<le> NCPU"
  shows "\<exists>t. prints [] (note_entry x s) t \<and> (\<forall>fuel. mp_entries (Suc fuel) p e s = mp_entries fuel (p + of_nat (entry_size x)) e t)"
proof (cases x)
  case (ProcEntry a f)
  then have m: "mem s p = MPPROC" "mem s (p + 1) = a" "mem s (p + 3) = f" "ncpu s < NCPU" using assms(2,4) by simp_all
  show ?thesis
  proof (cases "ncpu s = unat a")
    case True
    have "prints [] (note_entry x s) (note_entry x s)" using assms(1) screen_ok_prints by (auto simp: prints_def screen_ok_def crt_ok_def ProcEntry lockset_def)
    then show ?thesis using True m assms(3) ProcEntry by (intro exI [of _ "note_entry x s"]) (auto simp: Let_def)
  next
    case False
    obtain t where t: "cprintf (bytes ''mpinit: ncpu=%d apicid=%d'' @ [10]) [AInt (of_nat (ncpu s)), AInt (ucast a)] s = Inr t" "prints [] s t"
      using message_ok(1) [OF assms(1)] by (auto elim!: returnsE)
    note f = prints_hw_fields [OF t(2)]
    have "mp_entries (Suc fuel) p e s = mp_entries fuel (p + of_nat (entry_size x)) e (note_entry x t)" for fuel
      using False m assms(3) ProcEntry t(1) f(3,4,7) by (cases t) (auto simp: Let_def)
    then show ?thesis using note_entry_prints [OF t(2)] by blast
  qed
next
  case (IoapicEntry n)
  then show ?thesis using assms(1-3) by (intro exI [of _ "note_entry x s"]) (auto simp: prints_def screen_ok_def crt_ok_def lockset_def)
next
  case OtherEntry
  then show ?thesis using assms(1-3) by (intro exI [of _ s]) (auto simp: prints_def screen_ok_def)
qed

lemma proc_ids_Cons: "length (proc_ids (x # xs)) = length (proc_ids [x]) + length (proc_ids xs)"
  by (cases x) simp_all

lemma note_entry_ncpu: "ncpu (note_entry x s) = ncpu s + length (proc_ids [x])"
  by (cases x) simp_all

lemma mp_entries_known:
  assumes "screen_ok s" "table_at (mem s) p xs" "unat p + table_size xs \<le> unat e" "ncpu s + length (proc_ids xs) \<le> NCPU"
  shows "\<exists>t. prints [] (fold note_entry xs s) t \<and> (\<forall>fuel. mp_entries (length xs + fuel) p e s = mp_entries fuel (p + of_nat (table_size xs)) e t)"
  using assms
proof (induction xs arbitrary: p s)
  case Nil
  then show ?case by (auto simp: prints_def screen_ok_def)
next
  case (Cons x xs)
  let ?q = "p + of_nat (entry_size x)"
  have lt: "p < e" using Cons.prems(3) entry_size_le(1) [of x] by (simp add: word_less_nat_alt)
  obtain t where t: "prints [] (note_entry x s) t" "\<forall>fuel. mp_entries (Suc fuel) p e s = mp_entries fuel ?q e t"
    using entry_step [OF Cons.prems(1) _ lt, of x] Cons.prems(2,4) by (auto simp: proc_ids_Cons [of x xs])
  note f = prints_hw_fields [OF t(1)]
  have q: "unat ?q = unat p + entry_size x" using Cons.prems(3) unat_u32_less [of e] by (intro step_below) simp
  obtain u where u: "prints [] (fold note_entry xs t) u" "\<forall>fuel. mp_entries (length xs + fuel) ?q e t = mp_entries fuel (?q + of_nat (table_size xs)) e u"
    using Cons.IH [of t ?q] screen_ok_prints [OF t(1)] Cons.prems q f proc_ids_Cons [of x xs] note_entry_ncpu [of x s] by auto
  have "prints [] (fold note_entry (x # xs) s) u" using notes_prints [OF t(1), of xs] u(1) prints_trans by fastforce
  moreover have "mp_entries (length (x # xs) + fuel) p e s = mp_entries fuel (p + of_nat (table_size (x # xs))) e u" for fuel
    using t(2) u(2) by (simp add: algebra_simps)
  ultimately show ?case by blast
qed

section \<open>The machine found\<close>

text \<open>The boot processor is the last one with the flag; the controller is the last one listed.\<close>

fun boot_proc :: "nat \<Rightarrow> nat \<Rightarrow> mp_entry list \<Rightarrow> nat" where
  "boot_proc k b [] = b"
| "boot_proc k b (ProcEntry a f # xs) = boot_proc (k + 1) (if f AND MPBOOT \<noteq> 0 then k else b) xs"
| "boot_proc k b (_ # xs) = boot_proc k b xs"

fun ioapic_no :: "u8 \<Rightarrow> mp_entry list \<Rightarrow> u8" where
  "ioapic_no i [] = i"
| "ioapic_no i (IoapicEntry n # xs) = ioapic_no n xs"
| "ioapic_no i (_ # xs) = ioapic_no i xs"

lemma notes_fields:
  "ncpu (fold note_entry xs s) = ncpu s + length (proc_ids xs)"
  "ismp (fold note_entry xs s) \<longleftrightarrow> ismp s \<and> map unat (proc_ids xs) = [ncpu s..<ncpu s + length (proc_ids xs)]"
  "bcpu (fold note_entry xs s) = boot_proc (ncpu s) (bcpu s) xs"
  "ioapicid (fold note_entry xs s) = ioapic_no (ioapicid s) xs"
  "mem (fold note_entry xs s) = mem s" "lapic (fold note_entry xs s) = lapic s" "outs (fold note_entry xs s) = outs s"
proof (induction xs arbitrary: s)
  case (Cons x xs)
  { case 1 show ?case using Cons(1) by (cases x) auto }
  { case 2 show ?case using Cons(2) by (cases x) (auto simp: upt_conv_Cons simp del: upt_Suc) }
  { case 3 show ?case using Cons(3) by (cases x) auto }
  { case 4 show ?case using Cons(4) by (cases x) auto }
  { case 5 show ?case using Cons(5) by simp }
  { case 6 show ?case using Cons(6) by simp }
  { case 7 show ?case using Cons(7) by simp }
qed simp_all

lemma notes_ids:
  assumes "ncpu s + length (proc_ids xs) \<le> length (cpu_ids s)" "i < length (cpu_ids s)"
  shows "cpu_ids (fold note_entry xs s) ! i = (if ncpu s \<le> i \<and> i < ncpu s + length (proc_ids xs) then of_nat i else cpu_ids s ! i)"
  using assms
proof (induction xs arbitrary: s)
  case (Cons x xs)
  then show ?case by (cases x) (auto simp: nth_list_update)
qed auto

definition has_table :: "u32 \<Rightarrow> mp_entry list \<Rightarrow> mem \<Rightarrow> bool" where
  "has_table conf xs m \<longleftrightarrow> table_at m (conf + 44) xs \<and> unat conf + conf_length m conf < 2 ^ 32 \<and> conf_length m conf < 2 ^ 16"

lemma mpinit_run:
  assumes "mpconfig (mem s) = Some (mp, conf)" "has_table conf xs (mem s)" "44 + table_size xs \<le> conf_length (mem s) conf"
    and "screen_ok s" "ncpu s + length (proc_ids xs) \<le> NCPU"
  defines "s1 \<equiv> s\<lparr>bcpu := 0, ismp := True, lapic := load32 (mem s) (conf + 36)\<rparr>" and "e \<equiv> conf + of_nat (conf_length (mem s) conf)"
  obtains t where "prints [] (fold note_entry xs s1) t" "screen_ok t" "mem t = mem s"
    "mp_entries (2 ^ 13 + 1) (conf + 44) e s1 = mp_entries (2 ^ 13 + 1 - length xs) (conf + 44 + of_nat (table_size xs)) e t"
proof -
  have s1: "mem s1 = mem s" "screen_ok s1" "ncpu s1 = ncpu s" using assms(4) by (simp_all add: s1_def screen_ok_def crt_ok_def lockset_def)
  have l: "unat conf + conf_length (mem s) conf < 2 ^ 32" "conf_length (mem s) conf < 2 ^ 16" "table_at (mem s) (conf + 44) xs"
    using assms(2) by (simp_all add: has_table_def)
  have e: "unat e = unat conf + conf_length (mem s) conf" unfolding e_def by (rule step_below [OF l(1)])
  have c: "unat (conf + 44) = unat conf + 44" using step_below [of conf 44] l(1) assms(3) by simp
  have "length xs \<le> 2 ^ 13" using table_length [of xs] assms(3) l(2) by simp
  then have f: "length xs + (2 ^ 13 + 1 - length xs) = 2 ^ 13 + 1" by simp
  obtain t where t: "prints [] (fold note_entry xs s1) t"
    "mp_entries (length xs + (2 ^ 13 + 1 - length xs)) (conf + 44) e s1 = mp_entries (2 ^ 13 + 1 - length xs) (conf + 44 + of_nat (table_size xs)) e t"
    using mp_entries_known [of s1 "conf + 44" xs e] s1 l(3) assms(3,5) e c by auto
  have "screen_ok (fold note_entry xs s1)" using s1(2) by (induction xs arbitrary: s1) simp_all
  then show ?thesis using that t f screen_ok_prints [OF t(1)] prints_hw_fields(7) [OF t(1)] notes_fields(5) [of xs s1] s1(1) by simp
qed

text \<open>
  C22: \<^verbatim>\<open>mpinit\<close> finds the processors. Suppose the firmware's table passes the checks of \<^verbatim>\<open>mpconfig\<close> and lists,
  after its header and up to its end, known entries with at most \<open>NCPU\<close> processors. If their identifiers count up
  from 0, the machine is a multiprocessor with that many processors, numbered so, the boot processor is the one
  with the flag, and the addresses of the local and of the other interrupt controller are those of the table.
  Otherwise the machine is taken to have one processor and no such controllers.
\<close>

theorem mpinit_counts_processors:
  assumes "mpconfig (mem s) = Some (mp, conf)" "has_table conf xs (mem s)" "conf_length (mem s) conf = 44 + table_size xs"
    and "length (proc_ids xs) \<le> NCPU" "screen_ok s" "ncpu s = 0" "length (cpu_ids s) = NCPU"
  shows "returns (mpinit imcr s) (\<lambda>t. mem t = mem s \<and> (\<forall>i < length (proc_ids xs). cpu_ids t ! i = of_nat i) \<and> mpbcpu t = boot_proc 0 0 xs \<and>
     (if map unat (proc_ids xs) = [0..<length (proc_ids xs)]
      then ismp t \<and> ncpu t = length (proc_ids xs) \<and> lapic t = load32 (mem s) (conf + 36) \<and> ioapicid t = ioapic_no (ioapicid s) xs
      else \<not> ismp t \<and> ncpu t = 1 \<and> lapic t = 0 \<and> ioapicid t = 0))"
proof -
  define s1 where "s1 = s\<lparr>bcpu := 0, ismp := True, lapic := load32 (mem s) (conf + 36)\<rparr>"
  define e where "e = conf + of_nat (conf_length (mem s) conf)"
  obtain t where t: "prints [] (fold note_entry xs s1) t" "mem t = mem s"
    "mp_entries (2 ^ 13 + 1) (conf + 44) e s1 = mp_entries (2 ^ 13 + 1 - length xs) (conf + 44 + of_nat (table_size xs)) e t"
    using mpinit_run [OF assms(1,2)] assms(3-6) unfolding s1_def e_def by auto
  note f = prints_hw_fields [OF t(1)]
  have i: "\<forall>i < length (proc_ids xs). cpu_ids t ! i = of_nat i"
    using notes_ids [of s1 xs] assms(4,6,7) f(3) by (simp add: s1_def)
  have "conf + 44 + of_nat (table_size xs) = e" using assms(3) by (simp add: e_def algebra_simps)
  moreover have "length xs \<le> 2 ^ 13" using table_length [of xs] assms(2,3) by (simp add: has_table_def)
  then obtain k where "2 ^ 13 + 1 - length xs = Suc k" by (metis Suc_diff_le Suc_eq_plus1)
  ultimately have run: "mp_entries (2 ^ 13 + 1) (conf + 44) e s1 = Inr t" using t(3) by simp
  have m: "mpinit imcr s = (if \<not> ismp t then Inr (t\<lparr>ncpu := 1, lapic := 0, ioapicid := 0\<rparr>)
      else if mem t (mp + 12) \<noteq> 0 then Inr (outb 0x23 (ucast imcr OR 1) (outb 0x22 0x70 t)) else Inr t)"
    using assms(1) run by (simp add: mpinit_def Let_def s1_def e_def)
  show ?thesis unfolding m mpbcpu_def
    using f t(2) i notes_fields [of xs s1] assms(6) by (auto simp: s1_def outb_def)
qed

text \<open>
  C40: an unknown entry hangs \<^verbatim>\<open>mpinit\<close>. If known entries are followed, before the end of the table, by an entry
  of another type, the loop reports it again and again: the \<^verbatim>\<open>default\<close> case does not move the pointer.
\<close>

theorem mpinit_unknown_entry_hangs:
  assumes "mpconfig (mem s) = Some (mp, conf)" "has_table conf xs (mem s)" "44 + table_size xs < conf_length (mem s) conf"
    and "4 < mem s (conf + 44 + of_nat (table_size xs))" "ncpu s + length (proc_ids xs) \<le> NCPU" "screen_ok s"
  shows "mpinit imcr s = Inl Diverge"
proof -
  define s1 where "s1 = s\<lparr>bcpu := 0, ismp := True, lapic := load32 (mem s) (conf + 36)\<rparr>"
  define e where "e = conf + of_nat (conf_length (mem s) conf)"
  define p where "p = conf + 44 + of_nat (table_size xs)"
  obtain t where t: "screen_ok t" "mem t = mem s" "mp_entries (2 ^ 13 + 1) (conf + 44) e s1 = mp_entries (2 ^ 13 + 1 - length xs) p e t"
    using mpinit_run [OF assms(1,2)] assms(3,5,6) unfolding s1_def e_def p_def by auto
  have loop: "mp_entries fuel p e u = Inl Diverge" if "screen_ok u" "4 < mem u p" for fuel u
    using that
  proof (induction fuel arbitrary: u)
    case (Suc fuel)
    obtain w where w: "cprintf (bytes ''mpinit: unknown config type %x'' @ [10]) [AInt (ucast (mem u p))] u = Inr w" "prints [] u w"
      using message_ok(2) [OF Suc.prems(1)] by (auto elim!: returnsE)
    have k: "mem u p \<noteq> MPPROC" "mem u p \<noteq> MPIOAPIC" "mem u p \<noteq> MPBUS" "mem u p \<noteq> MPIOINTR" "mem u p \<noteq> MPLINTR"
      using Suc.prems(2) by (auto simp: MPPROC_def MPBUS_def MPIOAPIC_def MPIOINTR_def MPLINTR_def)
    have "unat e = unat conf + conf_length (mem s) conf" "unat p = unat conf + 44 + table_size xs"
      using assms(2,3) step_below [of conf "conf_length (mem s) conf"] step_below [of conf "44 + table_size xs"]
      by (simp_all add: has_table_def e_def p_def add.assoc)
    then have "p < e" using assms(3) by (simp add: word_less_nat_alt)
    moreover have "mp_entries fuel p e (w\<lparr>ismp := False\<rparr>) = Inl Diverge"
      using Suc.IH [of "w\<lparr>ismp := False\<rparr>"] screen_ok_prints [OF w(2) Suc.prems(1)] prints_hw_fields(7) [OF w(2)] Suc.prems(2) by simp
    ultimately show ?case using k w(1) by simp
  qed simp
  have "mp_entries (2 ^ 13 + 1) (conf + 44) e s1 = Inl Diverge" unfolding t(3) by (rule loop [OF t(1)]) (use t(2) assms(4) p_def in simp)
  then show ?thesis using assms(1) by (simp add: mpinit_def Let_def s1_def e_def)
qed

text \<open>A table with two processors, the second the one that booted, a bus and a controller; or with the bus of an unknown type.\<close>

definition mp_demo :: "u8 \<Rightarrow> u8 \<Rightarrow> mem" where
  "mp_demo bus c x =
     (let bs = bytes ''_MP_'' @ [0x10, 0xFC, 0x09, 0, 1, 4, 0x8B, 0, 0, 0, 0, 0] @
        bytes ''PCMP'' @ [100, 0, 4, c] @ replicate 28 0 @ [0, 0, 0xE0, 0xFE, 0, 0, 0, 0] @
        ([0, 0] @ replicate 18 0) @ ([0, 1, 0, 3] @ replicate 16 0) @ (bus # replicate 7 0) @ ([2, 9] @ replicate 6 0)
      in if 0x8009FC00 \<le> x \<and> x < 0x8009FC74 then bs ! unat (x - 0x8009FC00)
         else if x = 0x8000040E then 0xC0 else if x = 0x8000040F then 0x9F else 0)"

definition hw0 :: "mem \<Rightarrow> hw_st" where
  "hw0 m = sys_st.extend ((st7 [])\<lparr>mem := m\<rparr>) (hw_st.fields (replicate NCPU 0) 0 False 0 0 0 [] 0xFFFB (\<lambda>_. 0) [])"

lemma hw0_facts: "mem (hw0 m) = m" "screen_ok (hw0 m)" "ncpu (hw0 m) = 0" "length (cpu_ids (hw0 m)) = NCPU"
  by (simp_all add: hw0_def sys_st.defs hw_st.defs st7_def screen_ok_def crt_ok_def lockset_def)

theorem mpinit_counts_processors_witness:
  "returns (mpinit 0 (hw0 (mp_demo 1 0x7A))) (\<lambda>t. ismp t \<and> ncpu t = 2 \<and> mpbcpu t = 1 \<and> lapic t = 0xFEE00000 \<and> ioapicid t = 9)"
proof -
  let ?xs = "[ProcEntry 0 0, ProcEntry 1 3, OtherEntry, IoapicEntry 9]" and ?s = "hw0 (mp_demo 1 0x7A)"
  have "mpconfig (mem ?s) = Some (0x8009FC00, 0x8009FC10)" unfolding hw0_facts by code_simp
  moreover have l: "conf_length (mem ?s) 0x8009FC10 = 100" unfolding hw0_facts by code_simp
  moreover have "table_at (mem ?s) (0x8009FC10 + 44) ?xs" unfolding hw0_facts by code_simp
  with l have "has_table 0x8009FC10 ?xs (mem ?s)" by (simp add: has_table_def)
  moreover have "conf_length (mem ?s) 0x8009FC10 = 44 + table_size ?xs" using l by simp
  moreover have "length (proc_ids ?xs) \<le> NCPU" by code_simp
  ultimately have "returns (mpinit 0 ?s) (\<lambda>t. mem t = mem ?s \<and> (\<forall>i < length (proc_ids ?xs). cpu_ids t ! i = of_nat i) \<and> mpbcpu t = boot_proc 0 0 ?xs \<and>
     (if map unat (proc_ids ?xs) = [0..<length (proc_ids ?xs)]
      then ismp t \<and> ncpu t = length (proc_ids ?xs) \<and> lapic t = load32 (mem ?s) (0x8009FC10 + 36) \<and> ioapicid t = ioapic_no (ioapicid ?s) ?xs
      else \<not> ismp t \<and> ncpu t = 1 \<and> lapic t = 0 \<and> ioapicid t = 0))"
    by (intro mpinit_counts_processors) (simp_all add: hw0_facts)
  moreover have "load32 (mem ?s) (0x8009FC10 + 36) = 0xFEE00000" unfolding hw0_facts by code_simp
  ultimately show ?thesis by (auto elim!: returns_mono simp: MPBOOT_def)
qed

theorem mpinit_unknown_entry_hangs_witness: "mpinit 0 (hw0 (mp_demo 7 0x74)) = Inl Diverge"
proof -
  let ?xs = "[ProcEntry 0 0, ProcEntry 1 3]" and ?s = "hw0 (mp_demo 7 0x74)"
  have "mpconfig (mem ?s) = Some (0x8009FC00, 0x8009FC10)" unfolding hw0_facts by code_simp
  moreover have l: "conf_length (mem ?s) 0x8009FC10 = 100" unfolding hw0_facts by code_simp
  moreover have "table_at (mem ?s) (0x8009FC10 + 44) ?xs" unfolding hw0_facts by code_simp
  with l have "has_table 0x8009FC10 ?xs (mem ?s)" by (simp add: has_table_def)
  moreover have "44 + table_size ?xs < conf_length (mem ?s) 0x8009FC10" using l by simp
  moreover have "4 < mem ?s (0x8009FC10 + 44 + of_nat (table_size ?xs))" unfolding hw0_facts by code_simp
  moreover have "ncpu ?s + length (proc_ids ?xs) \<le> NCPU" by (simp add: hw0_facts NCPU_def)
  ultimately show ?thesis using hw0_facts(2) by (intro mpinit_unknown_entry_hangs [where xs = ?xs])
qed

end
