(* ===== verification/Devices.thy ===== *)
theory Devices
  imports Mp
begin

text \<open>
  The interrupt controllers, the timer and the segment descriptors: \<^verbatim>\<open>picirq.c\<close>, \<^verbatim>\<open>timer.c\<close>, \<^verbatim>\<open>ioapic.c\<close>,
  \<^verbatim>\<open>lapic.c\<close>, \<^verbatim>\<open>seginit\<close> of \<^verbatim>\<open>vm.c\<close> with the descriptors of \<^verbatim>\<open>mmu.h\<close>, and the parts of \<^verbatim>\<open>consoleinit\<close>,
  \<^verbatim>\<open>uartinit\<close> and \<^verbatim>\<open>ideinit\<close> that set up ports and interrupts. Writes to ports and to the local controller are
  recorded in order; the other controller is the array of its registers; what registers read is an argument.
\<close>

record segdesc =
  lim_15_0 :: u32
  base_15_0 :: u32
  base_23_16 :: u32
  sd_type :: u32
  sd_s :: u32
  sd_dpl :: u32
  sd_p :: u32
  lim_19_16 :: u32
  sd_avl :: u32
  sd_rsv1 :: u32
  sd_db :: u32
  sd_g :: u32
  base_31_24 :: u32

record dev_st = hw_st +
  gdts :: "segdesc list list"
  started :: "bool list"
  warned :: nat

section \<open>The old controllers and the timer\<close>

definition IO_PIC1 :: u16 where "IO_PIC1 = 0x20"
definition IO_PIC2 :: u16 where "IO_PIC2 = 0xA0"
definition IRQ_SLAVE :: nat where "IRQ_SLAVE = 2"

definition picsetmask :: "u16 \<Rightarrow> 'a hw_st_scheme \<Rightarrow> 'a hw_st_scheme" where
  "picsetmask msk s = outb (IO_PIC2 + 1) (ucast (drop_bit 8 msk)) (outb (IO_PIC1 + 1) (ucast msk) (s\<lparr>irqmask := msk\<rparr>))"

definition picenable :: "u32 \<Rightarrow> 'a hw_st_scheme \<Rightarrow> 'a hw_st_scheme" where
  "picenable irq s = picsetmask (irqmask s AND NOT (push_bit (unat irq) 1)) s"

definition picinit :: "'a hw_st_scheme \<Rightarrow> 'a hw_st_scheme" where
  "picinit s =
     (let s = outb (IO_PIC1 + 1) 0xFF s;
          s = outb (IO_PIC2 + 1) 0xFF s;
          s = outb IO_PIC1 0x11 s;
          s = outb (IO_PIC1 + 1) T_IRQ0 s;
          s = outb (IO_PIC1 + 1) (push_bit IRQ_SLAVE 1) s;
          s = outb (IO_PIC1 + 1) 0x3 s;
          s = outb IO_PIC2 0x11 s;
          s = outb (IO_PIC2 + 1) (T_IRQ0 + 8) s;
          s = outb (IO_PIC2 + 1) (of_nat IRQ_SLAVE) s;
          s = outb (IO_PIC2 + 1) 0x3 s;
          s = outb IO_PIC1 0x68 s;
          s = outb IO_PIC1 0x0A s;
          s = outb IO_PIC2 0x68 s;
          s = outb IO_PIC2 0x0A s
      in if irqmask s \<noteq> 0xFFFF then picsetmask (irqmask s) s else s)"

definition IO_TIMER1 :: u16 where "IO_TIMER1 = 0x40"
definition TIMER_FREQ :: u32 where "TIMER_FREQ = 1193182"
definition TIMER_DIV :: "u32 \<Rightarrow> u32" where "TIMER_DIV x = (TIMER_FREQ + x div 2) div x"
definition TIMER_MODE :: u16 where "TIMER_MODE = IO_TIMER1 + 3"
definition TIMER_SEL0 :: u32 where "TIMER_SEL0 = 0"
definition TIMER_RATEGEN :: u32 where "TIMER_RATEGEN = 4"
definition TIMER_16BIT :: u32 where "TIMER_16BIT = 0x30"

definition timerinit :: "'a hw_st_scheme \<Rightarrow> 'a hw_st_scheme" where
  "timerinit s =
     (let s = outb TIMER_MODE (TIMER_SEL0 OR TIMER_RATEGEN OR TIMER_16BIT) s;
          s = outb IO_TIMER1 (TIMER_DIV 100 mod 256) s;
          s = outb IO_TIMER1 (TIMER_DIV 100 div 256) s
      in picenable IRQ_TIMER s)"

section \<open>The input-output controller\<close>

definition REG_ID :: u32 where "REG_ID = 0"
definition REG_VER :: u32 where "REG_VER = 1"
definition REG_TABLE :: u32 where "REG_TABLE = 0x10"
definition INT_DISABLED :: u32 where "INT_DISABLED = 0x10000"

definition ioapicread :: "u32 \<Rightarrow> 'a hw_st_scheme \<Rightarrow> u32" where
  "ioapicread reg s = ioregs s reg"

definition ioapicwrite :: "u32 \<Rightarrow> u32 \<Rightarrow> 'a hw_st_scheme \<Rightarrow> 'a hw_st_scheme" where
  "ioapicwrite reg v s = s\<lparr>ioregs := (ioregs s)(reg := v)\<rparr>"

fun ioapic_mask :: "nat list \<Rightarrow> 'a hw_st_scheme \<Rightarrow> 'a hw_st_scheme" where
  "ioapic_mask [] s = s"
| "ioapic_mask (i # is) s =
     (let s = ioapicwrite (REG_TABLE + 2 * of_nat i) (INT_DISABLED OR (T_IRQ0 + of_nat i)) s;
          s = ioapicwrite (REG_TABLE + 2 * of_nat i + 1) 0 s
      in ioapic_mask is s)"

definition ioapicinit :: "'a hw_st_scheme \<Rightarrow> ('a hw_st_scheme, 'a hw_st_scheme) kres" where
  "ioapicinit s =
     (if \<not> ismp s then Inr s
      else let maxintr = unat (drop_bit 16 (ioapicread REG_VER s) AND 0xFF);
               id = drop_bit 24 (ioapicread REG_ID s)
           in kbind (if id \<noteq> ucast (ioapicid s)
                     then cprintf (bytes ''ioapicinit: id isn't equal to ioapicid; not a MP'' @ [10]) [] s else Inr s) (\<lambda>s.
              Inr (ioapic_mask [0..<maxintr + 1] s)))"

definition ioapicenable :: "u32 \<Rightarrow> u32 \<Rightarrow> 'a hw_st_scheme \<Rightarrow> 'a hw_st_scheme" where
  "ioapicenable irq cpunum s =
     (if \<not> ismp s then s
      else ioapicwrite (REG_TABLE + 2 * irq + 1) (push_bit 24 cpunum) (ioapicwrite (REG_TABLE + 2 * irq) (T_IRQ0 + irq) s))"

section \<open>The local controller\<close>

definition TPR :: nat where "TPR = 0x20"
definition EOI :: nat where "EOI = 0x2C"
definition SVR :: nat where "SVR = 0x3C"
definition ESR :: nat where "ESR = 0xA0"
definition ICRLO :: nat where "ICRLO = 0xC0"
definition ICRHI :: nat where "ICRHI = 0xC4"
definition TIMER :: nat where "TIMER = 0xC8"
definition PCINT :: nat where "PCINT = 0xD0"
definition LINT0 :: nat where "LINT0 = 0xD4"
definition LINT1 :: nat where "LINT1 = 0xD8"
definition LERROR :: nat where "LERROR = 0xDC"
definition TICR :: nat where "TICR = 0xE0"
definition TDCR :: nat where "TDCR = 0xF8"
definition ENABLE :: u32 where "ENABLE = 0x100"
definition INIT :: u32 where "INIT = 0x500"
definition STARTUP :: u32 where "STARTUP = 0x600"
definition DELIVS :: u32 where "DELIVS = 0x1000"
definition ASSERT :: u32 where "ASSERT = 0x4000"
definition LEVEL :: u32 where "LEVEL = 0x8000"
definition BCAST :: u32 where "BCAST = 0x80000"
definition X1 :: u32 where "X1 = 0xB"
definition PERIODIC :: u32 where "PERIODIC = 0x20000"
definition MASKED :: u32 where "MASKED = 0x10000"
definition IRQ_ERROR :: u32 where "IRQ_ERROR = 19"

text \<open>What \<^verbatim>\<open>lapic[VER]\<close>, \<^verbatim>\<open>lapic[ID]\<close> and, time after time, \<^verbatim>\<open>lapic[ICRLO]\<close> read.\<close>

record lapic_regs =
  reg_ver :: u32
  reg_id :: u32
  reg_icrlo :: "u32 list"

definition lapicw :: "nat \<Rightarrow> u32 \<Rightarrow> 'a hw_st_scheme \<Rightarrow> 'a hw_st_scheme" where
  "lapicw index v s = s\<lparr>lapic_out := lapic_out s @ [(index, v)]\<rparr>"

definition lapicinit :: "lapic_regs \<Rightarrow> 'a hw_st_scheme \<Rightarrow> ('a hw_st_scheme, 'a hw_st_scheme) kres" where
  "lapicinit r s =
     (if lapic s = 0 then Inr s
      else let s = lapicw SVR (ENABLE OR (T_IRQ0 + IRQ_SPURIOUS)) s;
               s = lapicw TDCR X1 s;
               s = lapicw TIMER (PERIODIC OR (T_IRQ0 + IRQ_TIMER)) s;
               s = lapicw TICR 10000000 s;
               s = lapicw LINT0 MASKED s;
               s = lapicw LINT1 MASKED s;
               s = (if drop_bit 16 (reg_ver r) AND 0xFF \<ge> 4 then lapicw PCINT MASKED s else s);
               s = lapicw LERROR (T_IRQ0 + IRQ_ERROR) s;
               s = lapicw ESR 0 s;
               s = lapicw ESR 0 s;
               s = lapicw EOI 0 s;
               s = lapicw ICRHI 0 s;
               s = lapicw ICRLO (BCAST OR INIT OR LEVEL) s
           in if list_ex (\<lambda>v. v AND DELIVS = 0) (reg_icrlo r) then Inr (lapicw TPR 0 s) else Inl Diverge)"

text \<open>\<open>ra\<close> is the return address in the message, which is given once.\<close>

definition cpunum :: "u32 \<Rightarrow> lapic_regs \<Rightarrow> 'a dev_st_scheme \<Rightarrow> ('a dev_st_scheme, nat \<times> 'a dev_st_scheme) kres" where
  "cpunum ra r s =
     kbind (if IF s
            then let n = warned s; s = s\<lparr>warned := n + 1\<rparr>
                 in if n = 0 then cprintf (bytes ''cpu called from %x with interrupts enabled'' @ [10]) [AInt ra] s else Inr s
            else Inr s) (\<lambda>s.
     Inr (if lapic s \<noteq> 0 then unat (drop_bit 24 (reg_id r)) else 0, s))"

definition lapiceoi :: "'a hw_st_scheme \<Rightarrow> 'a hw_st_scheme" where
  "lapiceoi s = (if lapic s \<noteq> 0 then lapicw EOI 0 s else s)"

definition IO_RTC :: u16 where "IO_RTC = 0x70"

definition lapicstartap :: "u8 \<Rightarrow> u32 \<Rightarrow> 'a hw_st_scheme \<Rightarrow> 'a hw_st_scheme" where
  "lapicstartap apicid addr s =
     (let s = outb IO_RTC 0xF s;
          s = outb (IO_RTC + 1) 0x0A s;
          wrv = p2v (push_bit 4 0x40 OR 0x67);
          s = set16 wrv 0 s;
          s = set16 (wrv + 2) (ucast (drop_bit 4 addr)) s;
          s = lapicw ICRHI (push_bit 24 (ucast apicid)) s;
          s = lapicw ICRLO (INIT OR LEVEL OR ASSERT) s;
          s = lapicw ICRLO (INIT OR LEVEL) s;
          s = lapicw ICRHI (push_bit 24 (ucast apicid)) s;
          s = lapicw ICRLO (STARTUP OR drop_bit 12 addr) s;
          s = lapicw ICRHI (push_bit 24 (ucast apicid)) s
      in lapicw ICRLO (STARTUP OR drop_bit 12 addr) s)"

section \<open>Segments\<close>

definition NSEGS :: nat where "NSEGS = 7"
definition SEG_KCODE :: nat where "SEG_KCODE = 1"
definition SEG_KDATA :: nat where "SEG_KDATA = 2"
definition SEG_KCPU :: nat where "SEG_KCPU = 3"
definition SEG_UCODE :: nat where "SEG_UCODE = 4"
definition SEG_UDATA :: nat where "SEG_UDATA = 5"
definition STA_X :: u32 where "STA_X = 8"
definition STA_W :: u32 where "STA_W = 2"
definition STA_R :: u32 where "STA_R = 2"
definition DPL_USER :: u32 where "DPL_USER = 3"

definition SEG :: "u32 \<Rightarrow> u32 \<Rightarrow> u32 \<Rightarrow> u32 \<Rightarrow> segdesc" where
  "SEG ty base lim d =
     \<lparr>lim_15_0 = drop_bit 12 lim AND 0xFFFF, base_15_0 = base AND 0xFFFF, base_23_16 = drop_bit 16 base AND 0xFF, sd_type = ty, sd_s = 1,
      sd_dpl = d, sd_p = 1, lim_19_16 = drop_bit 28 lim, sd_avl = 0, sd_rsv1 = 0, sd_db = 1, sd_g = 1, base_31_24 = drop_bit 24 base\<rparr>"

text \<open>\<open>cpu_addr n\<close> is the address of the field \<^verbatim>\<open>cpu\<close> of the CPU's structure.\<close>

definition seginit :: "u32 \<Rightarrow> (nat \<Rightarrow> u32) \<Rightarrow> lapic_regs \<Rightarrow> 'a dev_st_scheme \<Rightarrow> ('a dev_st_scheme, 'a dev_st_scheme) kres" where
  "seginit ra cpu_addr r s =
     kbind (cpunum ra r s) (\<lambda>(n, s).
     if n < NCPU
     then Inr (s\<lparr>gdts := (gdts s)[n := (gdts s ! n)[SEG_KCODE := SEG (STA_X OR STA_R) 0 0xFFFFFFFF 0,
                  SEG_KDATA := SEG STA_W 0 0xFFFFFFFF 0, SEG_UCODE := SEG (STA_X OR STA_R) 0 0xFFFFFFFF DPL_USER,
                  SEG_UDATA := SEG STA_W 0 0xFFFFFFFF DPL_USER, SEG_KCPU := SEG STA_W (cpu_addr n) 8 0]],
               cpu := (cpu s)\<lparr>cpu_id := n\<rparr>, curproc := None\<rparr>)
     else Inl (Fault ''seginit: cpus''))"

section \<open>Ports and interrupts of the console, the serial port and the disk\<close>

definition COM1 :: u16 where "COM1 = 0x3F8"

definition consoleinit_irq :: "'a hw_st_scheme \<Rightarrow> 'a hw_st_scheme" where
  "consoleinit_irq s = ioapicenable IRQ_KBD 0 (picenable IRQ_KBD (consoleinit s))"

definition uart_setup :: "'a hw_st_scheme \<Rightarrow> 'a hw_st_scheme" where
  "uart_setup s =
     (let s = outb (COM1 + 2) 0 s;
          s = outb (COM1 + 3) 0x80 s;
          s = outb (COM1 + 0) (115200 div 9600) s;
          s = outb (COM1 + 1) 0 s;
          s = outb (COM1 + 3) 0x03 s;
          s = outb (COM1 + 4) 0 s
      in outb (COM1 + 1) 0x01 s)"

definition uartinit_irq :: "u8 \<Rightarrow> 'a hw_st_scheme \<Rightarrow> 'a hw_st_scheme" where
  "uartinit_irq lsr s =
     (let s = uart_setup s
      in if lsr = 0xFF then s else uartinit lsr (ioapicenable IRQ_COM1 0 (picenable IRQ_COM1 s)))"

text \<open>\<open>status0\<close> are the readings of the wait for the first drive, which never ends if the drive is never ready.\<close>

definition ideinit_irq :: "u8 list \<Rightarrow> u8 list \<Rightarrow> 'a hw_st_scheme \<Rightarrow> ('a hw_st_scheme, 'a hw_st_scheme) kres" where
  "ideinit_irq status0 status1 s =
     (let s = ioapicenable IRQ_IDE (of_nat (ncpu s) - 1) (picenable IRQ_IDE s)
      in case idewait False status0 of None \<Rightarrow> Inl Diverge
         | Some _ \<Rightarrow> Inr (outb 0x1F6 0xE0 (ideinit status1 (outb 0x1F6 (0xE0 OR push_bit 4 1) s))))"

end
