(* ===== verification/Kmain.thy ===== *)
theory Kmain
  imports Devices Vm_Grow
begin

text \<open>
  The start of the kernel (\<^verbatim>\<open>main.c\<close>): the composition of the initialisations of all components up to the
  scheduler. What the hardware reads during the start is the argument \<open>env\<close>, with the addresses the linker gives;
  that another processor comes up is the argument's \<open>e_up\<close>, since its run is not part of this one.
\<close>

record boot_env =
  e_syms :: ksyms
  e_ra :: u32
  e_cpu_addr :: "nat \<Rightarrow> u32"
  e_imcr :: u8
  e_lapic :: lapic_regs
  e_lsr :: u8
  e_ide0 :: "u8 list"
  e_ide1 :: "u8 list"
  e_other :: u32
  e_other_size :: u32
  e_mpenter :: u32
  e_entrypgdir :: u32
  e_up :: "nat \<Rightarrow> bool"

definition PTE_PS :: u32 where "PTE_PS = 0x80"

text \<open>The page directory the processors start with: two mappings of the first four megabytes.\<close>

definition entrypgdir :: "nat \<Rightarrow> u32" where
  "entrypgdir i = (if i = 0 \<or> i = unat (drop_bit 22 KERNBASE) then PTE_P OR PTE_W OR PTE_PS else 0)"

text \<open>\<^verbatim>\<open>idtinit\<close> loads a register. The scheduler's first choice ends the run.\<close>

definition mpmain :: "'a dev_st_scheme \<Rightarrow> ('a dev_st_scheme, nat option \<times> 'a dev_st_scheme) kres" where
  "mpmain s =
     kbind (cprintf (bytes ''cpu%d: starting'' @ [10]) [AInt (of_nat (cpu_id (cpu s)))] s) (\<lambda>s.
     scheduler (s\<lparr>started := (started s)[cpu_id (cpu s) := True]\<rparr>))"

definition mpenter :: "boot_env \<Rightarrow> 'a dev_st_scheme \<Rightarrow> ('a dev_st_scheme, nat option \<times> 'a dev_st_scheme) kres" where
  "mpenter env s =
     (let s = switchkvm s
      in kbind (seginit (e_ra env) (e_cpu_addr env) (e_lapic env) s) (\<lambda>s.
         kbind (lapicinit (e_lapic env) s) mpmain))"

definition OTHER_CODE :: u32 where "OTHER_CODE = 0x80007000"

fun start_cpus :: "boot_env \<Rightarrow> nat list \<Rightarrow> 'a dev_st_scheme \<Rightarrow> ('a dev_st_scheme, 'a dev_st_scheme) kres" where
  "start_cpus env [] s = Inr s"
| "start_cpus env (c # cs) s =
     kbind (cpunum (e_ra env) (e_lapic env) s) (\<lambda>(n, s).
     if c = n then start_cpus env cs s
     else kbind (kalloc s) (\<lambda>(stack, s).
          let s = set32 (OTHER_CODE - 4) (stack + KSTACKSIZE) s;
              s = set32 (OTHER_CODE - 8) (e_mpenter env) s;
              s = set32 (OTHER_CODE - 12) (v2p (e_entrypgdir env)) s;
              s = lapicstartap (cpu_ids s ! c) (v2p OTHER_CODE) s
          in if e_up env c then start_cpus env cs s else Inl Diverge))"

definition startothers :: "boot_env \<Rightarrow> 'a dev_st_scheme \<Rightarrow> ('a dev_st_scheme, 'a dev_st_scheme) kres" where
  "startothers env s =
     start_cpus env [0..<ncpu s] (s\<lparr>mem := memmove OTHER_CODE (e_other env) (e_other_size env) (mem s)\<rparr>)"

text \<open>The part of \<^verbatim>\<open>main\<close> from \<^verbatim>\<open>picinit\<close> to the timer.\<close>

definition main_devices :: "boot_env \<Rightarrow> 'a dev_st_scheme \<Rightarrow> ('a dev_st_scheme, 'a dev_st_scheme) kres" where
  "main_devices env s =
     (let s = picinit s
      in kbind (ioapicinit s) (\<lambda>s.
         let s = consoleinit_irq s;
             s = uartinit_irq (e_lsr env) s;
             s = pinit s;
             s = tvinit s;
             s = binit s;
             s = fileinit s;
             s = iinit s
         in kbind (ideinit_irq (e_ide0 env) (e_ide1 env) s) (\<lambda>s.
            Inr (if \<not> ismp s then timerinit s else s))))"

definition kmain :: "boot_env \<Rightarrow> 'a dev_st_scheme \<Rightarrow> ('a dev_st_scheme, nat option \<times> 'a dev_st_scheme) kres" where
  "kmain env s =
     kbind (kinit1 (k_end (e_syms env)) (k_end (e_syms env)) (p2v 0x400000) s) (\<lambda>s.
     kbind (kvmalloc (k_data (e_syms env)) s) (\<lambda>s.
     kbind (mpinit (e_imcr env) s) (\<lambda>s.
     kbind (lapicinit (e_lapic env) s) (\<lambda>s.
     kbind (seginit (e_ra env) (e_cpu_addr env) (e_lapic env) s) (\<lambda>s.
     kbind (cprintf ([10] @ bytes ''cpu%d: starting xv6'' @ [10, 10]) [AInt (of_nat (cpu_id (cpu s)))] s) (\<lambda>s.
     kbind (main_devices env s) (\<lambda>s.
     kbind (startothers env s) (\<lambda>s.
     kbind (kinit2 (k_end (e_syms env)) (p2v 0x400000) (p2v PHYSTOP) s) (\<lambda>s.
     kbind (userinit (e_syms env) s) mpmain)))))))))"

end
