(* ===== verification/First_Process.thy ===== *)
theory First_Process
  imports Sys_Lemmas Vm_Grow
begin

text \<open>
  The first process: \<^verbatim>\<open>inituvm\<close> puts the code into an address space of one page, and \<^verbatim>\<open>userinit\<close> builds around it
  a process the scheduler can run: the kernel stack leads to \<^verbatim>\<open>forkret\<close> and \<^verbatim>\<open>trapret\<close>, the trap frame to the first
  byte of the code.
\<close>

section \<open>The user memory\<close>

lemma fill_frame:
  assumes "vm_inv kend xs pd s" "page_only x (mem s) (mem t)" "x \<in> frames (mem s) pd" "freelist t = freelist s"
  shows "vm_inv kend xs pd t" "pte (mem t) pd va = pte (mem s) pd va" "frame (mem t) pd va = frame (mem s) pd va"
    "space (mem t) pd = space (mem s) pd" "low_page (mem t) pd va = low_page (mem s) pd va"
proof -
  have x: "page_ok kend x" "x \<notin> set xs" "x \<noteq> pd" "x \<notin> tabs (mem s) pd" using assms(1,3) by (auto simp: vm_inv_def)
  have k: "pages_only {x} (mem s) (mem t)" "\<forall>y\<in>{x}. y mod PGSIZE = 0" "pd \<notin> {x}" "tabs (mem s) pd \<inter> {x} = {}"
    using x page_only_pages [OF assms(2)] by (auto simp: page_ok_def)
  note d = dir_frame [OF k(1,2) vm_inv_space(5) [OF assms(1)] k(3,4)]
  note e = dir_frame_sets [of "mem t" pd "mem s", OF d]
  have km: "kmem_inv kend xs t"
    using x by (intro kmem_inv_page_only [OF vm_inv_space(1) [OF assms(1)] assms(2,4)]) (simp_all add: page_ok_def)
  show "vm_inv kend xs pd t" using assms(1) km by (auto simp: vm_inv_def pd_inv_def d e tabs_def)
  show "pte (mem t) pd va = pte (mem s) pd va" by (rule d)
  show "frame (mem t) pd va = frame (mem s) pd va" "space (mem t) pd = space (mem s) pd" "low_page (mem t) pd va = low_page (mem s) pd va"
    by (rule e)+
qed

text \<open>The bytes of a page at address 0 that holds \<open>ini\<close>.\<close>

definition code_byte :: "u8 list \<Rightarrow> u32 \<Rightarrow> u8" where
  "code_byte ini va = (if unat va < length ini then ini ! unat va else 0)"

lemma same_page_0: "same_page 0 va \<longleftrightarrow> va < PGSIZE"
  by (auto simp: same_page_div PGSIZE_def word_less_nat_alt div_eq_0_iff)

lemma store_page:
  assumes "unat off + length bs \<le> 4096"
  shows "page_only x m (store_bytes (x + off) bs m)"
proof -
  have "\<not> unat (a - (x + off)) < length bs" if "PGSIZE \<le> a - x" for a
  proof -
    have "off \<le> a - x" "unat (a - x) \<ge> 4096" using that assms by (simp_all add: PGSIZE_def word_le_nat_alt)
    then have "unat (a - x - off) = unat (a - x) - unat off" by (simp add: offset_sub)
    moreover have e: "a - (x + off) = a - x - off" by simp
    ultimately show ?thesis using that assms unfolding e by (simp add: PGSIZE_def word_le_nat_alt)
  qed
  then show ?thesis using assms by (simp add: page_only_def store_bytes_eq)
qed

lemma inituvm_maps:
  fixes s :: "'a vm_st_scheme"
  assumes "vm_inv kend xs pd s" "lockset L s" "LKmem \<notin> set L" "spans (mem s) pd 0" "length ini < 4096"
    and "1026 < card (space (mem s) pd \<union> set xs)"
  shows "returns (inituvm pd ini s) (\<lambda>t. lockset L t \<and> kmem_st.more t = kmem_st.more s \<and>
     pages_only (space (mem s) pd \<union> set xs) (mem s) (mem t) \<and>
     (\<exists>ys. vm_inv kend ys pd t \<and> space (mem t) pd \<union> set ys = space (mem s) pd \<union> set xs) \<and> spans (mem t) pd PGSIZE \<and>
     (\<forall>va. user_byte (mem t) pd va = (if va < PGSIZE then Some (code_byte ini va) else None)))"
proof -
  have z: "(0 :: u32) mod PGSIZE = 0" "(0 :: u32) < KERNBASE" "1026 + npages 0 < card (space (mem s) pd \<union> set xs)"
    using assms(6) by (simp_all add: KERNBASE_def npages_def)
  obtain x u t ys where r: "kalloc s = Inr (x, u)" "x \<noteq> 0" "mappages pd 0 PGSIZE (v2p x) (PTE_W OR PTE_U) (u\<lparr>mem := memset x 0 PGSIZE (mem u)\<rparr>) = Inr (0, t)"
    "lockset L t" "kmem_st.more t = kmem_st.more s" "vm_inv kend ys pd t" "spans (mem t) pd (0 + PGSIZE)"
    "space (mem t) pd \<union> set ys = space (mem s) pd \<union> set xs"
    "\<forall>va. user_byte (mem t) pd va = (if same_page 0 va then Some 0 else user_byte (mem s) pd va)"
    "frame (mem t) pd 0 = x" "pages_only (space (mem s) pd \<union> set xs) (mem s) (mem t)" "x \<in> set xs"
    by (rule alloc_round [OF assms(1-4) z])
  define m' where "m' = store_bytes x ini (mem t)"
  let ?t = "t\<lparr>mem := m'\<rparr>"
  have low0: "low_page (mem t) pd 0" using spans_low [OF r(7), of 0] by (simp add: PGROUNDDOWN_def PGSIZE_def)
  have xf: "x \<in> frames (mem t) pd" using low0 r(10) by (auto simp: frames_def)
  have po: "page_only x (mem t) (mem ?t)" using store_page [of 0 ini x "mem t"] assms(5) by (simp add: m'_def)
  note F = fill_frame [OF r(6) po xf, simplified]
  have none: "user_byte (mem s) pd va = None" for va
    using assms(1,4) user_low [of "mem s" pd va] by (auto simp: user_byte_def spans_def vm_inv_def)
  have ub: "user_byte (mem ?t) pd va = (if va < PGSIZE then Some (code_byte ini va) else None)" for va
  proof (cases "va < PGSIZE")
    case True
    then have sp: "same_page 0 va" by (simp add: same_page_0)
    have fr: "frame (mem t) pd va = x" using same_page_pte [OF sp, of "mem t" pd] r(10) by (simp add: frame_def)
    have off: "va AND 0xFFF = va" using True by (simp add: PGSIZE_def word_less_nat_alt word_unat_eq_iff offset_less)
    have "user_byte (mem t) pd va = Some 0" using r(9) sp by simp
    then have "user_pte (pte (mem t) pd va)" "mem t (x + va) = 0" using fr off by (auto simp: user_byte_def split: if_splits)
    moreover from this have "m' (x + va) = code_byte ini va" using assms(5) by (simp add: m'_def store_bytes_eq code_byte_def)
    ultimately show ?thesis using True fr off by (simp add: user_byte_def F)
  next
    case False
    then have "user_byte (mem t) pd va = None" using r(9) none same_page_0 [of va] by simp
    then show ?thesis using False by (auto simp: user_byte_def F split: if_splits)
  qed
  have "pages_only (space (mem s) pd \<union> set xs) (mem s) (mem ?t)"
    using pages_only_trans [OF r(11) page_only_pages [OF po, of "space (mem s) pd \<union> set xs"]] r(12) by simp
  moreover have "spans (mem ?t) pd PGSIZE" using r(7) by (simp add: spans_def F)
  moreover have "inituvm pd ini s = Inr ?t" using r(1-3) assms(5) by (simp add: inituvm_def Let_def m'_def)
  ultimately show ?thesis using r(4,5,8) F(1,4) ub by auto
qed

section \<open>The kernel stack\<close>

definition init_frame :: "u32 \<Rightarrow> mem \<Rightarrow> mem" where
  "init_frame tf m = store32 (tf + 56) 0 (store32 (tf + 68) PGSIZE (store32 (tf + 64) 0x200 (store_bytes (tf + 72) (le16 0x2B)
     (store_bytes (tf + 40) (le16 0x2B) (store_bytes (tf + 44) (le16 0x2B) (store_bytes (tf + 60) (le16 0x23) (memset tf 0 76 m)))))))"

text \<open>A trap frame that returns to address 0 in user mode, with interrupts on and the stack at the end of the page.\<close>

definition first_frame :: "u32 \<Rightarrow> mem \<Rightarrow> bool" where
  "first_frame tf m \<longleftrightarrow> load32 m (tf + tf_eip) = 0 \<and> load32 m (tf + tf_esp) = PGSIZE \<and> load32 m (tf + tf_eflags) = 0x200 \<and>
     of_le16 [m (tf + tf_cs), m (tf + tf_cs + 1)] = 0x23 \<and> of_le16 [m (tf + tf_ds), m (tf + tf_ds + 1)] = 0x2B \<and>
     of_le16 [m (tf + tf_es), m (tf + tf_es + 1)] = 0x2B \<and> of_le16 [m (tf + tf_ss), m (tf + tf_ss + 1)] = 0x2B"

lemma load32_bytes_far:
  assumes "of_nat (length bs) \<le> b - a" "4 \<le> a - b" "length bs < 2 ^ 32"
  shows "load32 (store_bytes a bs m) b = load32 m b"
  by (rule load32_cong) (use far_off [OF assms(1,2)] assms(3) in \<open>simp add: store_bytes_eq word_less_nat_alt unat_of_nat32\<close>)

lemma le16_length [simp]: "length (le16 v) = 2"
  by (simp add: le16_def)

lemma init_frame_page: "page_only k m (init_frame (k + 4020) m)"
proof -
  have s: "page_only k m (store32 (k + 4020 + o') v m)" if "unat o' \<le> 72" for m o' v
    using that page_only_store32 [of "4020 + o'" k m v] by (simp add: unat_plus_if_size word_size add.assoc)
  have b: "page_only k m (store_bytes (k + 4020 + o') (le16 v) m)" if "unat o' \<le> 72" for m o' v
    using that store_page [of "4020 + o'" "le16 v" k m] by (simp add: unat_plus_if_size word_size add.assoc)
  have c: "unat (56 :: u32) \<le> 72" "unat (68 :: u32) \<le> 72" "unat (64 :: u32) \<le> 72" "unat (72 :: u32) \<le> 72" "unat (40 :: u32) \<le> 72"
    "unat (44 :: u32) \<le> 72" "unat (60 :: u32) \<le> 72" by simp_all
  note p = page_only_trans
  show ?thesis unfolding init_frame_def
    by (rule p [OF _ s [OF c(1)]], rule p [OF _ s [OF c(2)]], rule p [OF _ s [OF c(3)]], rule p [OF _ b [OF c(4)]], rule p [OF _ b [OF c(5)]],
      rule p [OF _ b [OF c(6)]], rule p [OF _ b [OF c(7)]], rule page_only_memset) simp
qed

lemma init_frame_first: "first_frame (k + 4020) (init_frame (k + 4020) m)"
  unfolding first_frame_def tf_eip_def tf_esp_def tf_eflags_def tf_cs_def tf_ds_def tf_es_def tf_ss_def
  by (intro conjI) (simp_all add: init_frame_def load32_far store32_run le16_def of_le16_def PGSIZE_def)

lemma init_frame_context: "load32 (init_frame (k + 4020) m) (k + 4012) = load32 m (k + 4012)" "load32 (init_frame (k + 4020) m) (k + 4016) = load32 m (k + 4016)"
  by (simp_all add: init_frame_def load32_far load32_bytes_far load32_memset_far)

section \<open>The root directory\<close>

definition root_inode :: "inode \<Rightarrow> inode" where
  "root_inode q = q\<lparr>i_dev := ROOTDEV, i_inum := ROOTINO, i_ref := 1, i_busy := False, i_valid := False\<rparr>"

lemma namei_root:
  fixes s :: "'a cons_st_scheme"
  assumes "lockset [] s" "inodes s \<noteq> []" "\<forall>q \<in> set (inodes s). i_ref q = 0"
  obtains t where "namei [47] s = Inr (Some 0, t)" "lockset [] t" "mach.more t = mach.more (s\<lparr>inodes := (inodes s)[0 := root_inode (inodes s ! 0)]\<rparr>)"
proof -
  have a: "acquire LIcache s = Inr (acq LIcache s)" "lockset [LIcache] (acq LIcache s)" using acquire_acq [OF assms(1), of LIcache] by auto
  have i: "inodes (acq LIcache s) = inodes s" by (simp add: acq_def pushcli_def Let_def)
  let ?f = "\<lambda>q. q\<lparr>i_dev := ROOTDEV, i_inum := ROOTINO, i_ref := 1, i_busy := False, i_valid := False\<rparr>"
  have f: "List.find (\<lambda>i. i_ref (inodes s ! i) > 0 \<and> i_dev (inodes s ! i) = ROOTDEV \<and> i_inum (inodes s ! i) = ROOTINO) [0..<length (inodes s)] = None"
    using assms(3) by (auto simp: find_None_iff)
  have g: "List.find (\<lambda>i. i_ref (inodes s ! i) = 0) [0..<length (inodes s)] = Some 0"
    using assms(2,3) by (cases "length (inodes s)") (auto simp: upt_conv_Cons simp del: upt_Suc)
  define u where "u = upd_inode 0 ?f (acq LIcache s)"
  have "lockset [LIcache] u" using a(2) by (simp add: u_def upd_inode_def lockset_def)
  then have r: "release LIcache u = Inr (rel LIcache u)" "lockset [] (rel LIcache u)" using release_rel [of LIcache "[]" u] by auto
  have "iget ROOTDEV ROOTINO s = Inr (0, rel LIcache u)" using a(1) f g r(1) by (simp add: iget_def i u_def)
  moreover have "skipelem [47] = None" by (simp add: skipelem_def)
  ultimately have "namei [47] s = Inr (Some 0, rel LIcache u)" by (simp add: namei_def namex_def namex_loop.simps)
  moreover have "mach.more (rel LIcache u) = mach.more (s\<lparr>inodes := (inodes s)[0 := root_inode (inodes s ! 0)]\<rparr>)"
    by (cases s) (simp add: u_def upd_inode_def acq_def rel_def pushcli_def Let_def root_inode_def)
  ultimately show ?thesis using that r(2) by blast
qed

section \<open>The process\<close>

text \<open>
  A process that runs the code when the scheduler switches to it: its stack makes the switch go on in \<^verbatim>\<open>forkret\<close>,
  which returns to \<^verbatim>\<open>trapret\<close>, which loads the trap frame.
\<close>

definition starts_code :: "ksyms \<Rightarrow> proc \<Rightarrow> mem \<Rightarrow> bool" where
  "starts_code k p m \<longleftrightarrow> p_sz p = PGSIZE \<and> (\<forall>va. user_byte m (p_pgdir p) va = (if va < PGSIZE then Some (code_byte (k_initcode k) va) else None)) \<and>
     p_tf p = p_kstack p + 4020 \<and> p_context p = p_kstack p + 3996 \<and> load32 m (p_context p + 16) = k_forkret k \<and>
     load32 m (p_context p + 20) = k_trapret k \<and> first_frame (p_tf p) m"

text \<open>The process table holds this process in its first place and no other.\<close>

definition first_process :: "ksyms \<Rightarrow> u32 \<Rightarrow> u32 list \<Rightarrow> 'a sys_st_scheme \<Rightarrow> bool" where
  "first_process k x xs t \<longleftrightarrow> (let p = procs t ! 0 in p_kstack p = x \<and> p_pgdir p \<noteq> 0 \<and> p_prio p = 1 \<and> p_cwd p = Some 0 \<and> starts_code k p (mem t) \<and>
     (\<exists>ys. vm_inv (k_end k) ys (p_pgdir p) t \<and> space (mem t) (p_pgdir p) \<union> set ys = set xs)) \<and> initproc t = Some 0 \<and> procs t \<noteq> [] \<and>
     (\<forall>p \<in> set (tl (procs t)). p_state p = UNUSED) \<and> inodes t \<noteq> [] \<and> i_dev (inodes t ! 0) = ROOTDEV \<and> i_inum (inodes t ! 0) = ROOTINO \<and> i_ref (inodes t ! 0) = 1"

lemma vm_inv_same: "mem t = mem s \<Longrightarrow> freelist t = freelist s \<Longrightarrow> vm_inv kend xs pd t = vm_inv kend xs pd s"
  by (simp add: vm_inv_def pd_inv_def kmem_inv_def)

lemma first_space:
  fixes s :: "'a proc_st_scheme"
  assumes "lockset [] s" "kmem_inv kend xs s" "kdata_ok kdata" "length ini < 4096" "1026 < length xs"
  obtains pd c d ys where "setupkvm kdata s = Inr (pd, c)" "pd \<noteq> 0" "inituvm pd ini (upd_proc i (p_pgdir_update (\<lambda>_. pd)) c) = Inr d" "lockset [] d"
    "procs d = (procs s)[i := p_pgdir_update (\<lambda>_. pd) (procs s ! i)]" "proc_st.more d = proc_st.more s" "initproc d = initproc s" "kpgdir d = kpgdir s"
    "pages_only (set xs) (mem s) (mem d)" "vm_inv kend ys pd d" "space (mem d) pd \<union> set ys = set xs"
    "\<forall>va. user_byte (mem d) pd va = (if va < PGSIZE then Some (code_byte ini va) else None)"
proof -
  obtain pd c ys where c: "setupkvm kdata s = Inr (pd, c)" "lockset [] c" "kmem_st.more c = kmem_st.more s" "pages_only (set xs) (mem s) (mem c)"
    "pd \<noteq> 0" "fresh_space kend kdata xs ys pd c"
    using setupkvm_fresh [OF assms(2,1) _ assms(3)] assms(5) by (auto elim!: returnsE)
  let ?c = "upd_proc i (p_pgdir_update (\<lambda>_. pd)) c"
  have v: "vm_inv kend ys pd ?c" "lockset [] ?c" "space (mem ?c) pd \<union> set ys = set xs"
    using c(2,6) vm_inv_same [of ?c c] by (simp_all add: fresh_space_def upd_proc_def lockset_def)
  have "\<not> low_page (mem ?c) pd va" for va using c(6) by (auto simp: fresh_space_def low_page_def upd_proc_def)
  then have sp: "spans (mem ?c) pd 0" by (simp add: spans_def)
  have "card (set xs) = length xs" using assms(2) by (simp add: kmem_inv_def distinct_card)
  then obtain d zs where d: "inituvm pd ini ?c = Inr d" "lockset [] d" "kmem_st.more d = kmem_st.more ?c" "pages_only (set xs) (mem ?c) (mem d)"
    "vm_inv kend zs pd d" "space (mem d) pd \<union> set zs = set xs" "\<forall>va. user_byte (mem d) pd va = (if va < PGSIZE then Some (code_byte ini va) else None)"
    using inituvm_maps [OF v(1,2) _ sp assms(4)] assms(5) v(3) by (auto elim!: returnsE)
  have "procs c = procs s" "proc_st.more c = proc_st.more s" "initproc c = initproc s" "kpgdir c = kpgdir s" using c(3) by (cases c; cases s; simp)+
  moreover have "procs d = procs ?c" "proc_st.more d = proc_st.more ?c" "initproc d = initproc ?c" "kpgdir d = kpgdir ?c" using d(3) by (cases d; cases ?c; simp)+
  ultimately have "procs d = (procs s)[i := p_pgdir_update (\<lambda>_. pd) (procs s ! i)]" "proc_st.more d = proc_st.more s" "initproc d = initproc s" "kpgdir d = kpgdir s"
    by (simp_all add: upd_proc_def)
  moreover have "pages_only (set xs) (mem s) (mem d)" using c(4) d(4) by (auto simp: upd_proc_def intro: pages_only_trans)
  ultimately show ?thesis using that [OF c(1,5) d(1,2)] d(5-7) by blast
qed

lemma userinit_builds:
  fixes s :: "'a sys_st_scheme"
  assumes "lockset [] s" "kmem_inv (k_end k) (x # xs) s" "kdata_ok (k_data k)" "length (k_initcode k) < 4096" "1026 < length xs"
    and "procs s \<noteq> []" "\<forall>p \<in> set (procs s). p_state p = UNUSED" "inodes s \<noteq> []" "\<forall>q \<in> set (inodes s). i_ref q = 0"
  shows "returns (userinit k s) (\<lambda>t. lockset [] t \<and> first_process k x xs t \<and> p_state (procs t ! 0) = RUNNABLE \<and> p_pid (procs t ! 0) = nextpid s \<and>
     pages_only (insert x (set xs)) (mem s) (mem t) \<and> kpgdir t = kpgdir s \<and> crt t = crt s \<and> crt_pos t = crt_pos s \<and> panicked t = panicked s)"
proof -
  have f0: "List.find (\<lambda>i. p_state (procs s ! i) = UNUSED) [0..<length (procs s)] = Some 0"
    using assms(6,7) by (cases "length (procs s)") (auto simp: upt_conv_Cons simp del: upt_Suc)
  have x: "page_ok (k_end k) x" "x \<notin> set xs" "distinct xs" using assms(2) by (auto simp: kmem_inv_def)
  define q1 where "q1 = (procs s ! 0)\<lparr>p_prio := 1, p_cur_index := 0, p_state := EMBRYO, p_pid := nextpid s, p_kstack := x, p_tf := x + 4020, p_context := x + 3996\<rparr>"
  obtain a where a: "allocproc (k_forkret k) (k_trapret k) s = Inr (Some 0, a)" "lockset [] a" "kmem_inv (k_end k) xs a"
    "proc_st.more a = proc_st.more s" "load32 (mem a) (x + 4012) = k_forkret k" "load32 (mem a) (x + 4016) = k_trapret k" "procs a = (procs s)[0 := q1]"
    "page_only x (mem s) (mem a)" "kpgdir a = kpgdir s"
    using allocproc_returns [OF assms(1,2) f0, of "k_forkret k" "k_trapret k"] by (auto elim!: returnsE simp: q1_def)
  let ?b = "a\<lparr>initproc := Some 0\<rparr>"
  have b: "lockset [] ?b" "kmem_inv (k_end k) xs ?b" using a(2,3) by (simp_all add: lockset_def kmem_inv_def)
  obtain pd c d ys where d: "setupkvm (k_data k) ?b = Inr (pd, c)" "pd \<noteq> 0" "inituvm pd (k_initcode k) (upd_proc 0 (p_pgdir_update (\<lambda>_. pd)) c) = Inr d"
    "lockset [] d" "procs d = (procs ?b)[0 := p_pgdir_update (\<lambda>_. pd) (procs ?b ! 0)]" "proc_st.more d = proc_st.more ?b" "initproc d = initproc ?b" "kpgdir d = kpgdir ?b"
    "pages_only (set xs) (mem ?b) (mem d)" "vm_inv (k_end k) ys pd d" "space (mem d) pd \<union> set ys = set xs"
    "\<forall>va. user_byte (mem d) pd va = (if va < PGSIZE then Some (code_byte (k_initcode k) va) else None)"
    by (rule first_space [OF b assms(3-5), of 0])
  have d': "procs d = (procs s)[0 := q1\<lparr>p_pgdir := pd\<rparr>]" "proc_st.more d = proc_st.more s" "initproc d = Some 0" "pages_only (set xs) (mem a) (mem d)"
    using d(5-9) a(4,7) assms(6) by simp_all
  define q2 where "q2 = q1\<lparr>p_pgdir := pd, p_sz := PGSIZE, p_name := overwrite 0 (safestrcpy (cstr (bytes ''initcode'')) 16) (p_name q1)\<rparr>"
  define g where "g = d\<lparr>mem := init_frame (x + 4020) (mem d), procs := (procs s)[0 := q2]\<rparr>"
  have run: "userinit k s = kbind (namei [47] g) (\<lambda>(cwd, s). Inr (upd_proc 0 (\<lambda>q. q\<lparr>p_cwd := cwd, p_state := RUNNABLE\<rparr>) s))"
    using a(1) d(1-3) d'(1) assms(6)
    by (simp add: userinit_def Let_def set16_def set32_def upd_proc_def g_def init_frame_def q2_def q1_def sizeof_tf_def
      tf_cs_def tf_ds_def tf_es_def tf_ss_def tf_eflags_def tf_esp_def tf_eip_def ac_simps)
  have ig: "inodes g = inodes s" using d'(2) by (cases d; cases s; simp add: g_def)
  have lg: "lockset [] g" using d(4) by (simp add: g_def lockset_def)
  obtain t where t: "namei [47] g = Inr (Some 0, t)" "lockset [] t" "mach.more t = mach.more (g\<lparr>inodes := (inodes g)[0 := root_inode (inodes g ! 0)]\<rparr>)"
    using namei_root [OF lg] assms(8,9) ig by auto
  have tf: "mem t = mem g" "freelist t = freelist g" "procs t = procs g" "initproc t = initproc g" "inodes t = (inodes s)[0 := root_inode (inodes s ! 0)]"
    using t(3) ig by (cases t; cases g; simp)+
  have po: "page_only x (mem d) (mem g)" using init_frame_page by (simp add: g_def)
  have xs: "x \<notin> set xs" "x mod PGSIZE = 0" "set ys \<subseteq> set xs" "\<forall>y\<in>set xs. y mod PGSIZE = 0" using x assms(2) d(11) by (auto simp: page_ok_def kmem_inv_def)
  have km: "kmem_inv (k_end k) ys g" using xs by (intro kmem_inv_page_only [OF vm_inv_space(1) [OF d(10)] po]) (auto simp: g_def)
  note P = space_frame [OF d(10) km _ page_only_pages [OF po, of "{x}"]]
  have K: "set ys \<inter> space (mem d) pd = {}" "x \<in> {x}" "\<forall>y\<in>{x}. y mod PGSIZE = 0" "{x} \<inter> space (mem d) pd = {}"
    using vm_inv_space(3) [OF d(10)] xs d(11) by auto
  note P = P [OF K]
  have cx: "load32 (mem g) (x + 4012) = k_forkret k" "load32 (mem g) (x + 4016) = k_trapret k"
    using pages_only_load32 [OF d'(4) xs(4,2,1)] a(5,6) by (simp_all add: g_def init_frame_context)
  have ma: "pages_only (insert x (set xs)) (mem s) (mem g)"
    using pages_only_trans [OF page_only_pages [OF a(8)] pages_only_trans [OF pages_only_mono [OF d'(4)] page_only_pages [OF po]], of "insert x (set xs)"] by auto
  have rest: "pages_only (insert x (set xs)) (mem s) (mem t)" "kpgdir t = kpgdir s" "crt t = crt s" "crt_pos t = crt_pos s" "panicked t = panicked s"
    using ma tf(1) t(3) d'(2) d(8) a(9) by (simp_all, (cases t; cases g; cases d; cases s; simp add: g_def)+)
  have "starts_code k (q2\<lparr>p_cwd := Some 0, p_state := RUNNABLE\<rparr>) (mem g)"
    using cx init_frame_first [of x "mem d"] d(12) by (simp add: starts_code_def q2_def q1_def P(4) add.assoc) (simp add: g_def)
  moreover have "vm_inv (k_end k) ys pd (upd_proc 0 (\<lambda>q. q\<lparr>p_cwd := Some 0, p_state := RUNNABLE\<rparr>) t)"
    using P(1) vm_inv_same [of "upd_proc 0 (\<lambda>q. q\<lparr>p_cwd := Some 0, p_state := RUNNABLE\<rparr>) t" g] tf by (simp add: upd_proc_def)
  moreover have "procs g = (procs s)[0 := q2]" "initproc g = Some 0" using d'(3) by (simp_all add: g_def)
  moreover have "\<forall>p \<in> set (tl (procs s)). p_state p = UNUSED" using assms(6,7) by (cases "procs s") auto
  moreover have "tl ((procs s)[0 := q]) = tl (procs s)" "(procs s)[0 := q] \<noteq> []" for q using assms(6) by (cases "procs s"; simp)+
  ultimately show ?thesis
    using run t(1,2) tf assms(6,8) d(2,11) P(3) rest
    by (simp add: first_process_def Let_def upd_proc_def lockset_def root_inode_def) (auto simp: q2_def q1_def)
qed

end
