(* ===== verification/Kmain_Lemmas.thy ===== *)
theory Kmain_Lemmas
  imports Kmain First_Process
begin

text \<open>
  The start of the kernel on a machine with one processor: every initialisation returns, each finds what it relies on,
  and the scheduler's first choice is the first process.
\<close>

section \<open>Memory\<close>

definition agree_below :: "u32 \<Rightarrow> mem \<Rightarrow> mem \<Rightarrow> bool" where
  "agree_below a m m' \<longleftrightarrow> (\<forall>x < a. m' x = m x)"

text \<open>There is no description of the machine, whatever the memory above the kernel holds.\<close>

definition no_mp :: "u32 \<Rightarrow> mem \<Rightarrow> bool" where
  "no_mp kend m \<longleftrightarrow> (\<forall>m'. agree_below kend m m' \<longrightarrow> mpsearch m' = 0)"

lemma page_above:
  assumes "page_ok kend x" "a < kend" "KERNBASE \<le> kend"
  shows "PGSIZE \<le> a - x"
proof -
  have x: "kend \<le> x" "v2p x < PHYSTOP" using assms(1) by (simp_all add: page_ok_def)
  have "KERNBASE \<le> x" using x(1) assms(3) by simp
  then have "unat x = unat (v2p x) + 2 ^ 31" by (simp add: v2p_def unat_sub_if' word_le_nat_alt KERNBASE_def)
  then have "unat x < 0x8E000000" using x(2) by (simp add: PHYSTOP_def word_less_nat_alt)
  moreover have "unat a < unat x" using assms(2) x(1) by (simp add: word_less_nat_alt word_le_nat_alt)
  ultimately show ?thesis by (simp add: PGSIZE_def word_le_nat_alt unat_sub_if')
qed

lemma pages_agree:
  assumes "pages_only K m m'" "\<forall>x \<in> K. page_ok kend x" "KERNBASE \<le> kend"
  shows "agree_below kend m m'"
  using assms(1) page_above [OF _ _ assms(3)] assms(2) by (auto simp: agree_below_def pages_only_def)

lemma agree_trans: "agree_below a m m' \<Longrightarrow> agree_below a m' m'' \<Longrightarrow> agree_below a m m''"
  by (simp add: agree_below_def)

text \<open>The pages of the first four megabytes behind the kernel, and those of the rest of the memory.\<close>

definition low_run :: "u32 \<Rightarrow> u32 list" where
  "low_run kend = page_run (PGROUNDUP kend) ((0x80400000 - unat (PGROUNDUP kend)) div 4096)"

definition high_run :: "u32 list" where
  "high_run = page_run 0x80400000 0xDC00"

definition kend_ok :: "u32 \<Rightarrow> bool" where
  "kend_ok kend \<longleftrightarrow> 0x80100000 \<le> kend \<and> kend \<le> 0x801FE000"

lemma roundup_kend:
  assumes "kend_ok kend"
  shows "PGROUNDUP kend mod PGSIZE = 0" "kend \<le> PGROUNDUP kend" "KERNBASE \<le> PGROUNDUP kend" "unat (PGROUNDUP kend) \<le> 0x801FE000" "KERNBASE \<le> kend"
proof -
  have k: "0x80100000 \<le> unat kend" "unat kend \<le> 0x801FE000" using assms by (simp_all add: kend_ok_def word_le_nat_alt)
  then have u: "unat (PGROUNDUP kend) = (unat kend + 4095) div 4096 * 4096" by (intro unat_PGROUNDUP) simp
  have "PGROUNDUP kend = PGROUNDDOWN (kend + PGSIZE - 1)" by (simp add: PGROUNDUP_def PGROUNDDOWN_def)
  then show "PGROUNDUP kend mod PGSIZE = 0" unfolding page_shifted PGROUNDDOWN_bits by blast
  have ge: "unat kend \<le> unat (PGROUNDUP kend)" unfolding u
    using div_mult_mod_eq [of "unat kend + 4095" 4096] mod_less_divisor [of 4096 "unat kend + 4095"] by linarith
  then show "kend \<le> PGROUNDUP kend" by (simp add: word_le_nat_alt)
  have "0x80000000 \<le> unat kend" "0x80000000 \<le> unat (PGROUNDUP kend)" using k(1) ge by simp_all
  then show "KERNBASE \<le> PGROUNDUP kend" "KERNBASE \<le> kend" by (simp_all add: KERNBASE_def word_le_nat_alt)
  have "(unat kend + 4095) div 4096 \<le> (0x801FE000 + 4095) div 4096" using k(2) by (intro div_le_mono) simp
  then show "unat (PGROUNDUP kend) \<le> 0x801FE000" unfolding u by simp
qed

lemma low_run_fits:
  assumes "kend_ok kend"
  shows "unat (PGROUNDUP kend) + 4096 * ((0x80400000 - unat (PGROUNDUP kend)) div 4096) = 0x80400000" "513 < length (low_run kend)"
proof -
  note r = roundup_kend [OF assms]
  obtain q where q: "unat (PGROUNDUP kend) = 4096 * q" using page_unat [OF r(1)] by (auto simp: mod_eq_0_iff_dvd elim: dvdE)
  then have "q \<le> 0x801FE" using r(4) by simp
  then show "unat (PGROUNDUP kend) + 4096 * ((0x80400000 - unat (PGROUNDUP kend)) div 4096) = 0x80400000" "513 < length (low_run kend)"
    unfolding low_run_def q by (auto simp: page_run_def diff_mult_distrib2 [symmetric])
qed

lemma top_unat: "unat (p2v 0x400000) = 0x80400000" "unat (p2v PHYSTOP) = 0x8E000000"
  by (simp_all add: p2v_def KERNBASE_def PHYSTOP_def)

lemma run_pages:
  assumes "kend_ok kend"
  shows "\<forall>x \<in> set (low_run kend). page_ok kend x" "\<forall>x \<in> set high_run. page_ok kend x" "set (low_run kend) \<inter> set high_run = {}"
proof -
  note r = roundup_kend [OF assms] and f = low_run_fits [OF assms]
  show "\<forall>x \<in> set (low_run kend). page_ok kend x"
    unfolding low_run_def by (intro ballI, rule page_run_usable [OF r(1-3)]) (use f(1) top_unat(2) in simp_all)
  have h: "(0x80400000 :: u32) mod PGSIZE = 0" "kend \<le> 0x80400000" "KERNBASE \<le> 0x80400000" "unat (0x80400000 :: u32) + 4096 * 0xDC00 \<le> unat (p2v PHYSTOP)"
    using assms by (simp_all add: PGSIZE_def KERNBASE_def kend_ok_def word_le_nat_alt top_unat)
  show "\<forall>x \<in> set high_run. page_ok kend x" unfolding high_run_def using page_run_usable [OF h] by simp
  have "unat x < 0x80400000" if x: "x \<in> set (low_run kend)" for x
  proof -
    let ?n = "(0x80400000 - unat (PGROUNDUP kend)) div 4096"
    obtain i where i: "i < ?n" "x = PGROUNDUP kend + of_nat i * PGSIZE" using x by (auto simp: low_run_def page_run_def)
    have "unat x = unat (PGROUNDUP kend) + 4096 * i" unfolding i(2) by (rule unat_page_run [of _ ?n]) (use f(1) i(1) in simp_all)
    then show ?thesis using f(1) i(1) by simp
  qed
  moreover have "0x80400000 \<le> unat x" if x: "x \<in> set high_run" for x
  proof -
    obtain i where i: "i < 0xDC00" "x = 0x80400000 + of_nat i * PGSIZE" using x unfolding high_run_def page_run_def by (simp only: set_map set_upt) (erule imageE, simp)
    have "unat x = unat (0x80400000 :: u32) + 4096 * i" unfolding i(2) by (rule unat_page_run [of _ "0xDC00"]) (use i(1) in simp_all)
    then show ?thesis by simp
  qed
  ultimately show "set (low_run kend) \<inter> set high_run = {}" by fastforce
qed

text \<open>The two calls that fill the free list, and the kernel's own page table between them.\<close>

lemma kinit1_low:
  assumes "lockset [] s" "freelist s = 0" "kend_ok kend"
  shows "returns (kinit1 kend kend (p2v 0x400000) s) (\<lambda>t. kmem_inv kend (rev (low_run kend)) t \<and> lockset [] t \<and>
     kmem_st.more t = kmem_st.more s \<and> pages_only (set (low_run kend)) (mem s) (mem t))"
proof -
  note r = roundup_kend [OF assms(3)] and f = low_run_fits [OF assms(3)]
  let ?n = "(0x80400000 - unat (PGROUNDUP kend)) div 4096"
  let ?s = "(initlock LKmem s)\<lparr>use_lock := False\<rparr>"
  have i: "lockset [] ?s" "kmem_inv kend [] ?s" "kmem_st.more ?s = kmem_st.more s" "mem ?s = mem s"
    using assms(1,2) by (auto simp: lockset_def initlock_def kmem_inv_def)
  have n: "?n < 2 ^ 20" using r(3) by simp
  have e: "unat (p2v 0x400000) \<le> unat (p2v PHYSTOP)" "unat (PGROUNDUP kend) + 4096 * ?n \<le> unat (p2v 0x400000)"
    "unat (p2v 0x400000) < unat (PGROUNDUP kend) + 4096 * (?n + 1)" using f(1) by (simp_all add: top_unat)
  show ?thesis
    using freerange_loop_pages [OF n e, of kend "[]" "[]" ?s] i run_pages(1) [OF assms(3)]
    by (auto simp: kinit1_def freerange_def Let_def pages_only_def low_run_def elim!: returns_mono)
qed

lemma kinit2_high:
  assumes "lockset [] s" "kmem_inv kend xs s" "set xs \<subseteq> set (low_run kend)" "kend_ok kend"
  shows "returns (kinit2 kend (p2v 0x400000) (p2v PHYSTOP) s) (\<lambda>t. kmem_inv kend (rev high_run @ xs) t \<and> lockset [] t \<and>
     kmem_st.more t = kmem_st.more s \<and> pages_only (set high_run) (mem s) (mem t))"
proof -
  have e: "(0xDC00 :: nat) < 2 ^ 20" "unat (p2v PHYSTOP) \<le> unat (p2v PHYSTOP)" "unat (0x80400000 :: u32) + 4096 * 0xDC00 \<le> unat (p2v PHYSTOP)"
    "unat (p2v PHYSTOP) < unat (0x80400000 :: u32) + 4096 * (0xDC00 + 1)" by (simp_all add: top_unat)
  have u: "PGROUNDUP (p2v 0x400000) = 0x80400000" by (simp add: PGROUNDUP_def p2v_def KERNBASE_def PGSIZE_def)
  have d: "\<forall>x\<in>set (page_run 0x80400000 0xDC00). page_ok kend x \<and> x \<notin> set xs"
    using run_pages(2,3) [OF assms(4)] assms(3) unfolding high_run_def by auto
  have "returns (freerange kend (p2v 0x400000) (p2v PHYSTOP) s) (\<lambda>t. kmem_inv kend (rev high_run @ xs) t \<and> lockset [] t \<and>
     kmem_st.more t = kmem_st.more s \<and> pages_only (set high_run) (mem s) (mem t))"
    unfolding freerange_def u pages_only_def high_run_def
    by (rule returns_mono [OF freerange_loop_pages [OF e d assms(1) _ assms(2)]]) auto
  then show ?thesis unfolding kinit2_def returns_kbind
    by (rule returns_mono) (auto simp: kmem_inv_def lockset_def)
qed

lemma kvmalloc_maps:
  fixes s :: "'a vm_st_scheme"
  assumes "lockset [] s" "kmem_inv kend xs s" "kdata_ok kdata" "513 < length xs"
  shows "returns (kvmalloc kdata s) (\<lambda>t. lockset [] t \<and> vm_st.more t = vm_st.more s \<and> pages_only (set xs) (mem s) (mem t) \<and>
     (\<exists>ys. kmem_inv kend ys t \<and> set ys \<subseteq> set xs \<and> fresh_space kend kdata xs ys (kpgdir t) t))"
proof -
  obtain d t ys where t: "setupkvm kdata s = Inr (d, t)" "lockset [] t" "kmem_st.more t = kmem_st.more s" "pages_only (set xs) (mem s) (mem t)"
    "set ys \<subseteq> set xs" "fresh_space kend kdata xs ys d t"
    using setupkvm_fresh [OF assms(2,1) _ assms(3)] assms(4) by (auto elim!: returnsE)
  let ?t = "switchkvm (t\<lparr>kpgdir := d\<rparr>)"
  have m: "mem ?t = mem t" "freelist ?t = freelist t" "kpgdir ?t = d" by (simp_all add: switchkvm_def)
  have "vm_st.more t = vm_st.more s" using t(3) by (cases t; cases s; simp)
  moreover have "lockset [] ?t" using t(2) by (simp add: switchkvm_def lockset_def)
  moreover have "fresh_space kend kdata xs ys (kpgdir ?t) ?t" using t(6) vm_inv_same [OF m(1,2)] m by (simp add: fresh_space_def)
  moreover have "kmem_inv kend ys ?t" using t(6) m by (auto simp: fresh_space_def kmem_inv_def dest: vm_inv_space(1))
  ultimately show ?thesis using t(1,4,5) m(1) by (auto simp: kvmalloc_def switchkvm_def)
qed

section \<open>The other components\<close>

text \<open>What an initialisation of a device leaves alone.\<close>

definition same_kernel :: "'a hw_st_scheme \<Rightarrow> 'a hw_st_scheme \<Rightarrow> bool" where
  "same_kernel s t \<longleftrightarrow> mem t = mem s \<and> freelist t = freelist s \<and> kpgdir t = kpgdir s \<and> procs t = procs s \<and> nextpid t = nextpid s \<and> inodes t = inodes s \<and>
     crt t = crt s \<and> crt_pos t = crt_pos s \<and> panicked t = panicked s \<and> ncpu t = ncpu s \<and> ismp t = ismp s \<and> lapic t = lapic s"

lemma same_kernel_trans: "same_kernel s t \<Longrightarrow> same_kernel t u \<Longrightarrow> same_kernel s u"
  by (simp add: same_kernel_def)

definition quiet :: "('a hw_st_scheme \<Rightarrow> 'a hw_st_scheme) \<Rightarrow> bool" where
  "quiet f \<longleftrightarrow> (\<forall>s. lockset [] s \<longrightarrow> \<not> ismp s \<longrightarrow> lockset [] (f s) \<and> same_kernel s (f s))"

lemma quietI: "(\<And>s. lockset [] s \<Longrightarrow> \<not> ismp s \<Longrightarrow> lockset [] (f s) \<and> same_kernel s (f s)) \<Longrightarrow> quiet f"
  by (simp add: quiet_def)

lemma quietD: "quiet f \<Longrightarrow> lockset [] s \<Longrightarrow> \<not> ismp s \<Longrightarrow> lockset [] (f s)" "quiet f \<Longrightarrow> lockset [] s \<Longrightarrow> \<not> ismp s \<Longrightarrow> same_kernel s (f s)"
  by (simp_all add: quiet_def)

lemma quiet_o:
  fixes f g :: "'a hw_st_scheme \<Rightarrow> 'a hw_st_scheme"
  assumes "quiet f" "quiet g"
  shows "quiet (\<lambda>s. g (f s))"
proof (rule quietI)
  fix s :: "'a hw_st_scheme" assume "lockset [] s" "\<not> ismp s"
  then have f: "lockset [] (f s)" "same_kernel s (f s)" "\<not> ismp (f s)" using quietD [OF assms(1), of s] by (auto simp: same_kernel_def)
  show "lockset [] (g (f s)) \<and> same_kernel s (g (f s))"
    using quietD [OF assms(2) f(1,3)] same_kernel_trans [OF f(2)] by blast
qed

lemma uartputc_out: "\<exists>z. fold (\<lambda>c. uartputc (ucast c)) cs s = s\<lparr>uart_out := z\<rparr>"
proof (induction cs arbitrary: s)
  case Nil
  show ?case by (intro exI [of _ "uart_out s"]) simp
next
  case (Cons c cs)
  obtain y where "uartputc (ucast c) s = s\<lparr>uart_out := y\<rparr>" using uartputc_ok by blast
  then show ?case using Cons [of "s\<lparr>uart_out := y\<rparr>"] by simp
qed

lemma quiet_outb: "quiet (outb p v)"
  by (rule quietI) (simp add: outb_def same_kernel_def lockset_def)

lemma quiet_picenable: "quiet (picenable irq)"
  by (rule quietI) (simp add: picenable_def picsetmask_def outb_def same_kernel_def lockset_def)

lemma outb_only: "\<exists>z. t = s\<lparr>outs := z\<rparr> \<Longrightarrow> \<exists>z. outb p v t = s\<lparr>outs := z\<rparr>"
  by (auto simp: outb_def)

lemma quiet_picsetmask: "quiet (picsetmask m)"
  by (rule quietI) (simp add: picsetmask_def outb_def same_kernel_def lockset_def)

lemma quiet_out_only: "(\<And>s. \<exists>z. f s = s\<lparr>outs := z\<rparr>) \<Longrightarrow> quiet f"
proof (rule quietI)
  fix s :: "'a hw_st_scheme"
  assume "\<And>s. \<exists>z. f s = s\<lparr>outs := z\<rparr>" "lockset [] s"
  moreover from this(1) obtain z where "f s = s\<lparr>outs := z\<rparr>" by blast
  ultimately show "lockset [] (f s) \<and> same_kernel s (f s)" by (simp add: same_kernel_def lockset_def)
qed

lemma quiet_picinit: "quiet picinit"
proof (rule quietI)
  fix s :: "'a hw_st_scheme" assume s: "lockset [] s" "\<not> ismp s"
  have "s = s\<lparr>outs := outs s\<rparr>" by simp
  then have "\<exists>z. s = s\<lparr>outs := z\<rparr>" by blast
  then obtain z where z: "picinit s = (if irqmask (s\<lparr>outs := z\<rparr>) \<noteq> 0xFFFF then picsetmask (irqmask (s\<lparr>outs := z\<rparr>)) (s\<lparr>outs := z\<rparr>) else s\<lparr>outs := z\<rparr>)"
    unfolding picinit_def Let_def using outb_only by metis
  have "lockset [] (s\<lparr>outs := z\<rparr>)" "\<not> ismp (s\<lparr>outs := z\<rparr>)" "same_kernel s (s\<lparr>outs := z\<rparr>)" using s by (simp_all add: lockset_def same_kernel_def)
  then show "lockset [] (picinit s) \<and> same_kernel s (picinit s)"
    using quietD [OF quiet_picsetmask, of "s\<lparr>outs := z\<rparr>" "irqmask s"] same_kernel_trans [of s "s\<lparr>outs := z\<rparr>"] unfolding z by auto
qed

lemma quiet_ioapicenable: "quiet (ioapicenable irq c)"
  by (rule quietI) (simp add: ioapicenable_def same_kernel_def)

lemma quiet_initlock: "quiet (initlock lk)"
  by (rule quietI) (auto simp: initlock_def same_kernel_def lockset_def)

lemma quiet_consoleinit: "quiet consoleinit"
  by (rule quietI) (auto simp: consoleinit_def initlock_def same_kernel_def lockset_def)

lemma quiet_uartinit: "quiet (uartinit lsr)"
proof (rule quietI)
  fix s :: "'a hw_st_scheme" assume "lockset [] s"
  moreover obtain z where "fold (\<lambda>c. uartputc (ucast c)) (bytes ''xv6...'' @ [10]) (s\<lparr>uart := True\<rparr>) = s\<lparr>uart := True, uart_out := z\<rparr>"
    using uartputc_out by blast
  ultimately show "lockset [] (uartinit lsr s) \<and> same_kernel s (uartinit lsr s)"
    by (simp add: uartinit_def same_kernel_def lockset_def)
qed

lemma quiet_binit: "quiet binit"
  by (rule quietI) (auto simp: binit_def upd_buf_def initlock_def same_kernel_def lockset_def Let_def)

lemma quiet_timerinit: "quiet timerinit"
  using quiet_o [OF quiet_o [OF quiet_o [OF quiet_outb quiet_outb] quiet_outb] quiet_picenable] by (simp add: timerinit_def [abs_def] Let_def)

lemma quiet_ideinit: "quiet (ideinit st)"
  by (rule quietI) (auto simp: ideinit_def initlock_def same_kernel_def lockset_def Let_def)

lemma quiet_uart_setup: "quiet uart_setup"
proof (rule quiet_out_only)
  fix s :: "'a hw_st_scheme"
  have "s = s\<lparr>outs := outs s\<rparr>" by simp
  then have "\<exists>z. s = s\<lparr>outs := z\<rparr>" by blast
  then show "\<exists>z. uart_setup s = s\<lparr>outs := z\<rparr>" unfolding uart_setup_def Let_def by (intro outb_only)
qed

lemma quiet_console: "quiet consoleinit_irq"
  using quiet_o [OF quiet_o [OF quiet_consoleinit quiet_picenable] quiet_ioapicenable] by (simp add: consoleinit_irq_def [abs_def])

lemma quiet_uart: "quiet (uartinit_irq lsr)"
proof (cases "lsr = 0xFF")
  case True
  then show ?thesis using quiet_uart_setup by (simp add: uartinit_irq_def [abs_def] Let_def)
next
  case False
  then show ?thesis
    using quiet_o [OF quiet_o [OF quiet_o [OF quiet_uart_setup quiet_picenable] quiet_ioapicenable] quiet_uartinit]
    by (simp add: uartinit_irq_def [abs_def] Let_def)
qed

lemma quiet_locks: "quiet pinit" "quiet tvinit" "quiet fileinit" "quiet iinit"
  using quiet_initlock by (simp_all add: pinit_def [abs_def] tvinit_def [abs_def] fileinit_def [abs_def] iinit_def [abs_def])

lemma quiet_before_disk: "quiet (\<lambda>s. iinit (fileinit (binit (tvinit (pinit (uartinit_irq l (consoleinit_irq (picinit s))))))))"
  by (rule quiet_o [OF quiet_o [OF quiet_o [OF quiet_o [OF quiet_o [OF quiet_o [OF quiet_o [OF quiet_picinit quiet_console] quiet_uart]
    quiet_locks(1)] quiet_locks(2)] quiet_binit] quiet_locks(3)] quiet_locks(4)])

lemma quiet_disk: "quiet (\<lambda>u. timerinit (outb p v (ideinit st (outb q w (ioapicenable IRQ_IDE c (picenable IRQ_IDE u))))))"
  by (rule quiet_o [OF quiet_o [OF quiet_o [OF quiet_o [OF quiet_o [OF quiet_picenable quiet_ioapicenable] quiet_outb] quiet_ideinit] quiet_outb] quiet_timerinit])

lemma timerinit_ismp: "ismp (timerinit s) = ismp s"
  by (simp add: timerinit_def picenable_def picsetmask_def outb_def Let_def)

lemma main_devices_returns:
  fixes s :: "'a dev_st_scheme"
  assumes "lockset [] s" "\<not> ismp s" "idewait False (e_ide0 env) \<noteq> None"
  shows "returns (main_devices env s) (\<lambda>t. lockset [] t \<and> same_kernel s t)"
proof -
  obtain r where w: "idewait False (e_ide0 env) = Some r" using assms(3) by auto
  define s1 where "s1 = iinit (fileinit (binit (tvinit (pinit (uartinit_irq (e_lsr env) (consoleinit_irq (picinit s)))))))"
  note q1 = quietD [OF quiet_before_disk assms(1,2), of "e_lsr env", folded s1_def]
  define s2 where "s2 = outb 0x1F6 0xE0 (ideinit (e_ide1 env) (outb 0x1F6 (0xE0 OR push_bit 4 1) (ioapicenable IRQ_IDE (of_nat (ncpu s1) - 1) (picenable IRQ_IDE s1))))"
  have ni: "\<not> ismp s1" using q1(2) assms(2) by (simp add: same_kernel_def)
  note q2 = quietD [OF quiet_disk q1(1) ni, of "0x1F6" "0xE0" "e_ide1 env" "0x1F6" "0xE0 OR push_bit 4 1" "of_nat (ncpu s1) - 1", folded s2_def]
  have "\<not> ismp (picinit s)" using quietD(2) [OF quiet_picinit assms(1,2)] assms(2) by (simp add: same_kernel_def)
  then have "ioapicinit (picinit s) = Inr (picinit s)" by (simp add: ioapicinit_def)
  moreover have "\<not> ismp s2" using q2(2) ni by (simp add: same_kernel_def timerinit_ismp)
  moreover have "ideinit_irq (e_ide0 env) (e_ide1 env) s1 = Inr s2" using w by (simp add: ideinit_irq_def Let_def s2_def)
  ultimately have eq: "main_devices env s = Inr (timerinit s2)" unfolding main_devices_def Let_def by (simp add: s1_def [symmetric])
  show ?thesis unfolding eq returns_Inr using q2(1) same_kernel_trans [OF q1(2) q2(2)] by blast
qed

section \<open>From the page table to the other processors\<close>

definition kept :: "'a hw_st_scheme \<Rightarrow> 'a hw_st_scheme \<Rightarrow> bool" where
  "kept s t \<longleftrightarrow> mem t = mem s \<and> freelist t = freelist s \<and> kpgdir t = kpgdir s \<and> procs t = procs s \<and> nextpid t = nextpid s \<and> inodes t = inodes s \<and>
     ncpu t = ncpu s \<and> ismp t = ismp s \<and> lapic t = lapic s \<and> screen_ok t"

lemma kept_trans: "kept s t \<Longrightarrow> kept t u \<Longrightarrow> kept s u"
  by (simp add: kept_def)

lemma prints_kept: "prints [] s t \<Longrightarrow> screen_ok s \<Longrightarrow> kept s t" for s t :: "'a hw_st_scheme"
proof -
  assume p: "prints [] s t" "screen_ok s"
  have "freelist t = freelist s \<and> kpgdir t = kpgdir s \<and> nextpid t = nextpid s \<and> inodes t = inodes s \<and> procs t = procs s"
    using p(1) by (cases s; cases t; simp add: prints_def screen_rest_def)
  then show ?thesis using prints_hw_fields [OF p(1)] screen_ok_prints [OF p] by (simp add: kept_def)
qed

lemma same_kept: "same_kernel s t \<Longrightarrow> lockset [] t \<Longrightarrow> screen_ok s \<Longrightarrow> kept s t"
  by (auto simp: same_kernel_def kept_def screen_ok_def crt_ok_def)

lemma cpunum_one:
  fixes s :: "'a dev_st_scheme"
  assumes "screen_ok s" "lapic s = 0"
  shows "returns (cpunum ra r s) (\<lambda>(n, t). n = 0 \<and> kept s t)"
proof (cases "IF s \<and> warned s = 0")
  case True
  let ?s = "s\<lparr>warned := 1\<rparr>"
  have k: "screen_ok ?s" "kept s ?s" using assms(1) by (simp_all add: screen_ok_def kept_def crt_ok_def lockset_def)
  then have "returns (cprintf (bytes ''cpu called from %x with interrupts enabled'' @ [10]) [AInt ra] ?s) (prints [] ?s)"
    by (auto intro!: cprintf_ok simp: screen_ok_def bytes_def)
  then obtain t where "cprintf (bytes ''cpu called from %x with interrupts enabled'' @ [10]) [AInt ra] ?s = Inr t" "kept ?s t"
    using prints_kept k(1) by (auto elim!: returnsE)
  moreover from this(2) have "kept s t" "lapic t = 0" using kept_trans [OF k(2)] assms(2) by (auto simp: kept_def)
  ultimately show ?thesis using True by (simp add: cpunum_def Let_def)
next
  case False
  have "kept s s" "kept s (s\<lparr>warned := Suc n\<rparr>)" for n using assms(1) by (simp_all add: screen_ok_def kept_def crt_ok_def lockset_def)
  then show ?thesis using False assms(2) by (auto simp: cpunum_def Let_def)
qed

lemma seginit_one:
  fixes s :: "'a dev_st_scheme"
  assumes "screen_ok s" "lapic s = 0"
  shows "returns (seginit ra ca r s) (kept s)"
proof -
  obtain t where t: "cpunum ra r s = Inr (0, t)" "kept s t" using cpunum_one [OF assms] by (auto elim!: returnsE)
  then show ?thesis by (auto simp: seginit_def NCPU_def kept_def screen_ok_def crt_ok_def lockset_def)
qed

lemma mpinit_none:
  assumes "mpsearch (mem s) = 0" "screen_ok s"
  shows "returns (mpinit imcr s) (kept s)"
  using assms by (simp add: mpinit_def mpconfig_def Let_def kept_def)

definition boot_ok :: "boot_env \<Rightarrow> 'a dev_st_scheme \<Rightarrow> bool" where
  "boot_ok env s \<longleftrightarrow> screen_ok s \<and> freelist s = 0 \<and> kend_ok (k_end (e_syms env)) \<and> kdata_ok (k_data (e_syms env)) \<and>
     length (k_initcode (e_syms env)) < 4096 \<and> no_mp (k_end (e_syms env)) (mem s) \<and> \<not> ismp s \<and> lapic s = 0 \<and> ncpu s = 0 \<and>
     idewait False (e_ide0 env) \<noteq> None \<and> e_other_size env \<le> PGSIZE \<and> unat (e_other env) + unat (e_other_size env) < 2 ^ 32 \<and>
     procs s \<noteq> [] \<and> (\<forall>p \<in> set (procs s). p_state p = UNUSED) \<and> inodes s \<noteq> [] \<and> (\<forall>q \<in> set (inodes s). i_ref q = 0)"

text \<open>What the kernel has when it has set up its page table: the free list, its page table, and the rest as it was.\<close>

definition mapped_kernel :: "boot_env \<Rightarrow> 'a dev_st_scheme \<Rightarrow> u32 list \<Rightarrow> 'a dev_st_scheme \<Rightarrow> bool" where
  "mapped_kernel env s ys t \<longleftrightarrow> fresh_space (k_end (e_syms env)) (k_data (e_syms env)) (rev (low_run (k_end (e_syms env)))) ys (kpgdir t) t \<and>
     screen_ok t \<and> procs t = procs s \<and> nextpid t = nextpid s \<and> inodes t = inodes s \<and> ncpu t = 0 \<and> \<not> ismp t \<and> lapic t = 0"

lemma boot_memory:
  fixes s :: "'a dev_st_scheme"
  assumes "boot_ok env s"
  shows "returns (kbind (kinit1 (k_end (e_syms env)) (k_end (e_syms env)) (p2v 0x400000) s) (kvmalloc (k_data (e_syms env))))
     (\<lambda>t. (\<exists>ys. mapped_kernel env s ys t) \<and> mpsearch (mem t) = 0)"
proof -
  let ?kend = "k_end (e_syms env)" and ?kd = "k_data (e_syms env)"
  have s: "lockset [] s" "freelist s = 0" "kend_ok ?kend" "kdata_ok ?kd" "crt_ok s" "\<not> panicked s"
    using assms by (simp_all add: boot_ok_def screen_ok_def)
  obtain a where a: "kinit1 ?kend ?kend (p2v 0x400000) s = Inr a" "kmem_inv ?kend (rev (low_run ?kend)) a" "lockset [] a"
    "kmem_st.more a = kmem_st.more s" "pages_only (set (low_run ?kend)) (mem s) (mem a)"
    using kinit1_low [OF s(1-3)] by (auto elim!: returnsE)
  have len: "513 < length (rev (low_run ?kend))" using low_run_fits(2) [OF s(3)] by simp
  obtain t ys where t: "kvmalloc ?kd a = Inr t" "lockset [] t" "vm_st.more t = vm_st.more a" "pages_only (set (low_run ?kend)) (mem a) (mem t)"
    "fresh_space ?kend ?kd (rev (low_run ?kend)) ys (kpgdir t) t"
    using kvmalloc_maps [OF a(3,2) s(4) len] by (auto elim!: returnsE)
  have "vm_st.more t = vm_st.more s" using t(3) a(4) by (cases a; cases s; simp)
  then have f: "procs t = procs s" "nextpid t = nextpid s" "inodes t = inodes s" "ncpu t = ncpu s" "ismp t = ismp s" "lapic t = lapic s"
    "crt t = crt s" "crt_pos t = crt_pos s" "panicked t = panicked s" by (cases s; cases t; simp)+
  have "agree_below ?kend (mem s) (mem t)"
    using pages_agree [OF pages_only_trans [OF a(5) t(4)] run_pages(1) [OF s(3)] roundup_kend(5) [OF s(3)]] .
  then have "mpsearch (mem t) = 0" using assms by (simp add: boot_ok_def no_mp_def)
  moreover have "mapped_kernel env s ys t" using t(2,5) f s(5,6) assms by (simp add: mapped_kernel_def screen_ok_def crt_ok_def boot_ok_def)
  ultimately show ?thesis using a(1) t(1) by auto
qed

lemma boot_devices:
  fixes s :: "'a dev_st_scheme"
  assumes "screen_ok s" "mpsearch (mem s) = 0" "lapic s = 0" "\<not> ismp s" "idewait False (e_ide0 env) \<noteq> None"
  obtains a b c d where "mpinit (e_imcr env) s = Inr a" "lapicinit (e_lapic env) a = Inr a" "seginit (e_ra env) (e_cpu_addr env) (e_lapic env) a = Inr b"
    "cprintf ([10] @ bytes ''cpu%d: starting xv6'' @ [10, 10]) [AInt (of_nat (cpu_id (cpu b)))] b = Inr c" "main_devices env c = Inr d" "kept s d"
proof -
  obtain a where a: "mpinit (e_imcr env) s = Inr a" "kept s a" using mpinit_none [OF assms(2,1)] by (auto elim!: returnsE)
  then have fa: "screen_ok a" "lapic a = 0" using assms(3) by (simp_all add: kept_def)
  then have la: "lapicinit (e_lapic env) a = Inr a" by (simp add: lapicinit_def)
  obtain b where b: "seginit (e_ra env) (e_cpu_addr env) (e_lapic env) a = Inr b" "kept a b" using seginit_one [OF fa, of "e_ra env" "e_cpu_addr env" "e_lapic env"] by (auto elim!: returnsE)
  then have sb: "screen_ok b" by (simp add: kept_def)
  let ?fmt = "[10] @ bytes ''cpu%d: starting xv6'' @ [10, 10]" and ?args = "[AInt (of_nat (cpu_id (cpu b)))]"
  have "cprintf_chars ?fmt ?args \<noteq> None" by (simp add: bytes_def)
  then have "returns (cprintf ?fmt ?args b) (prints [] b)" using sb by (intro cprintf_ok) (simp_all add: screen_ok_def)
  then obtain c where c: "cprintf ?fmt ?args b = Inr c" "kept b c" using prints_kept [OF _ sb] by (auto elim!: returnsE)
  have k: "kept s c" by (rule kept_trans [OF a(2) kept_trans [OF b(2) c(2)]])
  then have fc: "lockset [] c" "\<not> ismp c" "screen_ok c" using assms(4) by (auto simp: kept_def screen_ok_def)
  obtain d where d: "main_devices env c = Inr d" "lockset [] d" "same_kernel c d" using main_devices_returns [OF fc(1,2) assms(5)] by (auto elim!: returnsE)
  have "kept s d" by (rule kept_trans [OF k same_kept [OF d(3,2) fc(3)]])
  then show ?thesis using that [OF a(1) la b(1) c(1) d(1)] by blast
qed

lemma startothers_alone:
  fixes s :: "'a dev_st_scheme"
  assumes "ncpu s = 0" "e_other_size env \<le> PGSIZE" "unat (e_other env) + unat (e_other_size env) < 2 ^ 32"
  obtains t where "startothers env s = Inr (s\<lparr>mem := t\<rparr>)" "page_only OTHER_CODE (mem s) t"
proof -
  have n: "unat (e_other_size env) \<le> 4096" using assms(2) by (simp add: PGSIZE_def word_le_nat_alt)
  then have "memmove OTHER_CODE (e_other env) (e_other_size env) (mem s) = moved OTHER_CODE (e_other env) (unat (e_other_size env)) (mem s)"
    by (intro memmove_moved [OF assms(3)]) (simp add: OTHER_CODE_def)
  then have "page_only OTHER_CODE (mem s) (memmove OTHER_CODE (e_other env) (e_other_size env) (mem s))"
    using n by (simp add: page_only_def moved_def PGSIZE_def word_le_nat_alt)
  then show ?thesis using that assms(1) by (simp add: startothers_def)
qed

section \<open>The first choice of the scheduler\<close>

lemma popcli_more: "popcli s = Inr t \<Longrightarrow> mach.more t = mach.more s"
  by (auto simp: popcli_def Let_def kpanic_def split: if_splits)

lemma lock_more: "acquire lk s = Inr t \<Longrightarrow> mach.more t = mach.more s" "release lk s = Inr t \<Longrightarrow> mach.more t = mach.more s"
  by (auto simp: acquire_def release_def pushcli_def Let_def kpanic_def dest!: popcli_more split: if_splits)

definition kernel_fields :: "'a proc_st_scheme \<Rightarrow> 'a proc_st_scheme \<Rightarrow> bool" where
  "kernel_fields s t \<longleftrightarrow> mem t = mem s \<and> freelist t = freelist s \<and> kpgdir t = kpgdir s \<and> initproc t = initproc s \<and> proc_st.more t = proc_st.more s"

lemma more_fields: "mach.more t = mach.more s \<Longrightarrow> kernel_fields s t" for s t :: "'a proc_st_scheme"
  by (cases s; cases t; simp add: kernel_fields_def)

lemma switchuvm_fields: "switchuvm p s = Inr t \<Longrightarrow> kernel_fields s t"
  by (auto simp: switchuvm_def Let_def kpanic_def pushcli_def kernel_fields_def dest!: popcli_more [THEN more_fields] split: option.splits if_splits)

lemma scheduler_fields:
  assumes "scheduler s = Inr (r, t)"
  shows "kernel_fields s t"
proof -
  obtain u where u: "acquire LPtable (s\<lparr>IF := True\<rparr>) = Inr u" "scheduler_from 0 u = Inr (r, t)" using assms by (auto simp: scheduler_def kbind_Inr)
  have "kernel_fields s u" using more_fields [OF lock_more(1) [OF u(1)]] by (simp add: kernel_fields_def)
  moreover have "kernel_fields u t"
  proof (cases "List.find (\<lambda>p. p_state (procs u ! p) = RUNNABLE) [0..<length (procs u)]")
    case None
    then show ?thesis using u(2) by (auto simp: scheduler_from_def kbind_Inr dest!: lock_more(2) [THEN more_fields])
  next
    case (Some p)
    let ?hp = "sched_pick (procs u) p"
    obtain v where v: "switchuvm ?hp (u\<lparr>curproc := Some ?hp\<rparr>) = Inr v" "t = upd_proc ?hp (p_state_update (\<lambda>_. RUNNING)) v"
      using u(2) Some by (auto simp: scheduler_from_def Let_def kbind_Inr)
    show ?thesis using switchuvm_fields [OF v(1)] by (simp add: v(2) kernel_fields_def upd_proc_def)
  qed
  ultimately show ?thesis by (simp add: kernel_fields_def)
qed

lemma mpmain_first:
  fixes s :: "'a dev_st_scheme"
  assumes "screen_ok s" "procs s \<noteq> []" "p_state (procs s ! 0) = RUNNABLE" "p_pgdir (procs s ! 0) \<noteq> 0" "\<forall>p \<in> set (tl (procs s)). p_state p = UNUSED"
  shows "returns (mpmain s) (\<lambda>(r, t). r = Some 0 \<and> lockset [LPtable] t \<and> curproc t = Some 0 \<and> cr3 t = v2p (p_pgdir (procs s ! 0)) \<and>
     ts_esp0 t = p_kstack (procs s ! 0) + KSTACKSIZE \<and> procs t = (procs s)[0 := (procs s ! 0)\<lparr>p_state := RUNNING\<rparr>] \<and>
     mem t = mem s \<and> freelist t = freelist s \<and> kpgdir t = kpgdir s \<and> initproc t = initproc s \<and> inodes t = inodes s)"
proof -
  let ?fmt = "bytes ''cpu%d: starting'' @ [10]" and ?args = "[AInt (of_nat (cpu_id (cpu s)))]"
  have "cprintf_chars ?fmt ?args \<noteq> None" by (simp add: bytes_def)
  then have "returns (cprintf ?fmt ?args s) (prints [] s)" using assms(1) by (intro cprintf_ok) (simp_all add: screen_ok_def)
  then obtain u where u: "cprintf ?fmt ?args s = Inr u" "prints [] s u" by (auto elim!: returnsE)
  have "initproc u = initproc s" using u(2) by (cases s; cases u; simp add: prints_def screen_rest_def)
  then have fu: "procs u = procs s" "mem u = mem s" "freelist u = freelist s" "kpgdir u = kpgdir s" "inodes u = inodes s" "initproc u = initproc s" "lockset [] u"
    using prints_kept [OF u(2) assms(1)] by (simp_all add: kept_def screen_ok_def)
  let ?w = "u\<lparr>started := (started u)[cpu_id (cpu u) := True]\<rparr>"
  let ?v = "?w\<lparr>IF := True\<rparr>"
  have lv: "lockset [] ?v" using fu(7) by (auto simp: lockset_def)
  have a: "acquire LPtable ?v = Inr (acq LPtable ?v)" "lockset [LPtable] (acq LPtable ?v)" using acquire_acq [OF lv, of LPtable] by auto
  have pa: "procs (acq LPtable ?v) = procs s" using fu(1) by (simp add: acq_def pushcli_def Let_def)
  have other: "q = 0" if "q < length (procs s)" "p_state (procs s ! q) = RUNNABLE" for q
    using that assms(5) by (cases q) (auto simp: nth_tl [symmetric])
  obtain r t where t: "scheduler_from 0 (acq LPtable ?v) = Inr (r, t)" "r = Some 0" "lockset [LPtable] t" "curproc t = Some 0" "cr3 t = v2p (p_pgdir (procs s ! 0))"
    "ts_esp0 t = p_kstack (procs s ! 0) + KSTACKSIZE" "procs t = (procs s)[0 := (procs s ! 0)\<lparr>p_state := RUNNING\<rparr>]"
    using scheduler_from_dispatch [OF a(2), of 0 0] assms(2-4) other unfolding pa by (fastforce elim!: returnsE)
  have run: "scheduler ?w = Inr (Some 0, t)" using a(1) t(1,2) by (simp add: scheduler_def)
  have k: "kernel_fields ?w t" by (rule scheduler_fields [OF run])
  have "inodes t = inodes ?w" using k by (cases t; cases ?w; simp add: kernel_fields_def)
  then show ?thesis using u(1) run t(3-7) k fu(2-6) by (simp add: mpmain_def kernel_fields_def)
qed

section \<open>The start as a whole\<close>

definition kernel_mapped :: "u32 \<Rightarrow> mem \<Rightarrow> u32 \<Rightarrow> bool" where
  "kernel_mapped kdata m pd \<longleftrightarrow> (\<forall>k \<in> set (kmap kdata). \<forall>vb. kcovers k vb \<longrightarrow> pte m pd vb = kpte k vb)"

text \<open>A page table is the same after changes in other pages.\<close>

lemma kernel_mapped_frame:
  assumes "fresh_space kend kdata xs ys pd s" "pages_only K (mem s) m" "\<forall>x \<in> K. x mod PGSIZE = 0" "K \<inter> space (mem s) pd = {}"
  shows "kernel_mapped kdata m pd"
proof -
  have v: "vm_inv kend ys pd s" using assms(1) by (simp add: fresh_space_def)
  have "pages_only K (mem s) (mem (s\<lparr>mem := m\<rparr>))" "pd \<notin> K" "tabs (mem s) pd \<inter> K = {}" using assms(2,4) by (auto simp: space_def)
  then have "pte m pd va = pte (mem s) pd va" for va using dir_frame(1) [OF _ assms(3) vm_inv_space(5) [OF v], of "s\<lparr>mem := m\<rparr>" va] by simp
  then show ?thesis using assms(1) by (simp add: kernel_mapped_def fresh_space_def)
qed

lemma other_code:
  assumes "kend_ok kend"
  shows "OTHER_CODE mod PGSIZE = 0" "\<not> page_ok kend OTHER_CODE"
  using assms by (auto simp: OTHER_CODE_def PGSIZE_def page_ok_def kend_ok_def word_le_nat_alt)

text \<open>All free memory, from the end of the start of the other processors on.\<close>

lemma boot_free_list:
  fixes d :: "'a dev_st_scheme"
  assumes "boot_ok env s" "mapped_kernel env s ys m1" "kept m1 d"
  obtains m f x xs where "startothers env d = Inr (d\<lparr>mem := m\<rparr>)" "kinit2 (k_end (e_syms env)) (p2v 0x400000) (p2v PHYSTOP) (d\<lparr>mem := m\<rparr>) = Inr f"
    "kmem_inv (k_end (e_syms env)) (x # xs) f" "1026 < length xs" "lockset [] f" "kmem_st.more f = kmem_st.more d"
    "pages_only (insert OTHER_CODE (set high_run)) (mem m1) (mem f)" "set (x # xs) = set high_run \<union> set ys"
proof -
  let ?kend = "k_end (e_syms env)"
  have b: "kend_ok ?kend" "e_other_size env \<le> PGSIZE" "unat (e_other env) + unat (e_other_size env) < 2 ^ 32" using assms(1) by (simp_all add: boot_ok_def)
  have fs: "vm_inv ?kend ys (kpgdir m1) m1" "space (mem m1) (kpgdir m1) \<union> set ys = set (low_run ?kend)"
    using assms(2) by (simp_all add: mapped_kernel_def fresh_space_def)
  have d: "mem d = mem m1" "freelist d = freelist m1" "ncpu d = 0" "lockset [] d" using assms(2,3) by (simp_all add: kept_def mapped_kernel_def screen_ok_def)
  obtain m where m: "startothers env d = Inr (d\<lparr>mem := m\<rparr>)" "page_only OTHER_CODE (mem d) m" using startothers_alone [OF d(3) b(2,3)] by blast
  have km: "kmem_inv ?kend ys m1" by (rule vm_inv_space(1) [OF fs(1)])
  have "OTHER_CODE \<notin> set ys" using km other_code(2) [OF b(1)] by (auto simp: kmem_inv_def)
  then have ke: "kmem_inv ?kend ys (d\<lparr>mem := m\<rparr>)" using m(2) d(1,2) by (intro kmem_inv_page_only [OF km _ _ other_code(1) [OF b(1)]]) simp_all
  have le: "lockset [] (d\<lparr>mem := m\<rparr>)" "set ys \<subseteq> set (low_run ?kend)" using d(4) fs(2) by auto
  obtain f where f: "kinit2 ?kend (p2v 0x400000) (p2v PHYSTOP) (d\<lparr>mem := m\<rparr>) = Inr f" "kmem_inv ?kend (rev high_run @ ys) f" "lockset [] f"
    "kmem_st.more f = kmem_st.more d" "pages_only (set high_run) m (mem f)"
    using kinit2_high [OF le(1) ke le(2) b(1)] by (auto elim!: returnsE)
  have len: "length high_run = 0xDC00" by (simp add: high_run_def page_run_def)
  then obtain x xs where x: "rev high_run @ ys = x # xs" by (cases "rev high_run @ ys") auto
  have "1026 < length xs" using arg_cong [OF x, of length] len by simp
  moreover have "set (x # xs) = set high_run \<union> set ys" using arg_cong [OF x, of set] by simp
  moreover have "pages_only (insert OTHER_CODE (set high_run)) (mem m1) (mem f)"
    using pages_only_trans [OF page_only_pages [OF m(2)] pages_only_mono [OF f(5)], of "insert OTHER_CODE (set high_run)"] d(1) by auto
  ultimately show ?thesis using that [OF m(1) f(1)] f(2-4) x by simp
qed

lemma kernel_pages_apart:
  assumes "boot_ok env s" "mapped_kernel env s ys m1" "pages_only (insert OTHER_CODE (set high_run \<union> set ys)) (mem m1) m"
  shows "kernel_mapped (k_data (e_syms env)) m (kpgdir m1)"
proof -
  let ?kend = "k_end (e_syms env)"
  have k: "kend_ok ?kend" using assms(1) by (simp add: boot_ok_def)
  have fs: "fresh_space ?kend (k_data (e_syms env)) (rev (low_run ?kend)) ys (kpgdir m1) m1" using assms(2) by (simp add: mapped_kernel_def)
  then have v: "vm_inv ?kend ys (kpgdir m1) m1" "space (mem m1) (kpgdir m1) \<subseteq> set (low_run ?kend)" "set ys \<subseteq> set (low_run ?kend)"
    by (auto simp: fresh_space_def)
  have "space (mem m1) (kpgdir m1) \<inter> set ys = {}" by (rule vm_inv_space(3) [OF v(1)])
  moreover have "OTHER_CODE \<notin> space (mem m1) (kpgdir m1)" using vm_inv_space(4) [OF v(1)] other_code(2) [OF k] by blast
  ultimately have "insert OTHER_CODE (set high_run \<union> set ys) \<inter> space (mem m1) (kpgdir m1) = {}" using v(2) run_pages(3) [OF k] by auto
  moreover have "\<forall>x \<in> insert OTHER_CODE (set high_run \<union> set ys). x mod PGSIZE = 0"
    using other_code(1) [OF k] run_pages(1,2) [OF k] v(3) by (auto simp: page_ok_def)
  ultimately show ?thesis by (intro kernel_mapped_frame [OF fs assms(3)])
qed

lemma first_process_running:
  assumes "first_process k x xs s" "mem t = mem s" "freelist t = freelist s" "initproc t = initproc s" "inodes t = inodes s"
    and "procs t = (procs s)[0 := (procs s ! 0)\<lparr>p_state := RUNNING\<rparr>]"
  shows "first_process k x xs t"
proof -
  have n: "procs s \<noteq> []" using assms(1) by (simp add: first_process_def)
  then have p: "procs t ! 0 = (procs s ! 0)\<lparr>p_state := RUNNING\<rparr>" "tl (procs t) = tl (procs s)" "procs t \<noteq> []"
    using assms(6) by (cases "procs s"; simp)+
  have "starts_code k ((procs s ! 0)\<lparr>p_state := RUNNING\<rparr>) (mem s) = starts_code k (procs s ! 0) (mem s)" by (simp add: starts_code_def)
  then show ?thesis using assms(1-5) p vm_inv_same [OF assms(2,3)] by (simp add: first_process_def Let_def)
qed

text \<open>
  C2: the kernel starts. On a machine with one processor, with the processes and inodes unused, memory enough behind the
  kernel and a disk that becomes ready, \<^verbatim>\<open>main\<close> runs every initialisation without a panic and reaches the scheduler, whose
  first choice is the first process: it has the next pid, its address space is one page with the initial code, its kernel
  stack leads through \<^verbatim>\<open>forkret\<close> and \<^verbatim>\<open>trapret\<close> to the first byte of that code, its directory is the root. The page-table
  register and the task state are those of this process, and the kernel's own page table maps what \<^verbatim>\<open>kmap\<close> lists.
\<close>

theorem kmain_runs_first_process:
  fixes s :: "'a dev_st_scheme"
  assumes "boot_ok env s"
  shows "returns (kmain env s) (\<lambda>(r, t). r = Some 0 \<and> curproc t = Some 0 \<and> p_state (procs t ! 0) = RUNNING \<and> p_pid (procs t ! 0) = nextpid s \<and>
     cr3 t = v2p (p_pgdir (procs t ! 0)) \<and> ts_esp0 t = p_kstack (procs t ! 0) + KSTACKSIZE \<and> (\<exists>x xs. first_process (e_syms env) x xs t) \<and>
     kernel_mapped (k_data (e_syms env)) (mem t) (kpgdir t))"
proof -
  let ?k = "e_syms env"
  have b: "kdata_ok (k_data ?k)" "length (k_initcode ?k) < 4096" "procs s \<noteq> []" "\<forall>p \<in> set (procs s). p_state p = UNUSED" "inodes s \<noteq> []"
    "\<forall>q \<in> set (inodes s). i_ref q = 0" "idewait False (e_ide0 env) \<noteq> None" "kend_ok (k_end ?k)"
    using assms by (simp_all add: boot_ok_def)
  obtain m1 ys where m1: "kbind (kinit1 (k_end ?k) (k_end ?k) (p2v 0x400000) s) (kvmalloc (k_data ?k)) = Inr m1" "mapped_kernel env s ys m1" "mpsearch (mem m1) = 0"
    using boot_memory [OF assms] by (auto elim!: returnsE)
  have f1: "screen_ok m1" "lapic m1 = 0" "\<not> ismp m1" "procs m1 = procs s" "inodes m1 = inodes s" "nextpid m1 = nextpid s"
    using m1(2) by (simp_all add: mapped_kernel_def)
  obtain a1 b1 c1 d where dv: "mpinit (e_imcr env) m1 = Inr a1" "lapicinit (e_lapic env) a1 = Inr a1" "seginit (e_ra env) (e_cpu_addr env) (e_lapic env) a1 = Inr b1"
    "cprintf ([10] @ bytes ''cpu%d: starting xv6'' @ [10, 10]) [AInt (of_nat (cpu_id (cpu b1)))] b1 = Inr c1" "main_devices env c1 = Inr d" "kept m1 d"
    by (rule boot_devices [OF f1(1) m1(3) f1(2,3) b(7)])
  obtain m f x xs where f: "startothers env d = Inr (d\<lparr>mem := m\<rparr>)" "kinit2 (k_end ?k) (p2v 0x400000) (p2v PHYSTOP) (d\<lparr>mem := m\<rparr>) = Inr f"
    "kmem_inv (k_end ?k) (x # xs) f" "1026 < length xs" "lockset [] f" "kmem_st.more f = kmem_st.more d"
    "pages_only (insert OTHER_CODE (set high_run)) (mem m1) (mem f)" "set (x # xs) = set high_run \<union> set ys"
    by (rule boot_free_list [OF assms m1(2) dv(6)])
  have "procs f = procs d" "inodes f = inodes d" "nextpid f = nextpid d" "kpgdir f = kpgdir d" "crt f = crt d" "crt_pos f = crt_pos d" "panicked f = panicked d"
    using f(6) by (cases f; cases d; simp)+
  then have ff: "procs f = procs s" "inodes f = inodes s" "nextpid f = nextpid s" "kpgdir f = kpgdir m1" "crt_ok f" "\<not> panicked f"
    using dv(6) f1(4-6) by (simp_all add: kept_def screen_ok_def crt_ok_def)
  obtain g where g: "userinit ?k f = Inr g" "lockset [] g" "first_process ?k x xs g" "p_state (procs g ! 0) = RUNNABLE" "p_pid (procs g ! 0) = nextpid s"
    "pages_only (insert x (set xs)) (mem f) (mem g)" "kpgdir g = kpgdir m1" "crt_ok g" "\<not> panicked g"
    using userinit_builds [OF f(5,3) b(1,2) f(4)] b(3-6) ff by (auto elim!: returnsE simp: crt_ok_def)
  have gp: "procs g \<noteq> []" "p_pgdir (procs g ! 0) \<noteq> 0" "\<forall>p \<in> set (tl (procs g)). p_state p = UNUSED" using g(3) by (simp_all add: first_process_def Let_def)
  have sg: "screen_ok g" using g(2,8,9) by (simp add: screen_ok_def)
  obtain t where t: "mpmain g = Inr (Some 0, t)" "curproc t = Some 0" "cr3 t = v2p (p_pgdir (procs g ! 0))" "ts_esp0 t = p_kstack (procs g ! 0) + KSTACKSIZE"
    "procs t = (procs g)[0 := (procs g ! 0)\<lparr>p_state := RUNNING\<rparr>]" "mem t = mem g" "freelist t = freelist g" "kpgdir t = kpgdir g" "initproc t = initproc g" "inodes t = inodes g"
    using mpmain_first [OF sg gp(1) g(4) gp(2,3)] by (auto elim!: returnsE)
  have fp: "first_process ?k x xs t" by (rule first_process_running [OF g(3) t(6,7,9,10,5)])
  have p0: "procs t ! 0 = (procs g ! 0)\<lparr>p_state := RUNNING\<rparr>" using t(5) gp(1) by simp
  have "pages_only (insert OTHER_CODE (set high_run \<union> set ys)) (mem m1) (mem t)"
    using pages_only_trans [OF pages_only_mono [OF f(7)] pages_only_mono [OF g(6)], of "insert OTHER_CODE (set high_run \<union> set ys)"] f(8) t(6) by auto
  then have km: "kernel_mapped (k_data ?k) (mem t) (kpgdir t)" using kernel_pages_apart [OF assms m1(2)] g(7) t(8) by simp
  have "kmain env s = Inr (Some 0, t)"
    using m1(1) dv(1-5) f(1,2) g(1) t(1) by (simp add: kmain_def kbind_assoc [symmetric])
  then show ?thesis using t(2-4) fp p0 g(5) km by auto
qed

text \<open>A machine whose memory is all zero.\<close>

lemma mpsearch1_zero:
  assumes "\<And>i. i < n \<Longrightarrow> m (p + 16 * of_nat i) = 0"
  shows "mpsearch1_loop n m p = 0"
  using assms
proof (induction n arbitrary: p)
  case (Suc n)
  have "m p = 0" using Suc.prems [of 0] by simp
  then have "\<not> sig_at m p ''_MP_''"
    using memcmp.simps(2) [of "\<lambda>i. m (p + of_nat i)" "\<lambda>i. bytes ''_MP_'' ! i" 3] by (simp add: sig_at_def bytes_def)
  moreover have "m (p + 16 + 16 * of_nat i) = 0" if "i < n" for i using Suc.prems [of "Suc i"] that by (simp add: algebra_simps)
  then have "mpsearch1_loop n m (p + 16) = 0" by (rule Suc.IH)
  ultimately show ?case by simp
qed simp

lemma zero_no_mp: "no_mp 0x80110000 (\<lambda>_. 0)"
  unfolding no_mp_def
proof (intro allI impI)
  fix m :: mem assume "agree_below 0x80110000 (\<lambda>_. 0) m"
  then have z: "m x = 0" if "unat x < 0x80110000" for x using that by (simp add: agree_below_def word_less_nat_alt)
  have run: "mpsearch1_loop n m p = 0" if "unat p + 16 * n < 0x80110000" for n p
  proof (rule mpsearch1_zero)
    fix i assume i: "i < n"
    have "unat (p + of_nat (16 * i)) = unat p + 16 * i" using i that by (intro step_below) simp
    then show "m (p + 16 * of_nat i) = 0" using i that by (intro z) simp
  qed
  have "mpsearch1 m (- 1024) 1024 = 0" "mpsearch1 m 0xF0000 0x10000 = 0"
    unfolding mpsearch1_def by (rule run, simp add: p2v_def KERNBASE_def)+
  moreover have "m (p2v 0x400 + 0x0F) = 0" "m (p2v 0x400 + 0x0E) = 0" "m (p2v 0x400 + 0x14) = 0" "m (p2v 0x400 + 0x13) = 0"
    by (rule z, simp add: p2v_def KERNBASE_def)+
  ultimately show "mpsearch m = 0" by (simp add: mpsearch_def Let_def)
qed

definition env0 :: boot_env where
  "env0 = \<lparr>e_syms = ksyms0\<lparr>k_initcode := [0x68, 0x24]\<rparr>, e_ra = 0, e_cpu_addr = (\<lambda>_. 0), e_imcr = 0, e_lapic = \<lparr>reg_ver = 0, reg_id = 0, reg_icrlo = []\<rparr>,
     e_lsr = 0, e_ide0 = [0x40], e_ide1 = [], e_other = 0x80108000, e_other_size = 100, e_mpenter = 0, e_entrypgdir = 0, e_up = (\<lambda>_. True)\<rparr>"

definition dev_st0 :: dev_st where
  "dev_st0 = hw_st.extend ((hw0 (\<lambda>_. 0))\<lparr>procs := replicate 64 proc0, inodes := replicate 50 (inode0\<lparr>i_ref := 0\<rparr>)\<rparr>)
     (dev_st.fields (replicate NCPU (replicate NSEGS (SEG 0 0 0 0))) (replicate NCPU False) 0)"

theorem kmain_runs_first_process_witness:
  "returns (kmain env0 dev_st0) (\<lambda>(r, t). r = Some 0 \<and> p_pid (procs t ! 0) = 1 \<and> user_byte (mem t) (p_pgdir (procs t ! 0)) 1 = Some 0x24)"
proof -
  have "boot_ok env0 dev_st0"
    unfolding boot_ok_def using zero_no_mp
    by (simp add: env0_def dev_st0_def hw_st.defs dev_st.defs hw0_def sys_st.defs st7_def screen_ok_def crt_ok_def lockset_def ksyms0_def
      kend_ok_def kdata_ok_def PGSIZE_def KERNLINK_def p2v_def KERNBASE_def EXTMEM_def PHYSTOP_def proc0_def inode0_def)
  moreover have "nextpid dev_st0 = 1" by (simp add: dev_st0_def hw_st.defs dev_st.defs hw0_def sys_st.defs st7_def)
  moreover have "code_byte (k_initcode (e_syms env0)) 1 = 0x24" by (simp add: env0_def code_byte_def)
  ultimately show ?thesis using kmain_runs_first_process [of env0 dev_st0]
    by (auto elim!: returns_mono simp: first_process_def starts_code_def Let_def PGSIZE_def)
qed

end
