(* ===== verification/Interrupts.thy ===== *)
theory Interrupts
  imports Kmain_Lemmas
begin

text \<open>
  Which interrupts the kernel lets through once \<^verbatim>\<open>main\<close> has set up the devices: those of the keyboard, the disk, the
  serial port if there is one, and of the timer chip on a machine with one processor, and no others. The old controllers
  have that mask in their registers. The redirection table of the new controller has each of these with its own vector
  and for the processor the code names, and every other one disabled.
\<close>

section \<open>What each step leaves of the masks\<close>

definition latest :: "u16 \<Rightarrow> 'a hw_st_scheme \<Rightarrow> u8 option" where
  "latest p s = map_of (rev (outs s)) p"

text \<open>The masks in the registers of the two old controllers are the two bytes of the kernel's mask.\<close>

definition pic_set :: "'a hw_st_scheme \<Rightarrow> bool" where
  "pic_set s \<longleftrightarrow> latest 0x21 s = Some (ucast (irqmask s)) \<and> latest 0xA1 s = Some (ucast (drop_bit 8 (irqmask s)))"

definition lines :: "'a hw_st_scheme \<Rightarrow> u16 \<times> (u32 \<Rightarrow> u32) \<times> bool \<times> nat" where
  "lines s = (irqmask s, ioregs s, ismp s, ncpu s)"

lemma linesD: "lines t = lines s \<Longrightarrow> irqmask t = irqmask s \<and> ioregs t = ioregs s \<and> ismp t = ismp s \<and> ncpu t = ncpu s"
  by (simp add: lines_def)

lemma latest_outb: "latest p (outb q v s) = (if p = q then Some (ucast v) else latest p s)"
  by (simp add: latest_def outb_def)

lemma outb_lines [simp]: "lines (outb q v s) = lines s" "irqmask (outb q v s) = irqmask s" "ismp (outb q v s) = ismp s"
  by (simp_all add: lines_def outb_def)

lemma outb_pic_set: "q \<noteq> 0x21 \<Longrightarrow> q \<noteq> 0xA1 \<Longrightarrow> pic_set (outb q v s) = pic_set s"
  by (auto simp: pic_set_def latest_outb)

lemma low_byte: "(ucast (ucast w :: u32) :: u8) = ucast (w :: u16)"
  by (rule bit_word_eqI) (simp add: bit_simps)

lemma picsetmask_sets: "pic_set (picsetmask m s)" "lines (picsetmask m s) = (m, ioregs s, ismp s, ncpu s)"
  by (simp_all add: pic_set_def picsetmask_def latest_outb IO_PIC1_def IO_PIC2_def low_byte) (simp_all add: lines_def outb_def)

lemma picenable_sets: "pic_set (picenable i s)"
    "lines (picenable i s) = (irqmask s AND NOT (push_bit (unat i) 1), ioregs s, ismp s, ncpu s)"
  by (simp_all add: picenable_def picsetmask_sets)

lemma picinit_lines: "lines (picinit s) = lines s"
  by (simp add: picinit_def Let_def picsetmask_sets) (simp add: lines_def outb_def)

lemma ioapicenable_sets: "pic_set (ioapicenable i c s) = pic_set s"
    "lines (ioapicenable i c s) =
      (irqmask s, if ismp s then (ioregs s)(REG_TABLE + 2 * i := T_IRQ0 + i, REG_TABLE + 2 * i + 1 := push_bit 24 c) else ioregs s, ismp s, ncpu s)"
  by (simp_all add: ioapicenable_def ioapicwrite_def pic_set_def latest_def lines_def)

lemma initlock_same [simp]:
  fixes s :: "'a hw_st_scheme"
  shows "pic_set (initlock lk s) = pic_set s" "lines (initlock lk s) = lines s"
  by (simp_all add: initlock_def pic_set_def latest_def lines_def)

lemma uartinit_same: "pic_set (uartinit l s) = pic_set s \<and> lines (uartinit l s) = lines s" for s :: "'a hw_st_scheme"
proof -
  obtain z where "fold (\<lambda>c. uartputc (ucast c)) (bytes ''xv6...'' @ [10]) (s\<lparr>uart := True\<rparr>) = s\<lparr>uart := True, uart_out := z\<rparr>"
    using uartputc_out by blast
  then show ?thesis by (simp add: uartinit_def pic_set_def latest_def lines_def)
qed

lemma init_same [simp]:
  fixes s :: "'a hw_st_scheme"
  shows "pic_set (consoleinit s) = pic_set s" "lines (consoleinit s) = lines s" "pic_set (uartinit l s) = pic_set s" "lines (uartinit l s) = lines s"
    "pic_set (pinit s) = pic_set s" "lines (pinit s) = lines s" "pic_set (tvinit s) = pic_set s" "lines (tvinit s) = lines s"
    "pic_set (binit s) = pic_set s" "lines (binit s) = lines s" "pic_set (fileinit s) = pic_set s" "lines (fileinit s) = lines s"
    "pic_set (iinit s) = pic_set s" "lines (iinit s) = lines s" "pic_set (ideinit st s) = pic_set s" "lines (ideinit st s) = lines s"
  by (simp_all add: uartinit_same pinit_def tvinit_def fileinit_def iinit_def)
    (simp_all add: consoleinit_def initlock_def binit_def upd_buf_def ideinit_def pic_set_def latest_def lines_def Let_def)

section \<open>The redirection table\<close>

text \<open>The two registers of an entry.\<close>

definition reg_lo :: "nat \<Rightarrow> u32" where "reg_lo i = REG_TABLE + 2 * of_nat i"
definition reg_hi :: "nat \<Rightarrow> u32" where "reg_hi i = REG_TABLE + 2 * of_nat i + 1"

lemma reg_val: "i \<le> 256 \<Longrightarrow> unat (reg_lo i) = 16 + 2 * i" "i \<le> 256 \<Longrightarrow> unat (reg_hi i) = 17 + 2 * i"
  by (simp_all add: reg_lo_def reg_hi_def REG_TABLE_def unat_word_ariths unat_of_nat)

lemma regs_apart:
  assumes "i \<le> 256" "j \<le> 256"
  shows "reg_lo i = reg_lo j \<longleftrightarrow> i = j" "reg_hi i = reg_hi j \<longleftrightarrow> i = j" "reg_lo i \<noteq> reg_hi j" "reg_hi j \<noteq> reg_lo i"
proof -
  note v = reg_val [OF assms(1)] reg_val [OF assms(2)]
  have e: "x = y \<longleftrightarrow> unat x = unat y" for x y :: u32 by (rule word_unat_eq_iff)
  show "reg_lo i = reg_lo j \<longleftrightarrow> i = j" "reg_hi i = reg_hi j \<longleftrightarrow> i = j" unfolding e v by simp_all
  show "reg_lo i \<noteq> reg_hi j" "reg_hi j \<noteq> reg_lo i" unfolding e v by presburger+
qed

lemma ioapic_mask_append: "ioapic_mask (xs @ ys) s = ioapic_mask ys (ioapic_mask xs s)"
  by (induction xs arbitrary: s) (simp_all add: Let_def)

text \<open>An entry of the table: enabled for a processor, or disabled.\<close>

definition routed :: "'a hw_st_scheme \<Rightarrow> nat \<Rightarrow> u32 option \<Rightarrow> bool" where
  "routed s i c \<longleftrightarrow>
     (case c of None \<Rightarrow> ioregs s (reg_lo i) = INT_DISABLED OR (T_IRQ0 + of_nat i) \<and> ioregs s (reg_hi i) = 0
      | Some n \<Rightarrow> ioregs s (reg_lo i) = T_IRQ0 + of_nat i \<and> ioregs s (reg_hi i) = push_bit 24 n)"

lemma routed_lines: "lines t = lines s \<Longrightarrow> routed t i c = routed s i c"
  by (auto simp: routed_def dest!: linesD split: option.split)

lemma ioapic_mask_table:
  assumes "n \<le> 256"
  shows "irqmask (ioapic_mask [0..<n] s) = irqmask s \<and> ismp (ioapic_mask [0..<n] s) = ismp s \<and> ncpu (ioapic_mask [0..<n] s) = ncpu s \<and>
    (\<forall>i<n. routed (ioapic_mask [0..<n] s) i None)"
  using assms
proof (induction n)
  case (Suc n)
  have "ioapic_mask [0..<Suc n] s = ioapicwrite (reg_hi n) 0 (ioapicwrite (reg_lo n) (INT_DISABLED OR (T_IRQ0 + of_nat n)) (ioapic_mask [0..<n] s))"
    by (simp add: ioapic_mask_append Let_def reg_lo_def reg_hi_def)
  moreover have "i \<le> 256" if "i < Suc n" for i using that Suc.prems by simp
  ultimately show ?case using Suc by (auto simp: ioapicwrite_def regs_apart less_Suc_eq routed_def)
qed simp

definition maxintr :: "'a hw_st_scheme \<Rightarrow> nat" where
  "maxintr s = unat (drop_bit 16 (ioregs s REG_VER) AND 0xFF)"

lemma maxintr_le: "maxintr s \<le> 255"
proof -
  have "drop_bit 16 (ioregs s REG_VER) AND 0xFF \<le> 0xFF" by (rule word_and_le1)
  then show ?thesis by (simp add: maxintr_def word_le_nat_alt)
qed

lemma prints_lines: "prints L s t \<Longrightarrow> lines t = lines s" for s t :: "'a hw_st_scheme"
  by (cases s; cases t; simp add: prints_def screen_rest_def lines_def)

lemma ioapicinit_masks:
  fixes s :: "'a hw_st_scheme"
  assumes "screen_ok s"
  shows "returns (ioapicinit s) (\<lambda>t. irqmask t = irqmask s \<and> ismp t = ismp s \<and> ncpu t = ncpu s \<and> (ismp s \<longrightarrow> (\<forall>i\<le>maxintr s. routed t i None)))"
proof (cases "ismp s")
  case True
  let ?fmt = "bytes ''ioapicinit: id isn't equal to ioapicid; not a MP'' @ [10]"
  let ?m = "if drop_bit 24 (ioapicread REG_ID s) \<noteq> ucast (ioapicid s) then cprintf ?fmt [] s else Inr s"
  have "cprintf_chars ?fmt [] \<noteq> None" by (simp add: bytes_def)
  then have "returns (cprintf ?fmt [] s) (prints [] s)" using assms by (intro cprintf_ok) (simp_all add: screen_ok_def)
  then have "returns ?m (\<lambda>t. lines t = lines s)" by (auto elim!: returns_mono dest: prints_lines)
  then obtain t where t: "?m = Inr t" "lines t = lines s" by (auto elim!: returnsE)
  have "ioapicinit s = Inr (ioapic_mask [0..<maxintr s + 1] t)"
    using True t(1) unfolding ioapicinit_def Let_def by (simp add: maxintr_def ioapicread_def)
  then show ?thesis using ioapic_mask_table [of "maxintr s + 1" t] maxintr_le [of s] linesD [OF t(2)] by (simp add: less_Suc_eq_le)
qed (simp add: ioapicinit_def)

section \<open>The interrupts that are let through\<close>

text \<open>The interrupts in \<open>F\<close>, each with the processor it goes to, are enabled, and the line of the second controller.\<close>

definition serving :: "'a hw_st_scheme \<Rightarrow> (nat \<rightharpoonup> u32) \<Rightarrow> 'a hw_st_scheme \<Rightarrow> bool" where
  "serving s F t \<longleftrightarrow> ismp t = ismp s \<and> ncpu t = ncpu s \<and> (\<forall>i<16. bit (irqmask t) i \<longleftrightarrow> i \<notin> dom F \<union> {IRQ_SLAVE}) \<and>
     (ismp s \<longrightarrow> (\<forall>i\<le>maxintr s. routed t i (F i)))"

lemma serving_lines: "serving s F t \<Longrightarrow> lines u = lines t \<Longrightarrow> serving s F u"
  using routed_lines [of u t] linesD [of u t] by (simp add: serving_def)

lemma picenable_lets: "i < 16 \<Longrightarrow> k < 16 \<Longrightarrow> bit (irqmask (picenable (of_nat k) s)) i \<longleftrightarrow> i \<noteq> k \<and> bit (irqmask s) i"
proof -
  assume "i < 16" "k < 16"
  moreover have "irqmask (picenable (of_nat k) s) = irqmask s AND NOT (push_bit (unat (of_nat k :: u32)) 1)"
    using picenable_sets(2) [of "of_nat k" s] by (simp add: lines_def)
  moreover have "unat (of_nat k :: u32) = k" using \<open>k < 16\<close> by (simp add: unat_of_nat)
  ultimately show ?thesis by (auto simp: bit_simps)
qed

lemma enable_serving:
  assumes "serving s F t" "k < 16"
  shows "serving s (F(k \<mapsto> c)) (ioapicenable (of_nat k) c (picenable (of_nat k) t))"
proof -
  let ?p = "picenable (of_nat k) t"
  let ?u = "ioapicenable (of_nat k) c ?p"
  have p: "ioregs ?p = ioregs t" "ismp ?p = ismp s" "ncpu ?p = ncpu s" using picenable_sets(2) [of "of_nat k" t] assms(1) by (simp_all add: lines_def serving_def)
  have u: "irqmask ?u = irqmask ?p" "ismp ?u = ismp s" "ncpu ?u = ncpu s"
    "ismp s \<Longrightarrow> ioregs ?u = (ioregs t)(reg_lo k := T_IRQ0 + of_nat k, reg_hi k := push_bit 24 c)"
    using ioapicenable_sets(2) [of "of_nat k" c ?p] p by (simp_all add: lines_def reg_lo_def reg_hi_def)
  have "routed ?u i ((F(k \<mapsto> c)) i)" if "ismp s" "i \<le> maxintr s" for i
  proof -
    have "i \<le> 256" "k \<le> 256" using that(2) maxintr_le [of s] assms(2) by simp_all
    moreover have "routed t i (F i)" using assms(1) that by (simp add: serving_def)
    ultimately show ?thesis using u(4) [OF that(1)] by (cases "i = k"; cases "F i") (simp_all add: routed_def regs_apart)
  qed
  moreover have "bit (irqmask ?u) i \<longleftrightarrow> i \<notin> dom (F(k \<mapsto> c)) \<union> {IRQ_SLAVE}" if "i < 16" for i
  proof -
    have "bit (irqmask t) i \<longleftrightarrow> i \<notin> dom F \<union> {IRQ_SLAVE}" using assms(1) that by (simp add: serving_def)
    then show ?thesis unfolding u(1) picenable_lets [OF that assms(2)] by auto
  qed
  ultimately show ?thesis unfolding serving_def using u(2,3) by blast
qed

lemma enable_pic_set: "pic_set (ioapicenable i c (picenable i s))"
  by (simp add: ioapicenable_sets(1) picenable_sets(1))

definition routes :: "boot_env \<Rightarrow> 'a hw_st_scheme \<Rightarrow> nat \<rightharpoonup> u32" where
  "routes env s = (if e_lsr env = 0xFF then [1 \<mapsto> 0] else [1 \<mapsto> 0, 4 \<mapsto> 0])(14 \<mapsto> of_nat (ncpu s) - 1)"

lemma irq_numbers: "IRQ_TIMER = of_nat 0" "IRQ_KBD = of_nat 1" "IRQ_COM1 = of_nat 4" "IRQ_IDE = of_nat 14"
  by (simp_all add: IRQ_TIMER_def IRQ_KBD_def IRQ_COM1_def IRQ_IDE_def)

lemma uart_setup_same: "lines (uart_setup s) = lines s"
  by (simp add: uart_setup_def Let_def)

lemma uartinit_irq_serving:
  assumes "serving s F t"
  shows "serving s (if l = 0xFF then F else F(4 \<mapsto> 0)) (uartinit_irq l t)"
proof -
  have u: "serving s F (uart_setup t)" by (rule serving_lines [OF assms uart_setup_same])
  let ?e = "ioapicenable IRQ_COM1 0 (picenable IRQ_COM1 (uart_setup t))"
  have "serving s (F(4 \<mapsto> 0)) (uartinit l ?e)"
    using serving_lines [OF enable_serving [OF u, of 4 0] init_same(4)] by (simp add: irq_numbers)
  then show ?thesis using u by (simp add: uartinit_irq_def Let_def)
qed

text \<open>After \<^verbatim>\<open>ioapicinit\<close>: the keyboard, the serial port, the disk and, on a machine with one processor, the timer.\<close>

definition timer_line :: "bool \<Rightarrow> nat set" where
  "timer_line b = (if b then {} else {0})"

lemma disk_serving:
  assumes "serving s F t" "ideinit_irq st0 st1 t = Inr u"
  shows "serving s (F(14 \<mapsto> of_nat (ncpu s) - 1)) u \<and> pic_set u"
proof -
  let ?e = "ioapicenable IRQ_IDE (of_nat (ncpu s) - 1) (picenable IRQ_IDE t)"
  have n: "ncpu t = ncpu s" using assms(1) by (simp add: serving_def)
  have u: "u = outb 0x1F6 0xE0 (ideinit st1 (outb 0x1F6 (0xE0 OR push_bit 4 1) ?e))"
    using assms(2) n by (simp add: ideinit_irq_def Let_def split: option.splits)
  have "lines u = lines ?e" "pic_set u = pic_set ?e" unfolding u by (simp_all add: outb_pic_set)
  then show ?thesis using serving_lines [OF enable_serving [OF assms(1), of 14 "of_nat (ncpu s) - 1"]] enable_pic_set [of IRQ_IDE _ t] by (simp add: irq_numbers)
qed

lemma timerinit_lets: "pic_set (timerinit s)" "i < 16 \<Longrightarrow> bit (irqmask (timerinit s)) i \<longleftrightarrow> i \<noteq> 0 \<and> bit (irqmask s) i"
proof -
  obtain t where t: "timerinit s = picenable (of_nat 0) t" "irqmask t = irqmask s" by (simp add: timerinit_def Let_def irq_numbers)
  show "pic_set (timerinit s)" unfolding t(1) by (rule picenable_sets(1))
  show "bit (irqmask (timerinit s)) i \<longleftrightarrow> i \<noteq> 0 \<and> bit (irqmask s) i" if "i < 16"
    using picenable_lets [OF that, of 0 t] unfolding t by simp
qed

lemma outb_screen [simp]: "screen_ok (outb p v s) = screen_ok s"
  by (simp add: outb_def screen_ok_def crt_ok_def lockset_def)

lemma picinit_screen: "screen_ok s \<Longrightarrow> screen_ok (picinit s)"
proof -
  have "screen_ok (picsetmask m t) = screen_ok t" for m and t :: "'a hw_st_scheme"
    by (simp add: picsetmask_def) (simp add: screen_ok_def crt_ok_def lockset_def)
  then show "screen_ok s \<Longrightarrow> screen_ok (picinit s)" by (simp add: picinit_def Let_def)
qed

lemma first_mask: "i < 16 \<Longrightarrow> bit (0xFFFF AND NOT (push_bit k 1) :: u16) i \<longleftrightarrow> i \<noteq> k"
proof -
  assume i: "i < 16"
  have f: "(0xFFFF :: u16) = - 1" by simp
  show ?thesis unfolding f using i by (auto simp: bit_simps)
qed

lemma before_disk_serving:
  fixes t :: "'a dev_st_scheme"
  assumes "serving s Map.empty t"
  shows "serving s (if l = 0xFF then [1 \<mapsto> 0] else [1 \<mapsto> 0, 4 \<mapsto> 0])
    (iinit (fileinit (binit (tvinit (pinit (uartinit_irq l (consoleinit_irq t)))))))"
proof -
  have "serving s Map.empty (consoleinit t)" by (rule serving_lines [OF assms(1) init_same(2)])
  then have "serving s [1 \<mapsto> 0] (consoleinit_irq t)" using enable_serving [of s Map.empty "consoleinit t" 1 0] by (simp add: consoleinit_irq_def irq_numbers)
  then have "serving s (if l = 0xFF then [1 \<mapsto> 0] else [1 \<mapsto> 0, 4 \<mapsto> 0]) (uartinit_irq l (consoleinit_irq t))"
    by (rule uartinit_irq_serving)
  then show ?thesis by (rule serving_lines) simp
qed



end
