(* ===== verification/Spec2Isabelle.thy ===== *)
theory Spec2Isabelle
  imports Sys_Lemmas Log_Crash Fs_Lemmas Grep Pipe_Lemmas Console_Lemmas Sh_Run Umalloc Vm_Grow Boot Interrupts
begin

text \<open>
  Verification of the xv6 teaching kernel (\<^verbatim>\<open>src/xv6-lab1\<close>) with its boot loader, its shell, \<^verbatim>\<open>grep\<close> and its
  user library, in the version with exit statuses, \<^verbatim>\<open>waitpid\<close> and a scheduler by priority.

  \<^bold>\<open>The program.\<close> The boot loader (\<^verbatim>\<open>bootmain.c\<close>) reads the kernel from disk. \<^verbatim>\<open>main.c\<close> sets up memory
  (\<^verbatim>\<open>kalloc.c\<close>, \<^verbatim>\<open>vm.c\<close>), finds the processors (\<^verbatim>\<open>mp.c\<close>), programs the interrupt controllers, builds the first
  process and enters the scheduler (\<^verbatim>\<open>proc.c\<close>). From then on the kernel runs when a process traps (\<^verbatim>\<open>trap.c\<close>): a system
  call is decoded (\<^verbatim>\<open>syscall.c\<close>) and served by the process table, by files, pipes and the console (\<^verbatim>\<open>sysproc.c\<close>,
  \<^verbatim>\<open>sysfile.c\<close>, \<^verbatim>\<open>file.c\<close>, \<^verbatim>\<open>pipe.c\<close>, \<^verbatim>\<open>console.c\<close>) and by the file system, in layers: inodes, directories and paths
  (\<^verbatim>\<open>fs.c\<close>), the log (\<^verbatim>\<open>log.c\<close>), the buffer cache (\<^verbatim>\<open>bio.c\<close>), the disk (\<^verbatim>\<open>ide.c\<close>, \<^verbatim>\<open>memide.c\<close>). Spinlocks
  (\<^verbatim>\<open>spinlock.c\<close>) protect the shared data.

  \<^bold>\<open>The state and the results.\<close> A kernel routine is a function from a state to \<open>('s, 'a) kres\<close>: \<open>Inr\<close> with the result and the
  new state, or \<open>Inl\<close> with the way it does not return: \<open>Panic\<close>, \<open>Spin\<close> (a lock that is never freed), \<open>Switch\<close> (the
  context switch, with the state at that time), \<open>Fault\<close> (an access the code does not mean to make), \<open>Diverge\<close> (a loop
  without end). \<open>returns m Q\<close> is total correctness. The state is one record that grows with the components, so that every
  routine runs on the states of the layers above it: \<open>mach\<close> (locks, CPU), \<open>kmem_st\<close> (the byte store and the free list),
  \<open>vm_st\<close>, \<open>proc_st\<close> (process table), \<open>disk_st\<close> (buffers and disks), \<open>log_st\<close>, \<open>ino_st\<close>, \<open>cons_st\<close>, \<open>file_st\<close>, \<open>sys_st\<close>,
  \<open>hw_st\<close> (processors and controllers), \<open>dev_st\<close> (descriptors). Page tables, the free list, kernel stacks and user memory lie
  in the byte store, as in the code. C integers are words of their width where they can wrap around.

  \<^bold>\<open>Theories and code.\<close>
  \<^item> \<open>Kernel_Base\<close>: the prelude, with the result type, \<open>returns\<close>, little-endian codecs and the interface \<open>step_system\<close>.
  \<^item> \<open>Spinlock\<close> (\<^verbatim>\<open>spinlock.c\<close>): \<open>acquire\<close>, \<open>release\<close>, \<open>pushcli\<close>, \<open>popcli\<close>; and \<open>smp_step\<close>, the two routines as
    atomic accesses of several CPUs. Shown: mutual exclusion for every interleaving, nesting restores the interrupt flag.
  \<^item> \<open>Cstring\<close> (\<^verbatim>\<open>string.c\<close>, \<^verbatim>\<open>ulib.c\<close>), \<open>Printf\<close> (\<^verbatim>\<open>printf.c\<close>, \<^verbatim>\<open>cprintf\<close>), \<open>Kbd\<close> (\<^verbatim>\<open>kbd.c\<close>): overlapping copies,
    printing and reading back numbers, scan codes.
  \<^item> \<open>Mmu\<close> (\<^verbatim>\<open>mmu.h\<close>, \<^verbatim>\<open>memlayout.h\<close>), \<open>Kalloc\<close> (\<^verbatim>\<open>kalloc.c\<close>): the allocator implements the interface
    \<open>page_allocator\<close>, a stack of distinct pages.
  \<^item> \<open>Vm\<close> (\<^verbatim>\<open>vm.c\<close>), with \<open>Vm_Lemmas\<close> (page tables as a map: \<^verbatim>\<open>mappages\<close>, \<^verbatim>\<open>copyout\<close>), \<open>Vm_Space\<close> (the pages a space
    owns, \<^verbatim>\<open>freevm\<close>), \<open>Vm_Fork\<close> (\<^verbatim>\<open>setupkvm\<close>), \<open>Vm_Copy\<close> (\<^verbatim>\<open>copyuvm\<close>), \<open>Vm_Grow\<close> (\<^verbatim>\<open>allocuvm\<close>): what user memory
    holds after each, and that no page is lost or shared.
  \<^item> \<open>Ptable\<close> and \<open>Proc\<close> (\<^verbatim>\<open>proc.c\<close>, \<^verbatim>\<open>exec.c\<close>), \<open>Ptable_Lemmas\<close>: the choice of the scheduler, no lost wakeup, when the
    loop of \<^verbatim>\<open>exit\<close> over \<^verbatim>\<open>waitpid\<close> callers ends.
  \<^item> \<open>Ide\<close> (\<^verbatim>\<open>ide.c\<close>, \<^verbatim>\<open>memide.c\<close>), \<open>Bio\<close> (\<^verbatim>\<open>bio.c\<close>) with \<open>Bio_Lemmas\<close>: the cache refines the map \<open>cache_view\<close>.
    \<open>Log\<close> (\<^verbatim>\<open>log.c\<close>) with \<open>Log_Lemmas\<close> and \<open>Log_Crash\<close>: a transaction is atomic under a crash at any disk write, with the
    recovery the kernel does at its next start.
  \<^item> \<open>Inode\<close> and \<open>Fs\<close> (\<^verbatim>\<open>fs.c\<close>) with \<open>Fs_Lemmas\<close>: the encodings on disk, elements of paths, directory entries.
  \<^item> \<open>Console\<close> (\<^verbatim>\<open>console.c\<close>, \<^verbatim>\<open>uart.c\<close>) with \<open>Console_Lemmas\<close>; \<open>File\<close> (\<^verbatim>\<open>file.c\<close>, \<^verbatim>\<open>pipe.c\<close>) with
    \<open>Pipe_Lemmas\<close>: typed lines are read back, the interrupt handler returns, a pipe is a queue of bytes, by the ring
    buffers of \<open>Ring\<close> and its interface \<open>bounded_fifo\<close>.
  \<^item> \<open>Syscall\<close> (\<^verbatim>\<open>syscall.c\<close>, \<^verbatim>\<open>sysproc.c\<close>), \<open>Sysfile\<close> (\<^verbatim>\<open>sysfile.c\<close>), \<open>Trap\<close> (\<^verbatim>\<open>trap.c\<close>) with \<open>Sys_Lemmas\<close>: what
    the checks of pointers guarantee, killed processes do not return to user mode.
  \<^item> \<open>Boot\<close> (\<^verbatim>\<open>bootmain.c\<close>): every segment of the kernel is loaded in place. \<open>Mp\<close> (\<^verbatim>\<open>mp.c\<close>): the processors in the
    firmware's table. \<open>Devices\<close> (\<^verbatim>\<open>picirq.c\<close>, \<^verbatim>\<open>ioapic.c\<close>, \<^verbatim>\<open>lapic.c\<close>, \<^verbatim>\<open>timer.c\<close>, \<^verbatim>\<open>seginit\<close>) and \<open>Kmain\<close> (\<^verbatim>\<open>main.c\<close>)
    with \<open>Interrupts\<close> (which interrupts are let through), \<open>First_Process\<close> (\<^verbatim>\<open>userinit\<close>) and \<open>Kmain_Lemmas\<close>: on one
    processor \<^verbatim>\<open>main\<close> reaches the scheduler, and the scheduler runs the first process.
  \<^item> \<open>Sh\<close> (\<^verbatim>\<open>sh.c\<close>) with \<open>Sh_Lemmas\<close>, \<open>Sh_Roundtrip\<close> and \<open>Sh_Run\<close>: the parser ends, inverts printing, and \<^verbatim>\<open>runcmd\<close>
    starts the programs the command means. \<open>Grep\<close> (\<^verbatim>\<open>grep.c\<close>): the matcher against the language of its patterns.
    \<open>Umalloc\<close> (\<^verbatim>\<open>umalloc.c\<close>): blocks of the user heap are never shared.

  \<^bold>\<open>Bounds.\<close> Loops over pages carry \<open>2 ^ 20 + 1\<close> rounds of fuel, more than the address space has pages; scans of the
  buffer list have fuel for every buffer and the head; the parser of the shell has fuel that grows with the line. Running
  out is \<open>Diverge\<close>, and the theorems that a routine returns exclude it. Waits on a device take the list of its readings, and
  a device that is never ready makes them diverge.

  \<^bold>\<open>Arguments.\<close> What is not C code is an argument: the addresses the linker chooses and the code of the first process
  (\<open>ksyms\<close>, \<open>boot_env\<close>), readings of ports and registers, the addresses of the trap vectors, what an uninitialised variable
  holds, whether another processor comes up, whether the kernel grants \<^verbatim>\<open>sbrk\<close> to the user heap.

  \<^bold>\<open>Not modelled.\<close> The assembly files; a context switch ends a routine, and what the process does when it runs again is a
  definition of its own (\<open>sleep_resume\<close> and its likes). Kernel routines run one at a time: other CPUs are considered for the
  spinlock only. Names and call stacks of locks, the effect of loading descriptor registers, and delays. \<^verbatim>\<open>mkfs.c\<close>, which
  runs on the host; the small user programs and the tests, which are sequences of system calls; \<^verbatim>\<open>stat\<close> of \<^verbatim>\<open>ulib.c\<close>; the
  message \<^verbatim>\<open>allocuvm\<close> prints when memory is short. The theorem about the start of the kernel is for a machine without
  multiprocessor tables, and the one about crashes for the memory disk.
\<close>

end
